(* ===== verification/Prelude.thy ===== *)
theory Prelude
  imports Complex_Main "HOL-Library.Char_ord" "HOL-Library.List_Lexorder"
begin

text \<open>
  The shared layer of the development: Python's insertion-ordered dictionaries as association
  lists under an explicit key equality (the interface \<open>key_class\<close>: Python asks of a key class that
  its \<open>==\<close> be an equivalence), the string helpers of the standard library the modelled code uses,
  and generic list lemmas. The collection \<open>py_simps\<close> gathers the evaluation rules the component
  theories share.
\<close>

named_theorems py_simps

section \<open>Lists\<close>

lemma sum_list_map_rev [simp]: "sum_list (map f (rev xs)) = (sum_list (map f xs) :: nat)"
  by (simp add: rev_map [symmetric])

lemma map_eq_iff_zip: "length xs = length ys \<Longrightarrow>
    (map f xs = map g ys) \<longleftrightarrow> (\<forall>(x, y) \<in> set (zip xs ys). f x = g y)"
  by (induction xs ys rule: list_induct2) auto

lemma concat_map_singleton [simp]: "concat (map (\<lambda>x. [f x]) xs) = map f xs"
  by (induction xs) auto

section \<open>Python dictionaries\<close>

text \<open>
  A \<open>dict\<close> iterates in insertion order, keeps the key object it was first given when an equal key
  is written again, and compares keys with the key class's own equality, which is the first
  argument of each operation.
\<close>

type_synonym ('k, 'v) dict = "('k \<times> 'v) list"

fun dict_get :: "('k \<Rightarrow> 'k \<Rightarrow> bool) \<Rightarrow> 'k \<Rightarrow> ('k, 'v) dict \<Rightarrow> 'v option" where
  "dict_get eq k [] = None"
| "dict_get eq k ((j, v) # d) = (if eq j k then Some v else dict_get eq k d)"

fun dict_set :: "('k \<Rightarrow> 'k \<Rightarrow> bool) \<Rightarrow> 'k \<Rightarrow> 'v \<Rightarrow> ('k, 'v) dict \<Rightarrow> ('k, 'v) dict" where
  "dict_set eq k v [] = [(k, v)]"
| "dict_set eq k v ((j, w) # d) = (if eq j k then (j, v) # d else (j, w) # dict_set eq k v d)"

fun dict_del :: "('k \<Rightarrow> 'k \<Rightarrow> bool) \<Rightarrow> 'k \<Rightarrow> ('k, 'v) dict \<Rightarrow> ('k, 'v) dict" where
  "dict_del eq k [] = []"
| "dict_del eq k ((j, w) # d) = (if eq j k then d else (j, w) # dict_del eq k d)"

definition dict_setdefault :: "('k \<Rightarrow> 'k \<Rightarrow> bool) \<Rightarrow> 'k \<Rightarrow> 'v \<Rightarrow> ('k, 'v) dict \<Rightarrow> ('k, 'v) dict" where
  "dict_setdefault eq k v d = (case dict_get eq k d of None \<Rightarrow> dict_set eq k v d | Some _ \<Rightarrow> d)"

text \<open>A dictionary holds no two equal keys.\<close>

fun dict_ok :: "('k \<Rightarrow> 'k \<Rightarrow> bool) \<Rightarrow> ('k, 'v) dict \<Rightarrow> bool" where
  "dict_ok eq [] = True"
| "dict_ok eq ((k, v) # d) = (dict_get eq k d = None \<and> dict_ok eq d)"

lemma dict_get_None: "dict_get eq k d = None \<longleftrightarrow> (\<forall>(j, v) \<in> set d. \<not> eq j k)"
  by (induction eq k d rule: dict_get.induct) auto

lemma dict_get_SomeD: "dict_get eq k d = Some v \<Longrightarrow> \<exists>j. (j, v) \<in> set d \<and> eq j k"
  by (induction eq k d rule: dict_get.induct) (auto split: if_splits)

lemma dict_set_fresh: "dict_get eq k d = None \<Longrightarrow> dict_set eq k v d = d @ [(k, v)]"
  by (induction d) (auto split: if_splits)

lemma length_dict_set:
  "length (dict_set eq k v d) = length d + (if dict_get eq k d = None then 1 else 0)"
  by (induction eq k v d rule: dict_set.induct) auto

lemma length_dict_del:
  "length (dict_del eq k d) = length d - (if dict_get eq k d = None then 0 else 1)"
proof (induction eq k d rule: dict_del.induct)
  case (2 eq k j w d)
  then show ?case by (cases d) auto
qed auto

locale key_class =
  fixes eq :: "'k \<Rightarrow> 'k \<Rightarrow> bool"
  assumes eq_refl [simp]: "eq x x"
    and eq_sym: "eq x y \<Longrightarrow> eq y x"
    and eq_trans: "eq x y \<Longrightarrow> eq y z \<Longrightarrow> eq x z"
begin

lemma eq_cong: "eq x y \<Longrightarrow> eq x z = eq y z"
  using eq_sym eq_trans by blast

lemma eq_cong_right: "eq x y \<Longrightarrow> eq z x = eq z y"
  using eq_sym eq_trans by blast

lemma dict_get_cong: "eq x y \<Longrightarrow> dict_get eq x d = dict_get eq y d"
  by (induction d) (auto simp: eq_cong_right)

lemma dict_get_set [simp]:
  "dict_get eq k (dict_set eq j v d) = (if eq j k then Some v else dict_get eq k d)"
  by (induction d) (auto dest: eq_cong eq_cong_right)

lemma dict_get_del [simp]:
  "dict_ok eq d \<Longrightarrow> dict_get eq k (dict_del eq j d) = (if eq j k then None else dict_get eq k d)"
proof (induction d)
  case (Cons p d)
  obtain a w where p: "p = (a, w)" by force
  show ?case
  proof (cases "eq a j")
    case True
    with Cons.prems p have "dict_get eq j d = None" by (simp add: dict_get_cong)
    with True p show ?thesis by (auto simp: eq_cong dict_get_cong [of j k])
  next
    case False
    with Cons p show ?thesis by (auto dest: eq_cong_right)
  qed
qed auto

lemma dict_ok_set: "dict_ok eq d \<Longrightarrow> dict_ok eq (dict_set eq k v d)"
  by (induction d) (auto dest: eq_sym)

lemma dict_get_del_None: "dict_get eq k d = None \<Longrightarrow> dict_get eq k (dict_del eq j d) = None"
  by (induction d) (auto split: if_splits)

lemma dict_ok_del: "dict_ok eq d \<Longrightarrow> dict_ok eq (dict_del eq k d)"
  by (induction d) (auto dest: dict_get_del_None)

lemma dict_ok_setdefault: "dict_ok eq d \<Longrightarrow> dict_ok eq (dict_setdefault eq k v d)"
  by (simp add: dict_setdefault_def dict_ok_set split: option.split)

lemma dict_get_setdefault:
  "dict_get eq k (dict_setdefault eq j v d) =
     (if eq j k then (case dict_get eq j d of None \<Rightarrow> Some v | Some w \<Rightarrow> Some w) else dict_get eq k d)"
  by (auto simp: dict_setdefault_def dict_get_cong split: option.split)

lemma dict_get_in: "dict_ok eq d \<Longrightarrow> (k, v) \<in> set d \<Longrightarrow> dict_get eq k d = Some v"
  by (induction d) (fastforce simp: dict_get_None dest: eq_sym)+

end

interpretation plain_key: key_class "(=) :: 'a \<Rightarrow> 'a \<Rightarrow> bool"
  by unfold_locales auto

section \<open>Results\<close>

text \<open>
  A call that may raise answers a sum, the error on the left. \<open>bindE\<close> is sequencing, \<open>foldE\<close> a loop over
  an accumulator, \<open>concatE\<close> a loop that extends a list.
\<close>

definition bindE :: "'e + 'a \<Rightarrow> ('a \<Rightarrow> 'e + 'b) \<Rightarrow> 'e + 'b" where
  "bindE x f = (case x of Inl e \<Rightarrow> Inl e | Inr a \<Rightarrow> f a)"

lemma bindE_simps [simp]: "bindE (Inl e) f = Inl e" "bindE (Inr a) f = f a"
  by (simp_all add: bindE_def)

lemma bindE_Inr [simp]: "bindE x f = Inr b \<longleftrightarrow> (\<exists>a. x = Inr a \<and> f a = Inr b)"
  by (cases x) auto

fun foldE :: "('a \<Rightarrow> 'b \<Rightarrow> 'e + 'a) \<Rightarrow> 'a \<Rightarrow> 'b list \<Rightarrow> 'e + 'a" where
  "foldE f a [] = Inr a"
| "foldE f a (x # xs) = bindE (f a x) (\<lambda>a'. foldE f a' xs)"

fun concatE :: "('a \<Rightarrow> 'e + 'b list) \<Rightarrow> 'a list \<Rightarrow> 'e + 'b list" where
  "concatE f [] = Inr []"
| "concatE f (x # xs) = bindE (f x) (\<lambda>ys. bindE (concatE f xs) (\<lambda>zs. Inr (ys @ zs)))"

lemma concatE_cong [fundef_cong]: "xs = ys \<Longrightarrow> (\<And>x. x \<in> set ys \<Longrightarrow> f x = g x) \<Longrightarrow> concatE f xs = concatE g ys"
  by (induction xs arbitrary: ys) auto

lemma foldE_append: "foldE f a (xs @ ys) = bindE (foldE f a xs) (\<lambda>a'. foldE f a' ys)"
  by (induction xs arbitrary: a) (auto simp: bindE_def split: sum.splits)

lemma concatE_Inr:
  "concatE f xs = Inr zs \<Longrightarrow> z \<in> set zs \<Longrightarrow> \<exists>x \<in> set xs. \<exists>ys. f x = Inr ys \<and> z \<in> set ys"
  by (induction xs arbitrary: zs) auto

lemma concatE_Inr_all: "concatE f xs = Inr zs \<Longrightarrow> x \<in> set xs \<Longrightarrow> \<exists>ys. f x = Inr ys \<and> set ys \<subseteq> set zs"
  by (induction xs arbitrary: zs) fastforce+

section \<open>Strings\<close>

text \<open>
  Python text is a list of code points; the model's characters are the code points below 256.
  \<open>digit_char\<close> and \<open>show_nat\<close> print decimal digits as \<open>repr\<close> of an int does.
\<close>

definition digit_char :: "nat \<Rightarrow> char" where
  "digit_char d = ''0123456789'' ! d"

fun show_nat :: "nat \<Rightarrow> string" where
  "show_nat n = (if n < 10 then [digit_char n] else show_nat (n div 10) @ [digit_char (n mod 10)])"

declare show_nat.simps [simp del]

definition show_int :: "int \<Rightarrow> string" where
  "show_int i = (if i < 0 then ''-'' @ show_nat (nat (- i)) else show_nat (nat i))"

text \<open>\<open>str.replace\<close> of a one-character pattern.\<close>

definition replace_char :: "char \<Rightarrow> string \<Rightarrow> string \<Rightarrow> string" where
  "replace_char c t s = concat (map (\<lambda>x. if x = c then t else [x]) s)"

lemma replace_char_Nil [simp]: "replace_char c t [] = []"
  by (simp add: replace_char_def)

lemma replace_char_Cons [simp]:
  "replace_char c t (x # s) = (if x = c then t else [x]) @ replace_char c t s"
  by (simp add: replace_char_def)

lemma replace_char_append [simp]: "replace_char c t (s @ u) = replace_char c t s @ replace_char c t u"
  by (simp add: replace_char_def)

fun join :: "string \<Rightarrow> string list \<Rightarrow> string" where
  "join sep [] = []"
| "join sep [s] = s"
| "join sep (s # t # ts) = s @ sep @ join sep (t # ts)"

end
