(* ===== verification/Atoms.thy ===== *)
theory Atoms
  imports Prelude
begin

text \<open>
  The atom model of \<open>metta/_atoms/model.py\<close>: the Python values a grounded atom carries, the atom
  classes, atom equality as each class's \<open>__eq__\<close> decides it (with the explicit work list of
  \<open>Expression.__eq__\<close>), the structural hash, the printed text of an atom, and the encoding of
  Python values as atoms.

  What belongs to the host and is not written in this package (the class name, \<open>repr\<close> and printed
  text of an opaque object, \<open>repr\<close> of a float, the primitive \<open>hash\<close>) is read through a \<open>host\<close>
  record, an argument of the definitions that use it.
\<close>

section \<open>Python values\<close>

text \<open>
  A binary64 value: NaN (with the identity of its float object, which only \<open>hash\<close> and dictionary
  lookup of the raw value can see), the infinities, negative zero, and every other finite value by
  its exact rational value (\<open>Fin 0\<close> is positive zero).
\<close>

datatype pyfloat = NaN nat | PosInf | NegInf | NegZero | Fin rat

datatype pyvalue =
    VStr string
  | VInt int
  | VFloat pyfloat
  | VBool bool
  | VObj nat \<comment> \<open>any other object, by identity\<close>

definition is_nan :: "pyfloat \<Rightarrow> bool" where
  "is_nan f = (case f of NaN _ \<Rightarrow> True | _ \<Rightarrow> False)"

text \<open>Python's \<open>==\<close> on two floats, and \<open>math.copysign(1.0, x)\<close>.\<close>

fun float_eq :: "pyfloat \<Rightarrow> pyfloat \<Rightarrow> bool" where
  "float_eq PosInf PosInf = True"
| "float_eq NegInf NegInf = True"
| "float_eq NegZero NegZero = True"
| "float_eq NegZero (Fin r) = (r = 0)"
| "float_eq (Fin r) NegZero = (r = 0)"
| "float_eq (Fin r) (Fin q) = (r = q)"
| "float_eq _ _ = False"

fun copysign1 :: "pyfloat \<Rightarrow> int" where
  "copysign1 (NaN _) = 1"
| "copysign1 PosInf = 1"
| "copysign1 NegInf = -1"
| "copysign1 NegZero = -1"
| "copysign1 (Fin r) = (if r < 0 then -1 else 1)"

text \<open>\<open>_ground_identical\<close>: the relation the engine's unification uses on carried values.\<close>

definition float_identical :: "pyfloat \<Rightarrow> pyfloat \<Rightarrow> bool" where
  "float_identical a b =
     (if is_nan a \<or> is_nan b then is_nan a \<and> is_nan b
      else float_eq a b \<and> copysign1 a = copysign1 b)"

definition ground_identical :: "pyvalue \<Rightarrow> pyvalue \<Rightarrow> bool" where
  "ground_identical mine theirs =
     (case mine of
        VFloat a \<Rightarrow> (case theirs of VFloat b \<Rightarrow> float_identical a b | _ \<Rightarrow> False)
      | VStr s \<Rightarrow> (case theirs of VStr t \<Rightarrow> s = t | _ \<Rightarrow> False)
      | VInt i \<Rightarrow> (case theirs of VInt j \<Rightarrow> i = j | _ \<Rightarrow> False)
      | VBool p \<Rightarrow> (case theirs of VBool q \<Rightarrow> p = q | _ \<Rightarrow> False)
      | VObj o1 \<Rightarrow> (case theirs of VObj o2 \<Rightarrow> o1 = o2 | _ \<Rightarrow> False))"

definition is_primitive :: "pyvalue \<Rightarrow> bool" where
  "is_primitive v = (case v of VObj _ \<Rightarrow> False | _ \<Rightarrow> True)"

section \<open>Atoms\<close>

text \<open>
  One constructor per concrete class. A grounded atom may keep the private envelope
  (\<open>_wire_value\<close>, an object) it was decoded from. A native handle has its registry id and the
  text the engine printed; a carried term has its record (a process-local reference), key, variable
  names and text. A space handle is its engine name (one engine per process; parametric spaces,
  whose name is an expression, are not modelled).
\<close>

datatype atom =
    Symbol string
  | Variable string
  | Grounded pyvalue "nat option"
  | NativeRational rat
  | NativeHandle int string
  | CarriedTerm nat string "string list" string
  | Space string
  | Expression "atom list"

definition gnd :: "pyvalue \<Rightarrow> atom" where
  "gnd v = Grounded v None"

definition unit_atom :: atom where
  "unit_atom = Expression []"

fun is_expression :: "atom \<Rightarrow> bool" where
  "is_expression (Expression _) = True"
| "is_expression _ = False"

fun kids :: "atom \<Rightarrow> atom list" where
  "kids (Expression xs) = xs"
| "kids _ = []"

lemma expression_kids: "is_expression a \<Longrightarrow> a = Expression (kids a)"
  by (cases a) auto

fun is_handle :: "atom \<Rightarrow> bool" where
  "is_handle (NativeHandle _ _) = True"
| "is_handle (CarriedTerm _ _ _ _) = True"
| "is_handle (Space _) = True"
| "is_handle _ = False"

text \<open>\<open>metatype\<close>: a handle is a grounded species.\<close>

fun metatype :: "atom \<Rightarrow> string" where
  "metatype (Symbol _) = ''Symbol''"
| "metatype (Variable _) = ''Variable''"
| "metatype (Expression _) = ''Expression''"
| "metatype _ = ''Grounded''"

text \<open>Number of nodes: the measure of every work-list walk over an atom.\<close>

fun asize :: "atom \<Rightarrow> nat" where
  "asize (Expression xs) = Suc (sum_list (map asize xs))"
| "asize _ = 1"

lemma asize_pos [simp]: "0 < asize a"
  by (cases a) auto

lemma asize_kids: "is_expression a \<Longrightarrow> asize a = Suc (sum_list (map asize (kids a)))"
  by (cases a) auto

section \<open>Structure access\<close>

datatype py_error = TypeError string | ValueError string | KeyError | RuntimeError string | AttributeError string

text \<open>Structure questions are declared on the base class; a leaf refuses them all.\<close>

definition leaf_refusal :: "string \<Rightarrow> py_error + 'a" where
  "leaf_refusal why = Inl (TypeError (''is a leaf atom and '' @ why))"

fun children :: "atom \<Rightarrow> py_error + atom list" where
  "children (Expression xs) = Inr xs"
| "children _ = leaf_refusal ''has no children''"

fun head :: "atom \<Rightarrow> py_error + atom option" where
  "head (Expression xs) = Inr (case xs of [] \<Rightarrow> None | x # _ \<Rightarrow> Some x)"
| "head _ = leaf_refusal ''has no head''"

fun args :: "atom \<Rightarrow> py_error + atom list" where
  "args (Expression xs) = Inr (tl xs)"
| "args _ = leaf_refusal ''has no arguments''"

text \<open>\<open>bool(atom)\<close>: a comparison or boolean term has no truth value; a grounded bool is its own.\<close>

definition term_heads :: "string list" where
  "term_heads = [''<'', ''<='', ''>'', ''>='', ''=='', ''and'', ''or'', ''not'', ''xor'']"

fun truth :: "atom \<Rightarrow> py_error + bool" where
  "truth (Grounded (VBool b) _) = Inr b"
| "truth (Expression (Symbol s # _)) =
     (if s \<in> set term_heads then Inl (TypeError ''is a comparison TERM, not a truth value'') else Inr True)"
| "truth _ = Inr True"

section \<open>Equality\<close>

text \<open>
  \<open>==\<close> between two atoms that are not both expressions, as Python dispatches it: a symbol meets a
  space handle through the handle's own \<open>__eq__\<close>; a native handle compares its id alone, a carried
  term its key and names; a grounded value compares by \<open>_ground_identical\<close> and ignores its envelope.
\<close>

definition leaf_eq :: "atom \<Rightarrow> atom \<Rightarrow> bool" where
  "leaf_eq a b =
     (case a of
        Symbol s \<Rightarrow> (case b of Symbol t \<Rightarrow> s = t | Space n \<Rightarrow> n = s | _ \<Rightarrow> False)
      | Space n \<Rightarrow> (case b of Symbol s \<Rightarrow> n = s | Space m \<Rightarrow> n = m | _ \<Rightarrow> False)
      | Variable x \<Rightarrow> (case b of Variable y \<Rightarrow> x = y | _ \<Rightarrow> False)
      | Grounded v _ \<Rightarrow> (case b of Grounded w _ \<Rightarrow> ground_identical v w | _ \<Rightarrow> False)
      | NativeRational r \<Rightarrow> (case b of NativeRational q \<Rightarrow> r = q | _ \<Rightarrow> False)
      | NativeHandle i _ \<Rightarrow> (case b of NativeHandle j _ \<Rightarrow> i = j | _ \<Rightarrow> False)
      | CarriedTerm _ k ns _ \<Rightarrow> (case b of CarriedTerm _ k' ns' _ \<Rightarrow> k = k' \<and> ns = ns' | _ \<Rightarrow> False)
      | Expression _ \<Rightarrow> False)"

text \<open>
  The loop of \<open>Expression.__eq__\<close>. The stack holds pairs of child tuples (its top is the head of the
  list); \<open>eq_push\<close> is the inner \<open>for\<close> over the zipped children, which pushes nested expressions and
  answers at once for the first unequal leaf. The identity shortcuts (\<open>a is b\<close>) only skip
  comparisons that reflexivity decides, so they have no counterpart here.
\<close>

fun eq_push :: "(atom \<times> atom) list \<Rightarrow> (atom list \<times> atom list) list \<Rightarrow> (atom list \<times> atom list) list option" where
  "eq_push [] st = Some st"
| "eq_push ((x, y) # ps) st =
     (if is_expression x \<and> is_expression y then eq_push ps ((kids x, kids y) # st)
      else if leaf_eq x y then eq_push ps st else None)"

definition eq_weight :: "(atom list \<times> atom list) list \<Rightarrow> nat" where
  "eq_weight st = sum_list (map (\<lambda>p. Suc (sum_list (map asize (fst p)))) st)"

lemma eq_weight_simps [simp]:
  "eq_weight [] = 0"
  "eq_weight (p # st) = Suc (sum_list (map asize (fst p))) + eq_weight st"
  by (simp_all add: eq_weight_def)

lemma eq_push_weight:
  "eq_push ps st = Some st' \<Longrightarrow> eq_weight st' \<le> eq_weight st + sum_list (map (asize \<circ> fst) ps)"
  by (induction ps st rule: eq_push.induct) (auto simp: asize_kids split: if_splits)

lemma sum_list_zip_fst: "sum_list (map (f \<circ> fst) (zip xs ys)) \<le> (sum_list (map f xs) :: nat)"
proof (induction xs arbitrary: ys)
  case (Cons x xs)
  then show ?case by (cases ys) (auto simp: add_mono)
qed simp

function eq_loop :: "(atom list \<times> atom list) list \<Rightarrow> bool" where
  "eq_loop [] = True"
| "eq_loop ((xs, ys) # st) =
     (if length xs \<noteq> length ys then False
      else case eq_push (zip xs ys) st of None \<Rightarrow> False | Some st' \<Rightarrow> eq_loop st')"
  by pat_completeness auto
termination
proof (relation "measure eq_weight")
  fix xs ys :: "atom list" and st st'
  assume "eq_push (zip xs ys) st = Some st'"
  from eq_push_weight [OF this] sum_list_zip_fst [of asize xs ys]
  show "(st', (xs, ys) # st) \<in> measure eq_weight" by simp
qed simp

definition atom_eq :: "atom \<Rightarrow> atom \<Rightarrow> bool" where
  "atom_eq a b = (if is_expression a \<and> is_expression b then eq_loop [(kids a, kids b)] else leaf_eq a b)"

text \<open>
  The identity a comparison sees: text, record and envelope erased, every NaN one value, a space
  handle the symbol of its name. \<open>atom_eq\<close> is equality of cores.
\<close>

fun vcore :: "pyvalue \<Rightarrow> pyvalue" where
  "vcore (VFloat (NaN _)) = VFloat (NaN 0)"
| "vcore v = v"

fun core :: "atom \<Rightarrow> atom" where
  "core (Space n) = Symbol n"
| "core (Grounded v _) = Grounded (vcore v) None"
| "core (NativeHandle i _) = NativeHandle i []"
| "core (CarriedTerm _ k ns _) = CarriedTerm 0 k ns []"
| "core (Expression xs) = Expression (map core xs)"
| "core (Symbol s) = Symbol s"
| "core (Variable x) = Variable x"
| "core (NativeRational r) = NativeRational r"

lemma float_identical_core: "float_identical a b \<longleftrightarrow> vcore (VFloat a) = vcore (VFloat b)"
  by (cases a; cases b) (auto simp: is_nan_def float_identical_def)

lemma vcore_VFloat: "\<exists>b. vcore (VFloat a) = VFloat b"
  by (cases a) auto

lemma ground_identical_core: "ground_identical v w \<longleftrightarrow> vcore v = vcore w"
proof (cases "\<exists>a b. v = VFloat a \<and> w = VFloat b")
  case True
  then show ?thesis by (auto simp: ground_identical_def float_identical_core)
next
  case False
  then show ?thesis
    by (cases v; cases w) (auto simp: ground_identical_def dest: sym, (metis vcore_VFloat pyvalue.distinct)+)
qed

lemma core_expression: "is_expression (core a) = is_expression a"
  by (cases a) auto

lemma leaf_eq_core:
  "\<not> (is_expression a \<and> is_expression b) \<Longrightarrow> leaf_eq a b \<longleftrightarrow> core a = core b"
  by (cases a; cases b) (auto simp: leaf_eq_def ground_identical_core)

lemma core_kids: "is_expression a \<Longrightarrow> is_expression b \<Longrightarrow>
    core a = core b \<longleftrightarrow> map core (kids a) = map core (kids b)"
  by (cases a; cases b) auto

lemma eq_push_core:
  "case eq_push ps st of
     None \<Rightarrow> \<exists>(x, y) \<in> set ps. core x \<noteq> core y
   | Some st' \<Rightarrow>
       (\<forall>(xs, ys) \<in> set st'. map core xs = map core ys) \<longleftrightarrow>
       (\<forall>(xs, ys) \<in> set st. map core xs = map core ys) \<and> (\<forall>(x, y) \<in> set ps. core x = core y)"
proof (induction ps st rule: eq_push.induct)
  case (2 x y ps st)
  show ?case
  proof (cases "is_expression x \<and> is_expression y")
    case True
    with 2 show ?thesis by (auto simp: core_kids split: option.splits)
  next
    case False
    with 2 leaf_eq_core [OF False] show ?thesis by (auto split: option.splits)
  qed
qed simp

lemma eq_loop_core: "eq_loop st \<longleftrightarrow> (\<forall>(xs, ys) \<in> set st. map core xs = map core ys)"
proof (induction st rule: eq_loop.induct)
  case (2 xs ys st)
  show ?case
  proof (cases "length xs = length ys")
    case False
    then show ?thesis by (auto dest: map_eq_imp_length_eq)
  next
    case len: True
    show ?thesis
    proof (cases "eq_push (zip xs ys) st")
      case None
      with len eq_push_core [of "zip xs ys" st] show ?thesis by (fastforce simp: map_eq_iff_zip)
    next
      case (Some st')
      with len "2.IH" [OF _ Some] eq_push_core [of "zip xs ys" st] show ?thesis
        by (simp add: map_eq_iff_zip) blast
    qed
  qed
qed simp

lemma atom_eq_core: "atom_eq a b \<longleftrightarrow> core a = core b"
  by (auto simp: atom_eq_def eq_loop_core core_kids leaf_eq_core)

interpretation atom_key: key_class atom_eq
  by unfold_locales (auto simp: atom_eq_core)

section \<open>Hashing\<close>

text \<open>
  The primitive hashes are the host's: \<open>hash\<close> of the tagged tuples, of a primitive value, of an
  object's identity, and of a tuple from its elements' hashes. \<open>hash_atom\<close> is the bottom-up hash every
  class's \<open>__hash__\<close> computes from them (the per-node cache is not observable: atoms are immutable).
\<close>

record hashes =
  hash_sym :: "string \<Rightarrow> int"
  hash_var :: "string \<Rightarrow> int"
  hash_prim :: "pyvalue \<Rightarrow> int"
  hash_nan :: int
  hash_obj :: "nat \<Rightarrow> int"
  hash_rat :: "rat \<Rightarrow> int"
  hash_handle :: "int \<Rightarrow> int"
  hash_carried :: "string \<Rightarrow> string list \<Rightarrow> int"
  hash_tuple :: "int list \<Rightarrow> int"

definition hash_ground :: "hashes \<Rightarrow> pyvalue \<Rightarrow> int" where
  "hash_ground h v =
     (case v of
        VObj oid \<Rightarrow> hash_obj h oid
      | VFloat f \<Rightarrow> if is_nan f then hash_nan h else hash_prim h v
      | _ \<Rightarrow> hash_prim h v)"

fun hash_atom :: "hashes \<Rightarrow> atom \<Rightarrow> int" where
  "hash_atom h (Symbol s) = hash_sym h s"
| "hash_atom h (Variable x) = hash_var h x"
| "hash_atom h (Grounded v _) = hash_ground h v"
| "hash_atom h (NativeRational r) = hash_rat h r"
| "hash_atom h (NativeHandle i _) = hash_handle h i"
| "hash_atom h (CarriedTerm _ k ns _) = hash_carried h k ns"
| "hash_atom h (Space n) = hash_sym h n"
| "hash_atom h (Expression xs) = hash_tuple h (map (hash_atom h) xs)"

lemma hash_ground_vcore: "hash_ground h (vcore v) = hash_ground h v"
proof (cases v)
  case (VFloat f)
  then show ?thesis by (cases f) (auto simp: hash_ground_def is_nan_def)
qed (auto simp: hash_ground_def)

lemma hash_atom_core: "hash_atom h (core a) = hash_atom h a"
  by (induction a rule: core.induct) (auto simp: hash_ground_vcore comp_def cong: map_cong)

section \<open>Printed text\<close>

text \<open>
  \<open>float_text\<close> and \<open>object_text\<close> are the host's here (\<open>_float_text\<close> is modelled in its own theory);
  \<open>obj_class\<close>, \<open>obj_repr\<close> and \<open>space_repr\<close> are what the sort key of an opaque object reads.
\<close>

record host =
  float_text :: "pyfloat \<Rightarrow> string"
  object_text :: "nat \<Rightarrow> string"
  obj_class :: "nat \<Rightarrow> string"
  obj_repr :: "nat \<Rightarrow> string"
  str_repr :: "string \<Rightarrow> string"
  space_repr :: "string \<Rightarrow> string"

text \<open>The five escapes of a printed string, in the order the code applies its replacements.\<close>

definition escape :: "string \<Rightarrow> string" where
  "escape s =
     replace_char (CHR 0x0D) [CHR 0x5C, CHR ''r'']
       (replace_char (CHR 0x09) [CHR 0x5C, CHR ''t'']
         (replace_char (CHR 0x0A) [CHR 0x5C, CHR ''n'']
           (replace_char (CHR 0x22) [CHR 0x5C, CHR 0x22]
             (replace_char (CHR 0x5C) [CHR 0x5C, CHR 0x5C] s))))"

definition str_rat :: "rat \<Rightarrow> string" where
  "str_rat r = (let (n, d) = quotient_of r in show_int n @ ''r'' @ show_int d)"

fun str_value :: "host \<Rightarrow> pyvalue \<Rightarrow> string" where
  "str_value h (VBool b) = (if b then ''True'' else ''False'')"
| "str_value h (VStr s) = [CHR 0x22] @ escape s @ [CHR 0x22]"
| "str_value h (VFloat f) = float_text h f"
| "str_value h (VInt i) = show_int i"
| "str_value h (VObj oid) = object_text h oid"

fun str_leaf :: "host \<Rightarrow> atom \<Rightarrow> string" where
  "str_leaf h (Symbol s) = s"
| "str_leaf h (Variable x) = ''$'' @ x"
| "str_leaf h (Grounded v _) = str_value h v"
| "str_leaf h (NativeRational r) = str_rat r"
| "str_leaf h (NativeHandle _ t) = t"
| "str_leaf h (CarriedTerm _ _ _ t) = t"
| "str_leaf h (Space n) = n"
| "str_leaf h (Expression _) = []"

text \<open>
  \<open>Expression.__str__\<close>: the work list holds text still to print and atoms still to expand, its top
  first; an expression pushes its children between blanks and the closing parenthesis after them.
\<close>

datatype print_item = Text string | Item atom

fun str_tail :: "atom list \<Rightarrow> print_item list" where
  "str_tail [] = [Text '')'']"
| "str_tail [x] = [Item x, Text '')'']"
| "str_tail (x # y # ys) = Item x # Text '' '' # str_tail (y # ys)"

fun print_size :: "atom \<Rightarrow> nat" where
  "print_size (Expression xs) = 3 + sum_list (map (\<lambda>x. Suc (print_size x)) xs)"
| "print_size _ = 1"

fun item_weight :: "print_item \<Rightarrow> nat" where
  "item_weight (Text _) = 1"
| "item_weight (Item a) = print_size a"

lemma str_tail_weight:
  "sum_list (map item_weight (str_tail xs)) \<le> Suc (sum_list (map (\<lambda>x. Suc (print_size x)) xs))"
  by (induction xs rule: str_tail.induct) auto

function str_loop :: "host \<Rightarrow> print_item list \<Rightarrow> string \<Rightarrow> string" where
  "str_loop h [] out = out"
| "str_loop h (Text t # st) out = str_loop h st (out @ t)"
| "str_loop h (Item a # st) out =
     (if is_expression a then str_loop h (str_tail (kids a) @ st) (out @ ''('')
      else str_loop h st (out @ str_leaf h a))"
  by pat_completeness auto
termination
proof (relation "measure (\<lambda>(h, st, out). sum_list (map item_weight st))")
  fix h :: host and a st out
  assume "is_expression a"
  then have "print_size a = 3 + sum_list (map (\<lambda>x. Suc (print_size x)) (kids a))"
    by (cases a) auto
  with str_tail_weight [of "kids a"]
  show "((h, str_tail (kids a) @ st, out @ ''(''), (h, Item a # st, out))
          \<in> measure (\<lambda>(h, st, out). sum_list (map item_weight st))"
    by simp
next
  fix h :: host and a st out
  assume "\<not> is_expression a"
  then show "((h, st, out @ str_leaf h a), (h, Item a # st, out))
          \<in> measure (\<lambda>(h, st, out). sum_list (map item_weight st))"
    by (cases a) auto
qed auto

definition str_atom :: "host \<Rightarrow> atom \<Rightarrow> string" where
  "str_atom h a = (if is_expression a then str_loop h [Item a] [] else str_leaf h a)"

text \<open>The reference reading: parentheses around the children's texts joined by blanks.\<close>

fun print_atom :: "host \<Rightarrow> atom \<Rightarrow> string" where
  "print_atom h (Expression xs) = ''('' @ join '' '' (map (print_atom h) xs) @ '')''"
| "print_atom h a = str_leaf h a"

definition print_items :: "host \<Rightarrow> print_item list \<Rightarrow> string" where
  "print_items h st = concat (map (\<lambda>i. case i of Text t \<Rightarrow> t | Item a \<Rightarrow> print_atom h a) st)"

lemma print_items_simps [simp]:
  "print_items h [] = []"
  "print_items h (Text t # st) = t @ print_items h st"
  "print_items h (Item a # st) = print_atom h a @ print_items h st"
  "print_items h (st @ st') = print_items h st @ print_items h st'"
  by (simp_all add: print_items_def)

lemma print_str_tail: "print_items h (str_tail xs) = join '' '' (map (print_atom h) xs) @ '')''"
  by (induction xs rule: str_tail.induct) auto

lemma str_loop_print: "str_loop h st out = out @ print_items h st"
proof (induction h st out rule: str_loop.induct)
  case (3 h a st out)
  show ?case
  proof (cases "is_expression a")
    case True
    with 3 expression_kids [OF True] show ?thesis by (metis (no_types, lifting) append.assoc
        print_atom.simps(1) print_items_simps(3,4) print_str_tail str_loop.simps(3))
  next
    case False
    with 3 have "str_loop h (Item a # st) out = (out @ str_leaf h a) @ print_items h st" by simp
    with False show ?thesis by (cases a) auto
  qed
qed auto

lemma str_atom_print: "str_atom h a = print_atom h a"
  by (cases a) (auto simp: str_atom_def str_loop_print)

text \<open>A host for worked examples.\<close>

definition sample_host :: host where
  "sample_host = \<lparr>float_text = (\<lambda>_. ''1.5''), object_text = (\<lambda>_. ''<Foo>''), obj_class = (\<lambda>_. ''Foo''),
     obj_repr = (\<lambda>_. ''<Foo object>''), str_repr = (\<lambda>s. [CHR 0x27] @ s @ [CHR 0x27]), space_repr = (\<lambda>s. s)\<rparr>"

section \<open>Encoding Python values\<close>

text \<open>
  A Python value as \<open>encode\<close> classifies it, the last argument its identity where it has one: an atom, an exact primitive, a tuple or list, a path,
  \<open>Ellipsis\<close>, an object whose class owns a \<open>__metta__\<close> hook (the atom it answers), a callable with a
  standard mention (its head), and any other object. Codecs registered by a program through
  \<open>encode.register\<close> are not modelled.
\<close>

datatype pyobject =
    PAtom atom
  | PPrim pyvalue
  | PTuple "pyobject list"
  | PList "pyobject list" nat
  | PPath string nat
  | PEllipsis nat
  | PHook atom nat
  | PMention string nat
  | PObject nat

fun encode :: "pyobject \<Rightarrow> atom" where
  "encode (PAtom a) = a"
| "encode (PPrim v) = gnd v"
| "encode (PTuple xs) = Expression (map encode xs)"
| "encode (PList xs _) = Expression (map encode xs)"
| "encode (PPath p _) = Symbol p"
| "encode (PEllipsis _) = Symbol ''...''"
| "encode (PHook a _) = a"
| "encode (PMention s _) = Symbol s"
| "encode (PObject oid) = gnd (VObj oid)"

text \<open>\<open>decode\<close> unwraps a grounded payload and leaves every other atom, handles included, alone.\<close>

fun decode :: "atom \<Rightarrow> pyobject" where
  "decode (Grounded (VObj oid) _) = PObject oid"
| "decode (Grounded v _) = PPrim v"
| "decode a = PAtom a"

text \<open>
  An atom against a raw Python value (\<open>atom == value\<close>): a grounded atom compares payloads, but never
  equals a tuple; an expression compares with a tuple child by child, its leaves against the tuple's
  raw leaves; nothing else equals a non-atom.
\<close>

fun raw_payload :: "pyobject \<Rightarrow> pyvalue option" where
  "raw_payload (PPrim v) = Some v"
| "raw_payload (PObject oid) = Some (VObj oid)"
| "raw_payload (PPath _ oid) = Some (VObj oid)"
| "raw_payload (PHook _ oid) = Some (VObj oid)"
| "raw_payload (PMention _ oid) = Some (VObj oid)"
| "raw_payload (PList _ oid) = Some (VObj oid)"
| "raw_payload (PEllipsis oid) = Some (VObj oid)"
| "raw_payload _ = None"

fun eq_raw :: "atom \<Rightarrow> pyobject \<Rightarrow> bool" where
  "eq_raw a (PAtom b) = atom_eq a b"
| "eq_raw (Expression xs) (PTuple ys) = list_all2 eq_raw xs ys"
| "eq_raw (Grounded v _) y = (case raw_payload y of Some w \<Rightarrow> ground_identical v w | None \<Rightarrow> False)"
| "eq_raw a y = False"

section \<open>Properties\<close>

lemma map_core_all2: "map core xs = map core ys \<longleftrightarrow> list_all2 atom_eq xs ys"
  by (induction xs ys rule: list_induct2') (auto simp: atom_eq_core)

lemma atom_eq_Expression: "atom_eq (Expression xs) (Expression ys) = list_all2 atom_eq xs ys"
  by (simp add: atom_eq_core [of "Expression xs"] map_core_all2)

lemma atom_eq_equivp: "equivp atom_eq"
  by (rule equivpI) (auto simp: reflp_def symp_def transp_def dest: atom_key.eq_sym atom_key.eq_trans)

text \<open>The work-list comparison of \<open>Expression.__eq__\<close> together with the leaf comparisons is an
  equivalence relation, and two expressions are equal exactly when their children are, pairwise.\<close>

theorem atom_eq_congruence:
  "equivp atom_eq \<and> atom_eq (Expression xs) (Expression ys) = list_all2 atom_eq xs ys"
  by (simp add: atom_eq_Expression atom_eq_equivp)

text \<open>Hashing agrees with equality for every class, space handles against symbols, envelopes,
  carried terms and NaN payloads included, whatever the host's primitive hashes are.\<close>

theorem hash_agrees: "atom_eq a b \<Longrightarrow> hash_atom h a = hash_atom h b"
  by (metis atom_eq_core hash_atom_core)

definition sample_hashes :: hashes where
  "sample_hashes = \<lparr>hash_sym = (\<lambda>s. int (length s)), hash_var = (\<lambda>s. int (length s) + 1), hash_prim = (\<lambda>_. 2),
     hash_nan = 3, hash_obj = int, hash_rat = (\<lambda>r. fst (quotient_of r)), hash_handle = (\<lambda>i. i),
     hash_carried = (\<lambda>k ns. int (length ns)), hash_tuple = sum_list\<rparr>"

theorem hash_agrees_witness:
  "hash_atom sample_hashes (Expression [Space ''&self'', Grounded (VFloat (NaN 7)) None]) =
   hash_atom sample_hashes (Expression [Symbol ''&self'', Grounded (VFloat (NaN 9)) (Some 4)])"
  by (rule hash_agrees) (simp add: atom_eq_core)

text \<open>The text of a string payload: read back by an unescaping scan.\<close>

fun unescape :: "string \<Rightarrow> string" where
  "unescape [] = []"
| "unescape [c] = [c]"
| "unescape (c # d # s) =
     (if c = CHR 0x5C
      then (if d = CHR ''n'' then CHR 0x0A else if d = CHR ''t'' then CHR 0x09
            else if d = CHR ''r'' then CHR 0x0D else d) # unescape s
      else c # unescape (d # s))"

definition escape_char :: "char \<Rightarrow> string" where
  "escape_char c =
     (if c = CHR 0x5C then [CHR 0x5C, CHR 0x5C]
      else if c = CHR 0x22 then [CHR 0x5C, CHR 0x22]
      else if c = CHR 0x0A then [CHR 0x5C, CHR ''n'']
      else if c = CHR 0x09 then [CHR 0x5C, CHR ''t'']
      else if c = CHR 0x0D then [CHR 0x5C, CHR ''r''] else [c])"

lemma escape_Nil [simp]: "escape [] = []"
  by (simp add: escape_def)

lemma escape_Cons [simp]: "escape (c # s) = escape_char c @ escape s"
  by (simp add: escape_def escape_char_def)

lemma unescape_other: "c \<noteq> CHR 0x5C \<Longrightarrow> unescape (c # s) = c # unescape s"
  by (cases s) auto

lemma unescape_escape: "unescape (escape s) = s"
  by (induction s) (auto simp: escape_char_def unescape_other)

lemma escape_clean: "c \<in> set (escape s) \<Longrightarrow> c \<notin> {CHR 0x0A, CHR 0x09, CHR 0x0D}"
  by (induction s) (auto simp: escape_char_def split: if_splits)

text \<open>The text of an expression is exactly the parenthesised reading of its children's texts, and a
  string payload prints on one line, its text determining the string.\<close>

theorem str_atom_reading:
  "str_atom h (Expression xs) = ''('' @ join '' '' (map (str_atom h) xs) @ '')''
   \<and> set (str_atom h (gnd (VStr s))) \<inter> {CHR 0x0A, CHR 0x09, CHR 0x0D} = {}
   \<and> (str_atom h (gnd (VStr s)) = str_atom h (gnd (VStr t)) \<longleftrightarrow> s = t)"
proof (intro conjI)
  show "str_atom h (Expression xs) = ''('' @ join '' '' (map (str_atom h) xs) @ '')''"
    by (simp add: str_atom_print cong: map_cong)
  show "set (str_atom h (gnd (VStr s))) \<inter> {CHR 0x0A, CHR 0x09, CHR 0x0D} = {}"
    using escape_clean [of _ s] by (auto simp: str_atom_print gnd_def)
  show "str_atom h (gnd (VStr s)) = str_atom h (gnd (VStr t)) \<longleftrightarrow> s = t"
    by (auto simp: str_atom_print gnd_def) (metis unescape_escape)
qed

text \<open>The raw values \<open>==\<close> and \<open>encode\<close> read the same way: all but lists, paths, \<open>Ellipsis\<close> and hooks.\<close>

fun plain_object :: "pyobject \<Rightarrow> bool" where
  "plain_object (PAtom _) = True"
| "plain_object (PPrim _) = True"
| "plain_object (PObject _) = True"
| "plain_object (PTuple ys) = list_all plain_object ys"
| "plain_object _ = False"

lemma eq_raw_Grounded:
  "plain_object y \<Longrightarrow> eq_raw (Grounded v e) y = atom_eq (Grounded v e) (encode y)"
  by (cases y) (auto simp: atom_eq_def leaf_eq_def gnd_def)

lemma eq_raw_leaf:
  "plain_object y \<Longrightarrow> \<not> is_expression a \<Longrightarrow> eq_raw a y = atom_eq a (encode y)"
proof (cases a)
  case (Grounded v e)
  then show "plain_object y \<Longrightarrow> ?thesis" by (simp add: eq_raw_Grounded)
qed (cases y; auto simp: atom_eq_def leaf_eq_def gnd_def)+

lemma eq_raw_plain: "plain_object y \<Longrightarrow> eq_raw a y = atom_eq a (encode y)"
proof (induction y arbitrary: a)
  case (PTuple ys)
  show ?case
  proof (cases "is_expression a")
    case True
    then have a: "a = Expression (kids a)" by (rule expression_kids)
    from PTuple have "list_all2 eq_raw xs ys = list_all2 (\<lambda>x y. atom_eq x (encode y)) xs ys" for xs
      by (induction xs ys rule: list_induct2') auto
    with a show ?thesis
      by (metis atom_eq_Expression encode.simps(3) eq_raw.simps(2) list.rel_map(2))
  next
    case False
    with PTuple show ?thesis by (simp add: eq_raw_leaf)
  qed
next
  case (PPrim v)
  then show ?case by (cases "is_expression a") (auto simp: eq_raw_leaf atom_eq_def leaf_eq_def gnd_def elim!: is_expression.elims)
next
  case (PObject oid)
  then show ?case by (cases "is_expression a") (auto simp: eq_raw_leaf atom_eq_def leaf_eq_def gnd_def elim!: is_expression.elims)
qed auto

text \<open>Comparing an atom with a raw Python value is comparing it with the value's encoding, for atoms,
  primitives, opaque objects and tuples of them at any nesting.\<close>

theorem eq_raw_encode: "plain_object y \<Longrightarrow> eq_raw a y = atom_eq a (encode y)"
  by (rule eq_raw_plain)

theorem eq_raw_encode_witness:
  "eq_raw (Expression [gnd (VInt 3), Symbol ''a'']) (PTuple [PPrim (VInt 3), PAtom (Symbol ''a'')]) =
   atom_eq (Expression [gnd (VInt 3), Symbol ''a'']) (encode (PTuple [PPrim (VInt 3), PAtom (Symbol ''a'')]))"
  by (rule eq_raw_encode) simp

end
