(* ===== verification/Traversal.thy ===== *)
theory Traversal
  imports Atoms "HOL-Library.Product_Lexorder"
begin

text \<open>
  The tree walks of \<open>metta/_atoms/factories.py\<close>, each with its explicit stack: the variables of an
  atom, \<open>Atom.map\<close>, \<open>Atom.subs\<close> and \<open>substitute\<close>, and the sort key \<open>order_key\<close>; each is shown equal
  to a structural recursion, and the flat sort key is shown to order expressions child by child.
\<close>

section \<open>Variables\<close>

text \<open>\<open>_variables\<close>: names in first-appearance order. The head of the list is the stack's top.\<close>

function variables_loop :: "atom list \<Rightarrow> string list \<Rightarrow> string list" where
  "variables_loop [] out = out"
| "variables_loop (a # st) out =
     (case a of
        Variable x \<Rightarrow> variables_loop st (if x \<in> set out then out else out @ [x])
      | Expression xs \<Rightarrow> variables_loop (xs @ st) out
      | _ \<Rightarrow> variables_loop st out)"
  by pat_completeness auto
termination by (relation "measure (\<lambda>(st, out). sum_list (map asize st))") auto

definition variables :: "atom \<Rightarrow> string list" where
  "variables a = variables_loop [a] []"

definition is_ground :: "atom \<Rightarrow> bool" where
  "is_ground a = (variables a = [])"

text \<open>The reference: every occurrence in preorder, each name kept at its first one.\<close>

fun var_occs :: "atom \<Rightarrow> string list" where
  "var_occs (Variable x) = [x]"
| "var_occs (Expression xs) = concat (map var_occs xs)"
| "var_occs _ = []"

definition keep_first :: "string list \<Rightarrow> string list \<Rightarrow> string list" where
  "keep_first ys out = fold (\<lambda>x out. if x \<in> set out then out else out @ [x]) ys out"

lemma keep_first_simps [simp]:
  "keep_first [] out = out"
  "keep_first (x # ys) out = keep_first ys (if x \<in> set out then out else out @ [x])"
  "keep_first (ys @ zs) out = keep_first zs (keep_first ys out)"
  by (simp_all add: keep_first_def)

lemma set_keep_first: "set (keep_first ys out) = set ys \<union> set out"
  by (induction ys arbitrary: out) auto

lemma distinct_keep_first: "distinct out \<Longrightarrow> distinct (keep_first ys out)"
  by (induction ys arbitrary: out) auto

lemma variables_loop_occs: "variables_loop st out = keep_first (concat (map var_occs st)) out"
  by (induction st out rule: variables_loop.induct) (auto split: atom.splits)

lemma variables_occs: "variables a = keep_first (var_occs a) []"
  by (simp add: variables_def variables_loop_occs)

lemma set_variables: "set (variables a) = set (var_occs a)"
  by (simp add: variables_occs set_keep_first)

lemma distinct_variables: "distinct (variables a)"
  by (simp add: variables_occs distinct_keep_first)

lemma is_ground_occs: "is_ground a \<longleftrightarrow> var_occs a = []"
  using set_variables [of a] by (auto simp: is_ground_def)

lemma var_occs_core: "var_occs (core a) = var_occs a"
  by (induction a rule: core.induct) (auto simp: comp_def cong: map_cong)

lemma is_ground_simps [simp]:
  "is_ground (Variable x) = False"
  "is_ground (Symbol s) = True"
  "is_ground (Grounded v e) = True"
  "is_ground (NativeRational r) = True"
  "is_ground (NativeHandle i t) = True"
  "is_ground (CarriedTerm c k ns t) = True"
  "is_ground (Space n) = True"
  "is_ground (Expression xs) = (\<forall>x \<in> set xs. is_ground x)"
  by (auto simp: is_ground_occs)

lemma is_ground_cong: "atom_eq a b \<Longrightarrow> is_ground a = is_ground b"
  by (metis atom_eq_core is_ground_occs var_occs_core)

section \<open>Mapping every node\<close>

text \<open>
  \<open>_map_atoms\<close>: an expression is pushed again as expanded under its children; when it comes back its
  children's images are the last entries of \<open>results\<close> (here the first ones, newest first), which
  \<open>_mapped_candidate\<close> takes and rebuilds. Rebuilding only when a child changed identity is not
  visible in the value.
\<close>

definition mapped_candidate :: "atom \<Rightarrow> atom list \<Rightarrow> atom \<times> atom list" where
  "mapped_candidate a results =
     (if is_expression a
      then (Expression (rev (take (length (kids a)) results)), drop (length (kids a)) results)
      else (a, results))"

definition map_weight :: "(atom \<times> bool) list \<Rightarrow> nat" where
  "map_weight st = sum_list (map (\<lambda>(a, expanded). if expanded then 1 else 2 * asize a) st)"

lemma map_weight_simps [simp]:
  "map_weight [] = 0"
  "map_weight ((a, True) # st) = Suc (map_weight st)"
  "map_weight ((a, False) # st) = 2 * asize a + map_weight st"
  "map_weight (map (\<lambda>c. (c, False)) xs @ st) = 2 * sum_list (map asize xs) + map_weight st"
proof -
  show "map_weight (map (\<lambda>c. (c, False)) xs @ st) = 2 * sum_list (map asize xs) + map_weight st"
    by (induction xs) (auto simp: map_weight_def)
qed (simp_all add: map_weight_def)

function map_loop :: "(atom \<Rightarrow> atom) \<Rightarrow> (atom \<times> bool) list \<Rightarrow> atom list \<Rightarrow> atom list" where
  "map_loop f [] results = results"
| "map_loop f ((a, expanded) # st) results =
     (if is_expression a \<and> \<not> expanded
      then map_loop f (map (\<lambda>c. (c, False)) (kids a) @ (a, True) # st) results
      else let (candidate, results') = mapped_candidate a results
           in map_loop f st (f candidate # results'))"
  by pat_completeness auto
termination
proof (relation "measure (\<lambda>(f, st, results). map_weight st)")
  fix f :: "atom \<Rightarrow> atom" and a expanded st results
  assume "is_expression a \<and> \<not> expanded"
  then show "((f, map (\<lambda>c. (c, False)) (kids a) @ (a, True) # st, results), f, (a, expanded) # st, results)
      \<in> measure (\<lambda>(f, st, results). map_weight st)"
    by (auto simp: asize_kids)
next
  fix f :: "atom \<Rightarrow> atom" and a expanded st results x results' candidate
  show "((f, st, f candidate # results'), f, (a, expanded) # st, results)
      \<in> measure (\<lambda>(f, st, results). map_weight st)"
    by (cases expanded) auto
qed auto

definition map_atoms :: "(atom \<Rightarrow> atom) \<Rightarrow> atom \<Rightarrow> atom" where
  "map_atoms f a = last (map_loop f [(a, False)] [])"

fun map_rec :: "(atom \<Rightarrow> atom) \<Rightarrow> atom \<Rightarrow> atom" where
  "map_rec f (Expression xs) = f (Expression (map (map_rec f) xs))"
| "map_rec f a = f a"

text \<open>What a stack contributes: the images of its pending nodes, in order.\<close>

fun map_stack :: "(atom \<Rightarrow> atom) \<Rightarrow> (atom \<times> bool) list \<Rightarrow> atom list \<Rightarrow> atom list" where
  "map_stack f [] results = results"
| "map_stack f ((a, False) # st) results = map_stack f st (map_rec f a # results)"
| "map_stack f ((a, True) # st) results =
     (let (candidate, results') = mapped_candidate a results in map_stack f st (f candidate # results'))"

lemma map_stack_children:
  "map_stack f (map (\<lambda>c. (c, False)) xs @ st) results = map_stack f st (rev (map (map_rec f) xs) @ results)"
  by (induction xs arbitrary: results) auto

lemma map_loop_stack: "map_loop f st results = map_stack f st results"
proof (induction f st results rule: map_loop.induct)
  case (2 f a expanded st results)
  show ?case
  proof (cases "is_expression a \<and> \<not> expanded")
    case True
    then have "a = Expression (kids a)" by (simp add: expression_kids)
    then have "map_rec f a = f (Expression (map (map_rec f) (kids a)))" by (metis map_rec.simps(1))
    with 2 True show ?thesis
      by (simp add: map_stack_children mapped_candidate_def)
  next
    case False
    then have "expanded \<or> map_rec f a = f a" by (cases a) auto
    with 2 False show ?thesis
      by (cases expanded) (auto simp: mapped_candidate_def split: prod.splits)
  qed
qed auto

lemma map_atoms_rec: "map_atoms f a = map_rec f a"
  by (simp add: map_atoms_def map_loop_stack)

section \<open>Substitution\<close>

text \<open>
  \<open>Atom.subs\<close> under a mapping keyed by atoms, and \<open>substitute\<close>, its caller under a mapping keyed by
  variable names.
\<close>

definition subs :: "(atom, atom) dict \<Rightarrow> atom \<Rightarrow> atom" where
  "subs bindings a =
     (if bindings = [] then a
      else map_atoms (\<lambda>item. case dict_get atom_eq item bindings of Some v \<Rightarrow> v | None \<Rightarrow> item) a)"

definition substitute :: "atom \<Rightarrow> (string, atom) dict \<Rightarrow> atom" where
  "substitute a bindings =
     subs (fold (\<lambda>(x, v) d. dict_set atom_eq (Variable x) v d) bindings []) a"

fun subst_rec :: "(string \<Rightarrow> atom option) \<Rightarrow> atom \<Rightarrow> atom" where
  "subst_rec m (Variable x) = (case m x of Some v \<Rightarrow> v | None \<Rightarrow> Variable x)"
| "subst_rec m (Expression xs) = Expression (map (subst_rec m) xs)"
| "subst_rec m a = a"

text \<open>
  The dictionary \<open>substitute\<close> builds answers a node exactly when it is a variable, with the binding
  of its name.
\<close>

definition of_names :: "(string, atom) dict \<Rightarrow> (atom, atom) dict" where
  "of_names bindings = fold (\<lambda>(x, v) d. dict_set atom_eq (Variable x) v d) bindings []"

lemma fold_of_names:
  "dict_ok (=) bindings \<Longrightarrow> dict_get atom_eq a (fold (\<lambda>(x, v) d. dict_set atom_eq (Variable x) v d) bindings d) =
     (case a of
        Variable x \<Rightarrow> (case dict_get (=) x bindings of Some v \<Rightarrow> Some v | None \<Rightarrow> dict_get atom_eq a d)
      | _ \<Rightarrow> dict_get atom_eq a d)"
  by (induction bindings arbitrary: d) (auto simp: atom_eq_core split: atom.splits option.splits)

lemma get_of_names:
  "dict_ok (=) bindings \<Longrightarrow> dict_get atom_eq a (of_names bindings) =
     (case a of Variable x \<Rightarrow> dict_get (=) x bindings | _ \<Rightarrow> None)"
  by (simp add: of_names_def fold_of_names split: atom.splits option.splits)

lemma substitute_subs: "substitute a bindings = subs (of_names bindings) a"
  by (simp add: substitute_def of_names_def)

lemma map_rec_id: "(\<And>b. f b = b) \<Longrightarrow> map_rec f a = a"
  by (induction f a rule: map_rec.induct) (auto intro: map_idI)

lemma subs_rec: "subs b a = map_rec (\<lambda>i. case dict_get atom_eq i b of Some v \<Rightarrow> v | None \<Rightarrow> i) a"
  by (simp add: subs_def map_atoms_rec map_rec_id)

lemma map_rec_subst:
  assumes "\<And>i. g i = (case i of Variable x \<Rightarrow> (case m x of Some v \<Rightarrow> v | None \<Rightarrow> i) | _ \<Rightarrow> i)"
  shows "map_rec g a = subst_rec m a"
  by (induction a rule: var_occs.induct) (auto simp: assms split: option.splits)

lemma substitute_rec:
  "dict_ok (=) bindings \<Longrightarrow> substitute a bindings = subst_rec (\<lambda>x. dict_get (=) x bindings) a"
  unfolding substitute_subs subs_rec
  by (rule map_rec_subst) (simp add: get_of_names split: atom.splits option.splits)

lemma subst_rec_cong:
  "(\<And>x. x \<in> set (var_occs a) \<Longrightarrow> m x = m' x) \<Longrightarrow> subst_rec m a = subst_rec m' a"
  by (induction a rule: var_occs.induct) auto

lemma subst_rec_none: "(\<And>x. x \<in> set (var_occs a) \<Longrightarrow> m x = None) \<Longrightarrow> subst_rec m a = a"
  by (induction a rule: var_occs.induct) (auto intro!: map_idI)

section \<open>The sort key\<close>

text \<open>
  The rank and payload of one node; \<open>KEnd\<close> closes an expression and sorts before every rank. A
  number's payload is the tuple of the code: NaN, or the exact value (an infinity by its sign) and
  what separates \<open>-0.0\<close>, \<open>0.0\<close> and an equal exact number.
\<close>

datatype token =
    KEnd
  | KVar string
  | KNum "int \<times> int \<times> rat \<times> int"
  | KStr string
  | KObj string string
  | KEmpty
  | KSym string
  | KExpr

text \<open>The Python tuple of a token: tuples of one rank have one shape and compare left to right.\<close>

fun token_tuple :: "token \<Rightarrow> int \<times> (int \<times> int \<times> rat \<times> int) \<times> string \<times> string" where
  "token_tuple KEnd = (-1, (0, 0, 0, 0), [], [])"
| "token_tuple (KVar x) = (0, (0, 0, 0, 0), x, [])"
| "token_tuple (KNum n) = (1, n, [], [])"
| "token_tuple (KStr s) = (2, (0, 0, 0, 0), s, [])"
| "token_tuple (KObj c r) = (3, (0, 0, 0, 0), c, r)"
| "token_tuple KEmpty = (4, (0, 0, 0, 0), [], [])"
| "token_tuple (KSym s) = (5, (0, 0, 0, 0), s, [])"
| "token_tuple KExpr = (6, (0, 0, 0, 0), [], [])"

lemma token_tuple_inj: "token_tuple t = token_tuple u \<Longrightarrow> t = u"
  by (cases t; cases u) auto

instantiation token :: linorder
begin

definition less_eq_token :: "token \<Rightarrow> token \<Rightarrow> bool" where
  "t \<le> u = (token_tuple t \<le> token_tuple u)"

definition less_token :: "token \<Rightarrow> token \<Rightarrow> bool" where
  "t < u = (token_tuple t < token_tuple u)"

instance
  by standard (auto simp: less_eq_token_def less_token_def dest: token_tuple_inj)

end

lemma KEnd_less: "t \<noteq> KEnd \<Longrightarrow> KEnd < t"
  by (cases t) (auto simp: less_token_def)

definition number_token :: "pyfloat \<Rightarrow> token" where
  "number_token f =
     (case f of
        NaN _ \<Rightarrow> KNum (0, 0, 0, 0)
      | PosInf \<Rightarrow> KNum (1, 1, 0, copysign1 f)
      | NegInf \<Rightarrow> KNum (1, -1, 0, copysign1 f)
      | NegZero \<Rightarrow> KNum (1, 0, 0, copysign1 f)
      | Fin r \<Rightarrow> KNum (1, 0, r, copysign1 f))"

definition value_token :: "host \<Rightarrow> pyvalue \<Rightarrow> token" where
  "value_token h v =
     (case v of
        VBool b \<Rightarrow> KSym (if b then ''True'' else ''False'')
      | VInt i \<Rightarrow> KNum (1, 0, of_int i, 2)
      | VFloat f \<Rightarrow> number_token f
      | VStr s \<Rightarrow> KStr s
      | VObj oid \<Rightarrow> KObj (obj_class h oid) (obj_repr h oid))"

text \<open>A handle has no payload, so its own class name and \<open>repr\<close> rank it with the objects.\<close>

fun leaf_token :: "host \<Rightarrow> atom \<Rightarrow> token" where
  "leaf_token h (Variable x) = KVar x"
| "leaf_token h (Symbol s) = KSym s"
| "leaf_token h (Expression _) = KEmpty"
| "leaf_token h (Grounded v _) = value_token h v"
| "leaf_token h (NativeRational r) = KNum (1, 0, r, 2)"
| "leaf_token h (NativeHandle i t) =
     KObj ''_NativeHandle'' (''_NativeHandle('' @ show_int i @ '', '' @ str_repr h t @ '')'')"
| "leaf_token h (CarriedTerm _ _ _ t) = KObj ''_CarriedTerm'' (''_CarriedTerm('' @ str_repr h t @ '')'')"
| "leaf_token h (Space n) = KObj ''Space'' (space_repr h n)"

text \<open>The agenda: \<open>None\<close> is the end marker a nonempty expression leaves under its children.\<close>

definition agenda_weight :: "atom option list \<Rightarrow> nat" where
  "agenda_weight st = sum_list (map (\<lambda>i. case i of None \<Rightarrow> 1 | Some a \<Rightarrow> 2 * asize a) st)"

lemma agenda_weight_simps [simp]:
  "agenda_weight [] = 0"
  "agenda_weight (None # st) = Suc (agenda_weight st)"
  "agenda_weight (Some a # st) = 2 * asize a + agenda_weight st"
  "agenda_weight (map Some xs @ st) = 2 * sum_list (map asize xs) + agenda_weight st"
proof -
  show "agenda_weight (map Some xs @ st) = 2 * sum_list (map asize xs) + agenda_weight st"
    by (induction xs) (auto simp: agenda_weight_def)
qed (simp_all add: agenda_weight_def)

function key_loop :: "host \<Rightarrow> atom option list \<Rightarrow> token list \<Rightarrow> token list" where
  "key_loop h [] out = out"
| "key_loop h (None # st) out = key_loop h st (out @ [KEnd])"
| "key_loop h (Some a # st) out =
     (if is_expression a \<and> kids a \<noteq> []
      then key_loop h (map Some (kids a) @ None # st) (out @ [KExpr])
      else key_loop h st (out @ [leaf_token h a]))"
  by pat_completeness auto
termination
  by (relation "measure (\<lambda>(h, st, out). agenda_weight st)") (auto simp: asize_kids)

definition order_key :: "host \<Rightarrow> atom \<Rightarrow> token list" where
  "order_key h a = key_loop h [Some a] []"

fun key_rec :: "host \<Rightarrow> atom \<Rightarrow> token list" where
  "key_rec h (Expression xs) =
     (if xs = [] then [KEmpty] else KExpr # concat (map (key_rec h) xs) @ [KEnd])"
| "key_rec h a = [leaf_token h a]"

lemma key_loop_rec:
  "key_loop h st out = out @ concat (map (\<lambda>i. case i of None \<Rightarrow> [KEnd] | Some a \<Rightarrow> key_rec h a) st)"
proof (induction h st out rule: key_loop.induct)
  case (3 h a st out)
  show ?case
  proof (cases "is_expression a \<and> kids a \<noteq> []")
    case True
    then have "key_rec h a = KExpr # concat (map (key_rec h) (kids a)) @ [KEnd]" by (cases a) auto
    with 3 True show ?thesis by (simp add: comp_def)
  next
    case False
    then have "key_rec h a = [leaf_token h a]" by (cases a) auto
    with 3 False show ?thesis by auto
  qed
qed auto

lemma order_key_rec: "order_key h = key_rec h"
  by (rule ext) (simp add: order_key_def key_loop_rec)

text \<open>No key is a proper prefix of another, so the flat comparison is decided inside one key.\<close>

lemma leaf_token_neq [simp]: "leaf_token h a \<noteq> KEnd" "leaf_token h a \<noteq> KExpr"
  by (cases a; auto simp: value_token_def number_token_def split: pyvalue.split pyfloat.split)+

lemma key_rec_Cons: "\<exists>t ts. key_rec h a = t # ts \<and> t \<noteq> KEnd"
  by (cases a) (auto simp: value_token_def number_token_def split: pyvalue.split pyfloat.split)

lemma key_rec_leaf: "\<not> (is_expression a \<and> kids a \<noteq> []) \<Longrightarrow> key_rec h a = [leaf_token h a]"
  by (cases a) auto

lemma key_rec_nested: "is_expression a \<Longrightarrow> kids a \<noteq> [] \<Longrightarrow>
    key_rec h a = KExpr # concat (map (key_rec h) (kids a)) @ [KEnd]"
  by (cases a) auto

definition prefix_free :: "('a \<Rightarrow> token list) \<Rightarrow> 'a \<Rightarrow> bool" where
  "prefix_free k a = (\<forall>b r s. k a @ r = k b @ s \<longrightarrow> k a = k b)"

lemma prefix_freeD: "prefix_free k a \<Longrightarrow> k a @ r = k b @ s \<Longrightarrow> k a = k b \<and> r = s"
  unfolding prefix_free_def by (metis same_append_eq)

lemma prefix_free_concat:
  assumes "\<And>x. x \<in> set xs \<Longrightarrow> prefix_free k x"
    and ne: "\<And>x. \<exists>t ts. k x = t # ts \<and> t \<noteq> KEnd"
    and "concat (map k xs) @ KEnd # r = concat (map k ys) @ KEnd # s"
  shows "map k xs = map k ys"
  using assms(1,3)
proof (induction xs arbitrary: ys)
  case Nil
  show ?case
  proof (cases ys)
    case (Cons y zs)
    with Nil ne [of y] show ?thesis by auto
  qed simp
next
  case (Cons x xs)
  show ?case
  proof (cases ys)
    case Nil
    with Cons.prems ne [of x] show ?thesis by auto
  next
    case ys: (Cons y zs)
    from Cons.prems have "prefix_free k x" by simp
    moreover have "k x @ (concat (map k xs) @ KEnd # r) = k y @ (concat (map k zs) @ KEnd # s)"
      using Cons.prems ys by simp
    ultimately have "k x = k y \<and> concat (map k xs) @ KEnd # r = concat (map k zs) @ KEnd # s"
      by (rule prefix_freeD)
    with Cons.IH [of zs] Cons.prems ys show ?thesis by simp
  qed
qed

lemma prefix_free_leaf:
  assumes "\<not> (is_expression a \<and> kids a \<noteq> [])"
  shows "prefix_free (key_rec h) a"
  unfolding prefix_free_def
proof (intro allI impI)
  fix b r s
  assume eq: "key_rec h a @ r = key_rec h b @ s"
  show "key_rec h a = key_rec h b"
  proof (cases "is_expression b \<and> kids b \<noteq> []")
    case True
    with eq assms have "leaf_token h a = KExpr" by (simp add: key_rec_leaf key_rec_nested)
    then show ?thesis by simp
  next
    case False
    with eq assms show ?thesis by (simp add: key_rec_leaf)
  qed
qed

lemma prefix_free_nested:
  assumes "is_expression a" "kids a \<noteq> []" and "\<And>x. x \<in> set (kids a) \<Longrightarrow> prefix_free (key_rec h) x"
  shows "prefix_free (key_rec h) a"
  unfolding prefix_free_def
proof (intro allI impI)
  fix b r s
  assume eq: "key_rec h a @ r = key_rec h b @ s"
  show "key_rec h a = key_rec h b"
  proof (cases "is_expression b \<and> kids b \<noteq> []")
    case True
    with eq assms(1,2) have "concat (map (key_rec h) (kids a)) @ KEnd # r =
        concat (map (key_rec h) (kids b)) @ KEnd # s" by (simp add: key_rec_nested)
    from prefix_free_concat [OF assms(3) key_rec_Cons this]
    have "map (key_rec h) (kids a) = map (key_rec h) (kids b)" by simp
    with True assms(1,2) show ?thesis by (simp add: key_rec_nested)
  next
    case False
    with eq assms(1,2) have "leaf_token h b = KExpr" by (simp add: key_rec_leaf key_rec_nested)
    then show ?thesis by simp
  qed
qed

lemma key_rec_prefix_free: "prefix_free (key_rec h) a"
proof (induction a)
  case (Expression xs)
  then show ?case
    by (cases "xs = []") (simp add: prefix_free_leaf, rule prefix_free_nested, simp_all)
qed (simp_all add: prefix_free_leaf)

text \<open>Two streams of prefix-free keys compare key by key.\<close>

lemma prefix_free_le:
  fixes u v :: "token list"
  assumes "\<And>r s. u @ r = v @ s \<Longrightarrow> u = v"
  shows "u @ r \<le> v @ s \<longleftrightarrow> u < v \<or> (u = v \<and> r \<le> s)"
  using assms
proof (induction u arbitrary: v)
  case Nil
  from Nil [of v "[]"] have "v = []" by simp
  then show ?case by simp
next
  case (Cons t u)
  show ?case
  proof (cases v)
    case Nil
    with Cons.prems [of "[]" "t # u"] show ?thesis by simp
  next
    case v: (Cons t' v')
    show ?thesis
    proof (cases "t = t'")
      case True
      with v Cons.prems Cons.IH [of v'] show ?thesis by auto
    next
      case False
      with v show ?thesis by auto
    qed
  qed
qed

lemma concat_keys_le:
  assumes pf: "\<And>x. prefix_free k x" and ne: "\<And>x. \<exists>t ts. k x = t # ts \<and> t \<noteq> KEnd"
  shows "concat (map k xs) @ [KEnd] \<le> concat (map k ys) @ [KEnd] \<longleftrightarrow> map k xs \<le> map k ys"
proof (induction xs arbitrary: ys)
  case Nil
  show ?case
  proof (cases ys)
    case (Cons y zs)
    obtain t ts where "k y = t # ts" "t \<noteq> KEnd" using ne by blast
    with Cons KEnd_less [of t] show ?thesis by simp
  qed simp
next
  case (Cons x xs)
  show ?case
  proof (cases ys)
    case Nil
    obtain t ts where "k x = t # ts" "t \<noteq> KEnd" using ne by blast
    with Nil KEnd_less [of t] show ?thesis by (simp add: not_less [symmetric])
  next
    case ys: (Cons y zs)
    have "k x @ concat (map k xs) @ [KEnd] \<le> k y @ concat (map k zs) @ [KEnd] \<longleftrightarrow>
        k x < k y \<or> (k x = k y \<and> concat (map k xs) @ [KEnd] \<le> concat (map k zs) @ [KEnd])"
      by (rule prefix_free_le) (rule conjunct1 [OF prefix_freeD [OF pf]])
    with Cons.IH [of zs] ys show ?thesis by simp
  qed
qed

section \<open>Properties\<close>

lemma keep_first_remdups: "keep_first ys out = out @ filter (\<lambda>y. y \<notin> set out) (rev (remdups (rev ys)))"
proof (induction ys rule: rev_induct)
  case (snoc y ys)
  then show ?case by (auto simp: set_keep_first)
qed simp

text \<open>The stack walk \<open>_variables\<close> answers each variable of the atom once, in the order of first
  appearance: the preorder occurrences with every later repetition dropped.\<close>

theorem variables_first_appearance:
  "variables a = rev (remdups (rev (var_occs a)))"
  by (simp add: variables_occs keep_first_remdups)

text \<open>\<open>Atom.map\<close>, an explicit stack of expanded and unexpanded nodes, applies the transform once to
  every node, children before parents: it is the structural bottom-up map.\<close>

theorem map_atoms_bottom_up:
  "map_atoms f (Expression xs) = f (Expression (map (map_atoms f) xs))
   \<and> (is_expression a \<or> map_atoms f a = f a)"
  by (cases a) (simp_all add: map_atoms_rec cong: map_cong)

text \<open>\<open>substitute\<close> (a dictionary keyed by variables handed to \<open>Atom.subs\<close>) is simultaneous
  substitution: every bound variable is replaced by its value, which is not substituted again, and
  everything else is kept.\<close>

theorem substitute_simultaneous:
  "dict_ok (=) bindings \<Longrightarrow>
     substitute (Variable x) bindings = (case dict_get (=) x bindings of Some v \<Rightarrow> v | None \<Rightarrow> Variable x)
     \<and> substitute (Expression xs) bindings = Expression (map (\<lambda>a. substitute a bindings) xs)
     \<and> (is_ground a \<longrightarrow> substitute a bindings = a)"
  by (auto simp: substitute_rec is_ground_occs intro!: subst_rec_none)

theorem substitute_simultaneous_witness:
  "substitute (Variable ''x'') [(''x'', Variable ''y''), (''y'', gnd (VInt 1))] = Variable ''y''"
  using substitute_simultaneous [of "[(''x'', Variable ''y''), (''y'', gnd (VInt 1))]" "''x''"] by simp

text \<open>Comparing the flat token streams of two nonempty expressions is comparing their children's
  keys one by one, a shorter expression first when it is a prefix: the standard order of terms; and
  no key is a proper prefix of another.\<close>

theorem order_key_childwise:
  "xs \<noteq> [] \<Longrightarrow> ys \<noteq> [] \<Longrightarrow>
     (order_key h (Expression xs) \<le> order_key h (Expression ys) \<longleftrightarrow>
        map (order_key h) xs \<le> map (order_key h) ys)
     \<and> (order_key h a @ r = order_key h b @ s \<longrightarrow> order_key h a = order_key h b)"
  using concat_keys_le [OF key_rec_prefix_free key_rec_Cons, of h xs ys]
    prefix_freeD [OF key_rec_prefix_free, of h a r b s]
  by (auto simp: order_key_rec)

theorem order_key_childwise_witness:
  "order_key sample_host (Expression [Symbol ''a'', Expression []]) \<le>
   order_key sample_host (Expression [Symbol ''a'', Expression [], gnd (VInt 1)])"
  using order_key_childwise [of "[Symbol ''a'', Expression []]" "[Symbol ''a'', Expression [], gnd (VInt 1)]" sample_host]
  by simp

end
