(* ===== verification/Unify.thy ===== *)
theory Unify
  imports Traversal
begin

text \<open>
  Alpha-equivalence, directional matching and symmetric unification of \<open>metta/_atoms/factories.py\<close>,
  with their work lists and binding stores. Matching is characterised by assignments, unification by
  its solution set; the unifier has no occurs check, so its loop runs on fuel.
\<close>

section \<open>Alpha-equivalence\<close>

text \<open>\<open>_alpha_names\<close>: both \<open>setdefault\<close> calls must answer the other name.\<close>

type_synonym renaming = "(string, string) dict \<times> (string, string) dict"

definition alpha_names :: "string \<Rightarrow> string \<Rightarrow> renaming \<Rightarrow> renaming option" where
  "alpha_names mine theirs r =
     (let ab = dict_setdefault (=) mine theirs (fst r) in
      if dict_get (=) mine ab \<noteq> Some theirs then None
      else let ba = dict_setdefault (=) theirs mine (snd r) in
        if dict_get (=) theirs ba \<noteq> Some mine then None else Some (ab, ba))"

fun alpha_all :: "(string \<times> string) list \<Rightarrow> renaming \<Rightarrow> renaming option" where
  "alpha_all [] r = Some r"
| "alpha_all ((x, y) # ps) r = (case alpha_names x y r of None \<Rightarrow> None | Some r' \<Rightarrow> alpha_all ps r')"

text \<open>One popped pair: the pairs it pushes and the renaming it leaves, or \<open>None\<close> for \<open>return False\<close>.\<close>

definition alpha_step :: "atom \<Rightarrow> atom \<Rightarrow> renaming \<Rightarrow> ((atom \<times> atom) list \<times> renaming) option" where
  "alpha_step x y r =
     (case (x, y) of
        (Variable v, Variable w) \<Rightarrow> map_option (Pair []) (alpha_names v w r)
      | (Expression xs, Expression ys) \<Rightarrow>
          if length xs \<noteq> length ys then None else Some (rev (zip xs ys), r)
      | (CarriedTerm _ k ns _, CarriedTerm _ k' ns' _) \<Rightarrow>
          if k \<noteq> k' \<or> length ns \<noteq> length ns' then None
          else map_option (Pair []) (alpha_all (zip ns ns') r)
      | _ \<Rightarrow> if atom_eq x y then Some ([], r) else None)"

lemma alpha_step_weight:
  "alpha_step x y r = Some (ps, r') \<Longrightarrow> sum_list (map (asize \<circ> fst) ps) < asize x"
  using sum_list_zip_fst [of asize "kids x" "kids y"]
  by (cases x; cases y) (auto simp: alpha_step_def rev_map [symmetric] split: if_splits)

function alpha_loop :: "(atom \<times> atom) list \<Rightarrow> renaming \<Rightarrow> bool" where
  "alpha_loop [] r = True"
| "alpha_loop ((x, y) # st) r =
     (case alpha_step x y r of None \<Rightarrow> False | Some (ps, r') \<Rightarrow> alpha_loop (ps @ st) r')"
  by pat_completeness auto
termination
  by (relation "measure (\<lambda>(st, r). sum_list (map (asize \<circ> fst) st))") (auto dest: alpha_step_weight)

definition alpha_eq :: "atom \<Rightarrow> atom \<Rightarrow> bool" where
  "alpha_eq a b = alpha_loop [(a, b)] ([], [])"

section \<open>Directional matching\<close>

text \<open>\<open>_unify(p, a, b)\<close> binds pattern variables only; \<open>_\<close> matches anything and binds nothing.\<close>

type_synonym bindings = "(string, atom) dict"

definition match_step :: "atom \<Rightarrow> atom \<Rightarrow> bindings \<Rightarrow> ((atom \<times> atom) list \<times> bindings) option" where
  "match_step x y b =
     (case x of
        Variable v \<Rightarrow>
          if v = ''_'' then Some ([], b)
          else (case dict_get (=) v b of
                  None \<Rightarrow> Some ([], dict_set (=) v y b)
                | Some seen \<Rightarrow> if atom_eq seen y then Some ([], b) else None)
      | Expression xs \<Rightarrow>
          if is_expression y
          then if length xs \<noteq> length (kids y) then None else Some (rev (zip xs (kids y)), b)
          else None
      | _ \<Rightarrow> if atom_eq x y then Some ([], b) else None)"

lemma match_step_weight:
  "match_step x y b = Some (ps, b') \<Longrightarrow> sum_list (map (asize \<circ> fst) ps) < asize x"
  using sum_list_zip_fst [of asize "kids x" "kids y"]
  by (cases x) (auto simp: match_step_def rev_map [symmetric] split: if_splits option.splits)

function match_loop :: "(atom \<times> atom) list \<Rightarrow> bindings \<Rightarrow> bindings option" where
  "match_loop [] b = Some b"
| "match_loop ((x, y) # st) b =
     (case match_step x y b of None \<Rightarrow> None | Some (ps, b') \<Rightarrow> match_loop (ps @ st) b')"
  by pat_completeness auto
termination
  by (relation "measure (\<lambda>(st, b). sum_list (map (asize \<circ> fst) st))") (auto dest: match_step_weight)

definition match :: "atom \<Rightarrow> atom \<Rightarrow> bindings option" where
  "match p a = match_loop [(p, a)] []"

section \<open>Symmetric unification\<close>

text \<open>
  \<open>_walk_binding\<close>: \<open>path\<close> is kept newest first and \<open>seen\<close> is its set; a path that runs into itself is
  not compressed.
\<close>

definition unseen :: "string list \<Rightarrow> bindings \<Rightarrow> nat" where
  "unseen path b = length (filter (\<lambda>(x, v). x \<notin> set path) b)"

lemma unseen_less: "dict_get (=) x b = Some v \<Longrightarrow> x \<notin> set path \<Longrightarrow> unseen (x # path) b < unseen path b"
proof -
  assume "dict_get (=) x b = Some v" and x: "x \<notin> set path"
  then have "(x, v) \<in> set b" by (metis dict_get_SomeD)
  then have "filter (\<lambda>(y, w). y \<notin> set (x # path)) b = filter (\<lambda>p. fst p \<noteq> x) (filter (\<lambda>(y, w). y \<notin> set path) b)"
    and "(x, v) \<in> set (filter (\<lambda>(y, w). y \<notin> set path) b)"
    using x by (auto simp: case_prod_unfold conj_commute)
  then show ?thesis unfolding unseen_def by (metis (mono_tags, lifting) fst_conv length_filter_less)
qed

function walk_path :: "bindings \<Rightarrow> string list \<Rightarrow> atom \<Rightarrow> string list \<times> atom" where
  "walk_path b path a =
     (case a of
        Variable x \<Rightarrow>
          if x \<noteq> ''_'' \<and> x \<notin> set path
          then (case dict_get (=) x b of None \<Rightarrow> (path, a) | Some v \<Rightarrow> walk_path b (x # path) v)
          else (path, a)
      | _ \<Rightarrow> (path, a))"
  by pat_completeness auto
termination
  by (relation "measure (\<lambda>(b, path, a). unseen path b)") (auto intro: unseen_less)

declare walk_path.simps [simp del]

definition walk_binding :: "atom \<Rightarrow> bindings \<Rightarrow> atom \<times> bindings" where
  "walk_binding a b =
     (let (path, r) = walk_path b [] a in
      if (case r of Variable x \<Rightarrow> x \<in> set path | _ \<Rightarrow> False) then (r, b)
      else (r, fold (\<lambda>x b. dict_set (=) x r b) (rev path) b))"

text \<open>One popped pair of \<open>_unify_symmetric\<close>.\<close>

definition unify_step :: "atom \<Rightarrow> atom \<Rightarrow> bindings \<Rightarrow> ((atom \<times> atom) list \<times> bindings) option" where
  "unify_step x0 y0 b0 =
     (let (x, b1) = walk_binding x0 b0; (y, b) = walk_binding y0 b1 in
      if atom_eq x y then Some ([], b)
      else (case x of
          Variable v \<Rightarrow> Some ([], if v = ''_'' then b else dict_set (=) v y b)
        | _ \<Rightarrow> (case y of
              Variable v \<Rightarrow> Some ([], if v = ''_'' then b else dict_set (=) v x b)
            | _ \<Rightarrow>
              if is_expression x \<and> is_expression y
              then if length (kids x) \<noteq> length (kids y) then None
                   else Some (rev (zip (kids x) (kids y)), b)
              else None)))"

text \<open>The outer \<open>None\<close> is running out of fuel, the inner one \<open>return False\<close>.\<close>

fun unify_loop :: "nat \<Rightarrow> (atom \<times> atom) list \<Rightarrow> bindings \<Rightarrow> bindings option option" where
  "unify_loop 0 st b = None"
| "unify_loop (Suc n) [] b = Some (Some b)"
| "unify_loop (Suc n) ((x, y) # st) b =
     (case unify_step x y b of
        None \<Rightarrow> Some None
      | Some (ps, b') \<Rightarrow> unify_loop n (ps @ st) b')"

text \<open>
  \<open>_resolve_binding\<close>: a post-order walk whose tasks visit a node, rebuild an expression from the
  results of its children, or leave a name whose value has just been computed (\<open>results\<close> newest
  first). A name that is active is a cycle and stays itself.
\<close>

datatype task = Visit atom | Rebuild atom | Leave string

fun task_weight :: "task \<Rightarrow> nat" where
  "task_weight (Visit a) = 2 * asize a"
| "task_weight _ = 1"

definition pending :: "bindings \<Rightarrow> string list \<Rightarrow> bindings \<Rightarrow> nat" where
  "pending b active resolved =
     sum_list (map (\<lambda>(x, v). if x \<in> set active \<or> dict_get (=) x resolved \<noteq> None then 0 else 2 * asize v + 2) b)"

lemma sum_list_less:
  assumes "p \<in> set ps" "f p + n \<le> (g p :: nat)" "\<And>q. q \<in> set ps \<Longrightarrow> f q \<le> g q"
  shows "sum_list (map f ps) + n \<le> sum_list (map g ps)"
  using assms
proof (induction ps)
  case (Cons q ps)
  have le: "sum_list (map f ps) \<le> sum_list (map g ps)" using Cons.prems(3) by (simp add: sum_list_mono)
  show ?case
  proof (cases "q = p")
    case True
    with le Cons.prems(2) show ?thesis by simp
  next
    case False
    with Cons have "sum_list (map f ps) + n \<le> sum_list (map g ps)" by simp
    with Cons.prems(3) [of q] show ?thesis by simp
  qed
qed simp

lemma pending_visit:
  assumes "dict_get (=) x b = Some v" "x \<notin> set active" "dict_get (=) x resolved = None"
  shows "pending b (x # active) resolved + (2 * asize v + 2) \<le> pending b active resolved"
proof -
  from assms(1) have "(x, v) \<in> set b" by (metis dict_get_SomeD)
  from sum_list_less [OF this, of "\<lambda>(y, v). if y \<in> set (x # active) \<or> dict_get (=) y resolved \<noteq> None then 0 else 2 * asize v + 2"
      "2 * asize v + 2" "\<lambda>(y, v). if y \<in> set active \<or> dict_get (=) y resolved \<noteq> None then 0 else 2 * asize v + 2"]
  show ?thesis using assms by (auto simp: pending_def)
qed

lemma pending_leave: "pending b (removeAll x active) (dict_set (=) x r resolved) \<le> pending b active resolved"
  unfolding pending_def by (rule sum_list_mono) auto

function resolve_loop ::
  "bindings \<Rightarrow> string list \<Rightarrow> bindings \<Rightarrow> task list \<Rightarrow> atom list \<Rightarrow> atom list \<times> bindings" where
  "resolve_loop b active resolved [] results = (results, resolved)"
| "resolve_loop b active resolved (Leave x # st) results =
     (case results of
        [] \<Rightarrow> ([], resolved)
      | r # _ \<Rightarrow> resolve_loop b (removeAll x active) (dict_set (=) x r resolved) st results)"
| "resolve_loop b active resolved (Rebuild a # st) results =
     (let (r, results') = mapped_candidate a results in resolve_loop b active resolved st (r # results'))"
| "resolve_loop b active resolved (Visit a # st) results =
     (case a of
        Variable x \<Rightarrow>
          (case dict_get (=) x resolved of
             Some r \<Rightarrow> resolve_loop b active resolved st (r # results)
           | None \<Rightarrow>
               (case dict_get (=) x b of
                  None \<Rightarrow> resolve_loop b active resolved st (a # results)
                | Some v \<Rightarrow>
                    if x = ''_'' \<or> x \<in> set active
                    then resolve_loop b active resolved st (a # results)
                    else resolve_loop b (x # active) resolved (Visit v # Leave x # st) results))
      | Expression xs \<Rightarrow> resolve_loop b active resolved (map Visit xs @ Rebuild a # st) results
      | _ \<Rightarrow> resolve_loop b active resolved st (a # results))"
  by pat_completeness auto
termination
proof (relation "measure (\<lambda>(b, active, resolved, st, results). pending b active resolved + sum_list (map task_weight st))")
  fix b resolved :: bindings and active x st results r rs
  show "((b, removeAll x active, dict_set (=) x r resolved, st, results), b, active, resolved, Leave x # st, results)
      \<in> measure (\<lambda>(b, active, resolved, st, results :: atom list). pending b active resolved + sum_list (map task_weight st))"
    using pending_leave [of b x active r resolved] by simp
next
  fix b resolved :: bindings and active a st x v and results :: "atom list"
  assume "a = Variable x" "dict_get (=) x resolved = None" "dict_get (=) x b = Some v" "\<not> (x = ''_'' \<or> x \<in> set active)"
  then show "((b, x # active, resolved, Visit v # Leave x # st, results), b, active, resolved, Visit a # st, results)
      \<in> measure (\<lambda>(b, active, resolved, st, results). pending b active resolved + sum_list (map task_weight st))"
    using pending_visit [of x b v active resolved] by simp
qed (auto simp: comp_def sum_list_const_mult)

definition resolve_binding :: "atom \<Rightarrow> bindings \<Rightarrow> string list \<Rightarrow> bindings \<Rightarrow> atom \<times> bindings" where
  "resolve_binding a b visiting resolved =
     (let (results, resolved') = resolve_loop b visiting resolved [Visit a] [] in (last results, resolved'))"

text \<open>\<open>unify\<close>: every operand against the anchor under one store, then the store normalized.\<close>

fun unify_operands :: "nat \<Rightarrow> atom \<Rightarrow> atom list \<Rightarrow> bindings \<Rightarrow> bindings option option" where
  "unify_operands n anchor [] b = Some (Some b)"
| "unify_operands n anchor (y # ys) b =
     (case unify_loop n [(anchor, y)] b of
        None \<Rightarrow> None
      | Some None \<Rightarrow> Some None
      | Some (Some b') \<Rightarrow> unify_operands n anchor ys b')"

fun normalize_loop :: "bindings \<Rightarrow> bindings \<Rightarrow> bindings \<Rightarrow> (atom, atom) dict \<Rightarrow> (atom, atom) dict" where
  "normalize_loop b [] resolved out = out"
| "normalize_loop b ((x, v) # rest) resolved out =
     (case dict_get (=) x resolved of
        Some r \<Rightarrow> normalize_loop b rest resolved (dict_set atom_eq (Variable x) r out)
      | None \<Rightarrow>
          (let (r, resolved') = resolve_binding v b [x] resolved in
           normalize_loop b rest (dict_set (=) x r resolved') (dict_set atom_eq (Variable x) r out)))"

definition unify :: "nat \<Rightarrow> atom \<Rightarrow> atom list \<Rightarrow> (atom, atom) dict option option" where
  "unify n left operands =
     map_option (map_option (\<lambda>b. normalize_loop b b [] [])) (unify_operands n left operands [])"

section \<open>What a match is\<close>

text \<open>
  An assignment fits a pattern to an atom when putting the assigned atoms for the named variables,
  and anything for each \<open>_\<close>, gives an equal atom.
\<close>

fun fits :: "(string \<Rightarrow> atom option) \<Rightarrow> atom \<Rightarrow> atom \<Rightarrow> bool" where
  "fits m (Variable x) a = (x = ''_'' \<or> (case m x of None \<Rightarrow> False | Some v \<Rightarrow> atom_eq v a))"
| "fits m (Expression ps) a = (is_expression a \<and> list_all2 (fits m) ps (kids a))"
| "fits m p a = atom_eq p a"

lemma fits_mono: "m \<subseteq>\<^sub>m m' \<Longrightarrow> fits m p a \<Longrightarrow> fits m' p a"
proof (induction p arbitrary: a)
  case (Variable x)
  then show ?case by (auto simp: map_le_def dom_def split: option.splits)
next
  case (Expression ps)
  then show ?case by (auto elim: list_all2_mono intro: list.rel_mono_strong)
qed auto

lemma fits_subst:
  "fits m p a \<Longrightarrow> ''_'' \<notin> set (var_occs p) \<Longrightarrow> atom_eq (subst_rec m p) a"
proof (induction p arbitrary: a)
  case (Expression ps)
  then have a: "a = Expression (kids a)" by (auto intro: expression_kids)
  from Expression have "list_all2 (\<lambda>p a. atom_eq (subst_rec m p) a) ps (kids a)"
    by (auto elim!: list.rel_mono_strong)
  with a show ?case by (metis atom_eq_Expression list.rel_map(1) subst_rec.simps(2))
qed (auto split: option.splits)

abbreviation pair_fits :: "(string \<Rightarrow> atom option) \<Rightarrow> (atom \<times> atom) list \<Rightarrow> bool" where
  "pair_fits m st \<equiv> \<forall>(p, a) \<in> set st. fits m p a"

definition assigned :: "bindings \<Rightarrow> string \<Rightarrow> atom option" where
  "assigned b x = dict_get (=) x b"

lemma assigned_set [simp]: "assigned (dict_set (=) x v b) = (assigned b)(x \<mapsto> v)"
  by (auto simp: assigned_def)

lemma list_all2_zip: "length xs = length ys \<Longrightarrow> (\<forall>(x, y) \<in> set (zip xs ys). P x y) = list_all2 P xs ys"
  by (induction xs ys rule: list_induct2) auto

lemma match_step_sound:
  "match_step x y b = Some (ps, b') \<Longrightarrow>
     assigned b \<subseteq>\<^sub>m assigned b' \<and> (assigned b' \<subseteq>\<^sub>m m \<longrightarrow> pair_fits m ps \<longrightarrow> fits m x y)"
proof (cases x)
  case (Variable v)
  assume "match_step x y b = Some (ps, b')"
  with Variable show ?thesis
    by (auto simp: match_step_def assigned_def [symmetric] map_le_def dom_def atom_key.eq_sym
        split: if_splits option.splits)
next
  case (Expression xs)
  assume "match_step x y b = Some (ps, b')"
  with Expression show ?thesis by (auto simp: match_step_def list_all2_zip split: if_splits)
qed (auto simp: match_step_def split: if_splits)

lemma match_loop_sound:
  "match_loop st b = Some b' \<Longrightarrow> assigned b \<subseteq>\<^sub>m assigned b' \<and> pair_fits (assigned b') st"
proof (induction st b rule: match_loop.induct)
  case (2 x y st b)
  then obtain ps c where step: "match_step x y b = Some (ps, c)" and rest: "match_loop (ps @ st) c = Some b'"
    by (auto split: option.splits)
  from "2.IH" [OF step refl rest] match_step_sound [OF step, of "assigned b'"]
  show ?case by (auto intro: map_le_trans)
qed auto

text \<open>Bindings agree with an assignment that extends them up to equality of atoms.\<close>

definition agrees :: "(string \<Rightarrow> atom option) \<Rightarrow> bindings \<Rightarrow> bool" where
  "agrees m b = (\<forall>x v. assigned b x = Some v \<longrightarrow> (\<exists>w. m x = Some w \<and> atom_eq w v))"

lemma match_step_complete:
  assumes "agrees m b" "fits m x y"
  shows "\<exists>ps b'. match_step x y b = Some (ps, b') \<and> agrees m b' \<and> pair_fits m ps"
proof (cases x)
  case (Variable v)
  show ?thesis
  proof (cases "v = ''_''")
    case False
    then obtain w where w: "m v = Some w" "atom_eq w y" using assms Variable by (auto split: option.splits)
    show ?thesis
    proof (cases "assigned b v")
      case None
      with w False Variable assms(1) show ?thesis
        by (auto simp: match_step_def assigned_def [symmetric] agrees_def)
    next
      case (Some u)
      with assms(1) w(1) have "atom_eq w u" by (force simp: agrees_def)
      with w(2) have "atom_eq u y" by (simp add: atom_eq_core)
      with Some False Variable assms(1) show ?thesis by (auto simp: match_step_def assigned_def)
    qed
  qed (use Variable assms in \<open>auto simp: match_step_def\<close>)
next
  case (Expression xs)
  with assms have len: "length xs = length (kids y)" by (auto dest: list_all2_lengthD)
  with Expression assms show ?thesis by (auto simp: match_step_def list_all2_zip)
qed (use assms in \<open>auto simp: match_step_def\<close>)

lemma match_loop_complete:
  "agrees m b \<Longrightarrow> pair_fits m st \<Longrightarrow> \<exists>b'. match_loop st b = Some b' \<and> agrees m b'"
proof (induction st b rule: match_loop.induct)
  case (2 x y st b)
  then obtain ps c where step: "match_step x y b = Some (ps, c)" "agrees m c" "pair_fits m ps"
    using match_step_complete [of m b x y] by auto
  with "2.prems" have "pair_fits m (ps @ st)" by auto
  from "2.IH" [OF step(1) refl step(2) this] step(1) show ?case by simp
qed auto

lemma match_step_ok: "match_step x y b = Some (ps, b') \<Longrightarrow> dict_ok (=) b \<Longrightarrow> dict_ok (=) b'"
  by (cases x) (auto simp: match_step_def plain_key.dict_ok_set split: if_splits option.splits)

lemma match_loop_ok: "match_loop st b = Some b' \<Longrightarrow> dict_ok (=) b \<Longrightarrow> dict_ok (=) b'"
  by (induction st b rule: match_loop.induct) (auto split: option.splits dest: match_step_ok)

lemma match_complete: "fits m p a \<Longrightarrow> \<exists>b. match p a = Some b \<and> agrees m b"
  unfolding match_def by (rule match_loop_complete) (auto simp: agrees_def assigned_def)

lemma match_complete_agrees: "fits m p a \<Longrightarrow> match p a = Some b \<Longrightarrow> agrees m b"
  using match_complete by fastforce

lemma match_sound: "match p a = Some b \<Longrightarrow> fits (assigned b) p a"
  unfolding match_def using match_loop_sound [of "[(p, a)]" "[]" b] by simp

lemma match_None_iff: "match p a = None \<longleftrightarrow> (\<forall>m. \<not> fits m p a)"
  using match_sound match_complete by (cases "match p a") fastforce+

text \<open>C2. \<open>_match\<close> finds a match exactly when one exists: what it answers fits, every fitting assignment
  agrees with it on every name it binds (so it is the least one), and it answers \<open>None\<close> only when
  nothing fits.\<close>

theorem match_exact:
  "(match p a = Some b \<longrightarrow> fits (assigned b) p a) \<and>
   (match p a = None \<longleftrightarrow> (\<forall>m. \<not> fits m p a)) \<and>
   (match p a = Some b \<and> fits m p a \<longrightarrow> agrees m b)"
  using match_sound match_complete_agrees match_None_iff by blast

theorem match_exact_witness:
  "fits (assigned [(''x'', gnd (VInt 1))])
     (Expression [Variable ''x'', Variable ''_'', Variable ''x''])
     (Expression [gnd (VInt 1), Symbol ''a'', gnd (VInt 1)])"
proof -
  let ?p = "Expression [Variable ''x'', Variable ''_'', Variable ''x'']"
  let ?a = "Expression [gnd (VInt 1), Symbol ''a'', gnd (VInt 1)]"
  have "match ?p ?a = Some [(''x'', gnd (VInt 1))]"
    by (simp add: match_def match_step_def atom_eq_core)
  then show ?thesis using match_exact [of ?p ?a "[(''x'', gnd (VInt 1))]"] by blast
qed

text \<open>Substituting what \<open>_match\<close> answered into a pattern with no \<open>_\<close> gives the matched atom back.\<close>

theorem match_substitute:
  "match p a = Some b \<Longrightarrow> ''_'' \<notin> set (variables p) \<Longrightarrow> atom_eq (substitute p b) a"
proof -
  assume "match p a = Some b" "''_'' \<notin> set (variables p)"
  moreover from this have "fits (assigned b) p a" "dict_ok (=) b"
    using match_sound match_loop_ok [of "[(p, a)]" "[]" b] by (simp_all add: match_def)
  ultimately show ?thesis
    using fits_subst [of "assigned b" p a] by (simp add: substitute_rec set_variables assigned_def [abs_def])
qed

theorem match_substitute_witness:
  "atom_eq (substitute (Expression [Symbol ''f'', Variable ''x'']) [(''x'', Symbol ''a'')])
     (Expression [Symbol ''f'', Symbol ''a''])"
  by (rule match_substitute)
    (simp_all add: match_def match_step_def atom_eq_core variables_occs)

section \<open>What alpha-equivalence is\<close>

text \<open>
  The shape of an atom with every variable name erased, and the names it erases, in order; a carried
  term names the atom's own variables.
\<close>

fun skel :: "atom \<Rightarrow> atom" where
  "skel (Variable x) = Variable []"
| "skel (CarriedTerm c k ns t) = CarriedTerm 0 k (map (\<lambda>_. []) ns) []"
| "skel (Expression xs) = Expression (map skel xs)"
| "skel a = core a"

fun anames :: "atom \<Rightarrow> string list" where
  "anames (Variable x) = [x]"
| "anames (CarriedTerm c k ns t) = ns"
| "anames (Expression xs) = concat (map anames xs)"
| "anames a = []"

fun rename :: "(string \<Rightarrow> string) \<Rightarrow> atom \<Rightarrow> atom" where
  "rename f (Variable x) = Variable (f x)"
| "rename f (CarriedTerm c k ns t) = CarriedTerm c k (map f ns) t"
| "rename f (Expression xs) = Expression (map (rename f) xs)"
| "rename f a = a"

definition one_one :: "(string \<times> string) set \<Rightarrow> bool" where
  "one_one R = (\<forall>(x, y) \<in> R. \<forall>(x', y') \<in> R. x = x' \<longleftrightarrow> y = y')"

definition pairs_of :: "atom \<Rightarrow> atom \<Rightarrow> (string \<times> string) set" where
  "pairs_of x y = set (zip (anames x) (anames y))"

definition represents :: "renaming \<Rightarrow> (string \<times> string) set \<Rightarrow> bool" where
  "represents r R =
     (one_one R \<and> (\<forall>x y. dict_get (=) x (fst r) = Some y \<longleftrightarrow> (x, y) \<in> R)
      \<and> (\<forall>x y. dict_get (=) y (snd r) = Some x \<longleftrightarrow> (x, y) \<in> R))"

lemma one_one_insert:
  "one_one (insert (x, y) R) \<longleftrightarrow> one_one R \<and> (\<forall>(x', y') \<in> R. x = x' \<longleftrightarrow> y = y')"
  by (auto simp: one_one_def)

lemma one_one_mono: "one_one S \<Longrightarrow> R \<subseteq> S \<Longrightarrow> one_one R"
  unfolding one_one_def by blast

lemma represents_one_one: "represents r R \<Longrightarrow> one_one R"
  by (simp add: represents_def)

lemma alpha_names_spec:
  assumes "represents r R"
  shows "case alpha_names x y r of
      None \<Rightarrow> \<not> one_one (insert (x, y) R)
    | Some r' \<Rightarrow> represents r' (insert (x, y) R)"
proof -
  obtain ab ba where r: "r = (ab, ba)" by force
  have ab: "dict_get (=) x ab = Some y \<longleftrightarrow> (x, y) \<in> R" and ba: "dict_get (=) y ba = Some x \<longleftrightarrow> (x, y) \<in> R"
    and one: "one_one R" for x y
    using assms r by (auto simp: represents_def)
  have absurd: "\<not> one_one (insert (x, y) R)" if "(x, y') \<in> R \<and> y' \<noteq> y \<or> (x', y) \<in> R \<and> x' \<noteq> x" for x' y'
    using that by (auto simp: one_one_insert)
  have fresh: "one_one (insert (x, y) R)" if "dict_get (=) x ab = None" "dict_get (=) y ba = None"
  proof -
    have "\<forall>(x', y') \<in> R. x \<noteq> x' \<and> y \<noteq> y'" using that by (auto simp: ab [symmetric]) (auto simp: ba [symmetric] ab)
    with one show ?thesis by (auto simp: one_one_insert)
  qed
  let ?clash = "\<exists>x' y'. (x, y') \<in> R \<and> y' \<noteq> y \<or> (x', y) \<in> R \<and> x' \<noteq> x"
  consider (old) "(x, y) \<in> R" | (clash) ?clash
    | (new) "dict_get (=) x ab = None" "dict_get (=) y ba = None"
    by (cases "dict_get (=) x ab"; cases "dict_get (=) y ba") (auto simp: ab ba)
  then show ?thesis
  proof cases
    case old
    then have "dict_get (=) x ab = Some y" "dict_get (=) y ba = Some x" using ab ba by auto
    then have "alpha_names x y r = Some r" using r by (simp add: alpha_names_def dict_setdefault_def)
    with old assms show ?thesis by (simp add: insert_absorb)
  next
    case clash
    then obtain x' y' where clash: "(x, y') \<in> R \<and> y' \<noteq> y \<or> (x', y) \<in> R \<and> x' \<noteq> x" by blast
    have "alpha_names x y r = None"
    proof (cases "(x, y') \<in> R \<and> y' \<noteq> y")
      case True
      with ab have "dict_get (=) x ab = Some y'" by blast
      with True r show ?thesis by (simp add: alpha_names_def dict_setdefault_def)
    next
      case False
      with clash ba have "dict_get (=) y ba = Some x'" "x' \<noteq> x" by blast+
      with r show ?thesis by (simp add: alpha_names_def Let_def dict_setdefault_def)
    qed
    with absurd [OF clash] show ?thesis by simp
  next
    case new
    then have "alpha_names x y r = Some (dict_set (=) x y ab, dict_set (=) y x ba)"
      using r by (simp add: alpha_names_def dict_setdefault_def)
    moreover have "(x, y') \<notin> R" "(x', y) \<notin> R" for x' y'
      using new by (simp_all add: ab [symmetric], simp add: ba [symmetric] ab)
    ultimately show ?thesis using fresh [OF new] ab ba by (auto simp: represents_def)
  qed
qed

lemma alpha_all_spec:
  "represents r R \<Longrightarrow>
     (case alpha_all ps r of None \<Rightarrow> \<not> one_one (R \<union> set ps) | Some r' \<Rightarrow> represents r' (R \<union> set ps))"
proof (induction ps r arbitrary: R rule: alpha_all.induct)
  case (2 x y ps r)
  note step = alpha_names_spec [OF "2.prems", of x y]
  show ?case
  proof (cases "alpha_names x y r")
    case None
    with step show ?thesis using one_one_mono [of "R \<union> set ((x, y) # ps)" "insert (x, y) R"] by auto
  next
    case (Some r')
    with step have "represents r' (insert (x, y) R)" by simp
    from "2.IH" [OF Some this] Some show ?thesis by (auto split: option.split)
  qed
qed simp

lemma vcore_idem [simp]: "vcore (vcore v) = vcore v"
  by (induction v rule: vcore.induct) auto

lemma skel_of_core: "skel (core x) = skel x \<and> anames (core x) = anames x"
  by (induction x rule: core.induct) (auto simp: comp_def intro!: arg_cong [where f = concat])

lemma core_skel: "core x = core y \<Longrightarrow> skel x = skel y \<and> anames x = anames y"
  by (metis skel_of_core)

lemma length_anames_skel: "length (anames (skel x)) = length (anames x)"
  by (induction x rule: skel.induct) (auto simp: length_concat comp_def intro!: arg_cong [where f = sum_list])

lemma skel_length: "skel x = skel y \<Longrightarrow> length (anames x) = length (anames y)"
  by (metis length_anames_skel)

lemma skel_leaf:
  "\<not> is_expression x \<Longrightarrow> skel x = skel y \<Longrightarrow> anames x = [] \<Longrightarrow> core x = core y"
  by (cases x; cases y) auto

definition pairs_sound :: "(atom \<times> atom) list \<Rightarrow> bool" where
  "pairs_sound st = (\<forall>(x, y) \<in> set st. skel x = skel y)"

definition pairs_names :: "(atom \<times> atom) list \<Rightarrow> (string \<times> string) set" where
  "pairs_names st = (\<Union>(x, y) \<in> set st. pairs_of x y)"

lemma pairs_simps [simp]:
  "pairs_sound []" "pairs_sound ((x, y) # st) \<longleftrightarrow> skel x = skel y \<and> pairs_sound st"
  "pairs_sound (ps @ st) \<longleftrightarrow> pairs_sound ps \<and> pairs_sound st"
  "pairs_sound (rev ps) = pairs_sound ps"
  "pairs_names [] = {}" "pairs_names ((x, y) # st) = pairs_of x y \<union> pairs_names st"
  "pairs_names (ps @ st) = pairs_names ps \<union> pairs_names st"
  "pairs_names (rev ps) = pairs_names ps"
  by (auto simp: pairs_sound_def pairs_names_def)

lemma pairs_zip:
  "length xs = length ys \<Longrightarrow>
     (pairs_sound (zip xs ys) \<longleftrightarrow> map skel xs = map skel ys) \<and>
     (pairs_sound (zip xs ys) \<longrightarrow>
        pairs_names (zip xs ys) = set (zip (concat (map anames xs)) (concat (map anames ys))))"
proof (induction xs ys rule: list_induct2)
  case (Cons x xs y ys)
  show ?case
  proof (cases "skel x = skel y")
    case True
    from skel_length [OF True] Cons.IH show ?thesis by (simp add: True pairs_of_def)
  qed simp
qed simp

lemma alpha_step_spec:
  assumes "represents r R"
  shows "case alpha_step x y r of
      None \<Rightarrow> \<not> (skel x = skel y \<and> one_one (R \<union> pairs_of x y))
    | Some (ps, r') \<Rightarrow> \<exists>R'. represents r' R' \<and> (skel x = skel y \<longleftrightarrow> pairs_sound ps) \<and>
        (skel x = skel y \<longrightarrow> R' \<union> pairs_names ps = R \<union> pairs_of x y)"
proof -
  consider (var) v w where "x = Variable v" "y = Variable w"
    | (expr) xs ys where "x = Expression xs" "y = Expression ys"
    | (carried) c k ns t c' k' ns' t' where "x = CarriedTerm c k ns t" "y = CarriedTerm c' k' ns' t'"
    | (other) "\<not> (is_expression x \<and> is_expression y)" "metatype x \<noteq> ''Variable'' \<or> metatype y \<noteq> ''Variable''"
      "\<forall>c k ns t c' k' ns' t'. x \<noteq> CarriedTerm c k ns t \<or> y \<noteq> CarriedTerm c' k' ns' t'"
    by (cases x; cases y) auto
  then show ?thesis
  proof cases
    case var
    with alpha_names_spec [OF assms, of v w] show ?thesis
      by (auto simp: alpha_step_def pairs_of_def split: option.splits)
  next
    case expr
    with assms pairs_zip [of xs ys] show ?thesis
      by (auto simp: alpha_step_def pairs_of_def dest: map_eq_imp_length_eq)
  next
    case carried
    with alpha_all_spec [OF assms, of "zip ns ns'"] assms show ?thesis
      by (auto simp: alpha_step_def pairs_of_def map_replicate_const split: option.splits dest: map_eq_imp_length_eq)
  next
    case other
    then have "alpha_step x y r = (if atom_eq x y then Some ([], r) else None)"
      "skel x = skel y \<longleftrightarrow> core x = core y" "core x = core y \<Longrightarrow> anames x = []"
      by (cases x; cases y; simp add: alpha_step_def)+
    with assms show ?thesis by (auto simp: atom_eq_core pairs_of_def)
  qed
qed

lemma alpha_loop_spec:
  "represents r R \<Longrightarrow> alpha_loop st r \<longleftrightarrow> pairs_sound st \<and> one_one (R \<union> pairs_names st)"
proof (induction st r arbitrary: R rule: alpha_loop.induct)
  case (1 r)
  then show ?case by (simp add: represents_one_one)
next
  case (2 x y st r)
  note step = alpha_step_spec [OF "2.prems", of x y]
  show ?case
  proof (cases "alpha_step x y r")
    case None
    with step have "\<not> (skel x = skel y \<and> one_one (R \<union> pairs_of x y))" by simp
    then have "\<not> (skel x = skel y \<and> one_one (R \<union> (pairs_of x y \<union> pairs_names st)))"
      using one_one_mono [of "R \<union> (pairs_of x y \<union> pairs_names st)" "R \<union> pairs_of x y"] by blast
    with None show ?thesis by simp
  next
    case (Some p)
    obtain ps r' where p: "p = (ps, r')" by (cases p)
    from step Some p obtain R' where R': "represents r' R'" "skel x = skel y \<longleftrightarrow> pairs_sound ps"
      "skel x = skel y \<Longrightarrow> R' \<union> pairs_names ps = R \<union> pairs_of x y" by auto
    from "2.IH" [OF Some p [symmetric] R'(1)] Some p R' show ?thesis by (auto simp: Un_assoc [symmetric])
  qed
qed

lemma core_rename_leaf:
  "\<not> is_expression a \<Longrightarrow> core (rename f a) = core b \<longleftrightarrow> skel a = skel b \<and> map f (anames a) = anames b"
  by (cases a; cases b) (auto dest: map_eq_imp_length_eq)

lemma list_all2_skel: "list_all2 (\<lambda>x y. skel x = skel y \<and> P x y) xs ys \<Longrightarrow> map skel xs = map skel ys"
  by (induction xs ys rule: list_all2_induct) auto

lemma atom_eq_rename: "core (rename f a) = core b \<longleftrightarrow> skel a = skel b \<and> map f (anames a) = anames b"
proof (induction a arbitrary: b)
  case (Expression xs)
  show ?case
  proof (cases b)
    case (Expression ys)
    have "map core (map (rename f) xs) = map core ys \<longleftrightarrow>
        list_all2 (\<lambda>x y. skel x = skel y \<and> map f (anames x) = anames y) xs ys"
      unfolding map_core_all2 list.rel_map by (rule list.rel_cong) (use Expression.IH in \<open>auto simp: atom_eq_core\<close>)
    also have "\<dots> \<longleftrightarrow> map skel xs = map skel ys \<and> map f (concat (map anames xs)) = concat (map anames ys)"
    proof (cases "map skel xs = map skel ys")
      case True
      then have "length xs = length ys" by (rule map_eq_imp_length_eq)
      from this True show ?thesis
        by (induction xs ys rule: list_induct2) (auto simp: append_eq_append_conv dest!: skel_length)
    next
      case False
      then show ?thesis by (auto simp: list_all2_skel)
    qed
    finally show ?thesis using Expression by simp
  qed auto
qed (rule core_rename_leaf, simp)+

lemma one_one_renaming:
  assumes "length ns = length ms"
  shows "one_one (set (zip ns ms)) \<longleftrightarrow> (\<exists>f. inj_on f (set ns) \<and> map f ns = ms)"
proof
  assume one: "one_one (set (zip ns ms))"
  define f where "f x = the (map_of (zip ns ms) x)" for x
  have f: "f x = y" if "(x, y) \<in> set (zip ns ms)" for x y
  proof -
    from that obtain z where z: "map_of (zip ns ms) x = Some z"
      by (metis weak_map_of_SomeI)
    then have "(x, z) \<in> set (zip ns ms)" by (rule map_of_SomeD)
    with one that have "z = y" by (auto simp: one_one_def)
    with z show ?thesis by (simp add: f_def)
  qed
  have eq: "map f ns = ms" using assms f by (auto simp: list_eq_iff_nth_eq set_zip)
  have "inj_on f (set ns)"
  proof (rule inj_onI)
    fix x x' assume "x \<in> set ns" "x' \<in> set ns" and same: "f x = f x'"
    then obtain y y' where "(x, y) \<in> set (zip ns ms)" "(x', y') \<in> set (zip ns ms)"
      using assms by (meson in_set_impl_in_set_zip1)
    with same f have "(x, f x) \<in> set (zip ns ms)" "(x', f x) \<in> set (zip ns ms)" by metis+
    with one show "x = x'" unfolding one_one_def by blast
  qed
  with eq show "\<exists>f. inj_on f (set ns) \<and> map f ns = ms" by blast
next
  assume "\<exists>f. inj_on f (set ns) \<and> map f ns = ms"
  then show "one_one (set (zip ns ms))"
    by (auto simp: one_one_def zip_map2 set_zip inj_on_eq_iff)
qed

lemma alpha_eq_iff:
  "alpha_eq a b \<longleftrightarrow> skel a = skel b \<and> (\<exists>f. inj_on f (set (anames a)) \<and> map f (anames a) = anames b)"
proof -
  have "alpha_eq a b \<longleftrightarrow> skel a = skel b \<and> one_one (pairs_of a b)"
    unfolding alpha_eq_def
    by (subst alpha_loop_spec [of _ "{}"]) (auto simp: represents_def one_one_def)
  then show ?thesis using one_one_renaming [OF skel_length] by (auto simp: pairs_of_def)
qed

text \<open>C3. \<open>alpha_eq\<close>, one work list over two growing dictionaries, answers true exactly when some
  injective renaming of the left atom's names (the names inside its carried terms included) makes it
  equal to the right one.\<close>

theorem alpha_eq_renaming:
  "alpha_eq a b \<longleftrightarrow> (\<exists>f. inj_on f (set (anames a)) \<and> atom_eq (rename f a) b)"
  by (auto simp: alpha_eq_iff atom_eq_core atom_eq_rename)

end
