(* ===== verification/Unifier.thy ===== *)
theory Unifier
  imports Unify
begin

text \<open>
  The unifier of \<open>metta/_atoms/factories.py\<close> against its specification: each popped pair keeps the set
  of solutions, so the binding store of a finished run has exactly the unifiers of its operands; the
  loop returns on a ground operand and can run for ever without one.
\<close>

section \<open>Solutions\<close>

text \<open>A total assignment applied to an atom, and what it is to solve a store.\<close>

definition app :: "(string \<Rightarrow> atom) \<Rightarrow> atom \<Rightarrow> atom" where
  "app \<sigma> a = subst_rec (\<lambda>x. Some (\<sigma> x)) a"

lemma app_simps [simp]:
  "app \<sigma> (Variable x) = \<sigma> x"
  "app \<sigma> (Expression xs) = Expression (map (app \<sigma>) xs)"
  by (simp_all add: app_def)

lemma app_leaf: "\<not> is_expression a \<Longrightarrow> var_occs a = [] \<Longrightarrow> app \<sigma> a = a"
  by (cases a) (auto simp: app_def)

lemma app_ground: "is_ground a \<Longrightarrow> app \<sigma> a = a"
  by (auto simp: app_def is_ground_occs intro!: subst_rec_none)

lemma app_core: "core (app \<sigma> (core a)) = core (app \<sigma> a)"
  by (induction a rule: core.induct) (auto simp: app_def)

lemma app_cong: "core a = core b \<Longrightarrow> core (app \<sigma> a) = core (app \<sigma> b)"
  by (metis app_core)

definition same :: "(string \<Rightarrow> atom) \<Rightarrow> atom \<Rightarrow> atom \<Rightarrow> bool" where
  "same \<sigma> a b = (core (app \<sigma> a) = core (app \<sigma> b))"

lemma same_refl [simp]: "same \<sigma> a a" and same_sym: "same \<sigma> a b = same \<sigma> b a"
  and same_trans: "same \<sigma> a b \<Longrightarrow> same \<sigma> b c \<Longrightarrow> same \<sigma> a c"
  by (auto simp: same_def)

lemma same_cong: "same \<sigma> a b \<Longrightarrow> same \<sigma> c d \<Longrightarrow> same \<sigma> a c = same \<sigma> b d"
  by (simp add: same_def)

definition solves :: "(string \<Rightarrow> atom) \<Rightarrow> bindings \<Rightarrow> bool" where
  "solves \<sigma> b = (\<forall>x v. assigned b x = Some v \<longrightarrow> same \<sigma> (Variable x) v)"

lemma solves_Nil [simp]: "solves \<sigma> []"
  by (simp add: solves_def assigned_def)

lemma solves_set:
  "assigned b x = None \<Longrightarrow> solves \<sigma> (dict_set (=) x v b) \<longleftrightarrow> solves \<sigma> b \<and> same \<sigma> (Variable x) v"
  by (auto simp: solves_def)

section \<open>The store invariant\<close>

text \<open>No binding of \<open>_\<close>, no \<open>_\<close> in a value, and no cycle of variables bound to variables.\<close>

definition named :: "atom \<Rightarrow> bool" where
  "named a = (''_'' \<notin> set (var_occs a))"

definition aliases :: "bindings \<Rightarrow> (string \<times> string) set" where
  "aliases b = {(y, x). assigned b x = Some (Variable y)}"

definition store_ok :: "bindings \<Rightarrow> bool" where
  "store_ok b = (acyclic (aliases b) \<and> (\<forall>x v. assigned b x = Some v \<longrightarrow> x \<noteq> ''_'' \<and> named v))"

lemma store_ok_Nil [simp]: "store_ok []"
  by (simp add: store_ok_def assigned_def aliases_def acyclic_def)

lemma unbound_star: "assigned b w = None \<Longrightarrow> (v, w) \<in> (aliases b)\<^sup>* \<Longrightarrow> v = w"
  by (erule rtranclE) (auto simp: aliases_def)

lemma store_ok_set:
  assumes "store_ok b" "assigned b x = None" "x \<noteq> ''_''" "named v"
    and "\<And>y. v = Variable y \<Longrightarrow> y \<noteq> x \<and> assigned b y = None"
  shows "store_ok (dict_set (=) x v b)"
proof -
  have "acyclic (aliases (dict_set (=) x v b))"
  proof (cases "\<exists>y. v = Variable y")
    case True
    then obtain y where v: "v = Variable y" by blast
    have "aliases (dict_set (=) x v b) = insert (y, x) (aliases b)"
      using assms(2) v by (auto simp: aliases_def)
    moreover have "(x, y) \<notin> (aliases b)\<^sup>*" using unbound_star assms(5) [OF v] by blast
    ultimately show ?thesis using assms(1) by (simp add: store_ok_def)
  next
    case False
    then have "aliases (dict_set (=) x v b) \<subseteq> aliases b" by (auto simp: aliases_def split: if_splits)
    with assms(1) show ?thesis by (auto simp: store_ok_def intro: acyclic_subset)
  qed
  with assms show ?thesis by (auto simp: store_ok_def)
qed

section \<open>Walking an alias path\<close>

fun chain :: "bindings \<Rightarrow> atom \<Rightarrow> string list \<Rightarrow> atom \<Rightarrow> bool" where
  "chain b a [] r = (a = r)"
| "chain b a (x # xs) r =
     (a = Variable x \<and> (case assigned b x of None \<Rightarrow> False | Some v \<Rightarrow> chain b v xs r))"

lemma walk_path_chain:
  "walk_path b path a = (path', r) \<Longrightarrow>
     (\<exists>xs. path' = rev xs @ path \<and> chain b a xs r)
     \<and> (\<forall>x. r = Variable x \<longrightarrow> x = ''_'' \<or> x \<in> set path' \<or> assigned b x = None)"
proof (induction b path a rule: walk_path.induct)
  case (1 b path a)
  show ?case
  proof (cases "\<exists>x v. a = Variable x \<and> x \<noteq> ''_'' \<and> x \<notin> set path \<and> dict_get (=) x b = Some v")
    case True
    then obtain x v where a: "a = Variable x" "x \<noteq> ''_''" "x \<notin> set path" "dict_get (=) x b = Some v" by blast
    with "1.prems" have "walk_path b (x # path) v = (path', r)" by (simp add: walk_path.simps [of b path "Variable x"])
    from "1.IH" [OF a(1) conjI [OF a(2,3)] a(4) this] obtain xs where
      "path' = rev xs @ x # path" "chain b v xs r"
      "\<forall>x. r = Variable x \<longrightarrow> x = ''_'' \<or> x \<in> set path' \<or> assigned b x = None" by blast
    with a show ?thesis by (intro conjI exI [of _ "x # xs"]) (auto simp: assigned_def)
  next
    case False
    with "1.prems" have "path' = path" "r = a"
      by (auto simp: walk_path.simps [of b path a] split: atom.splits if_splits option.splits)
    with False show ?thesis by (auto simp: assigned_def intro!: exI [of _ "[]"])
  qed
qed

lemma chain_same: "chain b a xs r \<Longrightarrow> solves \<sigma> b \<Longrightarrow> same \<sigma> a r \<and> (\<forall>x \<in> set xs. same \<sigma> (Variable x) r)"
proof (induction b a xs r rule: chain.induct)
  case (2 b a x xs r)
  then obtain v where v: "a = Variable x" "assigned b x = Some v" "chain b v xs r" by (auto split: option.splits)
  with 2 have "same \<sigma> v r \<and> (\<forall>x \<in> set xs. same \<sigma> (Variable x) r)" by blast
  moreover have "same \<sigma> (Variable x) v" using v 2(3) by (simp add: solves_def)
  ultimately show ?case using v(1) same_trans by auto
qed simp

lemma chain_next:
  "chain b a xs r \<Longrightarrow> x \<in> set xs \<Longrightarrow>
     \<exists>v. assigned b x = Some v \<and> (v = r \<or> (\<exists>y \<in> set xs. v = Variable y))"
proof (induction b a xs r rule: chain.induct)
  case (2 b a z xs r)
  then obtain v where v: "assigned b z = Some v" "chain b v xs r" by (auto split: option.splits)
  moreover have "v = r \<or> (\<exists>y \<in> set xs. v = Variable y)" using v(2) by (cases xs) auto
  ultimately show ?case using 2 by auto
qed simp

lemma chain_alias:
  "chain b a xs (Variable y) \<Longrightarrow> \<forall>x \<in> set xs. (y, x) \<in> (aliases b)\<^sup>+"
proof (induction b a xs "Variable y" rule: chain.induct)
  case (2 b a z xs)
  then obtain v where v: "assigned b z = Some v" "chain b v xs (Variable y)" by (auto split: option.splits)
  with 2 have tail: "\<forall>x \<in> set xs. (y, x) \<in> (aliases b)\<^sup>+" by blast
  have "(y, z) \<in> (aliases b)\<^sup>+"
  proof (cases xs)
    case Nil
    with v show ?thesis by (auto simp: aliases_def)
  next
    case (Cons w ws)
    with v tail have "(y, w) \<in> (aliases b)\<^sup>+" "(w, z) \<in> aliases b" by (auto simp: aliases_def)
    then show ?thesis by (rule trancl_into_trancl)
  qed
  with tail show ?case by simp
qed simp

lemma assigned_fold:
  "assigned (fold (\<lambda>x b. dict_set (=) x r b) xs b) y = (if y \<in> set xs then Some r else assigned b y)"
  by (induction xs arbitrary: b) auto

text \<open>A walk answers a non-variable or an unbound variable, changes no solution and keeps the invariant.\<close>

lemma walk_binding_spec:
  assumes ok: "store_ok b" and "named a" and walk: "walk_binding a b = (r, b')"
  shows "store_ok b' \<and> named r \<and> (\<forall>x. r = Variable x \<longrightarrow> assigned b' x = None)
    \<and> (\<forall>\<sigma>. solves \<sigma> b' = solves \<sigma> b) \<and> (\<forall>\<sigma>. solves \<sigma> b \<longrightarrow> same \<sigma> a r)
    \<and> (\<forall>x. assigned b' x = None \<longleftrightarrow> assigned b x = None)"
proof -
  obtain path where path: "walk_path b [] a = (path, r)"
    using walk by (auto simp: walk_binding_def split: prod.splits if_splits)
  then obtain xs where xs: "path = rev xs" "chain b a xs r"
    and stop: "\<forall>x. r = Variable x \<longrightarrow> x = ''_'' \<or> x \<in> set path \<or> assigned b x = None"
    using walk_path_chain [OF path] by auto
  have nxt: "\<exists>v. assigned b x = Some v \<and> (v = r \<or> (\<exists>y \<in> set xs. v = Variable y))" if "x \<in> set xs" for x
    using chain_next [OF xs(2) that] .
  have notin: "x \<notin> set xs" if "r = Variable x" for x
  proof
    assume "x \<in> set xs"
    with chain_alias xs(2) that have "(x, x) \<in> (aliases b)\<^sup>+" by blast
    with ok show False by (simp add: store_ok_def acyclic_def)
  qed
  have b': "b' = fold (\<lambda>x b. dict_set (=) x r b) xs b"
    using walk path xs notin by (cases r) (auto simp: walk_binding_def)
  have get: "assigned b' y = (if y \<in> set xs then Some r else assigned b y)" for y
    by (simp add: b' assigned_fold)
  have "named r" using xs(2) assms(2) ok
  proof (induction b a xs r rule: chain.induct)
    case (2 b a x xs r)
    then show ?case by (auto simp: store_ok_def split: option.splits)
  qed simp
  have "aliases b' \<subseteq> (aliases b)\<^sup>+"
    using chain_alias xs(2) by (auto simp: aliases_def [of b'] get split: if_splits) (auto simp: aliases_def)
  then have "acyclic (aliases b')"
    using ok by (auto simp: store_ok_def acyclic_def dest: trancl_mono)
  moreover have "named v \<and> x \<noteq> ''_''" if "assigned b' x = Some v" for x v
    using that ok nxt [of x] \<open>named r\<close> by (auto simp: get store_ok_def split: if_splits)
  ultimately have "store_ok b'" by (auto simp: store_ok_def)
  moreover have "assigned b' x = None" if "r = Variable x" for x
    using that stop notin [OF that] \<open>named r\<close> xs(1) by (auto simp: get named_def)
  moreover have "solves \<sigma> b' = solves \<sigma> b" for \<sigma>
  proof
    assume s: "solves \<sigma> b'"
    then have r: "same \<sigma> (Variable x) r" if "x \<in> set xs" for x using that by (auto simp: solves_def get)
    show "solves \<sigma> b"
      unfolding solves_def
    proof (intro allI impI)
      fix x v assume "assigned b x = Some v"
      then show "same \<sigma> (Variable x) v"
        using s nxt [of x] r by (cases "x \<in> set xs") (auto simp: solves_def get same_def)
    qed
  next
    assume "solves \<sigma> b"
    with chain_same [OF xs(2)] show "solves \<sigma> b'" by (auto simp: solves_def get)
  qed
  moreover have "assigned b' x = None \<longleftrightarrow> assigned b x = None" for x
    using nxt [of x] by (auto simp: get)
  ultimately show ?thesis using \<open>named r\<close> chain_same [OF xs(2)] by blast
qed

section \<open>One step keeps the solutions\<close>

definition unifies :: "(string \<Rightarrow> atom) \<Rightarrow> (atom \<times> atom) list \<Rightarrow> bool" where
  "unifies \<sigma> st = (\<forall>(x, y) \<in> set st. same \<sigma> x y)"

definition stack_ok :: "(atom \<times> atom) list \<Rightarrow> bool" where
  "stack_ok st = (\<forall>(x, y) \<in> set st. named x \<and> named y)"

lemma stack_simps [simp]:
  "unifies \<sigma> []" "unifies \<sigma> ((x, y) # st) \<longleftrightarrow> same \<sigma> x y \<and> unifies \<sigma> st"
  "unifies \<sigma> (ps @ st) \<longleftrightarrow> unifies \<sigma> ps \<and> unifies \<sigma> st" "unifies \<sigma> (rev ps) = unifies \<sigma> ps"
  "stack_ok []" "stack_ok ((x, y) # st) \<longleftrightarrow> named x \<and> named y \<and> stack_ok st"
  "stack_ok (ps @ st) \<longleftrightarrow> stack_ok ps \<and> stack_ok st" "stack_ok (rev ps) = stack_ok ps"
  by (auto simp: unifies_def stack_ok_def)

lemma named_simps [simp]: "named (Variable x) = (x \<noteq> ''_'')" "named (Expression xs) = (\<forall>x \<in> set xs. named x)"
  by (auto simp: named_def)

lemma unifies_zip:
  "length xs = length ys \<Longrightarrow> unifies \<sigma> (zip xs ys) = same \<sigma> (Expression xs) (Expression ys)"
  by (induction xs ys rule: list_induct2) (auto simp: same_def)

lemma stack_ok_zip: "named (Expression xs) \<Longrightarrow> named (Expression ys) \<Longrightarrow> stack_ok (zip xs ys)"
  by (auto simp: stack_ok_def dest: set_zip_leftD set_zip_rightD)

lemma same_length: "same \<sigma> (Expression xs) (Expression ys) \<Longrightarrow> length xs = length ys"
  by (auto simp: same_def dest: map_eq_imp_length_eq)

lemma same_rigid:
  assumes "metatype x \<noteq> ''Variable''" "metatype y \<noteq> ''Variable''" "\<not> (is_expression x \<and> is_expression y)"
    and "same \<sigma> x y"
  shows "atom_eq x y"
  using assms by (cases x; cases y) (auto simp: same_def app_def atom_eq_core)

definition step_sound :: "atom \<Rightarrow> atom \<Rightarrow> bindings \<Rightarrow> ((atom \<times> atom) list \<times> bindings) option \<Rightarrow> bool" where
  "step_sound x y b res =
     (case res of
        None \<Rightarrow> \<forall>\<sigma>. solves \<sigma> b \<longrightarrow> \<not> same \<sigma> x y
      | Some (ps, b') \<Rightarrow> store_ok b' \<and> stack_ok ps \<and>
          (\<forall>\<sigma>. solves \<sigma> b \<and> same \<sigma> x y \<longleftrightarrow> solves \<sigma> b' \<and> unifies \<sigma> ps))"

text \<open>The body of a step on operands that have been walked.\<close>

definition walked_step :: "atom \<Rightarrow> atom \<Rightarrow> bindings \<Rightarrow> ((atom \<times> atom) list \<times> bindings) option" where
  "walked_step x y b =
     (if atom_eq x y then Some ([], b)
      else (case x of
          Variable v \<Rightarrow> Some ([], if v = ''_'' then b else dict_set (=) v y b)
        | _ \<Rightarrow> (case y of
              Variable v \<Rightarrow> Some ([], if v = ''_'' then b else dict_set (=) v x b)
            | _ \<Rightarrow>
              if is_expression x \<and> is_expression y
              then if length (kids x) \<noteq> length (kids y) then None
                   else Some (rev (zip (kids x) (kids y)), b)
              else None)))"

lemma unify_step_walked:
  "unify_step x0 y0 b0 =
     (let (x, b1) = walk_binding x0 b0; (y, b) = walk_binding y0 b1 in walked_step x y b)"
  by (simp add: unify_step_def walked_step_def)

definition terminal :: "bindings \<Rightarrow> atom \<Rightarrow> bool" where
  "terminal b a = (named a \<and> (\<forall>x. a = Variable x \<longrightarrow> assigned b x = None))"

lemma bind_sound:
  assumes "store_ok b" "terminal b (Variable v)" "terminal b y" "\<not> atom_eq (Variable v) y"
  shows "step_sound (Variable v) y b (Some ([], dict_set (=) v y b))"
proof -
  have "store_ok (dict_set (=) v y b)"
    by (rule store_ok_set) (use assms in \<open>auto simp: terminal_def atom_eq_core\<close>)
  with assms(2) show ?thesis by (simp add: step_sound_def terminal_def solves_set)
qed

lemma walked_step_variable:
  assumes "metatype x = ''Variable'' \<or> metatype y = ''Variable''" "\<not> atom_eq x y" "named x" "named y"
  shows "(\<exists>v. x = Variable v \<and> walked_step x y b = Some ([], dict_set (=) v y b))
    \<or> (\<exists>v. y = Variable v \<and> walked_step x y b = Some ([], dict_set (=) v x b))"
  using assms by (cases x; cases y) (auto simp: walked_step_def)

lemma walked_step_rigid:
  assumes "metatype x \<noteq> ''Variable''" "metatype y \<noteq> ''Variable''" "\<not> atom_eq x y"
  shows "walked_step x y b =
    (if is_expression x \<and> is_expression y \<and> length (kids x) = length (kids y)
     then Some (rev (zip (kids x) (kids y)), b) else None)"
  using assms by (cases x; cases y) (auto simp: walked_step_def)

lemma walked_step_sound:
  assumes ok: "store_ok b" and x: "terminal b x" and y: "terminal b y"
  shows "step_sound x y b (walked_step x y b)"
proof (cases "atom_eq x y")
  case True
  then show ?thesis
    using ok by (auto simp: walked_step_def step_sound_def same_def atom_eq_core intro: app_cong)
next
  case neq: False
  show ?thesis
  proof (cases "metatype x = ''Variable'' \<or> metatype y = ''Variable''")
    case True
    from x y have "named x" "named y" by (simp_all add: terminal_def)
    from walked_step_variable [OF True neq this, of b] consider
      v where "x = Variable v" "walked_step x y b = Some ([], dict_set (=) v y b)"
      | v where "y = Variable v" "walked_step x y b = Some ([], dict_set (=) v x b)"
      by blast
    then show ?thesis
    proof cases
      case (1 v)
      with bind_sound [of b v y] ok x y neq show ?thesis by simp
    next
      case (2 v)
      with bind_sound [of b v x] ok x y neq show ?thesis
        by (simp add: step_sound_def same_sym [of _ x] atom_key.eq_cong) (metis atom_key.eq_sym)
    qed
  next
    case rig: False
    note step = walked_step_rigid [of x y b] and rigid = same_rigid [of x y]
    show ?thesis
    proof (cases "is_expression x \<and> is_expression y")
      case True
      then have xy: "x = Expression (kids x)" "y = Expression (kids y)" by (simp_all add: expression_kids)
      show ?thesis
      proof (cases "length (kids x) = length (kids y)")
        case len: True
        have "stack_ok (zip (kids x) (kids y))"
          using x y xy stack_ok_zip [of "kids x" "kids y"] by (metis terminal_def)
        moreover have "unifies \<sigma> (zip (kids x) (kids y)) = same \<sigma> x y" for \<sigma>
          using unifies_zip [OF len] xy by metis
        ultimately show ?thesis using step rig neq True len ok by (simp add: step_sound_def)
      next
        case False
        then have "\<not> same \<sigma> x y" for \<sigma> using same_length xy by metis
        then show ?thesis using step rig neq False by (simp add: step_sound_def)
      qed
    next
      case leaf: False
      then have "walked_step x y b = None" using step rig neq leaf by auto
      moreover have "\<not> same \<sigma> x y" for \<sigma> using rigid rig neq leaf by blast
      ultimately show ?thesis by (simp add: step_sound_def)
    qed
  qed
qed

lemma unify_step_sound:
  assumes "store_ok b0" "named x0" "named y0"
  shows "step_sound x0 y0 b0 (unify_step x0 y0 b0)"
proof -
  obtain x b1 where w1: "walk_binding x0 b0 = (x, b1)" by force
  obtain y b where w2: "walk_binding y0 b1 = (y, b)" by force
  note s1 = walk_binding_spec [OF assms(1,2) w1]
  with walk_binding_spec [OF _ assms(3) w2] have s2: "store_ok b" "named y"
    "\<forall>x. y = Variable x \<longrightarrow> assigned b x = None" "\<forall>\<sigma>. solves \<sigma> b = solves \<sigma> b1"
    "\<forall>\<sigma>. solves \<sigma> b1 \<longrightarrow> same \<sigma> y0 y" "\<forall>x. assigned b x = None \<longleftrightarrow> assigned b1 x = None" by blast+
  have "step_sound x y b (walked_step x y b)"
    by (rule walked_step_sound) (use s1 s2 in \<open>auto simp: terminal_def\<close>)
  moreover have "solves \<sigma> b0 \<and> same \<sigma> x0 y0 \<longleftrightarrow> solves \<sigma> b \<and> same \<sigma> x y" for \<sigma>
    using s1 s2 same_cong by blast
  ultimately show ?thesis
    by (simp add: unify_step_walked w1 w2 step_sound_def split: option.splits prod.splits) blast?
qed

lemma unify_loop_sound:
  "store_ok b \<Longrightarrow> stack_ok st \<Longrightarrow> unify_loop n st b = Some res \<Longrightarrow>
     (case res of
        None \<Rightarrow> \<forall>\<sigma>. \<not> (solves \<sigma> b \<and> unifies \<sigma> st)
      | Some b' \<Rightarrow> store_ok b' \<and> (\<forall>\<sigma>. solves \<sigma> b \<and> unifies \<sigma> st \<longleftrightarrow> solves \<sigma> b'))"
proof (induction n st b rule: unify_loop.induct)
  case (3 n x y st b)
  from 3 have step: "step_sound x y b (unify_step x y b)" by (simp add: unify_step_sound)
  show ?case
  proof (cases "unify_step x y b")
    case None
    with 3 step show ?thesis by (auto simp: step_sound_def)
  next
    case (Some p)
    obtain ps b' where p: "p = (ps, b')" by (cases p)
    from Some p step have s: "store_ok b'" "stack_ok ps"
      "\<forall>\<sigma>. solves \<sigma> b \<and> same \<sigma> x y \<longleftrightarrow> solves \<sigma> b' \<and> unifies \<sigma> ps" by (auto simp: step_sound_def)
    with 3 Some p have "stack_ok (ps @ st)" "unify_loop n (ps @ st) b' = Some res" by simp_all
    from "3.IH" [OF Some p [symmetric] s(1) this] s(3) show ?thesis by (auto split: option.splits)
  qed
qed auto

section \<open>Normalizing the store\<close>

text \<open>
  What a task list makes of the values computed so far (newest first): a name is only left when its
  own value is on top.
\<close>

definition val :: "(string \<Rightarrow> atom) \<Rightarrow> atom \<Rightarrow> atom" where
  "val \<sigma> a = core (app \<sigma> a)"

lemma val_Expression [simp]: "val \<sigma> (Expression xs) = Expression (map (val \<sigma>) xs)"
  by (simp add: val_def comp_def)

fun denote :: "(string \<Rightarrow> atom) \<Rightarrow> task list \<Rightarrow> atom list \<Rightarrow> atom list option" where
  "denote \<sigma> [] rs = Some rs"
| "denote \<sigma> (Visit a # st) rs = denote \<sigma> st (val \<sigma> a # rs)"
| "denote \<sigma> (Rebuild a # st) rs =
     (if is_expression a
      then denote \<sigma> st (Expression (rev (take (length (kids a)) rs)) # drop (length (kids a)) rs)
      else denote \<sigma> st (val \<sigma> a # rs))"
| "denote \<sigma> (Leave x # st) rs =
     (case rs of r # _ \<Rightarrow> if r = val \<sigma> (Variable x) then denote \<sigma> st rs else None | [] \<Rightarrow> None)"

lemma denote_visits: "denote \<sigma> (map Visit xs @ st) rs = denote \<sigma> st (rev (map (val \<sigma>) xs) @ rs)"
  by (induction xs arbitrary: rs) auto

lemma solves_val: "solves \<sigma> b \<Longrightarrow> dict_get (=) x b = Some v \<Longrightarrow> val \<sigma> v = val \<sigma> (Variable x)"
  by (simp add: solves_def same_def val_def assigned_def)

lemma resolve_loop_sound:
  assumes "solves \<sigma> b"
  shows "solves \<sigma> resolved \<Longrightarrow> denote \<sigma> st (map (val \<sigma>) results) = Some out \<Longrightarrow>
    resolve_loop b active resolved st results = (results', resolved') \<Longrightarrow>
      map (val \<sigma>) results' = out \<and> solves \<sigma> resolved'"
  using assms
proof (induction b active resolved st results rule: resolve_loop.induct)
  case (2 b active resolved x st results)
  then obtain r rs where r: "results = r # rs" by (cases results) auto
  with 2 have v: "val \<sigma> r = val \<sigma> (Variable x)" by (auto split: if_splits)
  have "solves \<sigma> (dict_set (=) x r resolved)"
    using 2(2) v by (auto simp: solves_def same_def val_def)
  with 2 r v show ?case by simp
next
  case (3 b active resolved a st results)
  obtain r rs where m: "mapped_candidate a results = (r, rs)" by force
  then have "denote \<sigma> st (map (val \<sigma>) (r # rs)) = Some out"
    using 3 by (auto simp: mapped_candidate_def rev_map take_map drop_map split: if_splits)
  with 3 m show ?case by simp
next
  case (4 b active resolved a st results)
  show ?case
  proof (cases "\<exists>x. a = Variable x")
    case True
    then obtain x where a: "a = Variable x" by blast
    show ?thesis
    proof (cases "dict_get (=) x resolved")
      case (Some r)
      with solves_val [OF "4.prems"(1)] 4 a show ?thesis by simp
    next
      case None
      show ?thesis
      proof (cases "\<exists>v. dict_get (=) x b = Some v \<and> \<not> (x = ''_'' \<or> x \<in> set active)")
        case True
        then obtain v where v: "dict_get (=) x b = Some v" "\<not> (x = ''_'' \<or> x \<in> set active)" by blast
        with None a 4 solves_val [OF "4.prems"(4) v(1)] show ?thesis by simp
      next
        case False
        with None a 4 show ?thesis by (cases "dict_get (=) x b") auto
      qed
    qed
  next
    case leaf: False
    show ?thesis
    proof (cases "is_expression a")
      case True
      then obtain xs where a: "a = Expression xs" by (metis expression_kids)
      with 4 show ?thesis by (simp add: denote_visits)
    next
      case False
      with leaf 4 show ?thesis by (cases a) auto
    qed
  qed
qed simp

lemma resolve_binding_sound:
  assumes "solves \<sigma> b" "solves \<sigma> resolved" "resolve_binding a b visiting resolved = (r, resolved')"
  shows "val \<sigma> r = val \<sigma> a \<and> solves \<sigma> resolved'"
proof -
  obtain results where loop: "resolve_loop b visiting resolved [Visit a] [] = (results, resolved')" "r = last results"
    using assms(3) by (auto simp: resolve_binding_def split: prod.splits)
  from resolve_loop_sound [OF assms(1,2) _ loop(1), of "[val \<sigma> a]"] have "map (val \<sigma>) results = [val \<sigma> a]" "solves \<sigma> resolved'"
    by simp_all
  with loop(2) show ?thesis by auto
qed

definition normal_sound :: "(string \<Rightarrow> atom) \<Rightarrow> (atom, atom) dict \<Rightarrow> bool" where
  "normal_sound \<sigma> out = (\<forall>(k, v) \<in> set out. same \<sigma> k v)"

lemma normal_sound_set: "normal_sound \<sigma> out \<Longrightarrow> same \<sigma> k v \<Longrightarrow> normal_sound \<sigma> (dict_set atom_eq k v out)"
proof (induction out)
  case (Cons p out)
  obtain j w where p: "p = (j, w)" by force
  show ?case
  proof (cases "atom_eq j k")
    case True
    then have "same \<sigma> j k" unfolding same_def atom_eq_core by (rule app_cong)
    then have "same \<sigma> j v" using Cons.prems(2) by (rule same_trans)
    with Cons.prems True p show ?thesis by (simp add: normal_sound_def)
  next
    case False
    with Cons p show ?thesis by (simp add: normal_sound_def)
  qed
qed (simp add: normal_sound_def)

lemma normalize_loop_sound:
  "solves \<sigma> b \<Longrightarrow> \<forall>(x, v) \<in> set rest. same \<sigma> (Variable x) v \<Longrightarrow> solves \<sigma> resolved \<Longrightarrow>
     normal_sound \<sigma> out \<Longrightarrow> normal_sound \<sigma> (normalize_loop b rest resolved out)"
proof (induction b rest resolved out rule: normalize_loop.induct)
  case (2 b x v rest resolved out)
  show ?case
  proof (cases "dict_get (=) x resolved")
    case (Some r)
    with 2(4,5) have "same \<sigma> (Variable x) r" by (simp add: solves_def assigned_def)
    with 2 Some show ?thesis by (simp add: normal_sound_set)
  next
    case None
    obtain r resolved' where r: "resolve_binding v b [x] resolved = (r, resolved')" by force
    with resolve_binding_sound [OF "2.prems"(1,3)] have "val \<sigma> r = val \<sigma> v" "solves \<sigma> resolved'" by auto
    with "2.prems"(2) have "same \<sigma> (Variable x) r" "solves \<sigma> (dict_set (=) x r resolved')"
      by (auto simp: same_def val_def solves_def)
    with 2 None r show ?thesis by (simp add: normal_sound_set)
  qed
qed simp

lemma fold_ok: "dict_ok (=) b \<Longrightarrow> dict_ok (=) (fold (\<lambda>x b. dict_set (=) x r b) xs b)"
  by (induction xs arbitrary: b) (auto intro: plain_key.dict_ok_set)

lemma walk_binding_ok: "walk_binding a b = (r, b') \<Longrightarrow> dict_ok (=) b \<Longrightarrow> dict_ok (=) b'"
  by (auto simp: walk_binding_def fold_ok split: prod.splits if_splits)

lemma walked_step_ok: "walked_step x y b = Some (ps, b') \<Longrightarrow> dict_ok (=) b \<Longrightarrow> dict_ok (=) b'"
  by (auto simp: walked_step_def plain_key.dict_ok_set split: atom.splits if_splits)

lemma unify_step_ok: "unify_step x y b = Some (ps, b') \<Longrightarrow> dict_ok (=) b \<Longrightarrow> dict_ok (=) b'"
  by (auto simp: unify_step_walked dest: walk_binding_ok walked_step_ok split: prod.splits)

lemma unify_loop_ok: "unify_loop n st b = Some (Some b') \<Longrightarrow> dict_ok (=) b \<Longrightarrow> dict_ok (=) b'"
  by (induction n st b rule: unify_loop.induct) (auto split: option.splits dest: unify_step_ok)

lemma walk_rigid: "metatype a \<noteq> ''Variable'' \<Longrightarrow> walk_binding a b = (a, b)"
  by (cases a) (auto simp: walk_binding_def walk_path.simps)

text \<open>A worked run: \<open>($x $z)\<close> against \<open>(a $x)\<close>.\<close>

definition sample_left :: atom where
  "sample_left = Expression [Variable ''x'', Variable ''z'']"

definition sample_right :: atom where
  "sample_right = Expression [Symbol ''a'', Variable ''x'']"

definition sample_store :: bindings where
  "sample_store = [(''z'', Variable ''x''), (''x'', Symbol ''a'')]"

lemma sample_run: "unify_operands 4 sample_left [sample_right] [] = Some (Some sample_store)"
  by (simp add: sample_left_def sample_right_def sample_store_def unify_step_def walk_binding_def
      walk_path.simps atom_eq_core numeral_eq_Suc)

lemma unify_operands_sound:
  "store_ok b \<Longrightarrow> dict_ok (=) b \<Longrightarrow> named l \<Longrightarrow> \<forall>y \<in> set ys. named y \<Longrightarrow> unify_operands n l ys b = Some res \<Longrightarrow>
     (case res of
        None \<Rightarrow> \<forall>\<sigma>. \<not> (solves \<sigma> b \<and> (\<forall>y \<in> set ys. same \<sigma> l y))
      | Some b' \<Rightarrow> dict_ok (=) b' \<and> (\<forall>\<sigma>. solves \<sigma> b \<and> (\<forall>y \<in> set ys. same \<sigma> l y) \<longleftrightarrow> solves \<sigma> b'))"
proof (induction ys arbitrary: b)
  case (Cons y ys)
  then obtain r where r: "unify_loop n [(l, y)] b = Some r" by (auto split: option.splits)
  with unify_loop_sound [OF Cons.prems(1) _ r] Cons.prems have s: "case r of
        None \<Rightarrow> \<forall>\<sigma>. \<not> (solves \<sigma> b \<and> same \<sigma> l y)
      | Some b' \<Rightarrow> store_ok b' \<and> (\<forall>\<sigma>. solves \<sigma> b \<and> same \<sigma> l y \<longleftrightarrow> solves \<sigma> b')" by (cases r) simp_all
  show ?case
  proof (cases r)
    case None
    with s Cons.prems r show ?thesis by auto
  next
    case (Some b')
    with s have b': "store_ok b'" "\<forall>\<sigma>. solves \<sigma> b \<and> same \<sigma> l y \<longleftrightarrow> solves \<sigma> b'" by auto
    from Cons.prems r Some have "unify_operands n l ys b' = Some res" "dict_ok (=) b'"
      by (auto dest: unify_loop_ok)
    from Cons.IH [OF b'(1) this(2) Cons.prems(3) _ this(1)] Cons.prems b'(2) show ?thesis
      by (auto split: option.splits)
  qed
qed auto

section \<open>Properties\<close>

text \<open>C1. Symmetric unification without an occurs check is sound and complete for every number of
  operands with no \<open>_\<close>: when it answers no, nothing unifies the operands; when it answers yes, the
  assignments unifying them are exactly the solutions of its binding store.\<close>

theorem unify_solution_set:
  "named l \<Longrightarrow> \<forall>y \<in> set ys. named y \<Longrightarrow> unify_operands n l ys [] = Some res \<Longrightarrow>
     (case res of
        None \<Rightarrow> \<forall>\<sigma>. \<exists>y \<in> set ys. \<not> same \<sigma> l y
      | Some b \<Rightarrow> \<forall>\<sigma>. (\<forall>y \<in> set ys. same \<sigma> l y) \<longleftrightarrow> solves \<sigma> b)"
  using unify_operands_sound [of "[]" l ys n res] by (auto split: option.splits)

theorem unify_solution_set_witness:
  "same (\<lambda>_. Symbol ''a'') sample_left sample_right \<longleftrightarrow> solves (\<lambda>_. Symbol ''a'') sample_store"
  using unify_solution_set [OF _ _ sample_run] by (simp add: sample_left_def sample_right_def named_def)

text \<open>C4. Every entry of the substitution \<open>unify\<close> reports, after alias chains are compressed and the
  store is resolved transitively, holds under every unifier of the operands.\<close>

theorem unify_normalized:
  "named l \<Longrightarrow> \<forall>y \<in> set ys. named y \<Longrightarrow> unify n l ys = Some (Some out) \<Longrightarrow>
     \<forall>y \<in> set ys. same \<sigma> l y \<Longrightarrow> (k, v) \<in> set out \<Longrightarrow> same \<sigma> k v"
proof -
  assume l: "named l" "\<forall>y \<in> set ys. named y" and u: "unify n l ys = Some (Some out)"
    and \<sigma>: "\<forall>y \<in> set ys. same \<sigma> l y" and k: "(k, v) \<in> set out"
  from u obtain b where b: "unify_operands n l ys [] = Some (Some b)" "out = normalize_loop b b [] []"
    by (auto simp: unify_def)
  from unify_operands_sound [OF store_ok_Nil _ l b(1)] \<sigma> have s: "dict_ok (=) b" "solves \<sigma> b" by auto
  then have "\<forall>(x, w) \<in> set b. same \<sigma> (Variable x) w"
    by (auto simp: solves_def assigned_def plain_key.dict_get_in)
  with normalize_loop_sound [OF s(2) this, of "[]" "[]"] k b(2) show "same \<sigma> k v"
    by (auto simp: normal_sound_def)
qed

theorem unify_normalized_witness:
  "same (\<lambda>_. Symbol ''a'') (Variable ''z'') (Symbol ''a'')"
proof -
  have out: "unify 4 sample_left [sample_right] =
      Some (Some [(Variable ''z'', Symbol ''a''), (Variable ''x'', Symbol ''a'')])"
    unfolding unify_def sample_run
    by (simp add: sample_store_def resolve_binding_def Let_def atom_eq_core)
  show ?thesis
    by (rule unify_normalized [OF _ _ out])
      (simp_all add: sample_left_def sample_right_def named_def same_def app_def)
qed

text \<open>Without the occurs check a run need not end: three equations whose last one repeats for ever.\<close>

definition divergent_left :: atom where
  "divergent_left = Expression [Variable ''x'', Variable ''y'', Variable ''x'']"

definition divergent_right :: atom where
  "divergent_right = Expression [Variable ''y'', Expression [Variable ''y''], Expression [Variable ''x'']]"

definition divergent_store :: bindings where
  "divergent_store = [(''x'', Expression [Variable ''x'']), (''y'', Expression [Variable ''y''])]"

lemma divergent_step:
  "unify_step (Variable ''x'') (Variable ''y'') divergent_store =
     Some ([(Variable ''x'', Variable ''y'')], divergent_store)"
  by code_simp

lemma divergent_loop: "unify_loop n [(Variable ''x'', Variable ''y'')] divergent_store = None"
  by (induction n) (simp_all add: divergent_step)

lemma divergent_start:
  "unify_step divergent_left divergent_right [] = Some
     ([(Variable ''x'', Expression [Variable ''x'']), (Variable ''y'', Expression [Variable ''y'']),
       (Variable ''x'', Variable ''y'')], [])"
  "unify_step (Variable ''x'') (Expression [Variable ''x'']) [] = Some ([], [(''x'', Expression [Variable ''x''])])"
  "unify_step (Variable ''y'') (Expression [Variable ''y'']) [(''x'', Expression [Variable ''x''])] =
     Some ([], divergent_store)"
  by code_simp+

text \<open>C6. The loop of \<open>_unify_symmetric\<close> does not terminate on every input: unifying
  \<open>($x $y $x)\<close> with \<open>($y ($y) ($x))\<close> runs out of any fuel.\<close>

theorem unify_diverges: "unify n divergent_left [divergent_right] = None"
proof -
  have "unify_loop n [(divergent_left, divergent_right)] [] = None"
  proof (cases n)
    case n: (Suc m)
    show ?thesis
    proof (cases m)
      case m: (Suc k)
      show ?thesis by (cases k) (simp_all add: n m divergent_start divergent_loop)
    qed (simp add: n divergent_start)
  qed simp
  then show ?thesis by (simp add: unify_def)
qed

section \<open>Ground operands\<close>

definition ground_store :: "bindings \<Rightarrow> bool" where
  "ground_store b = (\<forall>x v. assigned b x = Some v \<longrightarrow> is_ground v)"

definition ground_rights :: "(atom \<times> atom) list \<Rightarrow> bool" where
  "ground_rights st = (\<forall>(x, y) \<in> set st. is_ground y)"

definition right_size :: "(atom \<times> atom) list \<Rightarrow> nat" where
  "right_size st = sum_list (map (asize \<circ> snd) st)"

lemma rights_simps [simp]:
  "ground_rights []" "ground_rights ((x, y) # st) \<longleftrightarrow> is_ground y \<and> ground_rights st"
  "ground_rights (ps @ st) \<longleftrightarrow> ground_rights ps \<and> ground_rights st" "ground_rights (rev ps) = ground_rights ps"
  "right_size [] = 0" "right_size ((x, y) # st) = asize y + right_size st"
  "right_size (ps @ st) = right_size ps + right_size st" "right_size (rev ps) = right_size ps"
  by (auto simp: ground_rights_def right_size_def rev_map [symmetric])

lemma rights_zip:
  "length xs = length ys \<Longrightarrow> right_size (zip xs ys) = sum_list (map asize ys) \<and>
     (ground_rights (zip xs ys) \<longleftrightarrow> (\<forall>y \<in> set ys. is_ground y))"
  by (induction xs ys rule: list_induct2) auto

lemma ground_metatype: "is_ground a \<Longrightarrow> metatype a \<noteq> ''Variable''"
  by (cases a) auto

lemma walk_ground_store:
  assumes "ground_store b" "walk_binding x b = (r, b')"
  shows "ground_store b' \<and> (is_ground r \<or> r = x)"
proof (cases "\<exists>v y. x = Variable y \<and> y \<noteq> ''_'' \<and> assigned b y = Some v")
  case True
  then obtain y v where x: "x = Variable y" "y \<noteq> ''_''" "assigned b y = Some v" by blast
  then have v: "is_ground v" using assms(1) by (simp add: ground_store_def)
  from x have "walk_path b [] x = walk_path b [y] v" by (simp add: walk_path.simps assigned_def)
  also have "\<dots> = ([y], v)" using ground_metatype [OF v] by (cases v) (simp_all add: walk_path.simps)
  finally have "walk_binding x b = (v, dict_set (=) y v b)"
    using ground_metatype [OF v] by (cases v) (simp_all add: walk_binding_def)
  with assms v show ?thesis by (auto simp: ground_store_def split: if_splits)
next
  case False
  then have "walk_path b [] x = ([], x)"
    by (cases x) (auto simp: walk_path.simps assigned_def split: option.splits)
  with assms show ?thesis by (cases x) (simp_all add: walk_binding_def)
qed

lemma unify_step_ground:
  assumes "ground_store b" "is_ground y" "unify_step x y b = Some (ps, b')"
  shows "ground_store b' \<and> ground_rights ps \<and> right_size ps < asize y"
proof -
  obtain r b1 where w: "walk_binding x b = (r, b1)" by force
  have step: "walked_step r y b1 = Some (ps, b')"
    using assms(3) w walk_rigid [OF ground_metatype [OF assms(2)]] by (simp add: unify_step_walked)
  from walk_ground_store [OF assms(1) w] have b1: "ground_store b1" by simp
  show ?thesis
  proof (cases "metatype r = ''Variable''")
    case True
    then obtain v where "r = Variable v" by (cases r) auto
    with step b1 assms(2) show ?thesis
      by (auto simp: walked_step_def ground_store_def split: if_splits)
  next
    case False
    show ?thesis
    proof (cases "atom_eq r y")
      case True
      with step b1 show ?thesis by (simp add: walked_step_def)
    next
      case neq: False
      from step walked_step_rigid [OF False ground_metatype [OF assms(2)] neq] have
        "is_expression y" "length (kids r) = length (kids y)" "ps = rev (zip (kids r) (kids y))" "b' = b1"
        by (auto split: if_splits)
      with rights_zip [of "kids r" "kids y"] assms(2) b1 show ?thesis
        by (cases y) auto
    qed
  qed
qed

lemma unify_loop_ground:
  "ground_store b \<Longrightarrow> ground_rights st \<Longrightarrow> right_size st < n \<Longrightarrow>
     \<exists>r. unify_loop n st b = Some r \<and> (\<forall>b'. r = Some b' \<longrightarrow> ground_store b')"
proof (induction n st b rule: unify_loop.induct)
  case (3 n x y st b)
  show ?case
  proof (cases "unify_step x y b")
    case (Some p)
    obtain ps b' where p: "p = (ps, b')" by (cases p)
    with Some 3 unify_step_ground [of b y x ps b'] have
      "ground_store b'" "ground_rights (ps @ st)" "right_size (ps @ st) < n" by auto
    from "3.IH" [OF Some p [symmetric] this] Some p show ?thesis by simp
  qed simp
qed auto

lemma fits_app: "is_ground a \<Longrightarrow> same \<sigma> p a \<Longrightarrow> fits (\<lambda>x. Some (\<sigma> x)) p a"
proof (induction p arbitrary: a)
  case (Variable x)
  then show ?case by (simp add: same_def app_ground atom_eq_core)
next
  case (Expression ps)
  then have eq: "core (Expression (map (app \<sigma>) ps)) = core a" by (simp add: same_def app_ground)
  then obtain ys where a: "a = Expression ys" by (cases a) auto
  with eq have "map core (map (app \<sigma>) ps) = map core ys" by simp
  then have "list_all2 (\<lambda>p y. core (app \<sigma> p) = core y) ps ys"
    unfolding map_core_all2 list.rel_map atom_eq_core .
  moreover have "is_ground y" if "y \<in> set ys" for y using that Expression.prems a by simp
  ultimately have "list_all2 (fits (\<lambda>x. Some (\<sigma> x))) ps ys"
    using Expression.IH by (auto simp: same_def app_ground elim: list.rel_mono_strong)
  with a show ?case by simp
qed (unfold same_def, simp_all only: app_ground is_ground_simps atom_eq_core fits.simps)

lemma app_fits: "is_ground a \<Longrightarrow> named p \<Longrightarrow> fits m p a \<Longrightarrow> \<exists>\<sigma>. same \<sigma> p a"
proof -
  assume a: "is_ground a" "named p" "fits m p a"
  let ?\<sigma> = "\<lambda>x. case m x of Some v \<Rightarrow> v | None \<Rightarrow> unit_atom"
  have "m \<subseteq>\<^sub>m (\<lambda>x. Some (?\<sigma> x))" by (auto simp: map_le_def)
  from fits_subst [OF fits_mono [OF this a(3)]] a have "same ?\<sigma> p a"
    by (simp add: same_def named_def app_ground atom_eq_core) (simp add: app_def)
  then show ?thesis by blast
qed

lemma ground_named: "is_ground a \<Longrightarrow> named a"
  by (simp add: named_def is_ground_occs)

text \<open>C5. Against a ground operand the unifier always returns, within one step per node of that operand
  (and two more), and it succeeds exactly when the directional matcher does.\<close>

theorem unify_ground_returns:
  "named p \<Longrightarrow> is_ground a \<Longrightarrow>
     \<exists>r. unify_operands (Suc (asize a)) p [a] [] = Some r \<and> (r = None \<longleftrightarrow> match p a = None)"
proof -
  assume p: "named p" and a: "is_ground a"
  have "ground_store []" by (simp add: ground_store_def assigned_def)
  from unify_loop_ground [OF this, of "[(p, a)]" "Suc (asize a)"] a obtain r where
    r: "unify_loop (Suc (asize a)) [(p, a)] [] = Some r" and g: "\<forall>b. r = Some b \<longrightarrow> ground_store b"
    by auto
  have solvable: "\<exists>\<sigma>. solves \<sigma> b" if "ground_store b" for b
  proof
    show "solves (\<lambda>x. case assigned b x of Some v \<Rightarrow> v | None \<Rightarrow> unit_atom) b"
      using that by (auto simp: solves_def ground_store_def same_def app_ground)
  qed
  have "r = None \<longleftrightarrow> (\<forall>\<sigma>. \<not> same \<sigma> p a)"
  proof (cases r)
    case None
    with unify_loop_sound [OF store_ok_Nil _ r] p ground_named [OF a] show ?thesis by simp
  next
    case (Some b)
    with unify_loop_sound [OF store_ok_Nil _ r] p ground_named [OF a] have "\<forall>\<sigma>. same \<sigma> p a \<longleftrightarrow> solves \<sigma> b" by simp
    with Some g solvable show ?thesis by simp
  qed
  also have "\<dots> \<longleftrightarrow> match p a = None"
    using fits_app [OF a] app_fits [OF a p] by (auto simp: match_None_iff)
  finally show ?thesis using r by (auto split: option.splits)
qed

theorem unify_ground_returns_witness:
  "\<exists>r. unify_operands 4 (Expression [Variable ''x'', Variable ''x'']) [Expression [Symbol ''a'', Symbol ''b'']] [] = Some r
     \<and> (r = None \<longleftrightarrow> match (Expression [Variable ''x'', Variable ''x'']) (Expression [Symbol ''a'', Symbol ''b'']) = None)"
  using unify_ground_returns [of "Expression [Variable ''x'', Variable ''x'']" "Expression [Symbol ''a'', Symbol ''b'']"]
  by (simp add: named_def numeral_eq_Suc)

end
