(* ===== verification/Structures.thy ===== *)
theory Structures
  imports Unifier
begin

text \<open>
  The engine-free containers of \<open>metta/structures.py\<close>: the alpha-canonical form, \<open>AlphaSet\<close> and
  \<open>PatternMap\<close>. Every container is a dictionary (or three) keyed by atoms; the theorems say when two
  keys are one entry and which entries a probe reaches.
\<close>

section \<open>The canonical form\<close>

text \<open>\<open>_alpha_variables\<close>: as \<open>_variables\<close>, and the names inside carried terms too.\<close>

function alpha_variables_loop :: "atom list \<Rightarrow> string list \<Rightarrow> string list" where
  "alpha_variables_loop [] out = out"
| "alpha_variables_loop (a # st) out =
     (case a of
        Variable x \<Rightarrow> alpha_variables_loop st (if x \<in> set out then out else out @ [x])
      | Expression xs \<Rightarrow> alpha_variables_loop (xs @ st) out
      | CarriedTerm _ _ ns _ \<Rightarrow>
          alpha_variables_loop st (fold (\<lambda>x out. if x \<in> set out then out else out @ [x]) ns out)
      | _ \<Rightarrow> alpha_variables_loop st out)"
  by pat_completeness auto
termination by (relation "measure (\<lambda>(st, out). sum_list (map asize st))") auto

definition alpha_variables :: "atom \<Rightarrow> string list" where
  "alpha_variables a = alpha_variables_loop [a] []"

definition alpha_name :: "nat \<Rightarrow> string" where
  "alpha_name i = ''_alpha'' @ show_nat i"

text \<open>\<open>_CarriedTerm.renamed\<close>: new names, the text rebuilt from key and names when they differ.\<close>

fun renamed_carried :: "string list \<Rightarrow> atom \<Rightarrow> atom" where
  "renamed_carried names (CarriedTerm c k ns t) =
     (if names = ns then CarriedTerm c k ns t
      else CarriedTerm c k names (k @ ''{'' @ join '' '' names @ ''}''))"
| "renamed_carried names a = a"

text \<open>The lookup \<open>renaming[name]\<close> cannot miss: every name of the atom was enumerated.\<close>

definition renaming_get :: "(string, string) dict \<Rightarrow> string \<Rightarrow> string" where
  "renaming_get renaming x = (case dict_get (=) x renaming of Some y \<Rightarrow> y | None \<Rightarrow> x)"

definition canonical :: "atom \<Rightarrow> atom" where
  "canonical a =
     (let names = alpha_variables a in
      if names = [] then a
      else let renaming = zip names (map alpha_name [0..<length names]) in
        map_atoms (\<lambda>item. case item of
            Variable x \<Rightarrow> Variable (renaming_get renaming x)
          | CarriedTerm _ _ ns _ \<Rightarrow> renamed_carried (map (renaming_get renaming) ns) item
          | _ \<Rightarrow> item) a)"

lemma fold_keep_first: "fold (\<lambda>x out. if x \<in> set out then out else out @ [x]) ns out = keep_first ns out"
  by (simp add: keep_first_def)

lemma alpha_variables_loop_names: "alpha_variables_loop st out = keep_first (concat (map anames st)) out"
  by (induction st out rule: alpha_variables_loop.induct) (auto simp: fold_keep_first split: atom.splits)

lemma alpha_variables_names: "alpha_variables a = keep_first (anames a) []"
  by (simp add: alpha_variables_def alpha_variables_loop_names)

lemma set_alpha_variables: "set (alpha_variables a) = set (anames a)"
  by (simp add: alpha_variables_names set_keep_first)

lemma distinct_alpha_variables: "distinct (alpha_variables a)"
  by (simp add: alpha_variables_names distinct_keep_first)

text \<open>The position of a name in first-appearance order, and the canonical name it gets.\<close>

definition alpha_index :: "atom \<Rightarrow> string \<Rightarrow> string" where
  "alpha_index a = renaming_get (zip (alpha_variables a) (map alpha_name [0..<length (alpha_variables a)]))"

lemma digit_char_inj: "i < 10 \<Longrightarrow> j < 10 \<Longrightarrow> digit_char i = digit_char j \<Longrightarrow> i = j"
  by (auto simp: digit_char_def less_Suc_eq numeral_eq_Suc)

lemma show_nat_inj: "show_nat m = show_nat n \<Longrightarrow> m = n"
proof (induction m arbitrary: n rule: less_induct)
  case (less m)
  have ne: "show_nat k \<noteq> []" for k by (subst show_nat.simps) simp
  show ?case
  proof (cases "m < 10 \<or> n < 10")
    case True
    with less.prems show ?thesis
      by (cases "m < 10"; cases "n < 10")
        (auto simp: show_nat.simps [of m] show_nat.simps [of n] ne ne [symmetric] intro: digit_char_inj)
  next
    case False
    with less.prems have "show_nat (m div 10) = show_nat (n div 10)" "digit_char (m mod 10) = digit_char (n mod 10)"
      by (simp_all add: show_nat.simps [of m] show_nat.simps [of n])
    with less.IH [of "m div 10" "n div 10"] digit_char_inj [of "m mod 10" "n mod 10"] False
    have "m div 10 = n div 10" "m mod 10 = n mod 10" by auto
    then show ?thesis by (metis div_mult_mod_eq)
  qed
qed

lemma alpha_name_inj: "alpha_name i = alpha_name j \<longleftrightarrow> i = j"
  by (auto simp: alpha_name_def dest: show_nat_inj)

lemma dict_get_zip: "distinct xs \<Longrightarrow> length xs = length ys \<Longrightarrow> i < length xs \<Longrightarrow> dict_get (=) (xs ! i) (zip xs ys) = Some (ys ! i)"
proof (induction xs ys arbitrary: i rule: list_induct2')
  case (4 x xs y ys)
  then show ?case by (cases i) auto
qed auto

lemma alpha_index_nth: "i < length (alpha_variables a) \<Longrightarrow> alpha_index a (alpha_variables a ! i) = alpha_name i"
  by (simp add: alpha_index_def renaming_get_def dict_get_zip distinct_alpha_variables)

lemma alpha_index_inj: "inj_on (alpha_index a) (set (anames a))"
proof (rule inj_onI)
  fix x y assume "x \<in> set (anames a)" "y \<in> set (anames a)" and eq: "alpha_index a x = alpha_index a y"
  then obtain i j where "i < length (alpha_variables a)" "x = alpha_variables a ! i"
    "j < length (alpha_variables a)" "y = alpha_variables a ! j"
    unfolding set_alpha_variables [symmetric] in_set_conv_nth by blast
  with eq show "x = y" by (simp add: alpha_index_nth alpha_name_inj)
qed

lemma core_map_rec_rename:
  "core (map_rec (\<lambda>item. case item of
            Variable x \<Rightarrow> Variable (f x)
          | CarriedTerm _ _ ns _ \<Rightarrow> renamed_carried (map f ns) item
          | _ \<Rightarrow> item) a) = core (rename f a)"
  by (induction a rule: core.induct) auto

lemma rename_no_names: "anames a = [] \<Longrightarrow> rename f a = a"
  by (induction a rule: anames.induct) (auto intro!: map_idI)

lemma core_canonical: "core (canonical a) = core (rename (alpha_index a) a)"
proof (cases "alpha_variables a = []")
  case True
  then have "anames a = []" by (metis set_alpha_variables set_empty)
  with True show ?thesis by (simp add: canonical_def rename_no_names)
next
  case False
  then show ?thesis unfolding canonical_def alpha_index_def Let_def by (simp add: map_atoms_rec core_map_rec_rename)
qed

lemma skel_rename: "skel (rename f a) = skel a \<and> anames (rename f a) = map f (anames a)"
  by (induction a rule: anames.induct) (auto simp: map_concat comp_def intro!: arg_cong [where f = concat])

lemma core_skel_iff: "core x = core y \<longleftrightarrow> skel x = skel y \<and> anames x = anames y"
proof -
  have "rename id y = y" for y by (induction y rule: anames.induct) (auto intro!: map_idI)
  then show ?thesis using atom_eq_rename [of id x y] by simp
qed

lemma keep_first_map_inj:
  "inj_on g (set ns \<union> set out) \<Longrightarrow> keep_first (map g ns) (map g out) = map g (keep_first ns out)"
proof (induction ns arbitrary: out)
  case (Cons n ns)
  then have "g n \<in> g ` set out \<longleftrightarrow> n \<in> set out" by (auto simp: inj_on_def)
  with Cons.IH [of "if n \<in> set out then out else out @ [n]"] Cons.prems show ?case by (auto simp: insert_absorb)
qed simp

lemma keep_first_index:
  assumes "inj_on g (set (anames a))" "anames b = map g (anames a)" "x \<in> set (anames a)"
  shows "alpha_index b (g x) = alpha_index a x"
proof -
  have eq: "alpha_variables b = map g (alpha_variables a)"
    using keep_first_map_inj [of g "anames a" "[]"] assms by (simp add: alpha_variables_names)
  from assms(3) obtain i where i: "i < length (alpha_variables a)" "x = alpha_variables a ! i"
    unfolding set_alpha_variables [symmetric] in_set_conv_nth by blast
  with alpha_index_nth [of i b] alpha_index_nth [of i a] eq show ?thesis by simp
qed

lemma canonical_alpha: "atom_eq (canonical a) (canonical b) \<longleftrightarrow> alpha_eq a b"
proof -
  have "atom_eq (canonical a) (canonical b) \<longleftrightarrow>
      skel a = skel b \<and> map (alpha_index a) (anames a) = map (alpha_index b) (anames b)"
    by (simp add: atom_eq_core core_canonical core_skel_iff skel_rename)
  also have "\<dots> \<longleftrightarrow> skel a = skel b \<and> (\<exists>g. inj_on g (set (anames a)) \<and> map g (anames a) = anames b)"
  proof (intro conj_cong refl iffI)
    assume shape: "skel a = skel b" and same: "map (alpha_index a) (anames a) = map (alpha_index b) (anames b)"
    from shape have len: "length (anames a) = length (anames b)" by (rule skel_length)
    from same have key: "alpha_index a x = alpha_index b y" if "(x, y) \<in> set (zip (anames a) (anames b))" for x y
      unfolding map_eq_iff_zip [OF len] using that by blast
    have "one_one (set (zip (anames a) (anames b)))"
    proof (unfold one_one_def, safe)
      fix x y y' assume *: "(x, y) \<in> set (zip (anames a) (anames b))" "(x, y') \<in> set (zip (anames a) (anames b))"
      then have "alpha_index a x = alpha_index b y" "alpha_index a x = alpha_index b y'"
        by (auto dest: key)
      with * alpha_index_inj [of b] show "y = y'" by (metis inj_onD set_zip_rightD)
    next
      fix x x' y assume *: "(x, y) \<in> set (zip (anames a) (anames b))" "(x', y) \<in> set (zip (anames a) (anames b))"
      then have "alpha_index a x = alpha_index b y" "alpha_index a x' = alpha_index b y"
        by (auto dest: key)
      with * alpha_index_inj [of a] show "x = x'" by (metis inj_onD set_zip_leftD)
    qed
    with len show "\<exists>g. inj_on g (set (anames a)) \<and> map g (anames a) = anames b" by (simp add: one_one_renaming)
  next
    assume "\<exists>g. inj_on g (set (anames a)) \<and> map g (anames a) = anames b"
    then obtain g where g: "inj_on g (set (anames a))" "anames b = map g (anames a)" by auto
    from keep_first_index [OF g] show "map (alpha_index a) (anames a) = map (alpha_index b) (anames b)"
      by (simp add: g(2))
  qed
  also have "\<dots> \<longleftrightarrow> alpha_eq a b"
    by (auto simp: alpha_eq_iff)
  finally show ?thesis .
qed

interpretation alpha_key: key_class "\<lambda>a b. alpha_eq a b"
  by unfold_locales (auto simp: canonical_alpha [symmetric] atom_eq_core)

section \<open>AlphaSet\<close>

text \<open>A dictionary from canonical forms to the member first added for each.\<close>

type_synonym alpha_set = "(atom, atom) dict"

definition alpha_contains :: "alpha_set \<Rightarrow> atom \<Rightarrow> bool" where
  "alpha_contains s a = (dict_get atom_eq (canonical a) s \<noteq> None)"

definition alpha_add :: "alpha_set \<Rightarrow> atom \<Rightarrow> alpha_set" where
  "alpha_add s a = dict_setdefault atom_eq (canonical a) a s"

definition alpha_discard :: "alpha_set \<Rightarrow> atom \<Rightarrow> alpha_set" where
  "alpha_discard s a = dict_del atom_eq (canonical a) s"

definition alpha_members :: "alpha_set \<Rightarrow> atom list" where
  "alpha_members s = map snd s"

text \<open>Each entry is filed under its own canonical form, and no two entries are variants.\<close>

definition alpha_set_ok :: "alpha_set \<Rightarrow> bool" where
  "alpha_set_ok s = (dict_ok atom_eq s \<and> (\<forall>(k, a) \<in> set s. atom_eq k (canonical a)))"

lemma dict_setdefault_subset: "set (dict_setdefault eq k v d) \<subseteq> insert (k, v) (set d)"
proof (cases "dict_get eq k d")
  case None
  then have "set (dict_set eq k v d) \<subseteq> insert (k, v) (set d)" by (induction d) (auto split: if_splits)
  with None show ?thesis by (simp add: dict_setdefault_def)
qed (auto simp: dict_setdefault_def)

lemma dict_del_subset: "set (dict_del eq k d) \<subseteq> set d"
  by (induction eq k d rule: dict_del.induct) auto

lemma alpha_add_ok: "alpha_set_ok s \<Longrightarrow> alpha_set_ok (alpha_add s a)"
  using dict_setdefault_subset [of atom_eq "canonical a" a s]
  by (auto simp: alpha_set_ok_def alpha_add_def atom_key.dict_ok_setdefault)

lemma alpha_discard_ok: "alpha_set_ok s \<Longrightarrow> alpha_set_ok (alpha_discard s a)"
  using dict_del_subset [of atom_eq "canonical a" s]
  by (auto simp: alpha_set_ok_def alpha_discard_def atom_key.dict_ok_del)

lemma alpha_contains_members:
  "alpha_set_ok s \<Longrightarrow> alpha_contains s a \<longleftrightarrow> (\<exists>b \<in> set (alpha_members s). alpha_eq a b)"
  unfolding canonical_alpha [symmetric]
  by (force simp: alpha_set_ok_def alpha_contains_def alpha_members_def dict_get_None atom_eq_core)

lemma alpha_contains_add: "alpha_contains (alpha_add s b) a \<longleftrightarrow> alpha_contains s a \<or> alpha_eq b a"
  using atom_key.dict_get_cong [of "canonical b" "canonical a" s]
  by (auto simp: alpha_contains_def alpha_add_def atom_key.dict_get_setdefault canonical_alpha [symmetric]
      split: option.splits)

lemma alpha_contains_discard:
  "alpha_set_ok s \<Longrightarrow> alpha_contains (alpha_discard s b) a \<longleftrightarrow> alpha_contains s a \<and> \<not> alpha_eq b a"
  by (auto simp: alpha_contains_def alpha_discard_def alpha_set_ok_def canonical_alpha [symmetric])

text \<open>\<open>AlphaSet\<close> is a set of atoms modulo variable renaming: membership sees exactly the variants of
  its members, through the canonical form, and adding or discarding changes exactly one class.\<close>

theorem alpha_set_modulo_renaming:
  "alpha_set_ok s \<Longrightarrow>
     (alpha_contains s a \<longleftrightarrow> (\<exists>b \<in> set (alpha_members s). alpha_eq a b))
     \<and> (alpha_contains (alpha_add s b) a \<longleftrightarrow> alpha_contains s a \<or> alpha_eq b a)
     \<and> (alpha_contains (alpha_discard s b) a \<longleftrightarrow> alpha_contains s a \<and> \<not> alpha_eq b a)
     \<and> alpha_set_ok (alpha_add s b) \<and> alpha_set_ok (alpha_discard s b)"
  by (simp add: alpha_contains_members [symmetric] alpha_contains_add alpha_contains_discard alpha_add_ok alpha_discard_ok)

theorem alpha_set_modulo_renaming_witness:
  "alpha_contains (alpha_add [] (Expression [Symbol ''f'', Variable ''x''])) (Expression [Symbol ''f'', Variable ''y''])
   \<longleftrightarrow> alpha_contains [] (Expression [Symbol ''f'', Variable ''y''])
     \<or> alpha_eq (Expression [Symbol ''f'', Variable ''x'']) (Expression [Symbol ''f'', Variable ''y''])"
  using alpha_set_modulo_renaming [of "[]"] by (simp add: alpha_set_ok_def)

end
