(* ===== verification/PatternMaps.thy ===== *)
theory PatternMaps
  imports Structures
begin

text \<open>
  \<open>PatternMap\<close> of \<open>metta/structures.py\<close>: ground keys in one dictionary, pattern keys in another under
  their canonical form, and buckets of canonical keys by head name and arity. A Python set of atoms
  is a list without equal members (its iteration order is not specified, so results are compared as
  sets); a generator answers the list of what it yields.
\<close>

section \<open>The mapping\<close>

type_synonym bucket_key = "(string option \<times> nat) option"

record 'v pattern_map =
  pm_ground :: "(atom, 'v) dict"
  pm_patterns :: "(atom, atom \<times> 'v) dict"
  pm_buckets :: "(bucket_key, atom list) dict"

definition pm_empty :: "'v pattern_map" where
  "pm_empty = \<lparr>pm_ground = [], pm_patterns = [], pm_buckets = []\<rparr>"

fun symbol_name :: "atom \<Rightarrow> string option" where
  "symbol_name (Symbol s) = Some s"
| "symbol_name _ = None"

fun bucket_of :: "atom \<Rightarrow> bucket_key" where
  "bucket_of (Expression (h # xs)) = Some (symbol_name h, Suc (length xs))"
| "bucket_of _ = None"

fun probe_buckets :: "atom \<Rightarrow> bucket_key list" where
  "probe_buckets (Expression (h # xs)) =
     (case symbol_name h of Some s \<Rightarrow> [Some (Some s, Suc (length xs))] | None \<Rightarrow> [])
     @ [Some (None, Suc (length xs)), None]"
| "probe_buckets _ = [None]"

definition has_atom :: "atom \<Rightarrow> atom list \<Rightarrow> bool" where
  "has_atom a xs = (\<exists>b \<in> set xs. atom_eq a b)"

definition set_add :: "atom \<Rightarrow> atom list \<Rightarrow> atom list" where
  "set_add a xs = (if has_atom a xs then xs else xs @ [a])"

definition set_discard :: "atom \<Rightarrow> atom list \<Rightarrow> atom list" where
  "set_discard a xs = filter (\<lambda>b. \<not> atom_eq a b) xs"

definition bucket :: "'v pattern_map \<Rightarrow> bucket_key \<Rightarrow> atom list" where
  "bucket pm k = (case dict_get (=) k (pm_buckets pm) of Some xs \<Rightarrow> xs | None \<Rightarrow> [])"

definition pm_set :: "'v pattern_map \<Rightarrow> atom \<Rightarrow> 'v \<Rightarrow> 'v pattern_map" where
  "pm_set pm key v =
     (if is_ground key then pm\<lparr>pm_ground := dict_set atom_eq key v (pm_ground pm)\<rparr>
      else let c = canonical key in
        pm\<lparr>pm_patterns := dict_set atom_eq c (key, v) (pm_patterns pm),
          pm_buckets := dict_set (=) (bucket_of key) (set_add c (bucket pm (bucket_of key))) (pm_buckets pm)\<rparr>)"

definition pm_get :: "'v pattern_map \<Rightarrow> atom \<Rightarrow> py_error + 'v" where
  "pm_get pm key =
     (if is_ground key
      then (case dict_get atom_eq key (pm_ground pm) of Some v \<Rightarrow> Inr v | None \<Rightarrow> Inl KeyError)
      else (case dict_get atom_eq (canonical key) (pm_patterns pm) of
              Some (_, v) \<Rightarrow> Inr v | None \<Rightarrow> Inl KeyError))"

definition pm_del :: "'v pattern_map \<Rightarrow> atom \<Rightarrow> py_error + 'v pattern_map" where
  "pm_del pm key =
     (if is_ground key
      then (case dict_get atom_eq key (pm_ground pm) of
              Some _ \<Rightarrow> Inr (pm\<lparr>pm_ground := dict_del atom_eq key (pm_ground pm)\<rparr>)
            | None \<Rightarrow> Inl KeyError)
      else let c = canonical key in
        (case dict_get atom_eq c (pm_patterns pm) of
           None \<Rightarrow> Inl KeyError
         | Some (stored, _) \<Rightarrow>
             let b = bucket_of stored; rest = dict_del atom_eq c (pm_patterns pm) in
             Inr (pm\<lparr>pm_patterns := rest,
               pm_buckets := (case dict_get (=) b (pm_buckets pm) of
                   None \<Rightarrow> pm_buckets pm
                 | Some xs \<Rightarrow> dict_set (=) b (set_discard c xs) (pm_buckets pm))\<rparr>)))"

definition pm_keys :: "'v pattern_map \<Rightarrow> atom list" where
  "pm_keys pm = map fst (pm_ground pm) @ map (fst \<circ> snd) (pm_patterns pm)"

definition pm_len :: "'v pattern_map \<Rightarrow> nat" where
  "pm_len pm = length (pm_ground pm) + length (pm_patterns pm)"

definition mutually_unifiable :: "atom \<Rightarrow> atom \<Rightarrow> bool" where
  "mutually_unifiable l r = (match l r \<noteq> None \<or> match r l \<noteq> None)"

text \<open>\<open>matching\<close>: \<open>self._patterns[canonical]\<close> raises when a bucket holds a key that is not stored.\<close>

fun pm_candidates :: "'v pattern_map \<Rightarrow> atom \<Rightarrow> atom list \<Rightarrow> py_error + (atom \<times> 'v) list" where
  "pm_candidates pm probe [] = Inr []"
| "pm_candidates pm probe (c # cs) =
     (case dict_get atom_eq c (pm_patterns pm) of
        None \<Rightarrow> Inl KeyError
      | Some (stored, v) \<Rightarrow>
          (case pm_candidates pm probe cs of
             Inl e \<Rightarrow> Inl e
           | Inr res \<Rightarrow> Inr (if match stored probe \<noteq> None then (stored, v) # res else res)))"

definition candidates :: "'v pattern_map \<Rightarrow> atom \<Rightarrow> atom list" where
  "candidates pm probe = fold (\<lambda>k acc. fold set_add (bucket pm k) acc) (probe_buckets probe) []"

definition pm_matching :: "'v pattern_map \<Rightarrow> atom \<Rightarrow> py_error + (atom \<times> 'v) list" where
  "pm_matching pm probe =
     (if is_ground probe
      then (case pm_candidates pm probe (candidates pm probe) of
              Inl e \<Rightarrow> Inl e
            | Inr res \<Rightarrow>
                Inr ((case dict_get atom_eq probe (pm_ground pm) of Some v \<Rightarrow> [(probe, v)] | None \<Rightarrow> []) @ res))
      else Inr (filter (\<lambda>(k, v). match probe k \<noteq> None) (pm_ground pm)
        @ filter (\<lambda>(stored, v). mutually_unifiable stored probe) (map snd (pm_patterns pm))))"

section \<open>The invariant\<close>

text \<open>
  A stored pattern is filed under its canonical form, which is in the bucket of its shape, and a
  bucket holds nothing else. The buckets read the head as a symbol or not, so a space handle at the
  head (equal to the symbol of its name) is outside the invariant.
\<close>

fun plain_head :: "atom \<Rightarrow> bool" where
  "plain_head (Expression (Space _ # _)) = False"
| "plain_head _ = True"

definition pm_ok :: "'v pattern_map \<Rightarrow> bool" where
  "pm_ok pm =
     (dict_ok atom_eq (pm_ground pm) \<and> dict_ok atom_eq (pm_patterns pm) \<and>
      (\<forall>c a v. dict_get atom_eq c (pm_patterns pm) = Some (a, v) \<longrightarrow>
         atom_eq c (canonical a) \<and> \<not> is_ground a \<and> plain_head a \<and> has_atom c (bucket pm (bucket_of a))) \<and>
      (\<forall>k c. has_atom c (bucket pm k) \<longrightarrow>
         (\<exists>a v. dict_get atom_eq c (pm_patterns pm) = Some (a, v) \<and> bucket_of a = k)))"

lemma has_atom_Cons [simp]: "has_atom a (b # xs) \<longleftrightarrow> atom_eq a b \<or> has_atom a xs"
  by (auto simp: has_atom_def)

lemma has_atom_mem: "a \<in> set xs \<Longrightarrow> has_atom a xs"
  unfolding has_atom_def by (rule bexI [of _ a]) simp_all

lemma has_atom_core: "has_atom a xs \<longleftrightarrow> core a \<in> core ` set xs"
  by (auto simp: has_atom_def atom_eq_core)

lemma has_atom_cong: "atom_eq a b \<Longrightarrow> has_atom a xs = has_atom b xs"
  by (simp add: has_atom_core atom_eq_core)

lemma has_atom_add [simp]: "has_atom a (set_add b xs) \<longleftrightarrow> atom_eq a b \<or> has_atom a xs"
  by (auto simp: set_add_def has_atom_core atom_eq_core)

lemma has_atom_discard [simp]: "has_atom a (set_discard b xs) \<longleftrightarrow> \<not> atom_eq a b \<and> has_atom a xs"
  by (simp add: set_discard_def has_atom_core atom_eq_core image_iff) metis

lemma bucket_skel: "skel a = skel b \<Longrightarrow> plain_head a \<Longrightarrow> plain_head b \<Longrightarrow> bucket_of a = bucket_of b"
proof (induction a rule: bucket_of.induct)
  case (1 h xs)
  then obtain h' ys where b: "b = Expression (h' # ys)" "skel h = skel h'" "length xs = length ys"
    by (cases b) (auto dest: map_eq_imp_length_eq)
  with 1(2,3) have "symbol_name h = symbol_name h'" by (cases h; cases h') auto
  with b show ?case by simp
qed (cases b rule: bucket_of.cases; simp)+

lemma alpha_bucket: "alpha_eq a b \<Longrightarrow> plain_head a \<Longrightarrow> plain_head b \<Longrightarrow> bucket_of a = bucket_of b"
  by (rule bucket_skel) (simp_all add: alpha_eq_iff)

lemma alpha_ground: "alpha_eq a b \<Longrightarrow> is_ground a = is_ground b"
proof -
  have "is_ground (skel a) = is_ground a" for a by (induction a rule: skel.induct) auto
  then show "alpha_eq a b \<Longrightarrow> ?thesis" by (metis alpha_eq_iff)
qed

text \<open>When two keys are one entry.\<close>

definition same_key :: "atom \<Rightarrow> atom \<Rightarrow> bool" where
  "same_key a b = (if is_ground a then is_ground b \<and> atom_eq a b else \<not> is_ground b \<and> alpha_eq a b)"

lemma pm_get_set: "pm_get (pm_set pm k v) k' = (if same_key k k' then Inr v else pm_get pm k')"
  by (auto simp: pm_get_def pm_set_def same_key_def Let_def canonical_alpha dest: is_ground_cong alpha_ground)

lemma pm_ok_bucket:
  "pm_ok pm \<Longrightarrow> has_atom c (bucket pm k) \<Longrightarrow> \<exists>a v. dict_get atom_eq c (pm_patterns pm) = Some (a, v) \<and> bucket_of a = k"
  by (simp add: pm_ok_def)

lemma pm_ok_pattern:
  "pm_ok pm \<Longrightarrow> dict_get atom_eq c (pm_patterns pm) = Some (a, v) \<Longrightarrow>
     atom_eq c (canonical a) \<and> \<not> is_ground a \<and> plain_head a \<and> has_atom c (bucket pm (bucket_of a))"
  unfolding pm_ok_def by blast

lemma has_atom_Nil [simp]: "\<not> has_atom a []"
  by (simp add: has_atom_def)

lemma pm_empty_ok: "pm_ok pm_empty"
  by (simp add: pm_ok_def pm_empty_def bucket_def)

lemma bucket_update [simp]:
  "bucket (pm\<lparr>pm_patterns := ps, pm_buckets := dict_set (=) k xs (pm_buckets pm)\<rparr>) k' = (if k' = k then xs else bucket pm k')"
  "bucket (pm\<lparr>pm_ground := g\<rparr>) k' = bucket pm k'"
  by (auto simp: bucket_def)

lemma pm_set_ok:
  assumes ok: "pm_ok pm" and plain: "plain_head key"
  shows "pm_ok (pm_set pm key v)"
proof (cases "is_ground key")
  case True
  with ok show ?thesis by (simp add: pm_ok_def pm_set_def atom_key.dict_ok_set)
next
  case False
  let ?c = "canonical key" and ?b = "bucket_of key"
  let ?pm = "pm_set pm key v"
  have pats: "pm_patterns ?pm = dict_set atom_eq ?c (key, v) (pm_patterns pm)"
    and gnd: "pm_ground ?pm = pm_ground pm"
    and bkt: "bucket ?pm k = (if k = ?b then set_add ?c (bucket pm ?b) else bucket pm k)" for k
    using False by (simp_all add: pm_set_def Let_def)
  have "atom_eq c (canonical a) \<and> \<not> is_ground a \<and> plain_head a \<and> has_atom c (bucket ?pm (bucket_of a))"
    if "dict_get atom_eq c (pm_patterns ?pm) = Some (a, w)" for c a w
  proof (cases "atom_eq ?c c")
    case True
    with that have a: "a = key" by (simp add: pats)
    from True have "atom_eq c ?c" by (rule atom_key.eq_sym)
    with False plain show ?thesis unfolding a by (simp add: bkt)
  next
    case neq: False
    with that have "dict_get atom_eq c (pm_patterns pm) = Some (a, w)" by (simp add: pats)
    from pm_ok_pattern [OF ok this] show ?thesis by (auto simp: bkt)
  qed
  moreover have "\<exists>a w. dict_get atom_eq c (pm_patterns ?pm) = Some (a, w) \<and> bucket_of a = k"
    if c: "has_atom c (bucket ?pm k)" for c k
  proof (cases "atom_eq ?c c")
    case True
    have "k = ?b"
    proof (rule ccontr)
      assume "k \<noteq> ?b"
      with c have "has_atom c (bucket pm k)" by (simp add: bkt)
      from pm_ok_bucket [OF ok this] obtain a w where a: "dict_get atom_eq c (pm_patterns pm) = Some (a, w)" "bucket_of a = k" by blast
      with pm_ok_pattern [OF ok a(1)] True have "alpha_eq a key"
        by (simp add: canonical_alpha [symmetric] atom_eq_core)
      with alpha_bucket [OF this _ plain] pm_ok_pattern [OF ok a(1)] a(2) \<open>k \<noteq> ?b\<close> show False by simp
    qed
    with True show ?thesis by (simp add: pats)
  next
    case False
    with c have "has_atom c (bucket pm k)" by (auto simp: bkt dest: atom_key.eq_sym split: if_splits)
    from pm_ok_bucket [OF ok this] False show ?thesis by (simp add: pats)
  qed
  ultimately show ?thesis
    unfolding pm_ok_def gnd pats using ok by (simp add: pats pm_ok_def atom_key.dict_ok_set)
qed

lemma pm_del_ok:
  assumes ok: "pm_ok pm" and del: "pm_del pm key = Inr pm'"
  shows "pm_ok pm'"
proof (cases "is_ground key")
  case True
  with del have pm': "pm' = pm\<lparr>pm_ground := dict_del atom_eq key (pm_ground pm)\<rparr>"
    by (auto simp: pm_del_def split: option.splits)
  from ok show ?thesis unfolding pm_ok_def pm' by (simp add: atom_key.dict_ok_del)
next
  case False
  let ?c = "canonical key"
  obtain stored w where st: "dict_get atom_eq ?c (pm_patterns pm) = Some (stored, w)"
    using del False by (auto simp: pm_del_def Let_def split: option.splits)
  let ?b = "bucket_of stored"
  from pm_ok_pattern [OF ok st] obtain xs where xs: "dict_get (=) ?b (pm_buckets pm) = Some xs"
    by (auto simp: bucket_def split: option.splits)
  have dok: "dict_ok atom_eq (pm_patterns pm)" using ok by (simp add: pm_ok_def)
  have pm': "pm' = pm\<lparr>pm_patterns := dict_del atom_eq ?c (pm_patterns pm),
      pm_buckets := dict_set (=) ?b (set_discard ?c xs) (pm_buckets pm)\<rparr>"
    using del False st xs by (simp add: pm_del_def Let_def)
  have bkt: "has_atom c (bucket pm' k) \<longleftrightarrow> has_atom c (bucket pm k) \<and> (k = ?b \<longrightarrow> \<not> atom_eq c ?c)" for c k
    using xs by (auto simp: pm' bucket_def)
  have "atom_eq c (canonical a) \<and> \<not> is_ground a \<and> plain_head a \<and> has_atom c (bucket pm' (bucket_of a))"
    if "dict_get atom_eq c (pm_patterns pm') = Some (a, u)" for c a u
  proof -
    from that dok have "\<not> atom_eq ?c c" "dict_get atom_eq c (pm_patterns pm) = Some (a, u)"
      by (auto simp: pm' split: if_splits)
    with pm_ok_pattern [OF ok this(2)] show ?thesis by (auto simp: bkt dest: atom_key.eq_sym)
  qed
  moreover have "\<exists>a u. dict_get atom_eq c (pm_patterns pm') = Some (a, u) \<and> bucket_of a = k"
    if c: "has_atom c (bucket pm' k)" for c k
  proof -
    from c have old: "has_atom c (bucket pm k)" "k = ?b \<Longrightarrow> \<not> atom_eq c ?c" by (simp_all add: bkt)
    from pm_ok_bucket [OF ok old(1)] obtain a u where
      a: "dict_get atom_eq c (pm_patterns pm) = Some (a, u)" "bucket_of a = k" by blast
    have "\<not> atom_eq ?c c"
    proof
      assume "atom_eq ?c c"
      with a st have "k = ?b" by (simp add: atom_key.dict_get_cong)
      with old(2) \<open>atom_eq ?c c\<close> show False by (auto dest: atom_key.eq_sym)
    qed
    with a dok show ?thesis by (simp add: pm')
  qed
  ultimately show ?thesis
    unfolding pm_ok_def using ok by (simp add: pm' pm_ok_def atom_key.dict_ok_del)
qed

lemma pm_del_get:
  assumes "pm_ok pm"
  shows "case pm_del pm k of
      Inl e \<Rightarrow> e = KeyError \<and> pm_get pm k = Inl KeyError
    | Inr pm' \<Rightarrow> pm_get pm k \<noteq> Inl KeyError \<and>
        (\<forall>k'. pm_get pm' k' = (if same_key k k' then Inl KeyError else pm_get pm k'))"
  using assms
  by (auto simp: pm_del_def pm_get_def pm_ok_def same_key_def Let_def canonical_alpha split: option.splits
      dest: is_ground_cong alpha_ground)

section \<open>Probing\<close>

lemma has_atom_fold: "has_atom a (fold set_add xs acc) \<longleftrightarrow> has_atom a xs \<or> has_atom a acc"
  by (induction xs arbitrary: acc) auto

lemma has_atom_candidates: "has_atom c (candidates pm probe) \<longleftrightarrow> (\<exists>k \<in> set (probe_buckets probe). has_atom c (bucket pm k))"
proof -
  have "has_atom c (fold (\<lambda>k acc. fold set_add (bucket pm k) acc) ks acc) \<longleftrightarrow>
      (\<exists>k \<in> set ks. has_atom c (bucket pm k)) \<or> has_atom c acc" for ks acc
    by (induction ks arbitrary: acc) (auto simp: has_atom_fold)
  then show ?thesis by (simp add: candidates_def)
qed

lemma pm_candidates_spec:
  "\<forall>c \<in> set cs. dict_get atom_eq c (pm_patterns pm) \<noteq> None \<Longrightarrow>
     \<exists>res. pm_candidates pm probe cs = Inr res \<and>
       set res = {(a, v). \<exists>c \<in> set cs. dict_get atom_eq c (pm_patterns pm) = Some (a, v) \<and> match a probe \<noteq> None}"
proof (induction cs)
  case (Cons c cs)
  then obtain a v res where "dict_get atom_eq c (pm_patterns pm) = Some (a, v)" "pm_candidates pm probe cs = Inr res"
    "set res = {(a, v). \<exists>c \<in> set cs. dict_get atom_eq c (pm_patterns pm) = Some (a, v) \<and> match a probe \<noteq> None}"
    by fastforce
  then show ?case by auto
qed simp

text \<open>A pattern that matches a ground probe is in one of the buckets the probe reads.\<close>

lemma match_bucket:
  assumes "match a probe \<noteq> None" "\<not> is_ground a" "plain_head a" "plain_head probe"
  shows "bucket_of a \<in> set (probe_buckets probe)"
proof -
  from assms(1) obtain m where fit: "fits m a probe" by (meson match_None_iff)
  show ?thesis
  proof (cases "\<exists>h xs. a = Expression (h # xs)")
    case True
    then obtain h xs where a: "a = Expression (h # xs)" by blast
    with fit obtain h' ys where p: "probe = Expression (h' # ys)" "fits m h h'" "length xs = length ys"
      by (cases probe; cases "kids probe") (auto dest: list_all2_lengthD)
    with assms(3,4) a have "\<And>s. h = Symbol s \<Longrightarrow> h' = Symbol s"
      by (cases h'; auto simp: atom_eq_core)
    with a p show ?thesis by (cases h) auto
  next
    case False
    then have "bucket_of a = None" by (cases a rule: bucket_of.cases) auto
    then show ?thesis by (cases probe rule: probe_buckets.cases) auto
  qed
qed

lemma pm_matching_ground:
  assumes ok: "pm_ok pm" and g: "is_ground probe" and plain: "plain_head probe"
  shows "\<exists>res. pm_matching pm probe = Inr res \<and>
    (\<forall>a v. (a, v) \<in> set res \<longleftrightarrow>
       (a = probe \<and> pm_get pm probe = Inr v) \<or>
       (\<exists>c. dict_get atom_eq c (pm_patterns pm) = Some (a, v) \<and> match a probe \<noteq> None))"
proof -
  let ?cs = "candidates pm probe"
  have stored: "dict_get atom_eq c (pm_patterns pm) \<noteq> None" if "c \<in> set ?cs" for c
  proof -
    from that have "has_atom c ?cs" by (rule has_atom_mem)
    then show ?thesis using pm_ok_bucket [OF ok] by (fastforce simp: has_atom_candidates)
  qed
  then obtain res where res: "pm_candidates pm probe ?cs = Inr res"
    "set res = {(a, v). \<exists>c \<in> set ?cs. dict_get atom_eq c (pm_patterns pm) = Some (a, v) \<and> match a probe \<noteq> None}"
    using pm_candidates_spec [of ?cs pm probe] by auto
  have reach: "\<exists>d \<in> set ?cs. dict_get atom_eq d (pm_patterns pm) = Some (a, v)"
    if c: "dict_get atom_eq c (pm_patterns pm) = Some (a, v)" and m: "match a probe \<noteq> None" for a v c
  proof -
    from pm_ok_pattern [OF ok c] match_bucket [OF m _ _ plain] have "has_atom c ?cs"
      by (auto simp: has_atom_candidates)
    then obtain d where "d \<in> set ?cs" "atom_eq c d" by (auto simp: has_atom_def)
    with c show ?thesis by (metis atom_key.dict_get_cong)
  qed
  have "pm_matching pm probe =
      Inr ((case dict_get atom_eq probe (pm_ground pm) of Some v \<Rightarrow> [(probe, v)] | None \<Rightarrow> []) @ res)"
    using g res(1) by (simp add: pm_matching_def)
  moreover have "pm_get pm probe = Inr v \<longleftrightarrow> dict_get atom_eq probe (pm_ground pm) = Some v" for v
    using g by (auto simp: pm_get_def split: option.splits)
  moreover have "(a, v) \<in> set res \<longleftrightarrow> (\<exists>c. dict_get atom_eq c (pm_patterns pm) = Some (a, v) \<and> match a probe \<noteq> None)" for a v
    using res(2) reach by blast
  ultimately show ?thesis by (auto split: option.splits)
qed

section \<open>Properties\<close>

text \<open>C14. \<open>PatternMap\<close> is an exact mapping: ground keys compare by equality and pattern keys up to
  renaming; a write changes one entry, a deletion removes one entry or raises \<open>KeyError\<close>, and both keep
  the dictionaries and buckets consistent.\<close>

theorem pattern_map_exact:
  "pm_ok pm \<Longrightarrow> plain_head k \<Longrightarrow>
     pm_ok (pm_set pm k v)
     \<and> pm_get (pm_set pm k v) k' = (if same_key k k' then Inr v else pm_get pm k')
     \<and> (case pm_del pm k of
          Inl e \<Rightarrow> e = KeyError \<and> pm_get pm k = Inl KeyError
        | Inr pm' \<Rightarrow> pm_ok pm' \<and> pm_get pm k \<noteq> Inl KeyError \<and>
            pm_get pm' k' = (if same_key k k' then Inl KeyError else pm_get pm k'))"
  using pm_del_get [of pm k] pm_del_ok [of pm k]
  by (auto simp: pm_set_ok pm_get_set split: sum.splits)

theorem pattern_map_exact_witness:
  "pm_get (pm_set pm_empty (Expression [Symbol ''f'', Variable ''x'']) (7::nat)) (Expression [Symbol ''f'', Variable ''x'']) =
     (if same_key (Expression [Symbol ''f'', Variable ''x'']) (Expression [Symbol ''f'', Variable ''x'']) then Inr 7
      else pm_get pm_empty (Expression [Symbol ''f'', Variable ''x'']))"
  using pattern_map_exact [OF pm_empty_ok, of "Expression [Symbol ''f'', Variable ''x'']" "7::nat"] by simp

text \<open>C15. A ground probe reaches exactly the entries that apply to it: its own ground entry and every
  stored pattern that matches it, whichever bucket the pattern is in, and no bucket entry is stale.\<close>

theorem pattern_map_matching:
  "pm_ok pm \<Longrightarrow> is_ground probe \<Longrightarrow> plain_head probe \<Longrightarrow>
     \<exists>res. pm_matching pm probe = Inr res \<and>
       (\<forall>a v. (a, v) \<in> set res \<longleftrightarrow>
          (a = probe \<and> pm_get pm probe = Inr v) \<or>
          (\<exists>c. dict_get atom_eq c (pm_patterns pm) = Some (a, v) \<and> match a probe \<noteq> None))"
  by (rule pm_matching_ground)

theorem pattern_map_matching_witness:
  "\<exists>res. pm_matching (pm_set pm_empty (Variable ''x'') (7::nat)) (Symbol ''a'') = Inr res \<and>
     (\<forall>a v. (a, v) \<in> set res \<longleftrightarrow>
        (a = Symbol ''a'' \<and> pm_get (pm_set pm_empty (Variable ''x'') (7::nat)) (Symbol ''a'') = Inr v) \<or>
        (\<exists>c. dict_get atom_eq c (pm_patterns (pm_set pm_empty (Variable ''x'') (7::nat))) = Some (a, v)
             \<and> match a (Symbol ''a'') \<noteq> None))"
  by (rule pattern_map_matching) (simp_all add: pm_set_ok pm_empty_ok)

text \<open>The two documented corners that do not hold of probes with variables and of \<open>_\<close> in keys.\<close>

definition left_pattern :: atom where
  "left_pattern = Expression [Symbol ''f'', Variable ''x'', Symbol ''a'']"

definition right_probe :: atom where
  "right_probe = Expression [Symbol ''f'', Symbol ''b'', Variable ''y'']"

text \<open>\<open>_mutually_unifiable\<close> is no over-approximation of unifiability: \<open>(f $x a)\<close> and \<open>(f b $y)\<close>
  unify, yet neither matches the other, so a stored \<open>(f $x a)\<close> is not answered for that probe.\<close>

theorem matching_misses_unifiable:
  "(\<exists>\<sigma>. same \<sigma> left_pattern right_probe) \<and> \<not> mutually_unifiable left_pattern right_probe
   \<and> pm_matching (pm_set pm_empty left_pattern (1::nat)) right_probe = Inr []"
proof (intro conjI)
  show "\<exists>\<sigma>. same \<sigma> left_pattern right_probe"
    by (rule exI [of _ "\<lambda>v. if v = ''x'' then Symbol ''b'' else Symbol ''a''"])
      (simp add: same_def left_pattern_def right_probe_def app_def)
  show none: "\<not> mutually_unifiable left_pattern right_probe"
    by (simp add: mutually_unifiable_def left_pattern_def right_probe_def match_def match_step_def atom_eq_core)
  then show "pm_matching (pm_set pm_empty left_pattern (1::nat)) right_probe = Inr []"
    by (simp add: pm_matching_def pm_set_def pm_empty_def Let_def left_pattern_def right_probe_def)
qed

text \<open>The canonical form renames every occurrence of \<open>_\<close> alike, so \<open>(f _ _)\<close> and \<open>(f $x $x)\<close> are one
  key although only the first one matches \<open>(f 1 2)\<close>.\<close>

theorem anonymous_key_conflated:
  "same_key (Expression [Symbol ''f'', Variable ''_'', Variable ''_''])
     (Expression [Symbol ''f'', Variable ''x'', Variable ''x''])
   \<and> match (Expression [Symbol ''f'', Variable ''_'', Variable ''_''])
       (Expression [Symbol ''f'', gnd (VInt 1), gnd (VInt 2)]) \<noteq> None
   \<and> match (Expression [Symbol ''f'', Variable ''x'', Variable ''x''])
       (Expression [Symbol ''f'', gnd (VInt 1), gnd (VInt 2)]) = None"
proof (intro conjI)
  show "same_key (Expression [Symbol ''f'', Variable ''_'', Variable ''_''])
     (Expression [Symbol ''f'', Variable ''x'', Variable ''x''])"
    by (simp add: same_key_def alpha_eq_iff) (rule exI [of _ "\<lambda>_. ''x''"], simp)
qed (simp_all add: match_def match_step_def atom_eq_core gnd_def)

end
