(* ===== verification/MatchIndex.thy ===== *)
theory MatchIndex
  imports Unify
begin

text \<open>
  \<open>MatchIndex\<close> of \<open>metta/structures.py\<close>: the discrimination tree over preorder tokens, its skip table
  and its walk, against the brute-force answer over all registrations in registration order.
\<close>

section \<open>Tokens\<close>

text \<open>
  \<open>_tokens\<close>. Numbers share one kind and compare by value (an int equals the float of its value, NaN
  only its own object); a handle is its own token; an opaque object is its class of equal hashable
  objects (read from the host: \<open>okey\<close>) or its identity.
\<close>

datatype num_key = KNaN nat | KInf bool | KRat rat

definition float_key :: "pyfloat \<Rightarrow> num_key" where
  "float_key f =
     (case f of NaN i \<Rightarrow> KNaN i | PosInf \<Rightarrow> KInf True | NegInf \<Rightarrow> KInf False | NegZero \<Rightarrow> KRat 0 | Fin r \<Rightarrow> KRat r)"

datatype mtoken =
    TStar
  | TOpen nat
  | TSym string
  | TNum num_key
  | TStr string
  | TBool bool
  | TFrac rat
  | TObj nat
  | TNative int
  | TCarried string "string list"
  | TSpace string

fun value_mtoken :: "(nat \<Rightarrow> nat) \<Rightarrow> pyvalue \<Rightarrow> mtoken" where
  "value_mtoken okey (VInt i) = TNum (KRat (of_int i))"
| "value_mtoken okey (VFloat f) = TNum (float_key f)"
| "value_mtoken okey (VStr s) = TStr s"
| "value_mtoken okey (VBool b) = TBool b"
| "value_mtoken okey (VObj oid) = TObj (okey oid)"

fun head_token :: "(nat \<Rightarrow> nat) \<Rightarrow> atom \<Rightarrow> mtoken" where
  "head_token okey (Variable x) = TStar"
| "head_token okey (Expression xs) = TOpen (length xs)"
| "head_token okey (Symbol s) = TSym s"
| "head_token okey (Grounded v _) = value_mtoken okey v"
| "head_token okey (NativeRational r) = TFrac r"
| "head_token okey (NativeHandle i _) = TNative i"
| "head_token okey (CarriedTerm _ k ns _) = TCarried k ns"
| "head_token okey (Space n) = TSpace n"

function tokens_loop :: "(nat \<Rightarrow> nat) \<Rightarrow> atom list \<Rightarrow> mtoken list \<Rightarrow> mtoken list" where
  "tokens_loop okey [] out = out"
| "tokens_loop okey (a # st) out = tokens_loop okey (kids a @ st) (out @ [head_token okey a])"
  by pat_completeness auto
termination
proof (relation "measure (\<lambda>(okey, st, out). sum_list (map asize st))")
  fix okey :: "nat \<Rightarrow> nat" and a st out
  show "((okey, kids a @ st, out @ [head_token okey a]), okey, a # st, out)
      \<in> measure (\<lambda>(okey, st, out). sum_list (map asize st))"
    by (cases a) auto
qed auto

definition tokens :: "(nat \<Rightarrow> nat) \<Rightarrow> atom \<Rightarrow> mtoken list" where
  "tokens okey a = tokens_loop okey [a] []"

fun flat :: "(nat \<Rightarrow> nat) \<Rightarrow> atom \<Rightarrow> mtoken list" where
  "flat okey (Expression xs) = TOpen (length xs) # concat (map (flat okey) xs)"
| "flat okey a = [head_token okey a]"

lemma flat_kids: "flat okey a = head_token okey a # concat (map (flat okey) (kids a))"
  by (cases a) auto

lemma tokens_loop_flat: "tokens_loop okey st out = out @ concat (map (flat okey) st)"
proof (induction okey st out rule: tokens_loop.induct)
  case (2 okey a st out)
  then show ?case by (simp add: flat_kids [of okey a])
qed simp

lemma tokens_flat: "tokens okey a = flat okey a"
  by (simp add: tokens_def tokens_loop_flat)

section \<open>The skip table\<close>

fun landing :: "nat list \<Rightarrow> nat \<Rightarrow> nat \<Rightarrow> nat" where
  "landing skips 0 q = q"
| "landing skips (Suc n) q = landing skips n (skips ! q)"

text \<open>The positions are filled from the last one down.\<close>

fun skip_loop :: "mtoken list \<Rightarrow> nat \<Rightarrow> nat list \<Rightarrow> nat list" where
  "skip_loop ts 0 skips = skips"
| "skip_loop ts (Suc p) skips =
     skip_loop ts p (skips[p := (case ts ! p of TOpen n \<Rightarrow> landing skips n (Suc p) | _ \<Rightarrow> Suc p)])"

definition skip_table :: "mtoken list \<Rightarrow> nat list" where
  "skip_table ts = skip_loop ts (length ts) (replicate (length ts) 0)"

text \<open>From position \<open>p\<close> on, the entry at the start of a subterm is the position just past it.\<close>

definition skips_from :: "(nat \<Rightarrow> nat) \<Rightarrow> mtoken list \<Rightarrow> nat \<Rightarrow> nat list \<Rightarrow> bool" where
  "skips_from okey ts p skips =
     (length skips = length ts \<and>
      (\<forall>u a v. ts = u @ flat okey a @ v \<longrightarrow> p \<le> length u \<longrightarrow> skips ! length u = length u + length (flat okey a)))"

lemma landing_forest:
  assumes "skips_from okey ts p skips" "ts = u @ concat (map (flat okey) xs) @ v" "p \<le> length u"
  shows "landing skips (length xs) (length u) = length u + length (concat (map (flat okey) xs))"
  using assms(2,3)
proof (induction xs arbitrary: u)
  case (Cons x xs)
  then have ts: "ts = u @ flat okey x @ (concat (map (flat okey) xs) @ v)" by simp
  with assms(1) Cons.prems(2) have step: "skips ! length u = length (u @ flat okey x)"
    by (simp add: skips_from_def)
  have "landing skips (length xs) (length (u @ flat okey x)) =
      length (u @ flat okey x) + length (concat (map (flat okey) xs))"
    by (rule Cons.IH) (use Cons.prems in simp_all)
  with step show ?case by simp
qed simp

lemma head_token_Open: "head_token okey a = TOpen n \<Longrightarrow> is_expression a \<and> n = length (kids a)"
proof (cases a)
  case (Grounded v e)
  then show "head_token okey a = TOpen n \<Longrightarrow> ?thesis" by (cases v) auto
qed auto

lemma skips_step:
  assumes s: "skips_from okey ts (Suc p) skips" and p: "p < length ts"
  shows "skips_from okey ts p
    (skips[p := (case ts ! p of TOpen n \<Rightarrow> landing skips n (Suc p) | _ \<Rightarrow> Suc p)])"
  unfolding skips_from_def
proof (intro conjI allI impI)
  fix u a v
  assume ts: "ts = u @ flat okey a @ v" and le: "p \<le> length u"
  let ?new = "skips[p := (case ts ! p of TOpen n \<Rightarrow> landing skips n (Suc p) | _ \<Rightarrow> Suc p)]"
  show "?new ! length u = length u + length (flat okey a)"
  proof (cases "p = length u")
    case False
    with s ts le show ?thesis by (simp add: skips_from_def)
  next
    case True
    have head: "ts ! p = head_token okey a" using ts True by (simp add: nth_append flat_kids [of okey a])
    have entry: "?new ! length u = (case ts ! p of TOpen n \<Rightarrow> landing skips n (Suc p) | _ \<Rightarrow> Suc p)"
      using True p s by (simp add: skips_from_def)
    show ?thesis
    proof (cases "is_expression a")
      case exp: True
      then have n: "head_token okey a = TOpen (length (kids a))" by (cases a) auto
      have "ts = (u @ [head_token okey a]) @ concat (map (flat okey) (kids a)) @ v"
        using ts by (simp add: flat_kids [of okey a])
      from landing_forest [OF s this] True have "landing skips (length (kids a)) (Suc p) =
          Suc p + length (concat (map (flat okey) (kids a)))" by simp
      with entry head n True show ?thesis by (simp add: flat_kids [of okey a])
    next
      case leaf: False
      then have "kids a = []" by (cases a) auto
      moreover have "(case head_token okey a of TOpen n \<Rightarrow> landing skips n (Suc p) | _ \<Rightarrow> Suc p) = Suc p"
        using leaf head_token_Open [of okey a] by (auto split: mtoken.split)
      ultimately show ?thesis using entry head True by (simp add: flat_kids [of okey a])
    qed
  qed
qed (use s in \<open>simp add: skips_from_def\<close>)

lemma skip_loop_correct: "skips_from okey ts p skips \<Longrightarrow> p \<le> length ts \<Longrightarrow> skips_from okey ts 0 (skip_loop ts p skips)"
proof (induction p arbitrary: skips)
  case (Suc p)
  then show ?case using skips_step [of okey ts p skips] by simp
qed simp

lemma skip_table_correct: "skips_from okey ts 0 (skip_table ts)"
  unfolding skip_table_def
proof (rule skip_loop_correct)
  show "skips_from okey ts (length ts) (replicate (length ts) 0)"
    unfolding skips_from_def
  proof (intro conjI allI impI)
    fix u a v
    assume "ts = u @ flat okey a @ v" "length ts \<le> length u"
    then have "flat okey a = []" by simp
    then show "replicate (length ts) 0 ! length u = length u + length (flat okey a)" by (simp add: flat_kids [of okey a])
  qed simp
qed simp

lemma skip_table_nth:
  "ts = u @ flat okey a @ v \<Longrightarrow> skip_table ts ! length u = length u + length (flat okey a)"
  using skip_table_correct [of okey ts] by (auto simp: skips_from_def)

section \<open>The tree\<close>

text \<open>A node: its edges by token, and the ids under its \<open>$leaves\<close> key.\<close>

datatype trie = Node "(mtoken \<times> trie) list" "nat list"

fun edges :: "trie \<Rightarrow> (mtoken \<times> trie) list" where
  "edges (Node es ls) = es"

fun leaves :: "trie \<Rightarrow> nat list" where
  "leaves (Node es ls) = ls"

definition empty_node :: trie where
  "empty_node = Node [] []"

definition child :: "mtoken \<Rightarrow> trie \<Rightarrow> trie option" where
  "child k t = dict_get (=) k (edges t)"

fun trie_insert :: "mtoken list \<Rightarrow> nat \<Rightarrow> trie \<Rightarrow> trie" where
  "trie_insert [] i t = Node (edges t) (leaves t @ [i])"
| "trie_insert (k # ks) i t =
     Node (dict_set (=) k (trie_insert ks i (case child k t of Some u \<Rightarrow> u | None \<Rightarrow> empty_node)) (edges t)) (leaves t)"

fun find_node :: "mtoken list \<Rightarrow> trie \<Rightarrow> trie option" where
  "find_node [] t = Some t"
| "find_node (k # ks) t = (case child k t of None \<Rightarrow> None | Some u \<Rightarrow> find_node ks u)"

fun trie_remove :: "mtoken list \<Rightarrow> nat \<Rightarrow> trie \<Rightarrow> trie" where
  "trie_remove [] i t = Node (edges t) (remove1 i (leaves t))"
| "trie_remove (k # ks) i t =
     (case child k t of
        None \<Rightarrow> t
      | Some u \<Rightarrow> Node (dict_set (=) k (trie_remove ks i u) (edges t)) (leaves t))"

record 'v match_index =
  mi_root :: trie
  mi_entries :: "(nat, atom \<times> 'v) dict"
  mi_next :: nat
  mi_size :: nat

definition mi_empty :: "'v match_index" where
  "mi_empty = \<lparr>mi_root = empty_node, mi_entries = [], mi_next = 0, mi_size = 0\<rparr>"

definition mi_add :: "(nat \<Rightarrow> nat) \<Rightarrow> 'v match_index \<Rightarrow> atom \<Rightarrow> 'v \<Rightarrow> 'v match_index" where
  "mi_add okey ix pat v =
     ix\<lparr>mi_root := trie_insert (tokens okey pat) (mi_next ix) (mi_root ix),
       mi_entries := dict_set (=) (mi_next ix) (pat, v) (mi_entries ix),
       mi_next := Suc (mi_next ix), mi_size := Suc (mi_size ix)\<rparr>"

text \<open>The loop of \<open>remove\<close> over the ids under the path: the first one registered with an equal pattern
  and an equal value.\<close>

fun find_entry :: "('v \<Rightarrow> 'v \<Rightarrow> bool) \<Rightarrow> (nat, atom \<times> 'v) dict \<Rightarrow> atom \<Rightarrow> 'v \<Rightarrow> nat list \<Rightarrow> nat option" where
  "find_entry veq es pat v [] = None"
| "find_entry veq es pat v (i # is) =
     (case dict_get (=) i es of
        Some (stored, w) \<Rightarrow> if atom_eq stored pat \<and> veq w v then Some i else find_entry veq es pat v is
      | None \<Rightarrow> find_entry veq es pat v is)"

definition mi_remove ::
  "(nat \<Rightarrow> nat) \<Rightarrow> ('v \<Rightarrow> 'v \<Rightarrow> bool) \<Rightarrow> 'v match_index \<Rightarrow> atom \<Rightarrow> 'v \<Rightarrow> bool \<times> 'v match_index" where
  "mi_remove okey veq ix pat v =
     (case find_node (tokens okey pat) (mi_root ix) of
        None \<Rightarrow> (False, ix)
      | Some node \<Rightarrow>
          (case find_entry veq (mi_entries ix) pat v (leaves node) of
             None \<Rightarrow> (False, ix)
           | Some i \<Rightarrow>
               (True, ix\<lparr>mi_root := trie_remove (tokens okey pat) i (mi_root ix),
                  mi_entries := dict_del (=) i (mi_entries ix), mi_size := mi_size ix - 1\<rparr>)))"

text \<open>
  The walk of \<open>matches\<close>: each popped node pushes its exact edge, then its variable edge on top; at the
  end of the tokens the ids whose pattern matches are kept. Its measure gives every node more than
  twice what a child gets.
\<close>

fun tsize :: "trie \<Rightarrow> nat" where
  "tsize (Node es ls) = Suc (sum_list (map (\<lambda>(k, t). tsize t) es))"

definition walk_weight :: "(trie \<times> nat) list \<Rightarrow> nat" where
  "walk_weight st = sum_list (map (\<lambda>(t, p). 3 ^ tsize t) st)"

lemma walk_weight_simps [simp]:
  "walk_weight [] = 0" "walk_weight ((t, p) # st) = 3 ^ tsize t + walk_weight st"
  "walk_weight (st @ st') = walk_weight st + walk_weight st'"
  by (simp_all add: walk_weight_def)

lemma child_smaller: "child k t = Some u \<Longrightarrow> Suc (tsize u) \<le> tsize t"
proof (cases t)
  case (Node es ls)
  assume "child k t = Some u"
  with Node have "(k, u) \<in> set es" by (auto simp: child_def dest!: dict_get_SomeD)
  then have "tsize u \<in> set (map (\<lambda>(k, t). tsize t) es)" by force
  then have "tsize u \<le> sum_list (map (\<lambda>(k, t). tsize t) es)" by (rule member_le_sum_list) simp?
  with Node show ?thesis by simp
qed

lemma child_weight: "child k t = Some u \<Longrightarrow> 3 * 3 ^ tsize u \<le> (3 :: nat) ^ tsize t"
  using power_increasing [OF child_smaller, of k t u "3 :: nat"] by simp

definition star_step :: "nat list \<Rightarrow> trie \<Rightarrow> nat \<Rightarrow> (trie \<times> nat) list" where
  "star_step skips node p = (case child TStar node of Some u \<Rightarrow> [(u, skips ! p)] | None \<Rightarrow> [])"

definition exact_step :: "mtoken list \<Rightarrow> trie \<Rightarrow> nat \<Rightarrow> (trie \<times> nat) list" where
  "exact_step ts node p = (case child (ts ! p) node of Some u \<Rightarrow> [(u, Suc p)] | None \<Rightarrow> [])"

lemma steps_weight: "walk_weight (star_step skips node p) + walk_weight (exact_step ts node p) < 3 ^ tsize node"
proof -
  have "3 * walk_weight (star_step skips node p) \<le> 3 ^ tsize node"
    by (auto simp: star_step_def child_weight split: option.split)
  moreover have "3 * walk_weight (exact_step ts node p) \<le> 3 ^ tsize node"
    by (auto simp: exact_step_def child_weight split: option.split)
  moreover have "(0 :: nat) < 3 ^ tsize node" by simp
  ultimately show ?thesis by linarith
qed

function walk :: "(nat \<Rightarrow> bool) \<Rightarrow> mtoken list \<Rightarrow> nat list \<Rightarrow> (trie \<times> nat) list \<Rightarrow> nat list \<Rightarrow> nat list" where
  "walk accept ts skips [] found = found"
| "walk accept ts skips ((node, p) # st) found =
     (if p = length ts then walk accept ts skips st (found @ filter accept (leaves node))
      else walk accept ts skips (star_step skips node p @ exact_step ts node p @ st) found)"
  by pat_completeness auto
termination
  using steps_weight by (relation "measure (\<lambda>(accept, ts, skips, st, found). walk_weight st)") (auto simp: add.assoc [symmetric])

definition accepts :: "'v match_index \<Rightarrow> atom \<Rightarrow> nat \<Rightarrow> bool" where
  "accepts ix probe i =
     (case dict_get (=) i (mi_entries ix) of Some (stored, v) \<Rightarrow> match stored probe \<noteq> None | None \<Rightarrow> False)"

definition mi_matches :: "(nat \<Rightarrow> nat) \<Rightarrow> 'v match_index \<Rightarrow> atom \<Rightarrow> (atom \<times> 'v) list" where
  "mi_matches okey ix probe =
     (if \<not> is_ground probe
      then filter (\<lambda>(stored, v). match stored probe \<noteq> None \<or> match probe stored \<noteq> None)
             (map snd (sort_key fst (mi_entries ix)))
      else let ts = tokens okey probe;
               found = walk (accepts ix probe) ts (skip_table ts) [(mi_root ix, 0)] []
           in map (\<lambda>i. the (dict_get (=) i (mi_entries ix))) (sort found))"

section \<open>What the tree holds\<close>

definition leaves_at :: "trie \<Rightarrow> mtoken list \<Rightarrow> nat list" where
  "leaves_at t ks = (case find_node ks t of Some u \<Rightarrow> leaves u | None \<Rightarrow> [])"

lemma leaves_at_Nil [simp]: "leaves_at t [] = leaves t"
  by (simp add: leaves_at_def)

lemma leaves_at_Cons: "leaves_at t (k # ks) = (case child k t of Some u \<Rightarrow> leaves_at u ks | None \<Rightarrow> [])"
  by (simp add: leaves_at_def split: option.split)

lemma child_Node [simp]: "child k (Node es ls) = dict_get (=) k es"
  by (simp add: child_def)

lemma leaves_at_empty [simp]: "leaves_at empty_node ks = []"
  by (cases ks) (simp_all add: leaves_at_Cons empty_node_def)

lemma leaves_at_insert: "leaves_at (trie_insert ks i t) js = leaves_at t js @ (if js = ks then [i] else [])"
proof (induction ks i t arbitrary: js rule: trie_insert.induct)
  case (1 i t)
  then show ?case by (cases js) (simp_all add: leaves_at_Cons child_def)
next
  case (2 k ks i t)
  show ?case
  proof (cases js)
    case (Cons j js')
    show ?thesis
    proof (cases "child k t")
      case None
      with 2 [of js'] Cons show ?thesis by (auto simp: leaves_at_Cons child_def split: option.splits)
    next
      case (Some u)
      with 2 [of js'] Cons show ?thesis by (auto simp: leaves_at_Cons child_def split: option.splits)
    qed
  qed simp
qed

lemma leaves_at_remove: "leaves_at (trie_remove ks i t) js = (if js = ks then remove1 i (leaves_at t js) else leaves_at t js)"
proof (induction ks i t arbitrary: js rule: trie_remove.induct)
  case (1 i t)
  then show ?case by (cases js) (simp_all add: leaves_at_Cons child_def)
next
  case (2 k ks i t)
  show ?case
  proof (cases "child k t")
    case None
    then show ?thesis by (auto simp: leaves_at_Cons split: option.splits)
  next
    case (Some u)
    show ?thesis
    proof (cases js)
      case (Cons j js')
      with 2 [OF Some, of js'] Some show ?thesis by (auto simp: leaves_at_Cons child_def)
    qed (simp add: Some)
  qed
qed

text \<open>The index invariant: the ids grow with registration, and each path holds the ids of the patterns
  whose tokens it spells, in registration order.\<close>

definition mi_ok :: "(nat \<Rightarrow> nat) \<Rightarrow> 'v match_index \<Rightarrow> bool" where
  "mi_ok okey ix =
     (sorted_wrt (<) (map fst (mi_entries ix)) \<and> (\<forall>i \<in> set (map fst (mi_entries ix)). i < mi_next ix) \<and>
      mi_size ix = length (mi_entries ix) \<and>
      (\<forall>ks. leaves_at (mi_root ix) ks = map fst (filter (\<lambda>(i, (a, v)). tokens okey a = ks) (mi_entries ix))))"

lemma mi_empty_ok: "mi_ok okey mi_empty"
  by (simp add: mi_ok_def mi_empty_def)

lemma mi_add_entries: "mi_ok okey ix \<Longrightarrow> mi_entries (mi_add okey ix pat v) = mi_entries ix @ [(mi_next ix, (pat, v))]"
  unfolding mi_add_def by (simp add: dict_set_fresh dict_get_None mi_ok_def) (fastforce intro: dict_set_fresh simp: dict_get_None)

lemma mi_add_ok: "mi_ok okey ix \<Longrightarrow> mi_ok okey (mi_add okey ix pat v)"
  using mi_add_entries [of okey ix pat v]
  by (auto simp: mi_ok_def mi_add_def leaves_at_insert sorted_wrt_append less_Suc_eq)

section \<open>What the walk reaches\<close>

text \<open>The walk over the atoms still to read, instead of positions in the token list.\<close>

function gather :: "(nat \<Rightarrow> nat) \<Rightarrow> (nat \<Rightarrow> bool) \<Rightarrow> trie \<Rightarrow> atom list \<Rightarrow> nat list" where
  "gather okey accept node [] = filter accept (leaves node)"
| "gather okey accept node (b # bs) =
     (case child TStar node of Some u \<Rightarrow> gather okey accept u bs | None \<Rightarrow> [])
     @ (case child (head_token okey b) node of Some u \<Rightarrow> gather okey accept u (kids b @ bs) | None \<Rightarrow> [])"
  by pat_completeness auto
termination
  by (relation "measure (\<lambda>(okey, accept, node, bs). tsize node)") (auto simp: Suc_le_lessD child_smaller)

definition at_agenda :: "(nat \<Rightarrow> nat) \<Rightarrow> mtoken list \<Rightarrow> trie \<times> nat \<Rightarrow> trie \<times> atom list \<Rightarrow> bool" where
  "at_agenda okey ts x y =
     (fst x = fst y \<and> (\<exists>u. ts = u @ concat (map (flat okey) (snd y)) \<and> length u = snd x))"

lemma at_agenda_step:
  assumes "at_agenda okey ts (node, p) (node, b # bs)"
  shows "p < length ts \<and> ts ! p = head_token okey b
    \<and> at_agenda okey ts (u, skip_table ts ! p) (u, bs) \<and> at_agenda okey ts (u, Suc p) (u, kids b @ bs)"
proof -
  from assms obtain w where w: "ts = w @ flat okey b @ concat (map (flat okey) bs)" "length w = p"
    by (auto simp: at_agenda_def)
  then have "ts = (w @ [head_token okey b]) @ concat (map (flat okey) (kids b @ bs))"
    and "p < length ts \<and> ts ! p = head_token okey b"
    by (auto simp: flat_kids [of okey b])
  moreover have "skip_table ts ! p = length (w @ flat okey b)"
    using skip_table_nth [OF w(1)] w(2) by simp
  moreover have "ts = (w @ flat okey b) @ concat (map (flat okey) bs)" using w(1) by simp
  moreover have "length (w @ [head_token okey b]) = Suc p" using w(2) by simp
  ultimately show ?thesis unfolding at_agenda_def fst_conv snd_conv by metis
qed

lemma flat_not_Nil [simp]: "flat okey a \<noteq> []"
  by (cases a) auto

lemma at_agenda_end: "at_agenda okey ts (node, p) (node, bs) \<Longrightarrow> p = length ts \<longleftrightarrow> bs = []"
proof -
  assume "at_agenda okey ts (node, p) (node, bs)"
  then obtain u where "ts = u @ concat (map (flat okey) bs)" "length u = p" by (auto simp: at_agenda_def)
  then have "p = length ts \<longleftrightarrow> concat (map (flat okey) bs) = []" by simp
  then show ?thesis by (cases bs) simp_all
qed

lemma walk_gather:
  "list_all2 (at_agenda okey ts) st gs \<Longrightarrow>
     walk accept ts (skip_table ts) st found = found @ concat (map (\<lambda>(n, bs). gather okey accept n bs) gs)"
proof (induction accept ts "skip_table ts" st found arbitrary: gs rule: walk.induct)
  case (2 accept ts node p st found)
  then obtain bs gs' where gs: "gs = (node, bs) # gs'" "at_agenda okey ts (node, p) (node, bs)"
    "list_all2 (at_agenda okey ts) st gs'"
    by (auto simp: list_all2_Cons1 at_agenda_def)
  show ?case
  proof (cases bs)
    case Nil
    with gs at_agenda_end [OF gs(2)] 2 show ?thesis by simp
  next
    case (Cons b bs')
    let ?star = "case child TStar node of Some u \<Rightarrow> [(u, bs')] | None \<Rightarrow> []"
    let ?exact = "case child (head_token okey b) node of Some u \<Rightarrow> [(u, kids b @ bs')] | None \<Rightarrow> []"
    note step = at_agenda_step [OF gs(2) [unfolded Cons]]
    have "p \<noteq> length ts" using step by auto
    have "list_all2 (at_agenda okey ts) (star_step (skip_table ts) node p) ?star"
      using step by (auto simp: star_step_def split: option.split)
    moreover have "list_all2 (at_agenda okey ts) (exact_step ts node p) ?exact"
      using step by (auto simp: exact_step_def split: option.split)
    ultimately have "list_all2 (at_agenda okey ts)
        (star_step (skip_table ts) node p @ exact_step ts node p @ st) (?star @ ?exact @ gs')"
      using gs(3) by (intro list_all2_appendI)
    from "2.hyps"(2) [OF \<open>p \<noteq> length ts\<close> this] gs(1) Cons \<open>p \<noteq> length ts\<close>
    show ?thesis by (auto split: option.splits)
  qed
qed simp

text \<open>Which token paths cover an agenda.\<close>

function covers :: "(nat \<Rightarrow> nat) \<Rightarrow> mtoken list \<Rightarrow> atom list \<Rightarrow> bool" where
  "covers okey [] bs = (bs = [])"
| "covers okey (k # ks) [] = False"
| "covers okey (k # ks) (b # bs) =
     ((k = TStar \<and> covers okey ks bs) \<or> (k = head_token okey b \<and> covers okey ks (kids b @ bs)))"
  by pat_completeness auto
termination by (relation "measure (\<lambda>(okey, ks, bs). length ks)") auto

lemma gather_set:
  "set (gather okey accept node bs) = {i. accept i \<and> (\<exists>ks. covers okey ks bs \<and> i \<in> set (leaves_at node ks))}"
proof (induction okey accept node bs rule: gather.induct)
  case (1 okey accept node)
  have "covers okey ks [] \<longleftrightarrow> ks = []" for ks by (cases ks) auto
  then show ?case by auto
next
  case (2 okey accept node b bs)
  have star: "(case child TStar node of Some u \<Rightarrow> set (gather okey accept u bs) | None \<Rightarrow> {}) =
      {i. accept i \<and> (\<exists>ks. covers okey ks bs \<and> i \<in> set (leaves_at node (TStar # ks)))}"
    using 2(1) by (auto simp: leaves_at_Cons split: option.split)
  have exact: "(case child (head_token okey b) node of Some u \<Rightarrow> set (gather okey accept u (kids b @ bs)) | None \<Rightarrow> {}) =
      {i. accept i \<and> (\<exists>ks. covers okey ks (kids b @ bs) \<and> i \<in> set (leaves_at node (head_token okey b # ks)))}"
    using 2(2) by (auto simp: leaves_at_Cons split: option.split)
  have "covers okey ks (b # bs) \<longleftrightarrow> (\<exists>ks'. ks = TStar # ks' \<and> covers okey ks' bs) \<or>
      (\<exists>ks'. ks = head_token okey b # ks' \<and> covers okey ks' (kids b @ bs))" for ks
    by (cases ks) auto
  then have cov: "(\<exists>ks. covers okey ks (b # bs) \<and> i \<in> set (leaves_at node ks)) \<longleftrightarrow>
      (\<exists>ks. covers okey ks bs \<and> i \<in> set (leaves_at node (TStar # ks))) \<or>
      (\<exists>ks. covers okey ks (kids b @ bs) \<and> i \<in> set (leaves_at node (head_token okey b # ks)))" for i
    by metis
  have "set (gather okey accept node (b # bs)) =
      (case child TStar node of Some u \<Rightarrow> set (gather okey accept u bs) | None \<Rightarrow> {}) \<union>
      (case child (head_token okey b) node of Some u \<Rightarrow> set (gather okey accept u (kids b @ bs)) | None \<Rightarrow> {})"
    by (simp split: option.split)
  then show ?case unfolding star exact cov by blast
qed

text \<open>No id sits at two places of the tree.\<close>

definition unique_ids :: "trie \<Rightarrow> bool" where
  "unique_ids t = ((\<forall>ks js i. i \<in> set (leaves_at t ks) \<longrightarrow> i \<in> set (leaves_at t js) \<longrightarrow> ks = js)
     \<and> (\<forall>ks. distinct (leaves_at t ks)))"

lemma unique_child: "unique_ids t \<Longrightarrow> child k t = Some u \<Longrightarrow> unique_ids u"
proof -
  assume t: "unique_ids t" and u: "child k t = Some u"
  then have "leaves_at u ks = leaves_at t (k # ks)" for ks by (simp add: leaves_at_Cons)
  with t show ?thesis unfolding unique_ids_def by (metis list.inject)
qed

lemma ground_head: "is_ground b \<Longrightarrow> head_token okey b \<noteq> TStar"
proof (cases b)
  case (Grounded v e)
  then show ?thesis by (cases v) auto
qed auto

lemma gather_distinct:
  "unique_ids node \<Longrightarrow> \<forall>b \<in> set bs. is_ground b \<Longrightarrow> distinct (gather okey accept node bs)"
proof (induction okey accept node bs rule: gather.induct)
  case (1 okey accept node)
  then show ?case by (metis distinct_filter gather.simps(1) leaves_at_Nil unique_ids_def)
next
  case (2 okey accept node b bs)
  let ?k = "head_token okey b"
  have ne: "?k \<noteq> TStar" using 2(4) by (simp add: ground_head)
  have kids: "\<forall>c \<in> set (kids b @ bs). is_ground c" using 2(4) by (cases b) auto
  have sep: "set (gather okey accept u bs) \<inter> set (gather okey accept w (kids b @ bs)) = {}"
    if u: "child TStar node = Some u" and w: "child ?k node = Some w" for u w
  proof -
    have "leaves_at u ks = leaves_at node (TStar # ks)" "leaves_at w ks = leaves_at node (?k # ks)" for ks
      using u w by (simp_all add: leaves_at_Cons)
    then have in_node: "i \<in> set (gather okey accept u bs) \<Longrightarrow> \<exists>ks. i \<in> set (leaves_at node (TStar # ks))"
      "i \<in> set (gather okey accept w (kids b @ bs)) \<Longrightarrow> \<exists>ks. i \<in> set (leaves_at node (?k # ks))" for i
      by (auto simp: gather_set)
    have "TStar # ks \<noteq> ?k # js" for ks js using ne by simp
    with 2(3) in_node show ?thesis unfolding unique_ids_def by (metis disjoint_iff)
  qed
  from 2 kids unique_child sep show ?case by (auto split: option.split)
qed

declare gather.simps [simp del]

section \<open>Tokens see what matching sees\<close>

text \<open>
  Where equality of atoms is finer or coarser than tokens: a NaN payload (equal to every NaN, but its
  token is its own object) and a space handle (equal to the symbol of its name). Without them, a
  pattern's tokens cover every atom it matches.
\<close>

fun tokenable :: "atom \<Rightarrow> bool" where
  "tokenable (Grounded (VFloat f) _) = (\<not> is_nan f)"
| "tokenable (Space _) = False"
| "tokenable (Expression xs) = (\<forall>x \<in> set xs. tokenable x)"
| "tokenable _ = True"

lemma value_token_eq:
  "vcore v = vcore w \<Longrightarrow> (\<And>f. v = VFloat f \<Longrightarrow> \<not> is_nan f) \<Longrightarrow> value_mtoken okey v = value_mtoken okey w"
  by (cases v rule: vcore.cases; cases w rule: vcore.cases) (auto simp: is_nan_def)

lemma tokenable_value: "tokenable (Grounded v e) \<Longrightarrow> v = VFloat f \<Longrightarrow> \<not> is_nan f"
  by simp

lemma leaf_token_eq:
  assumes "\<not> is_expression a" "tokenable a" "tokenable b" "core a = core b"
  shows "flat okey a = flat okey b"
proof (cases a)
  case (Grounded v e)
  with assms obtain w d where b: "b = Grounded w d" "vcore v = vcore w" by (cases b) auto
  have "value_mtoken okey v = value_mtoken okey w"
    by (rule value_token_eq [OF b(2)]) (use assms(2) Grounded in auto)
  with Grounded b show ?thesis by simp
qed (use assms in \<open>cases b; auto\<close>)+

lemma fits_covers_list:
  assumes "\<And>a b ks bs. a \<in> set as \<Longrightarrow> fits m a b \<Longrightarrow> tokenable a \<Longrightarrow> tokenable b \<Longrightarrow> covers okey ks bs \<Longrightarrow>
      covers okey (flat okey a @ ks) (b # bs)"
    and "list_all2 (fits m) as ys" "\<forall>a \<in> set as. tokenable a" "\<forall>y \<in> set ys. tokenable y" "covers okey ks bs"
  shows "covers okey (concat (map (flat okey) as) @ ks) (ys @ bs)"
  using assms(2,1,3,4)
proof (induction as ys rule: list_all2_induct)
  case Nil
  with assms(5) show ?case by simp
next
  case (Cons a as y ys)
  then have "covers okey (concat (map (flat okey) as) @ ks) (ys @ bs)" by simp
  with Cons.prems(1) [of a y] Cons show ?case by simp
qed

lemma flat_leaf_covers:
  "\<not> is_expression a \<Longrightarrow> flat okey a = flat okey b \<Longrightarrow> covers okey ks bs \<Longrightarrow> covers okey (flat okey a @ ks) (b # bs)"
proof -
  assume a: "\<not> is_expression a" and eq: "flat okey a = flat okey b" and c: "covers okey ks bs"
  from a have "flat okey a = [head_token okey a]" by (cases a) auto
  with eq have "head_token okey b = head_token okey a" "concat (map (flat okey) (kids b)) = []"
    by (simp_all add: flat_kids [of okey b])
  moreover from this(2) have "kids b = []" by (cases "kids b") simp_all
  ultimately show ?thesis using c \<open>flat okey a = [head_token okey a]\<close> by simp
qed

lemma fits_covers_leaf:
  assumes "\<not> is_expression a" "metatype a \<noteq> ''Variable''" "fits m a b" "tokenable a" "tokenable b" "covers okey ks bs"
  shows "covers okey (flat okey a @ ks) (b # bs)"
proof -
  from assms(1-3) have "atom_eq a b" by (cases a) auto
  then have "flat okey a = flat okey b"
    using leaf_token_eq [OF assms(1,4,5)] by (simp add: atom_eq_core)
  with flat_leaf_covers [OF assms(1) _ assms(6)] show ?thesis by simp
qed

lemma fits_covers:
  "fits m a b \<Longrightarrow> tokenable a \<Longrightarrow> tokenable b \<Longrightarrow> covers okey ks bs \<Longrightarrow> covers okey (flat okey a @ ks) (b # bs)"
proof (induction a arbitrary: b ks bs)
  case (Expression xs)
  then obtain ys where b: "b = Expression ys" "list_all2 (fits m) xs ys" by (cases b) auto
  have "covers okey (concat (map (flat okey) xs) @ ks) (ys @ bs)"
    by (rule fits_covers_list [OF _ b(2)]) (use Expression b in auto)
  with b show ?case by (auto dest: list_all2_lengthD)
next
  case (Variable x)
  then show ?case by simp
qed (rule fits_covers_leaf, simp, simp, assumption+)+

section \<open>The answers\<close>

definition all_tokenable :: "'v match_index \<Rightarrow> bool" where
  "all_tokenable ix = (\<forall>(i, (a, v)) \<in> set (mi_entries ix). tokenable a)"

lemma sorted_dict:
  "sorted_wrt (<) (map fst d) \<Longrightarrow> (i, p) \<in> set d \<longleftrightarrow> dict_get (=) i d = Some p" for i :: nat
  by (induction d) force+

lemma mi_ok_dict: "mi_ok okey ix \<Longrightarrow> (i, p) \<in> set (mi_entries ix) \<longleftrightarrow> dict_get (=) i (mi_entries ix) = Some p"
  by (rule sorted_dict) (simp add: mi_ok_def)

lemma mi_ok_leaves:
  "mi_ok okey ix \<Longrightarrow> leaves_at (mi_root ix) ks = map fst (filter (\<lambda>(i, (a, v)). tokens okey a = ks) (mi_entries ix))"
  by (simp add: mi_ok_def)

lemma mi_ok_distinct: "mi_ok okey ix \<Longrightarrow> distinct (map fst (filter P (mi_entries ix)))"
  by (rule distinct_map_filter) (simp add: mi_ok_def strict_sorted_iff)

lemma mi_ok_unique: "mi_ok okey ix \<Longrightarrow> unique_ids (mi_root ix)"
proof -
  assume ok: "mi_ok okey ix"
  have "ks = js" if i: "i \<in> set (leaves_at (mi_root ix) ks)" "i \<in> set (leaves_at (mi_root ix) js)" for i ks js
  proof -
    from i obtain a v b w where "(i, (a, v)) \<in> set (mi_entries ix)" "tokens okey a = ks"
      "(i, (b, w)) \<in> set (mi_entries ix)" "tokens okey b = js" unfolding mi_ok_leaves [OF ok] by auto
    then show ?thesis unfolding mi_ok_dict [OF ok] by simp
  qed
  moreover have "distinct (leaves_at (mi_root ix) ks)" for ks
    unfolding mi_ok_leaves [OF ok] by (rule mi_ok_distinct [OF ok])
  ultimately show ?thesis unfolding unique_ids_def by blast
qed

lemma mi_found:
  assumes ok: "mi_ok okey ix" and g: "is_ground probe" and tok: "tokenable probe" "all_tokenable ix"
  shows "sort (walk (accepts ix probe) (tokens okey probe) (skip_table (tokens okey probe)) [(mi_root ix, 0)] []) =
    map fst (filter (\<lambda>(i, (a, v)). match a probe \<noteq> None) (mi_entries ix))"
proof -
  let ?g = "gather okey (accepts ix probe) (mi_root ix) [probe]"
  let ?es = "filter (\<lambda>(i, (a, v)). match a probe \<noteq> None) (mi_entries ix)"
  have "list_all2 (at_agenda okey (tokens okey probe)) [(mi_root ix, 0)] [(mi_root ix, [probe])]"
    by (simp add: at_agenda_def tokens_flat)
  from walk_gather [OF this, of "accepts ix probe" "[]"]
  have walk: "walk (accepts ix probe) (tokens okey probe) (skip_table (tokens okey probe)) [(mi_root ix, 0)] [] = ?g"
    by simp
  have acc: "accepts ix probe i \<longleftrightarrow> (\<exists>a v. (i, (a, v)) \<in> set (mi_entries ix) \<and> match a probe \<noteq> None)" for i
    by (auto simp: accepts_def mi_ok_dict [OF ok] split: option.split)
  have cover: "covers okey (tokens okey a) [probe]" if "(i, (a, v)) \<in> set (mi_entries ix)" "match a probe \<noteq> None" for i a v
  proof -
    from that(2) obtain m where "fits m a probe" by (meson match_None_iff)
    from fits_covers [OF this _ tok(1), of okey "[]" "[]"] that(1) tok(2) show ?thesis
      by (auto simp: all_tokenable_def tokens_flat)
  qed
  have "i \<in> set ?g \<longleftrightarrow> (\<exists>a v. (i, (a, v)) \<in> set (mi_entries ix) \<and> match a probe \<noteq> None)" for i
    unfolding gather_set mi_ok_leaves [OF ok] using cover by (force simp: acc)
  moreover have "i \<in> set (map fst ?es) \<longleftrightarrow> (\<exists>a v. (i, (a, v)) \<in> set (mi_entries ix) \<and> match a probe \<noteq> None)" for i
    by force
  ultimately have "set ?g = set (map fst ?es)" by (intro set_eqI) (simp only:)
  moreover have "distinct ?g" using gather_distinct [OF mi_ok_unique [OF ok]] g by simp
  moreover have "sorted_wrt (<) (map fst ?es)"
    using ok sorted_wrt_filter [of "\<lambda>x y. fst x < fst y" "mi_entries ix"] by (simp add: mi_ok_def sorted_wrt_map)
  then have "sorted (map fst ?es)" "distinct (map fst ?es)" by (simp_all add: strict_sorted_iff)
  ultimately show ?thesis unfolding walk
    by (metis distinct_sort set_sort sorted_distinct_set_unique sorted_sort)
qed

lemma mi_matches_exact:
  assumes "mi_ok okey ix" "is_ground probe" "tokenable probe" "all_tokenable ix"
  shows "mi_matches okey ix probe = filter (\<lambda>(a, v). match a probe \<noteq> None) (map snd (mi_entries ix))"
proof -
  let ?P = "\<lambda>(i :: nat, (a, v)). match a probe \<noteq> None"
  have "the (dict_get (=) (fst e) (mi_entries ix)) = snd e" if "e \<in> set (mi_entries ix)" for e
  proof -
    from that have "(fst e, snd e) \<in> set (mi_entries ix)" by simp
    then show ?thesis unfolding mi_ok_dict [OF assms(1)] by simp
  qed
  then have "map (\<lambda>i. the (dict_get (=) i (mi_entries ix))) (map fst (filter ?P (mi_entries ix))) = map snd (filter ?P (mi_entries ix))"
    by (auto intro!: map_cong)
  also have "\<dots> = filter (\<lambda>(a, v). match a probe \<noteq> None) (map snd (mi_entries ix))"
    by (simp add: filter_map comp_def case_prod_unfold)
  finally show ?thesis
    unfolding mi_matches_def Let_def mi_found [OF assms] using assms(2) by simp
qed

section \<open>Removal\<close>

lemma flat_core: "core a = core b \<Longrightarrow> tokenable a \<Longrightarrow> tokenable b \<Longrightarrow> flat okey a = flat okey b"
proof (induction a arbitrary: b)
  case (Expression xs)
  then obtain ys where b: "b = Expression ys" "map core xs = map core ys" by (cases b) auto
  from b(2) have "length xs = length ys" by (rule map_eq_imp_length_eq)
  moreover have "map (flat okey) xs = map (flat okey) ys"
    using calculation b(2) Expression.IH Expression.prems(2,3) unfolding b(1)
    by (induction xs ys rule: list_induct2) auto
  ultimately show ?case using b(1) by simp
qed (rule leaf_token_eq, simp_all only: is_expression.simps not_False_eq_True)+

lemma find_entry_find:
  "\<forall>(i, p) \<in> set xs. dict_get (=) i es = Some p \<Longrightarrow>
     find_entry veq es pat v (map fst xs) = map_option fst (find (\<lambda>(i, (a, w)). atom_eq a pat \<and> veq w v) xs)"
  by (induction xs) (auto split: if_splits)

lemma find_SomeD: "find P xs = Some x \<Longrightarrow> x \<in> set xs \<and> P x"
  by (induction xs) (auto split: if_splits)

lemma find_filter: "(\<And>x. x \<in> set xs \<Longrightarrow> P x \<Longrightarrow> Q x) \<Longrightarrow> find P (filter Q xs) = find P xs"
  by (induction xs) auto

lemma dict_del_filter: "distinct (map fst d) \<Longrightarrow> dict_del (=) i d = filter (\<lambda>e. fst e \<noteq> i) d"
proof (induction d)
  case (Cons e d)
  obtain j p where e: "e = (j, p)" by force
  show ?case
  proof (cases "j = i")
    case True
    with Cons.prems e have "\<forall>x \<in> set d. fst x \<noteq> i" by force
    with True e show ?thesis by simp
  next
    case False
    with Cons e show ?thesis by simp
  qed
qed simp

lemma find_node_leaves: "find_node ks t = None \<Longrightarrow> leaves_at t ks = []" "find_node ks t = Some u \<Longrightarrow> leaves_at t ks = leaves u"
  by (simp_all add: leaves_at_def)

lemma mi_remove_tokens:
  assumes ok: "mi_ok okey ix"
    and same: "\<And>i a w. (i, (a, w)) \<in> set (mi_entries ix) \<Longrightarrow> atom_eq a pat \<Longrightarrow> veq w v \<Longrightarrow> tokens okey a = tokens okey pat"
  shows "case find (\<lambda>(i, (a, w)). atom_eq a pat \<and> veq w v) (mi_entries ix) of
      None \<Rightarrow> mi_remove okey veq ix pat v = (False, ix)
    | Some (i, p) \<Rightarrow> \<exists>ix'. mi_remove okey veq ix pat v = (True, ix') \<and> mi_ok okey ix' \<and>
        mi_entries ix' = filter (\<lambda>e. fst e \<noteq> i) (mi_entries ix)"
proof -
  let ?P = "\<lambda>(i :: nat, (a, w)). atom_eq a pat \<and> veq w v"
  let ?T = "\<lambda>(i :: nat, (a, w :: 'a)). tokens okey a = tokens okey pat"
  have PT: "?T e" if "e \<in> set (mi_entries ix)" "?P e" for e
    using that same by (cases e) auto
  have dist: "distinct (map fst (mi_entries ix))" using ok by (simp add: mi_ok_def strict_sorted_iff)
  have lv: "leaves_at (mi_root ix) (tokens okey pat) = map fst (filter ?T (mi_entries ix))"
    by (rule mi_ok_leaves [OF ok])
  have "find_entry veq (mi_entries ix) pat v (map fst (filter ?T (mi_entries ix))) =
      map_option fst (find ?P (filter ?T (mi_entries ix)))"
    by (rule find_entry_find) (auto simp: mi_ok_dict [OF ok])
  also have "find ?P (filter ?T (mi_entries ix)) = find ?P (mi_entries ix)"
    by (rule find_filter) (rule PT)
  finally have fe: "find_entry veq (mi_entries ix) pat v (leaves_at (mi_root ix) (tokens okey pat)) =
      map_option fst (find ?P (mi_entries ix))" by (simp add: lv)
  show ?thesis
  proof (cases "find ?P (mi_entries ix)")
    case None
    with fe show ?thesis
      by (auto simp: mi_remove_def dest: find_node_leaves split: option.splits)
  next
    case (Some e)
    obtain i p where e: "e = (i, p)" by (cases e)
    from find_SomeD [OF Some] e have "(i, p) \<in> set (mi_entries ix)" "?P (i, p)" by simp_all
    with PT have T: "?T (i, p)" by blast
    then have "i \<in> set (leaves_at (mi_root ix) (tokens okey pat))"
      unfolding lv using \<open>(i, p) \<in> set (mi_entries ix)\<close> by force
    then obtain u where u: "find_node (tokens okey pat) (mi_root ix) = Some u"
      by (cases "find_node (tokens okey pat) (mi_root ix)") (auto simp: leaves_at_def)
    with fe Some e have "find_entry veq (mi_entries ix) pat v (leaves u) = Some i" by (simp add: leaves_at_def)
    with u have rem: "mi_remove okey veq ix pat v = (True, ix\<lparr>mi_root := trie_remove (tokens okey pat) i (mi_root ix),
        mi_entries := filter (\<lambda>e. fst e \<noteq> i) (mi_entries ix), mi_size := mi_size ix - 1\<rparr>)" (is "_ = (True, ?ix)")
      by (simp add: mi_remove_def dict_del_filter [OF dist])
    have "leaves_at (mi_root ?ix) ks = map fst (filter (\<lambda>(i, (a, v)). tokens okey a = ks) (mi_entries ?ix))" for ks
    proof -
      have at: "leaves_at (mi_root ix) ks = map fst (filter (\<lambda>(i, (a, v)). tokens okey a = ks) (mi_entries ix))"
        by (rule mi_ok_leaves [OF ok])
      have keep: "map fst (filter (\<lambda>(i, (a, v)). tokens okey a = ks) (mi_entries ?ix)) =
          filter (\<lambda>j. j \<noteq> i) (map fst (filter (\<lambda>(i, (a, v)). tokens okey a = ks) (mi_entries ix)))"
        by (simp add: filter_map comp_def conj_commute)
      have "i \<notin> set (leaves_at (mi_root ix) ks)" if "ks \<noteq> tokens okey pat"
      proof
        assume "i \<in> set (leaves_at (mi_root ix) ks)"
        then obtain a w where "(i, (a, w)) \<in> set (mi_entries ix)" "tokens okey a = ks" unfolding at by auto
        with \<open>(i, p) \<in> set (mi_entries ix)\<close> T that show False by (auto simp: mi_ok_dict [OF ok])
      qed
      then have other: "ks \<noteq> tokens okey pat \<Longrightarrow> filter (\<lambda>j. j \<noteq> i) (leaves_at (mi_root ix) ks) = leaves_at (mi_root ix) ks"
        by (auto intro: filter_True)
      have "distinct (leaves_at (mi_root ix) ks)" unfolding at by (rule mi_ok_distinct [OF ok])
      then have "remove1 i (leaves_at (mi_root ix) ks) = filter (\<lambda>j. j \<noteq> i) (leaves_at (mi_root ix) ks)"
        by (simp add: distinct_remove1_removeAll removeAll_filter_not_eq neq_commute)
      with other have "(if ks = tokens okey pat then remove1 i (leaves_at (mi_root ix) ks) else leaves_at (mi_root ix) ks) =
          filter (\<lambda>j. j \<noteq> i) (leaves_at (mi_root ix) ks)" by metis
      moreover have "leaves_at (mi_root ?ix) ks =
          (if ks = tokens okey pat then remove1 i (leaves_at (mi_root ix) ks) else leaves_at (mi_root ix) ks)"
        by (simp add: leaves_at_remove)
      ultimately show ?thesis using keep unfolding at by metis
    qed
    moreover have "length (filter (\<lambda>e. fst e \<noteq> i) (mi_entries ix)) = length (mi_entries ix) - 1"
      using length_dict_del [of "(=)" i "mi_entries ix"] \<open>(i, p) \<in> _\<close>
      by (simp add: dict_del_filter [OF dist] mi_ok_dict [OF ok])
    moreover have "sorted_wrt (<) (map fst (filter (\<lambda>e. fst e \<noteq> i) (mi_entries ix)))"
      using ok sorted_wrt_filter [of "\<lambda>x y. fst x < fst y" "mi_entries ix"] by (simp add: mi_ok_def sorted_wrt_map)
    ultimately have "mi_ok okey ?ix" using ok by (simp add: mi_ok_def)
    with rem Some e show ?thesis by simp
  qed
qed

lemma mi_remove_spec:
  assumes "mi_ok okey ix" "tokenable pat" "all_tokenable ix"
  shows "case find (\<lambda>(i, (a, w)). atom_eq a pat \<and> veq w v) (mi_entries ix) of
      None \<Rightarrow> mi_remove okey veq ix pat v = (False, ix)
    | Some (i, p) \<Rightarrow> \<exists>ix'. mi_remove okey veq ix pat v = (True, ix') \<and> mi_ok okey ix' \<and>
        mi_entries ix' = filter (\<lambda>e. fst e \<noteq> i) (mi_entries ix)"
proof (rule mi_remove_tokens [OF assms(1)])
  fix i a w
  assume "(i, (a, w)) \<in> set (mi_entries ix)" "atom_eq a pat"
  with assms(3) have "core a = core pat" "tokenable a" by (auto simp: all_tokenable_def atom_eq_core)
  from flat_core [OF this assms(2)] show "tokens okey a = tokens okey pat" by (simp add: tokens_flat)
qed

section \<open>Properties\<close>

text \<open>C16. Over patterns and probes with no NaN payload and no space handle inside, the discrimination
  tree answers a ground probe exactly as trying every registered pattern would, in registration order,
  and registering keeps the tree in step with the entries.\<close>

theorem match_index_exact:
  "mi_ok okey ix \<Longrightarrow> is_ground probe \<Longrightarrow> tokenable probe \<Longrightarrow> all_tokenable ix \<Longrightarrow>
     mi_matches okey ix probe = filter (\<lambda>(a, v). match a probe \<noteq> None) (map snd (mi_entries ix))
     \<and> mi_ok okey (mi_add okey ix pat v)
     \<and> mi_entries (mi_add okey ix pat v) = mi_entries ix @ [(mi_next ix, (pat, v))]"
  by (simp add: mi_matches_exact mi_add_ok mi_add_entries)

theorem match_index_exact_witness:
  "mi_matches id (mi_add id mi_empty (Variable ''x'') (1::nat)) (Symbol ''a'') =
     filter (\<lambda>(a, v). match a (Symbol ''a'') \<noteq> None) (map snd (mi_entries (mi_add id mi_empty (Variable ''x'') (1::nat))))"
  using match_index_exact [OF mi_add_ok [OF mi_empty_ok], of "Symbol ''a''" id "Variable ''x''" "1::nat"]
  by (simp add: all_tokenable_def mi_add_entries [OF mi_empty_ok]) (simp add: mi_empty_def)

text \<open>\<open>remove\<close> takes away exactly the first registration with an equal pattern and an equal value,
  reports whether there was one, and keeps the tree in step.\<close>

theorem match_index_remove:
  "mi_ok okey ix \<Longrightarrow> tokenable pat \<Longrightarrow> all_tokenable ix \<Longrightarrow>
     (case find (\<lambda>(i, (a, w)). atom_eq a pat \<and> veq w v) (mi_entries ix) of
        None \<Rightarrow> mi_remove okey veq ix pat v = (False, ix)
      | Some (i, p) \<Rightarrow> \<exists>ix'. mi_remove okey veq ix pat v = (True, ix') \<and> mi_ok okey ix' \<and>
          mi_entries ix' = filter (\<lambda>e. fst e \<noteq> i) (mi_entries ix))"
  by (rule mi_remove_spec)

lemma sample_entries: "mi_entries (mi_add id mi_empty a v) = [(0, (a, v))]"
  by (simp add: mi_add_def mi_empty_def)

theorem match_index_remove_witness:
  "\<exists>ix'. mi_remove id (=) (mi_add id mi_empty (Symbol ''a'') (1::nat)) (Symbol ''a'') 1 = (True, ix')
     \<and> mi_ok id ix' \<and> mi_entries ix' = []"
  using match_index_remove [OF mi_add_ok [OF mi_empty_ok], of "Symbol ''a''" id "Symbol ''a''" "1::nat" "(=)" 1]
  by (simp add: all_tokenable_def sample_entries)

text \<open>Outside that fragment the tree loses answers brute force finds: a registered NaN payload is
  missed by a probe carrying another NaN object, although the two atoms are equal.\<close>

theorem match_index_misses_nan:
  "match (gnd (VFloat (NaN 1))) (gnd (VFloat (NaN 2))) \<noteq> None
   \<and> mi_matches id (mi_add id mi_empty (gnd (VFloat (NaN 1))) ()) (gnd (VFloat (NaN 2))) = []"
  by (simp add: match_def match_step_def atom_eq_core gnd_def mi_matches_def mi_add_def mi_empty_def tokens_flat
      float_key_def empty_node_def skip_table_def Let_def star_step_def exact_step_def)

end
