(* ===== verification/Algebra.thy ===== *)
theory Algebra
  imports Unify
begin

text \<open>
  Annotated evaluation, \<open>metta/algebra/__init__.py\<close>: a tagged program (facts and rules whose tags are
  carrier values) is closed under its rules, each answer keeping its tag, the stored facts it used and
  its derivation; equal conclusions are then fused and ordered.

  The engine behind a space is a parameter (\<open>engine\<close>): its carrier check, its shipped primitive
  operations and what evaluating a term answers. Time and inference budgets are not modelled: a call
  is one that stays inside them.
\<close>

section \<open>Amplitudes\<close>

record amplitude =
  re :: rat
  im :: rat

definition amp_add :: "amplitude \<Rightarrow> amplitude \<Rightarrow> amplitude" where
  "amp_add a b = \<lparr>re = re a + re b, im = im a + im b\<rparr>"

definition amp_mul :: "amplitude \<Rightarrow> amplitude \<Rightarrow> amplitude" where
  "amp_mul a b = \<lparr>re = re a * re b - im a * im b, im = re a * im b + im a * re b\<rparr>"

definition amp_neg :: "amplitude \<Rightarrow> amplitude" where
  "amp_neg a = \<lparr>re = - re a, im = - im a\<rparr>"

definition amp_of :: "rat \<Rightarrow> amplitude" where
  "amp_of r = \<lparr>re = r, im = 0\<rparr>"

section \<open>Carriers\<close>

datatype alg_error =
    OperationError string
  | DeclarationError string
  | EvaluationError string
  | LinearEvidence int
  | CarrierRefused

record engine =
  carrier_ok :: "atom \<Rightarrow> bool"
  real_payload :: "atom \<Rightarrow> bool"
  real_arith :: "string \<Rightarrow> atom \<Rightarrow> atom \<Rightarrow> atom"
  native_operation :: "string \<Rightarrow> atom \<Rightarrow> atom \<Rightarrow> alg_error + atom"
  evaluation :: "atom \<Rightarrow> atom option list"

record algebra =
  alg_name :: string
  combine_op :: string
  extend_op :: string
  zero_tag :: atom
  one_tag :: atom
  laws :: "string list"
  checked :: bool
  requires :: "string list"
  descending :: "bool option"
  saturation :: bool
  variable_op :: "string option"

definition presets :: "string list" where
  "presets = [''bool'', ''visibility'', ''bag'', ''counting'', ''set'', ''ranked'', ''tropical'', ''prob'',
     ''prov'', ''budget'', ''formula'', ''polynomial'', ''amplitude'']"

text \<open>\<open>_head\<close> asks for a symbol by name; \<open>_headed_tag\<close> for an atom equal to the symbol.\<close>

definition head_is :: "atom \<Rightarrow> string \<Rightarrow> bool" where
  "head_is a name = (case kids a of Symbol s # _ \<Rightarrow> s = name | _ \<Rightarrow> False)"

definition headed_tag :: "atom \<Rightarrow> string \<Rightarrow> bool" where
  "headed_tag a name = (case kids a of h # _ \<Rightarrow> atom_eq h (Symbol name) | [] \<Rightarrow> False)"

definition coefficient :: "atom \<Rightarrow> atom" where
  "coefficient tag =
     (if length (kids tag) = 2 \<and> atom_eq (kids tag ! 0) (Symbol ''rate'') then kids tag ! 1 else tag)"

definition check_values :: "engine \<Rightarrow> algebra \<Rightarrow> atom list \<Rightarrow> alg_error + unit" where
  "check_values eng alg vs =
     (if \<not> checked alg then Inr () else if list_all (carrier_ok eng) vs then Inr () else Inl CarrierRefused)"

definition require_success :: "string \<Rightarrow> atom \<Rightarrow> alg_error + unit" where
  "require_success name v = (if head_is v ''Error'' then Inl (OperationError name) else Inr ())"

text \<open>The direct operations on two real payloads; exact integers are computed here.\<close>

fun direct_operation :: "engine \<Rightarrow> string \<Rightarrow> atom \<Rightarrow> atom \<Rightarrow> atom option" where
  "direct_operation eng name (Grounded (VInt i) e) (Grounded (VInt j) d) =
     (if name = ''+'' then Some (gnd (VInt (i + j)))
      else if name = ''*'' then Some (gnd (VInt (i * j)))
      else if name = ''min'' then Some (gnd (VInt (min i j)))
      else if name = ''max'' then Some (gnd (VInt (max i j)))
      else None)"
| "direct_operation eng name l r =
     (if real_payload eng l \<and> real_payload eng r \<and> name \<in> set [''+'', ''*'', ''min'', ''max'']
      then Some (real_arith eng name l r) else None)"

definition operate :: "engine \<Rightarrow> algebra \<Rightarrow> string \<Rightarrow> atom \<Rightarrow> atom \<Rightarrow> alg_error + atom" where
  "operate eng alg name l r =
     (case direct_operation eng name l r of
        Some v \<Rightarrow> Inr v
      | None \<Rightarrow>
          if name = ''plus'' \<or> name = ''times'' then Inr (Expression [Symbol name, l, r])
          else if alg_name alg \<in> set presets then native_operation eng name l r
          else (case evaluation eng (Expression [Symbol name, l, r]) of
                  [Some v] \<Rightarrow> Inr v
                | _ \<Rightarrow> Inl (OperationError name)))"

definition operation :: "engine \<Rightarrow> algebra \<Rightarrow> string \<Rightarrow> atom \<Rightarrow> atom \<Rightarrow> alg_error + atom" where
  "operation eng alg name l r =
     bindE (require_success name l) (\<lambda>_.
     bindE (require_success name r) (\<lambda>_.
     bindE (check_values eng alg [l, r]) (\<lambda>_.
     bindE (operate eng alg name l r) (\<lambda>v.
     bindE (require_success name v) (\<lambda>_.
     bindE (check_values eng alg [v]) (\<lambda>_. Inr v))))))"

definition combine_values :: "engine \<Rightarrow> algebra \<Rightarrow> atom \<Rightarrow> atom \<Rightarrow> alg_error + atom" where
  "combine_values eng alg l r = operation eng alg (combine_op alg) l r"

definition extend_values :: "engine \<Rightarrow> algebra \<Rightarrow> atom \<Rightarrow> atom \<Rightarrow> alg_error + atom" where
  "extend_values eng alg l r = operation eng alg (extend_op alg) l r"

section \<open>Programs and answers\<close>

datatype trace = Trace
  (t_source: int) (t_raw: atom) (t_children: "trace list") (t_is_rule: bool)
  (t_key: "atom option") (t_guard: "atom option")

record tagged =
  answer_value :: atom
  tag :: atom
  tokens_used :: "int set"
  proof_of :: "int list"
  derivations :: "trace list"

record rule =
  r_order :: int
  r_tag :: atom
  r_head :: atom
  r_premises :: "atom list"
  r_guard :: "atom option"

text \<open>\<open>_program\<close>: the stored facts and rules with their positions; every other atom is skipped.\<close>

definition read_fact :: "int \<Rightarrow> atom \<Rightarrow> tagged" where
  "read_fact n a = \<lparr>answer_value = kids a ! 2, tag = coefficient (kids a ! 1), tokens_used = {n}, proof_of = [n],
     derivations = [Trace n (kids a ! 1) [] False None None]\<rparr>"

definition read_rule :: "int \<Rightarrow> atom \<Rightarrow> alg_error + rule" where
  "read_rule n a =
     (let body = kids a ! 3 in
      if \<not> head_is body ''premises'' then Inl (DeclarationError ''tagged_rule_body_malformed'')
      else if length (kids a) = 5 \<and> \<not> (head_is (kids a ! 4) ''where'' \<and> length (kids (kids a ! 4)) = 2)
      then Inl (DeclarationError ''tagged_rule_guard_malformed'')
      else Inr \<lparr>r_order = n, r_tag = coefficient (kids a ! 1), r_head = kids a ! 2, r_premises = tl (kids body),
             r_guard = (if length (kids a) = 5 then Some (kids (kids a ! 4) ! 1) else None)\<rparr>)"

fun program_from :: "int \<Rightarrow> atom list \<Rightarrow> alg_error + (tagged list \<times> rule list)" where
  "program_from n [] = Inr ([], [])"
| "program_from n (a # as) =
     (if head_is a ''fact'' \<and> length (kids a) = 3
      then bindE (program_from (n + 1) as) (\<lambda>(fs, rs). Inr (read_fact n a # fs, rs))
      else if head_is a ''rule'' \<and> (length (kids a) = 4 \<or> length (kids a) = 5)
      then bindE (read_rule n a) (\<lambda>r. bindE (program_from (n + 1) as) (\<lambda>(fs, rs). Inr (fs, r # rs)))
      else program_from (n + 1) as)"

definition program :: "atom list \<Rightarrow> alg_error + (tagged list \<times> rule list)" where
  "program atoms = program_from 0 atoms"

section \<open>Deriving one rule\<close>

text \<open>
  \<open>_derive_rule_steps\<close>: the states of a partly matched body. The generator asks its caller for the
  candidates of each substituted premise; the caller is the argument \<open>ask\<close>.
\<close>

record dstate =
  d_bindings :: bindings
  d_tag :: atom
  d_tokens :: "int set"
  d_proof :: "int list"
  d_traces :: "trace list"
  d_premise_tags :: "atom list"

fun merge_bindings :: "bindings \<Rightarrow> bindings \<Rightarrow> bindings option" where
  "merge_bindings current [] = Some current"
| "merge_bindings current ((x, v) # rest) =
     (case dict_get (=) x current of
        Some previous \<Rightarrow> if atom_eq previous v then merge_bindings (dict_set (=) x v current) rest else None
      | None \<Rightarrow> merge_bindings (dict_set (=) x v current) rest)"

definition labelled :: "rule \<Rightarrow> bool" where
  "labelled r = headed_tag (r_tag r) ''function''"

definition rule_start :: "algebra \<Rightarrow> rule \<Rightarrow> atom" where
  "rule_start alg r =
     (if labelled r then Expression []
      else if variable_op alg = None then r_tag r else one_tag alg)"

definition linear :: "algebra \<Rightarrow> bool" where
  "linear alg = (''linear'' \<in> set (requires alg))"

definition try_candidate ::
  "engine \<Rightarrow> algebra \<Rightarrow> rule \<Rightarrow> atom \<Rightarrow> dstate \<Rightarrow> tagged \<Rightarrow> alg_error + dstate list" where
  "try_candidate eng alg r pattern st c =
     (case match pattern (answer_value c) of
        None \<Rightarrow> Inr []
      | Some matched \<Rightarrow>
          (let overlap = d_tokens st \<inter> tokens_used c in
           if linear alg \<and> overlap \<noteq> {} then Inl (LinearEvidence (Min overlap))
           else (case merge_bindings (d_bindings st) matched of
                   None \<Rightarrow> Inr []
                 | Some merged \<Rightarrow>
                     bindE (if labelled r then Inr (d_tag st) else extend_values eng alg (d_tag st) (tag c))
                       (\<lambda>t. Inr [\<lparr>d_bindings = merged, d_tag = t, d_tokens = d_tokens st \<union> tokens_used c,
                           d_proof = d_proof st @ proof_of c, d_traces = d_traces st @ derivations c,
                           d_premise_tags = d_premise_tags st @ [tag c]\<rparr>]))))"

fun premises_loop ::
  "engine \<Rightarrow> algebra \<Rightarrow> rule \<Rightarrow> (atom \<Rightarrow> alg_error + tagged list) \<Rightarrow> atom list \<Rightarrow> dstate list
     \<Rightarrow> alg_error + dstate list" where
  "premises_loop eng alg r ask [] states = Inr states"
| "premises_loop eng alg r ask (p # ps) states =
     bindE (concatE (\<lambda>st. let pattern = substitute p (d_bindings st) in
              bindE (ask pattern) (concatE (try_candidate eng alg r pattern st))) states)
       (\<lambda>next_states. if next_states = [] then Inr [] else premises_loop eng alg r ask ps next_states)"

text \<open>\<open>_walk\<close> with its stack, and the test that no variable is left.\<close>

function walk_loop :: "atom list \<Rightarrow> atom list \<Rightarrow> atom list" where
  "walk_loop [] out = out"
| "walk_loop (a # st) out = walk_loop (kids a @ st) (out @ [a])"
  by pat_completeness auto
termination
proof (relation "measure (\<lambda>(st, out). sum_list (map asize st))")
  fix a st out
  show "((kids a @ st, out @ [a]), a # st, out) \<in> measure (\<lambda>(st, out). sum_list (map asize st))"
    by (cases a) auto
qed auto

definition has_variable :: "atom \<Rightarrow> bool" where
  "has_variable a = list_ex (\<lambda>n. metatype n = ''Variable'') (walk_loop [a] [])"

definition truth_of :: "atom \<Rightarrow> bool option" where
  "truth_of a =
     (case a of
        Grounded (VBool b) _ \<Rightarrow> Some b
      | Symbol s \<Rightarrow> if s = ''True'' then Some True else if s = ''False'' then Some False else None
      | _ \<Rightarrow> None)"

definition guard_holds :: "engine \<Rightarrow> atom \<Rightarrow> alg_error + bool" where
  "guard_holds eng applied =
     (case (case evaluation eng applied of [Some v] \<Rightarrow> truth_of v | _ \<Rightarrow> None) of
        Some b \<Rightarrow> Inr b | None \<Rightarrow> Inl (OperationError ''algebra_guard_not_boolean''))"

definition label :: "engine \<Rightarrow> algebra \<Rightarrow> atom \<Rightarrow> atom list \<Rightarrow> alg_error + atom" where
  "label eng alg t premise_tags =
     (if length (kids t) \<noteq> 2 then Inl (DeclarationError ''tagged_rule_function_malformed'')
      else (case evaluation eng (Expression (kids t ! 1 # premise_tags)) of
              [Some v] \<Rightarrow>
                bindE (require_success ''label'' v) (\<lambda>_. bindE (check_values eng alg [v]) (\<lambda>_. Inr v))
            | _ \<Rightarrow> Inl (OperationError ''algebra_label_not_single'')))"

definition source_key :: "string \<Rightarrow> int \<Rightarrow> atom option \<Rightarrow> atom" where
  "source_key space n hd_atom =
     (case hd_atom of
        None \<Rightarrow> Expression [Symbol ''src'', Symbol space, gnd (VInt n)]
      | Some a \<Rightarrow> Expression [Symbol ''rule'', Symbol space, gnd (VInt n), a])"

definition minted :: "engine \<Rightarrow> algebra \<Rightarrow> string \<Rightarrow> atom \<Rightarrow> atom \<Rightarrow> alg_error + atom" where
  "minted eng alg op key t = operate eng alg op key t"

definition instance_tag :: "engine \<Rightarrow> algebra \<Rightarrow> string \<Rightarrow> rule \<Rightarrow> dstate \<Rightarrow> atom \<Rightarrow> alg_error + atom" where
  "instance_tag eng alg space r st v =
     (if labelled r then label eng alg (r_tag r) (d_premise_tags st)
      else (case variable_op alg of
              None \<Rightarrow> Inr (d_tag st)
            | Some op \<Rightarrow>
                bindE (minted eng alg op (source_key space (r_order r) (Some v)) (r_tag r))
                  (\<lambda>m. extend_values eng alg m (d_tag st))))"

definition finish_state ::
  "engine \<Rightarrow> algebra \<Rightarrow> string \<Rightarrow> rule \<Rightarrow> dstate \<Rightarrow> alg_error + tagged list" where
  "finish_state eng alg space r st =
     (let v = substitute (r_head r) (d_bindings st);
          applied = map_option (\<lambda>g. Expression (g # d_premise_tags st)) (r_guard r) in
      if has_variable v then Inr []
      else bindE (case applied of None \<Rightarrow> Inr True | Some g \<Rightarrow> guard_holds eng g)
        (\<lambda>holds. if \<not> holds then Inr []
          else bindE (instance_tag eng alg space r st v)
            (\<lambda>t. Inr [\<lparr>answer_value = v, tag = t, tokens_used = d_tokens st, proof_of = d_proof st,
                derivations = [Trace (r_order r) (r_tag r) (d_traces st) True (Some v) applied]\<rparr>])))"

definition initial_state :: "algebra \<Rightarrow> rule \<Rightarrow> bindings \<Rightarrow> dstate" where
  "initial_state alg r initial = \<lparr>d_bindings = initial, d_tag = rule_start alg r, d_tokens = {},
     d_proof = [r_order r], d_traces = [], d_premise_tags = []\<rparr>"

definition derive_rule_steps ::
  "engine \<Rightarrow> algebra \<Rightarrow> string \<Rightarrow> rule \<Rightarrow> (atom \<Rightarrow> alg_error + tagged list) \<Rightarrow> bindings
     \<Rightarrow> alg_error + tagged list" where
  "derive_rule_steps eng alg space r ask initial =
     bindE (premises_loop eng alg r ask (r_premises r) [initial_state alg r initial])
       (concatE (finish_state eng alg space r))"

text \<open>\<open>_derive_rule\<close>: every premise is offered the available answers, then the provider's rows.\<close>

definition derive_rule ::
  "engine \<Rightarrow> algebra \<Rightarrow> string \<Rightarrow> rule \<Rightarrow> tagged list \<Rightarrow> (atom \<Rightarrow> alg_error + tagged list) option
     \<Rightarrow> alg_error + tagged list" where
  "derive_rule eng alg space r available sources =
     derive_rule_steps eng alg space r
       (\<lambda>pattern. case sources of
            None \<Rightarrow> Inr available
          | Some rows \<Rightarrow> bindE (rows pattern) (\<lambda>more. Inr (available @ more))) []"

section \<open>Fusing, reinterpreting, ordering\<close>

text \<open>\<open>_fuse\<close> keys conclusions by their printed text; \<open>positions\<close> and \<open>fused\<close> are one dictionary here.\<close>

fun fuse_loop :: "host \<Rightarrow> engine \<Rightarrow> algebra \<Rightarrow> tagged list \<Rightarrow> (string, tagged) dict \<Rightarrow> alg_error + (string, tagged) dict" where
  "fuse_loop h eng alg [] fused = Inr fused"
| "fuse_loop h eng alg (a # as) fused =
     (let key = str_atom h (answer_value a) in
      case dict_get (=) key fused of
        None \<Rightarrow> fuse_loop h eng alg as (dict_set (=) key a fused)
      | Some previous \<Rightarrow>
          bindE (combine_values eng alg (tag previous) (tag a))
            (\<lambda>t. fuse_loop h eng alg as
              (dict_set (=) key \<lparr>answer_value = answer_value previous, tag = t,
                 tokens_used = tokens_used previous \<union> tokens_used a, proof_of = proof_of previous @ proof_of a,
                 derivations = derivations previous @ derivations a\<rparr> fused)))"

definition fuse :: "host \<Rightarrow> engine \<Rightarrow> algebra \<Rightarrow> tagged list \<Rightarrow> alg_error + tagged list" where
  "fuse h eng alg answers = bindE (fuse_loop h eng alg answers []) (\<lambda>d. Inr (map snd d))"

definition carrier_input :: "engine \<Rightarrow> algebra \<Rightarrow> string \<Rightarrow> trace \<Rightarrow> alg_error + atom" where
  "carrier_input eng alg space t =
     (case variable_op alg of
        Some op \<Rightarrow>
          minted eng alg op (source_key space (t_source t) (if t_is_rule t then t_key t else None)) (coefficient (t_raw t))
      | None \<Rightarrow>
          if alg_name alg \<in> {''bool'', ''bag'', ''set'', ''counting''} then Inr (one_tag alg)
          else if alg_name alg = ''prov'' then
            Inr (if \<not> t_is_rule t \<and> headed_tag (t_raw t) ''src'' then t_raw t
                 else if t_is_rule t then one_tag alg
                 else Expression [Symbol ''src'', gnd (VInt (t_source t))])
          else Inr (coefficient (t_raw t)))"

fun interpret_trace :: "engine \<Rightarrow> algebra \<Rightarrow> string \<Rightarrow> trace \<Rightarrow> alg_error + atom" where
  "interpret_trace eng alg space (Trace src raw cs is_rule key guard) =
     (if guard \<noteq> None then Inl (EvaluationError ''algebra_guard_not_reinterpretable'')
      else if is_rule \<and> headed_tag raw ''function''
      then Inl (EvaluationError ''algebra_label_function_not_reinterpretable'')
      else bindE (carrier_input eng alg space (Trace src raw cs is_rule key guard)) (\<lambda>v.
        bindE (check_values eng alg [v]) (\<lambda>_.
          foldE (\<lambda>v c. bindE c (extend_values eng alg v)) v (map (interpret_trace eng alg space) cs))))"

definition interpret_alternatives :: "engine \<Rightarrow> algebra \<Rightarrow> string \<Rightarrow> trace list \<Rightarrow> alg_error + atom" where
  "interpret_alternatives eng alg space ts =
     (case ts of
        [] \<Rightarrow> Inr (zero_tag alg)
      | t # rest \<Rightarrow>
          bindE (interpret_trace eng alg space t) (\<lambda>v.
            foldE (\<lambda>v t. bindE (interpret_trace eng alg space t) (combine_values eng alg v)) v rest))"

text \<open>A stable sort under a comparison of tags; \<open>reverse=True\<close> keeps equal answers in place too.\<close>

fun insert_answer :: "(tagged \<Rightarrow> tagged \<Rightarrow> bool) \<Rightarrow> tagged \<Rightarrow> tagged list \<Rightarrow> tagged list" where
  "insert_answer precedes a [] = [a]"
| "insert_answer precedes a (b # bs) = (if precedes b a then b # insert_answer precedes a bs else a # b # bs)"

definition order_answers :: "(atom \<Rightarrow> atom \<Rightarrow> bool) \<Rightarrow> algebra \<Rightarrow> tagged list \<Rightarrow> tagged list" where
  "order_answers tag_less alg answers =
     (case descending alg of
        None \<Rightarrow> answers
      | Some down \<Rightarrow>
          foldr (insert_answer (\<lambda>x y. if down then tag_less (tag y) (tag x) else tag_less (tag x) (tag y))) answers [])"

section \<open>The fixpoint\<close>

type_synonym signature = "string \<times> string \<times> int set \<times> int list"

definition signature :: "host \<Rightarrow> tagged \<Rightarrow> signature" where
  "signature h a = (str_atom h (answer_value a), str_atom h (tag a), tokens_used a, proof_of a)"

fun keep_new :: "host \<Rightarrow> tagged list \<Rightarrow> signature list \<Rightarrow> tagged list \<times> signature list" where
  "keep_new h [] seen = ([], seen)"
| "keep_new h (a # as) seen =
     (if signature h a \<in> set seen then keep_new h as seen
      else let (added, seen') = keep_new h as (seen @ [signature h a]) in (a # added, seen'))"

fun one_round ::
  "host \<Rightarrow> engine \<Rightarrow> algebra \<Rightarrow> string \<Rightarrow> tagged list \<Rightarrow> (atom \<Rightarrow> alg_error + tagged list) option
     \<Rightarrow> rule list \<Rightarrow> signature list \<Rightarrow> alg_error + (tagged list \<times> signature list)" where
  "one_round h eng alg space available sources [] seen = Inr ([], seen)"
| "one_round h eng alg space available sources (r # rs) seen =
     bindE (derive_rule eng alg space r available sources) (\<lambda>answers.
       let (added, seen') = keep_new h answers seen in
       bindE (one_round h eng alg space available sources rs seen')
         (\<lambda>(more, seen''). Inr (added @ more, seen'')))"

text \<open>The round loop: it ends on a round that adds nothing; running out of rounds is the error.\<close>

fun saturate ::
  "host \<Rightarrow> engine \<Rightarrow> algebra \<Rightarrow> string \<Rightarrow> (atom \<Rightarrow> alg_error + tagged list) option \<Rightarrow> rule list
     \<Rightarrow> nat \<Rightarrow> tagged list \<Rightarrow> signature list \<Rightarrow> alg_error + tagged list" where
  "saturate h eng alg space sources rules 0 available seen =
     Inl (EvaluationError ''algebra_derivation_did_not_reach_fixpoint'')"
| "saturate h eng alg space sources rules (Suc n) available seen =
     bindE (one_round h eng alg space available sources rules seen) (\<lambda>(added, seen').
       if added = [] then Inr available
       else saturate h eng alg space sources rules n (available @ added) seen')"

section \<open>The relation graph\<close>

definition relation :: "atom \<Rightarrow> string option" where
  "relation a = (case (case kids a of x # _ \<Rightarrow> x | [] \<Rightarrow> a) of Symbol s \<Rightarrow> Some s | _ \<Rightarrow> None)"

text \<open>The edges in the order the code meets the heads; a target set is a list without repetitions.\<close>

type_synonym graph = "(string, string list) dict"

fun add_targets :: "string list \<Rightarrow> atom list \<Rightarrow> string list option" where
  "add_targets targets [] = Some targets"
| "add_targets targets (p # ps) =
     (case relation p of
        None \<Rightarrow> None
      | Some t \<Rightarrow> add_targets (if t \<in> set targets then targets else targets @ [t]) ps)"

fun rule_edges :: "rule list \<Rightarrow> graph \<Rightarrow> graph option" where
  "rule_edges [] g = Some g"
| "rule_edges (r # rs) g =
     (case relation (r_head r) of
        None \<Rightarrow> None
      | Some n \<Rightarrow>
          (let targets = (case dict_get (=) n g of Some ts \<Rightarrow> ts | None \<Rightarrow> []) in
           case add_targets targets (r_premises r) of
             None \<Rightarrow> None
           | Some ts \<Rightarrow> rule_edges rs (dict_set (=) n ts g)))"

definition successors :: "graph \<Rightarrow> string \<Rightarrow> string list" where
  "successors g n = (case dict_get (=) n g of Some ts \<Rightarrow> ts | None \<Rightarrow> [])"

text \<open>
  The nested \<open>walk\<close>: \<open>finished\<close> grows, \<open>active\<close> is the path of open calls, and \<open>any\<close> stops at the first
  cyclic target. The recursion is bounded by fuel, one level per relation that can become active.
\<close>

fun cycle_walk :: "nat \<Rightarrow> graph \<Rightarrow> string list \<Rightarrow> string \<Rightarrow> string list \<Rightarrow> bool \<times> string list"
  and cycle_any :: "nat \<Rightarrow> graph \<Rightarrow> string list \<Rightarrow> string list \<Rightarrow> string list \<Rightarrow> bool \<times> string list" where
  "cycle_walk 0 g active n finished = (n \<notin> set finished, finished)"
| "cycle_walk (Suc k) g active n finished =
     (if n \<in> set finished then (False, finished)
      else if n \<in> set active then (True, finished)
      else let (cyclic, finished') = cycle_any k g (n # active) (successors g n) finished in
        (cyclic, n # finished'))"
| "cycle_any k g active [] finished = (False, finished)"
| "cycle_any k g active (t # ts) finished =
     (let (cyclic, finished') = cycle_walk k g active t finished in
      if cyclic then (True, finished') else cycle_any k g active ts finished')"

definition rule_graph_is_cyclic :: "rule list \<Rightarrow> bool" where
  "rule_graph_is_cyclic rules =
     (case rule_edges rules [] of
        None \<Rightarrow> True
      | Some g \<Rightarrow> fst (cycle_any (Suc (Suc (length g))) g [] (map fst g) []))"

section \<open>Evaluation\<close>

record evaluation_result =
  res_answers :: "tagged list"
  res_fused :: bool
  res_demand :: bool
  res_fixpoint :: bool

fun check_tags :: "engine \<Rightarrow> algebra \<Rightarrow> atom list \<Rightarrow> alg_error + unit" where
  "check_tags eng alg [] = Inr ()"
| "check_tags eng alg (t # ts) = bindE (check_values eng alg [t]) (\<lambda>_. check_tags eng alg ts)"

definition mint_fact :: "engine \<Rightarrow> algebra \<Rightarrow> string \<Rightarrow> tagged \<Rightarrow> alg_error + tagged list" where
  "mint_fact eng alg space a =
     (case variable_op alg of
        None \<Rightarrow> Inr [a]
      | Some op \<Rightarrow>
          bindE (minted eng alg op (source_key space (hd (proof_of a)) None) (tag a)) (\<lambda>t. Inr [a\<lparr>tag := t\<rparr>]))"

text \<open>
  The route: the engine's tabled fixpoint is the default only where it converges, over a stored
  program (no provider) whose rules form a cycle.
\<close>

definition derived_route :: "algebra \<Rightarrow> bool \<Rightarrow> rule list \<Rightarrow> bool option \<Rightarrow> bool" where
  "derived_route alg stored rules choice =
     (case choice of
        Some d \<Rightarrow> d
      | None \<Rightarrow>
          \<not> ((''combine-idempotent'' \<in> set (laws alg) \<or> saturation alg) \<and> stored \<and> rule_graph_is_cyclic rules))"

text \<open>
  \<open>_evaluate_with_budget\<close>, for a goal already read. \<open>fixpoint\<close> is the engine's tabled answer;
  \<open>demanded\<close> is the demand evaluator (\<open>_demand_evaluate\<close>) over the available facts, the rules, the goal
  and the round limit, which answers \<open>None\<close> when it declines.
\<close>

definition evaluate ::
  "host \<Rightarrow> engine \<Rightarrow> algebra \<Rightarrow> string \<Rightarrow> (atom \<Rightarrow> atom \<Rightarrow> bool) \<Rightarrow> (atom \<Rightarrow> alg_error + tagged list) option
     \<Rightarrow> (atom \<Rightarrow> alg_error + tagged list)
     \<Rightarrow> (tagged list \<Rightarrow> rule list \<Rightarrow> atom \<Rightarrow> nat \<Rightarrow> alg_error + tagged list option)
     \<Rightarrow> atom list \<Rightarrow> atom \<Rightarrow> nat \<Rightarrow> bool option \<Rightarrow> alg_error + evaluation_result" where
  "evaluate h eng alg space tag_less sources fixpoint demanded atoms goal max_rounds choice =
     bindE (program atoms) (\<lambda>(facts, rules).
     bindE (check_tags eng alg (map tag facts)) (\<lambda>_.
     bindE (check_tags eng alg (map r_tag (filter (\<lambda>r. \<not> labelled r) rules))) (\<lambda>_.
     bindE (concatE (mint_fact eng alg space) facts) (\<lambda>available.
     if \<not> derived_route alg (sources = None) rules choice
     then (if sources \<noteq> None then Inl (EvaluationError ''algebra_fixpoint_needs_a_stored_program'')
           else bindE (fixpoint goal) (\<lambda>rows.
             bindE (check_tags eng alg (map tag rows)) (\<lambda>_.
               Inr \<lparr>res_answers = order_answers tag_less alg rows, res_fused = True, res_demand = False,
                 res_fixpoint = True\<rparr>)))
     else
       bindE (if sources = None then demanded available rules goal max_rounds else Inr None) (\<lambda>demand.
       bindE (case demand of
           Some rows \<Rightarrow> Inr rows
         | None \<Rightarrow> saturate h eng alg space sources rules max_rounds available (map (signature h) available))
         (\<lambda>all_answers.
       bindE (case sources of None \<Rightarrow> Inr [] | Some rows \<Rightarrow> rows goal) (\<lambda>provided.
       let matched = provided @ filter (\<lambda>a. match goal (answer_value a) \<noteq> None) all_answers;
           can_fuse = (''combine-associative'' \<in> set (laws alg)) in
       bindE (if can_fuse then fuse h eng alg matched else Inr matched) (\<lambda>final.
         Inr \<lparr>res_answers = order_answers tag_less alg final, res_fused = can_fuse,
           res_demand = (demand \<noteq> None), res_fixpoint = False\<rparr>))))))))"

end
