(* ===== verification/Annotated.thy ===== *)
theory Annotated
  imports Algebra
begin

text \<open>
  What annotated evaluation promises: every answer is an instance of a rule over earlier answers, so it
  is a logical consequence of the stored facts; its retained derivation re-evaluates to its tag; linear
  evidence is spent once; a round that adds nothing has closed the program; fusion is one answer per
  conclusion; and the cycle test decides whether some relation depends on itself.
\<close>

section \<open>Matching ground facts\<close>

lemma fits_ground: "is_ground p \<Longrightarrow> fits m p a = atom_eq p a"
proof (induction p arbitrary: a)
  case (Expression ps)
  show ?case
  proof (cases "is_expression a")
    case True
    then have a: "a = Expression (kids a)" by (rule expression_kids)
    have "list_all2 (fits m) ps (kids a) = list_all2 atom_eq ps (kids a)"
      by (rule list.rel_cong) (use Expression in auto)
    with a show ?thesis by (metis atom_eq_Expression fits.simps(2) True)
  next
    case False
    then show ?thesis by (simp add: atom_eq_def leaf_eq_def)
  qed
qed simp_all

definition ground_bindings :: "bindings \<Rightarrow> bool" where
  "ground_bindings b = (dict_ok (=) b \<and> (\<forall>x v. assigned b x = Some v \<longrightarrow> x \<noteq> ''_'' \<and> is_ground v))"

lemma ground_kids: "is_ground y \<Longrightarrow> c \<in> set (kids y) \<Longrightarrow> is_ground c"
  by (cases y) (auto simp: is_ground_occs)

lemma match_step_stack:
  assumes "match_step x y b = Some (ps, b')" "is_ground y" "(p, a) \<in> set ps"
  shows "is_ground a \<and> set (var_occs p) \<subseteq> set (var_occs x)"
proof (cases x)
  case (Expression xs)
  with assms(1,3) have "(p, a) \<in> set (zip xs (kids y))" by (auto simp: match_step_def split: if_splits)
  then have "p \<in> set xs" "a \<in> set (kids y)" by (auto dest: set_zip_leftD set_zip_rightD)
  with Expression assms(2) show ?thesis by (auto dest: ground_kids)
qed (use assms in \<open>auto simp: match_step_def split: if_splits option.splits\<close>)

lemma match_step_dom:
  assumes "match_step x y b = Some (ps, b')" "is_ground y" "assigned b' z = Some v"
  shows "assigned b z = Some v \<or> (z \<in> set (var_occs x) \<and> z \<noteq> ''_'' \<and> is_ground v)"
proof (cases x)
  case (Variable w)
  with assms show ?thesis by (auto simp: match_step_def split: if_splits option.splits)
qed (use assms in \<open>auto simp: match_step_def split: if_splits\<close>)

lemma match_loop_dom:
  "match_loop st b = Some b' \<Longrightarrow> (\<And>p a. (p, a) \<in> set st \<Longrightarrow> is_ground a \<and> set (var_occs p) \<subseteq> V) \<Longrightarrow>
     assigned b' z = Some v \<Longrightarrow> assigned b z = Some v \<or> (z \<in> V \<and> z \<noteq> ''_'' \<and> is_ground v)"
proof (induction st b rule: match_loop.induct)
  case (2 x y st b)
  then obtain ps c where step: "match_step x y b = Some (ps, c)" and rest: "match_loop (ps @ st) c = Some b'"
    by (auto split: option.splits)
  have y: "is_ground y" "set (var_occs x) \<subseteq> V" using "2.prems"(2) [of x y] by auto
  have "is_ground a \<and> set (var_occs p) \<subseteq> V" if "(p, a) \<in> set (ps @ st)" for p a
    using that match_step_stack [OF step y(1), of p a] "2.prems"(2) [of p a] y(2) by auto
  then have "assigned c z = Some v \<or> (z \<in> V \<and> z \<noteq> ''_'' \<and> is_ground v)"
    using "2.IH" [OF step refl rest _ "2.prems"(3)] by blast
  then show ?case using match_step_dom [OF step y(1), of z v] y(2) by blast
qed auto

lemma match_ground:
  assumes "match p a = Some m" "is_ground a"
  shows "ground_bindings m" "\<And>x v. assigned m x = Some v \<Longrightarrow> x \<in> set (var_occs p)" "fits (assigned m) p a"
proof -
  have dom: "z \<in> set (var_occs p) \<and> z \<noteq> ''_'' \<and> is_ground v" if "assigned m z = Some v" for z v
    using match_loop_dom [of "[(p, a)]" "[]" m "set (var_occs p)" z v] that assms
    by (auto simp: match_def assigned_def)
  have "dict_ok (=) m" using match_loop_ok [of "[(p, a)]" "[]" m] assms(1) by (simp add: match_def)
  with dom show "ground_bindings m" by (auto simp: ground_bindings_def)
  show "\<And>x v. assigned m x = Some v \<Longrightarrow> x \<in> set (var_occs p)" using dom by blast
  show "fits (assigned m) p a" by (rule match_sound [OF assms(1)])
qed

lemma subst_vars:
  "(\<And>x v. m x = Some v \<Longrightarrow> is_ground v) \<Longrightarrow> x \<in> set (var_occs (subst_rec m p)) \<Longrightarrow> m x = None"
  by (induction p rule: var_occs.induct) (auto simp: is_ground_occs split: option.splits)

lemma subst_vars_subset:
  "(\<And>x v. m x = Some v \<Longrightarrow> is_ground v) \<Longrightarrow> x \<in> set (var_occs (subst_rec m p)) \<Longrightarrow> x \<in> set (var_occs p)"
  by (induction p rule: var_occs.induct) (auto simp: is_ground_occs split: option.splits)

lemma assigned_Nil [simp]: "assigned [] = Map.empty"
  by (auto simp: assigned_def)

lemma merge_step:
  "merge_bindings b ((x, v) # extra) = Some r \<Longrightarrow> merge_bindings (dict_set (=) x v b) extra = Some r"
  by (simp split: option.splits if_splits)

lemma merge_ok: "merge_bindings b extra = Some r \<Longrightarrow> dict_ok (=) b \<Longrightarrow> dict_ok (=) r"
proof (induction extra arbitrary: b)
  case (Cons e extra)
  obtain x v where e: "e = (x, v)" by force
  show ?case using Cons.IH [OF merge_step [OF Cons.prems(1) [unfolded e]]] Cons.prems(2)
    by (simp add: plain_key.dict_ok_set)
qed simp

lemma assigned_Cons: "dict_ok (=) ((x, v) # d) \<Longrightarrow> m ++ assigned ((x, v) # d) = m(x \<mapsto> v) ++ assigned d"
proof
  fix y
  assume "dict_ok (=) ((x, v) # d)"
  then show "(m ++ assigned ((x, v) # d)) y = (m(x \<mapsto> v) ++ assigned d) y"
    by (cases "y = x") (simp_all add: map_add_def assigned_def split: option.split)
qed

lemma merge_assigned:
  "merge_bindings b extra = Some r \<Longrightarrow> dict_ok (=) extra \<Longrightarrow> assigned r = assigned b ++ assigned extra"
proof (induction extra arbitrary: b)
  case Nil
  then show ?case by (auto simp: assigned_def map_add_def)
next
  case (Cons e extra)
  obtain x v where e: "e = (x, v)" by force
  have "assigned r = assigned (dict_set (=) x v b) ++ assigned extra"
    by (rule Cons.IH [OF merge_step [OF Cons.prems(1) [unfolded e]]]) (use Cons.prems(2) e in simp)
  then show ?case using assigned_Cons [OF Cons.prems(2) [unfolded e], of "assigned b"]
    by (simp only: e assigned_set)
qed

lemma fits_merge:
  "fits m (subst_rec b p) a \<Longrightarrow> (\<And>x v. b x = Some v \<Longrightarrow> x \<noteq> ''_'' \<and> is_ground v) \<Longrightarrow>
     (\<And>x v. m x = Some v \<Longrightarrow> b x = None) \<Longrightarrow> fits (b ++ m) p a"
proof (induction p arbitrary: a)
  case (Variable x)
  show ?case
  proof (cases "b x")
    case None
    with Variable(1) show ?thesis by (simp add: map_add_def split: option.splits)
  next
    case (Some w)
    then have "m x = None" "is_ground w" using Variable(2) [of x w] Variable(3) [of x] by (cases "m x"; simp)+
    with Variable(1) Some show ?thesis by (simp add: fits_ground map_add_def)
  qed
next
  case (Expression ps)
  have "list_all2 (\<lambda>p a. fits m (subst_rec b p) a) ps (kids a)" using Expression(2) by (simp add: list.rel_map)
  then have "list_all2 (fits (b ++ m)) ps (kids a)"
    by (rule list.rel_mono_strong) (use Expression in blast)
  with Expression(2) show ?case by simp
qed simp_all

lemma fits_cong: "fits m p a \<Longrightarrow> atom_eq a c \<Longrightarrow> fits m p c"
proof (induction p arbitrary: a c)
  case (Variable x)
  then show ?case by (auto simp: atom_eq_core split: option.splits)
next
  case (Expression ps)
  then have a: "is_expression a" "list_all2 (fits m) ps (kids a)" by auto
  then have ea: "a = Expression (kids a)" by (simp add: expression_kids)
  have "is_expression c"
    using core_expression [of a] core_expression [of c] Expression.prems(2) a(1) by (simp add: atom_eq_core)
  then have ec: "c = Expression (kids c)" by (rule expression_kids)
  have "list_all2 atom_eq (kids a) (kids c)"
    using Expression.prems(2) atom_eq_Expression [of "kids a" "kids c"] unfolding ea [symmetric] ec [symmetric] by simp
  with a(2) have "list_all2 (fits m) ps (kids c)"
    using Expression.IH by (auto simp: list_all2_conv_all_nth)
  with \<open>is_expression c\<close> show ?case by simp
qed (simp only: fits.simps, metis atom_eq_core)+

lemma fits_dom: "fits m p a \<Longrightarrow> x \<in> set (var_occs p) \<Longrightarrow> x \<noteq> ''_'' \<Longrightarrow> x \<in> dom m"
proof (induction p arbitrary: a)
  case (Expression ps)
  then obtain q where q: "q \<in> set ps" "x \<in> set (var_occs q)" by auto
  then obtain i where "i < length ps" "q = ps ! i" by (auto simp: in_set_conv_nth)
  with Expression.prems(1) have "fits m q (kids a ! i)" by (auto simp: list_all2_conv_all_nth)
  from Expression.IH [OF q(1) this q(2) Expression.prems(3)] show ?case .
next
  case (Variable y)
  then show ?case by (cases "m x") auto
qed simp_all

lemma walk_loop_ground:
  "\<exists>ns. walk_loop st out = out @ ns \<and> list_ex (\<lambda>n. metatype n = ''Variable'') ns = (\<exists>a \<in> set st. \<not> is_ground a)"
proof (induction st out rule: walk_loop.induct)
  case (2 a st out)
  then obtain ns where ns: "walk_loop (kids a @ st) (out @ [a]) = (out @ [a]) @ ns"
      "list_ex (\<lambda>n. metatype n = ''Variable'') ns = (\<exists>a \<in> set (kids a @ st). \<not> is_ground a)" by blast
  have "(\<not> is_ground a) = (metatype a = ''Variable'' \<or> (\<exists>c \<in> set (kids a). \<not> is_ground c))"
    by (cases a) (auto simp: is_ground_occs)
  with ns show ?case by (intro exI [of _ "a # ns"]) auto
qed simp

lemma has_variable_ground: "has_variable a = (\<not> is_ground a)"
  using walk_loop_ground [of "[a]" "[]"] by (auto simp: has_variable_def)

section \<open>What one rule derives\<close>

definition disjoint_tokens :: "tagged \<Rightarrow> tagged \<Rightarrow> bool" where
  "disjoint_tokens a b = (tokens_used a \<inter> tokens_used b = {})"

definition names_of :: "atom list \<Rightarrow> string set" where
  "names_of qs = (\<Union>q \<in> set qs. set (var_occs q))"

text \<open>A state that has matched \<open>qs\<close> against the answers \<open>cs\<close>, in order.\<close>

definition partial_match ::
  "engine \<Rightarrow> algebra \<Rightarrow> rule \<Rightarrow> tagged set \<Rightarrow> atom list \<Rightarrow> tagged list \<Rightarrow> dstate \<Rightarrow> bool" where
  "partial_match eng alg r pool qs cs st =
     (ground_bindings (d_bindings st) \<and> dom (assigned (d_bindings st)) \<subseteq> names_of (r_premises r) \<and> set cs \<subseteq> pool \<and>
      list_all2 (fits (assigned (d_bindings st))) qs (map answer_value cs) \<and>
      d_tokens st = \<Union> (tokens_used ` set cs) \<and> d_proof st = r_order r # concat (map proof_of cs) \<and>
      d_traces st = concat (map derivations cs) \<and> d_premise_tags st = map tag cs \<and>
      (\<not> labelled r \<longrightarrow> foldE (extend_values eng alg) (rule_start alg r) (map tag cs) = Inr (d_tag st)) \<and>
      (linear alg \<longrightarrow> sorted_wrt disjoint_tokens cs))"

text \<open>Matching a substituted pattern never disagrees with the bindings: it binds other names.\<close>

lemma merge_disjoint:
  "\<forall>x v. assigned extra x = Some v \<longrightarrow> assigned b x = None \<Longrightarrow> dict_ok (=) extra \<Longrightarrow> merge_bindings b extra \<noteq> None"
proof (induction extra arbitrary: b)
  case (Cons e extra)
  obtain x v where e: "e = (x, v)" by force
  have "assigned (e # extra) x = Some v" by (simp add: e assigned_def)
  with Cons.prems(1) have x: "dict_get (=) x b = None" unfolding assigned_def by blast
  have "merge_bindings (dict_set (=) x v b) extra \<noteq> None"
  proof (rule Cons.IH)
    show "\<forall>y w. assigned extra y = Some w \<longrightarrow> assigned (dict_set (=) x v b) y = None"
    proof (intro allI impI)
      fix y w
      assume y: "assigned extra y = Some w"
      with Cons.prems(2) e have "y \<noteq> x" by (auto simp: assigned_def)
      moreover from this y e have "assigned (e # extra) y = Some w" by (simp add: assigned_def)
      ultimately show "assigned (dict_set (=) x v b) y = None" using Cons.prems(1) by simp
    qed
    show "dict_ok (=) extra" using Cons.prems(2) e by simp
  qed
  with x e show ?case by simp
qed simp

lemma substitute_assigned: "ground_bindings b \<Longrightarrow> substitute p b = subst_rec (assigned b) p"
  by (simp add: ground_bindings_def substitute_rec assigned_def [abs_def])

lemma match_extends:
  assumes b: "ground_bindings b" and m: "match (substitute p b) a = Some extra" and a: "is_ground a"
  shows "\<exists>r. merge_bindings b extra = Some r \<and> ground_bindings r \<and> assigned b \<subseteq>\<^sub>m assigned r \<and>
    assigned r = assigned b ++ assigned extra \<and> dom (assigned r) \<subseteq> dom (assigned b) \<union> set (var_occs p) \<and> fits (assigned r) p a"
proof -
  have sub: "substitute p b = subst_rec (assigned b) p" by (rule substitute_assigned [OF b])
  note g = match_ground [OF m a]
  have fresh: "\<forall>x v. assigned extra x = Some v \<longrightarrow> assigned b x = None"
    using g(2) b unfolding sub ground_bindings_def by (metis subst_vars)
  have ok: "dict_ok (=) extra" using g(1) by (simp add: ground_bindings_def)
  from merge_disjoint [OF fresh ok] obtain r where r: "merge_bindings b extra = Some r" by auto
  have eq: "assigned r = assigned b ++ assigned extra" by (rule merge_assigned [OF r ok])
  have "ground_bindings r"
    using merge_ok [OF r] b g(1) unfolding ground_bindings_def eq by (auto simp: map_add_def split: option.splits)
  moreover have "assigned b \<subseteq>\<^sub>m assigned r"
  proof -
    have "assigned b x = (assigned b ++ assigned extra) x" if "x \<in> dom (assigned b)" for x
      using that fresh by (cases "assigned extra x") (auto simp: map_add_def)
    then show ?thesis unfolding eq map_le_def by blast
  qed
  moreover have "dom (assigned r) \<subseteq> dom (assigned b) \<union> set (var_occs p)"
    using g(2) subst_vars_subset [of "assigned b" _ p] b
    unfolding eq sub ground_bindings_def by (fastforce simp: dom_def)
  moreover have "fits (assigned r) p a"
    unfolding eq by (rule fits_merge) (use g(3) b fresh in \<open>auto simp: sub ground_bindings_def\<close>)
  ultimately show ?thesis using r eq by blast
qed

lemma list_all2_fits_mono:
  "m \<subseteq>\<^sub>m m' \<Longrightarrow> list_all2 (fits m) qs as \<Longrightarrow> list_all2 (fits m') qs as"
  using fits_mono by (auto elim: list_all2_mono)

lemma try_candidate_partial:
  assumes st: "partial_match eng alg r pool qs cs st" and c: "c \<in> pool" "is_ground (answer_value c)"
    and p: "p \<in> set (r_premises r)"
    and got: "try_candidate eng alg r (substitute p (d_bindings st)) st c = Inr out" "st' \<in> set out"
  shows "partial_match eng alg r pool (qs @ [p]) (cs @ [c]) st'"
proof -
  let ?pat = "substitute p (d_bindings st)"
  from got obtain extra where m: "match ?pat (answer_value c) = Some extra"
    by (cases "match ?pat (answer_value c)") (auto simp: try_candidate_def)
  have b: "ground_bindings (d_bindings st)" using st by (simp add: partial_match_def)
  from match_extends [OF b m c(2)] obtain merged where
    e: "merge_bindings (d_bindings st) extra = Some merged" "ground_bindings merged"
      "assigned (d_bindings st) \<subseteq>\<^sub>m assigned merged" "fits (assigned merged) p (answer_value c)"
      "dom (assigned merged) \<subseteq> dom (assigned (d_bindings st)) \<union> set (var_occs p)" by blast
  have over: "linear alg \<longrightarrow> d_tokens st \<inter> tokens_used c = {}"
    using got m by (auto simp: try_candidate_def Let_def split: if_splits)
  from got m e(1) over obtain t where
    t: "(if labelled r then Inr (d_tag st) else extend_values eng alg (d_tag st) (tag c)) = Inr t" and
    st': "st' = \<lparr>d_bindings = merged, d_tag = t, d_tokens = d_tokens st \<union> tokens_used c,
       d_proof = d_proof st @ proof_of c, d_traces = d_traces st @ derivations c,
       d_premise_tags = d_premise_tags st @ [tag c]\<rparr>"
    by (auto simp: try_candidate_def Let_def split: if_splits)
  have fit: "list_all2 (fits (assigned merged)) (qs @ [p]) (map answer_value (cs @ [c]))"
    using list_all2_fits_mono [OF e(3)] st e(4) by (auto simp: partial_match_def intro: list_all2_appendI)
  have fold: "\<not> labelled r \<longrightarrow> foldE (extend_values eng alg) (rule_start alg r) (map tag (cs @ [c])) = Inr t"
    using st t by (auto simp: partial_match_def foldE_append)
  have lin: "linear alg \<longrightarrow> sorted_wrt disjoint_tokens (cs @ [c])"
    using st over by (auto simp: partial_match_def sorted_wrt_append disjoint_tokens_def)
  have dm: "dom (assigned merged) \<subseteq> names_of (r_premises r)"
  proof -
    have "set (var_occs p) \<subseteq> names_of (r_premises r)" using p by (auto simp: names_of_def)
    moreover have "dom (assigned (d_bindings st)) \<subseteq> names_of (r_premises r)" using st by (simp add: partial_match_def)
    ultimately show ?thesis using e(5) by blast
  qed
  show ?thesis
    unfolding partial_match_def st'
    using fit fold lin dm st e(2) c(1) by (simp add: partial_match_def Un_commute)
qed

lemma premises_loop_partial:
  assumes "premises_loop eng alg r ask ps states = Inr out"
    and "\<And>st. st \<in> set states \<Longrightarrow> \<exists>cs. partial_match eng alg r pool qs cs st"
    and ask: "\<And>pat rows. ask pat = Inr rows \<Longrightarrow> set rows \<subseteq> pool"
    and ground: "\<And>c. c \<in> pool \<Longrightarrow> is_ground (answer_value c)"
    and "st' \<in> set out" "set ps \<subseteq> set (r_premises r)"
  shows "\<exists>cs. partial_match eng alg r pool (qs @ ps) cs st'"
  using assms(1,2,5,6)
proof (induction ps arbitrary: states qs)
  case (Cons p ps)
  let ?go = "\<lambda>st. let pattern = substitute p (d_bindings st) in
              bindE (ask pattern) (concatE (try_candidate eng alg r pattern st))"
  from Cons.prems(1) obtain nexts where n: "concatE ?go states = Inr nexts"
      "(if nexts = [] then Inr [] else premises_loop eng alg r ask ps nexts) = Inr out" by auto
  with Cons.prems(3) have rest: "premises_loop eng alg r ask ps nexts = Inr out" by (auto split: if_splits)
  have "\<exists>cs. partial_match eng alg r pool (qs @ [p]) cs st1" if "st1 \<in> set nexts" for st1
  proof -
    from concatE_Inr [OF n(1) that] obtain st ys where st: "st \<in> set states" "?go st = Inr ys" "st1 \<in> set ys" by blast
    from st(2) obtain rows where rows: "ask (substitute p (d_bindings st)) = Inr rows"
        "concatE (try_candidate eng alg r (substitute p (d_bindings st)) st) rows = Inr ys" by (auto simp: Let_def)
    from concatE_Inr [OF rows(2) st(3)] obtain c zs where c: "c \<in> set rows"
        "try_candidate eng alg r (substitute p (d_bindings st)) st c = Inr zs" "st1 \<in> set zs" by blast
    from Cons.prems(2) [OF st(1)] obtain cs where cs: "partial_match eng alg r pool qs cs st" by blast
    have "c \<in> pool" using ask [OF rows(1)] c(1) by blast
    from try_candidate_partial [OF cs this ground [OF this] _ c(2,3)] Cons.prems(4) show ?thesis by auto
  qed
  from Cons.IH [OF rest this Cons.prems(3)] Cons.prems(4) show ?case by simp
qed auto

text \<open>An answer as an instance of its rule over the answers \<open>cs\<close> that met the premises.\<close>

definition rule_instance :: "engine \<Rightarrow> algebra \<Rightarrow> rule \<Rightarrow> tagged list \<Rightarrow> tagged \<Rightarrow> bool" where
  "rule_instance eng alg r cs a =
     ((\<exists>b. ground_bindings b \<and> dom (assigned b) \<subseteq> names_of (r_premises r) \<and>
        list_all2 (fits (assigned b)) (r_premises r) (map answer_value cs) \<and>
        answer_value a = subst_rec (assigned b) (r_head r)) \<and>
      is_ground (answer_value a) \<and> tokens_used a = \<Union> (tokens_used ` set cs) \<and>
      proof_of a = r_order r # concat (map proof_of cs) \<and>
      (\<exists>g. derivations a =
         [Trace (r_order r) (r_tag r) (concat (map derivations cs)) True (Some (answer_value a)) g] \<and>
         (r_guard r = None \<longrightarrow> g = None) \<and> g = map_option (\<lambda>g. Expression (g # map tag cs)) (r_guard r)) \<and>
      (\<not> labelled r \<and> variable_op alg = None \<longrightarrow>
         foldE (extend_values eng alg) (r_tag r) (map tag cs) = Inr (tag a)) \<and>
      (linear alg \<longrightarrow> sorted_wrt disjoint_tokens cs) \<and>
      (\<forall>g. r_guard r = Some g \<longrightarrow> guard_holds eng (Expression (g # map tag cs)) = Inr True))"

lemma finish_state_instance:
  assumes st: "partial_match eng alg r pool (r_premises r) cs st"
    and got: "finish_state eng alg space r st = Inr out" "a \<in> set out"
  shows "set cs \<subseteq> pool \<and> rule_instance eng alg r cs a"
proof -
  let ?v = "substitute (r_head r) (d_bindings st)"
  let ?g = "map_option (\<lambda>g. Expression (g # d_premise_tags st)) (r_guard r)"
  have "\<not> has_variable ?v" using got by (auto simp: finish_state_def Let_def)
  then have ground: "is_ground ?v" by (simp add: has_variable_ground)
  from got obtain t where t: "instance_tag eng alg space r st ?v = Inr t" and
    a: "a = \<lparr>answer_value = ?v, tag = t, tokens_used = d_tokens st, proof_of = d_proof st,
      derivations = [Trace (r_order r) (r_tag r) (d_traces st) True (Some ?v) ?g]\<rparr>"
    by (auto simp: finish_state_def Let_def split: if_splits)
  have tg: "\<not> labelled r \<and> variable_op alg = None \<longrightarrow>
      foldE (extend_values eng alg) (r_tag r) (map tag cs) = Inr t"
    using st t by (auto simp: partial_match_def instance_tag_def rule_start_def)
  have sub: "?v = subst_rec (assigned (d_bindings st)) (r_head r)"
    using st by (simp add: partial_match_def substitute_assigned)
  have "\<exists>b. ground_bindings b \<and> dom (assigned b) \<subseteq> names_of (r_premises r) \<and>
      list_all2 (fits (assigned b)) (r_premises r) (map answer_value cs) \<and>
      ?v = subst_rec (assigned b) (r_head r)"
    using st sub by (intro exI [of _ "d_bindings st"]) (simp add: partial_match_def)
  moreover have "guard_holds eng (Expression (g # map tag cs)) = Inr True" if "r_guard r = Some g" for g
    using got st that by (auto simp: finish_state_def Let_def partial_match_def split: if_splits)
  ultimately show ?thesis using ground tg st by (auto simp: a rule_instance_def partial_match_def)
qed

lemma initial_partial:
  "ground_bindings b \<Longrightarrow> dom (assigned b) \<subseteq> names_of (r_premises r) \<Longrightarrow>
     partial_match eng alg r pool [] [] (initial_state alg r b)"
  by (simp add: partial_match_def initial_state_def)

text \<open>Whatever the caller answers, and whatever it bound beforehand.\<close>

lemma derive_rule_steps_instance:
  assumes got: "derive_rule_steps eng alg space r ask b = Inr out" "a \<in> set out"
    and b: "ground_bindings b" "dom (assigned b) \<subseteq> names_of (r_premises r)"
    and ask: "\<And>pat rows. ask pat = Inr rows \<Longrightarrow> set rows \<subseteq> pool"
    and ground: "\<And>c. c \<in> pool \<Longrightarrow> is_ground (answer_value c)"
  shows "\<exists>cs. set cs \<subseteq> pool \<and> rule_instance eng alg r cs a"
proof -
  from got(1) obtain states where s: "premises_loop eng alg r ask (r_premises r) [initial_state alg r b] = Inr states"
      "concatE (finish_state eng alg space r) states = Inr out"
    by (auto simp: derive_rule_steps_def)
  from concatE_Inr [OF s(2) got(2)] obtain st ys where st: "st \<in> set states"
      "finish_state eng alg space r st = Inr ys" "a \<in> set ys" by blast
  have "\<exists>cs. partial_match eng alg r pool ([] @ r_premises r) cs st"
  proof (rule premises_loop_partial [OF s(1) _ ask ground st(1)])
    fix st0
    assume "st0 \<in> set [initial_state alg r b]"
    then show "\<exists>cs. partial_match eng alg r pool [] cs st0" using initial_partial [OF b] by auto
  qed simp_all
  then obtain cs where "partial_match eng alg r pool (r_premises r) cs st" by auto
  from finish_state_instance [OF this st(2,3)] show ?thesis by blast
qed

lemma derive_rule_instance:
  assumes got: "derive_rule eng alg space r available sources = Inr out" "a \<in> set out"
    and pool: "set available \<subseteq> pool"
      "\<And>rows pat as. sources = Some rows \<Longrightarrow> rows pat = Inr as \<Longrightarrow> set as \<subseteq> pool"
    and ground: "\<And>c. c \<in> pool \<Longrightarrow> is_ground (answer_value c)"
  shows "\<exists>cs. set cs \<subseteq> pool \<and> rule_instance eng alg r cs a"
proof -
  define ask where "ask = (\<lambda>pattern. case sources of
            None \<Rightarrow> Inr available
          | Some rows \<Rightarrow> bindE (rows pattern) (\<lambda>extra. Inr (available @ extra)))"
  have ask: "set rows \<subseteq> pool" if rows: "ask pat = Inr rows" for pat rows
  proof (cases sources)
    case None
    with rows pool(1) show ?thesis by (simp add: ask_def)
  next
    case (Some provider)
    with rows obtain extra where "provider pat = Inr extra" "rows = available @ extra" by (auto simp: ask_def)
    with pool(1) pool(2) [OF Some, of pat extra] show ?thesis by simp
  qed
  have "derive_rule_steps eng alg space r ask [] = Inr out" using got(1) by (simp add: derive_rule_def ask_def)
  from derive_rule_steps_instance [OF this got(2) _ _ ask ground] show ?thesis
    by (simp add: ground_bindings_def assigned_def)
qed

section \<open>The fixpoint\<close>

lemma keep_new_spec:
  "keep_new h as seen = (added, seen') \<Longrightarrow>
     set added \<subseteq> set as \<and> seen' = seen @ map (signature h) added \<and> signature h ` set as \<subseteq> set seen'"
proof (induction as arbitrary: seen added)
  case (Cons a as)
  show ?case
  proof (cases "signature h a \<in> set seen")
    case True
    with Cons.prems have *: "keep_new h as seen = (added, seen')" by simp
    from Cons.IH [OF *] True show ?thesis by auto
  next
    case False
    then obtain ad where *: "keep_new h as (seen @ [signature h a]) = (ad, seen')" "added = a # ad"
      using Cons.prems by (auto simp: Let_def split: prod.splits)
    from Cons.IH [OF *(1)] *(2) False show ?thesis by auto
  qed
qed simp

lemma one_round_spec:
  "one_round h eng alg space available sources rules seen = Inr (added, seen') \<Longrightarrow>
     seen' = seen @ map (signature h) added \<and>
     (\<forall>a \<in> set added. \<exists>r \<in> set rules. \<exists>out. derive_rule eng alg space r available sources = Inr out \<and> a \<in> set out) \<and>
     (\<forall>r \<in> set rules. \<exists>out. derive_rule eng alg space r available sources = Inr out \<and>
        signature h ` set out \<subseteq> set seen')"
proof (induction rules arbitrary: seen added)
  case (Cons r rs)
  then obtain answers where d: "derive_rule eng alg space r available sources = Inr answers" by auto
  obtain ad1 seen1 where k: "keep_new h answers seen = (ad1, seen1)" by force
  from Cons.prems d k obtain ad2 where
    o: "one_round h eng alg space available sources rs seen1 = Inr (ad2, seen')" and a: "added = ad1 @ ad2"
    by auto
  note k' = keep_new_spec [OF k] and o' = Cons.IH [OF o]
  from k' o' have 1: "seen' = seen @ map (signature h) added" using a by simp
  from k' o' have 2: "signature h ` set answers \<subseteq> set seen'" by auto
  from k' have 3: "set ad1 \<subseteq> set answers" by blast
  show ?case
  proof (intro conjI)
    show "\<forall>x \<in> set added. \<exists>q \<in> set (r # rs). \<exists>out. derive_rule eng alg space q available sources = Inr out \<and> x \<in> set out"
    proof
      fix x
      assume "x \<in> set added"
      then consider "x \<in> set ad1" | "x \<in> set ad2" using a by auto
      then show "\<exists>q \<in> set (r # rs). \<exists>out. derive_rule eng alg space q available sources = Inr out \<and> x \<in> set out"
      proof cases
        case 1
        with 3 d show ?thesis by auto
      next
        case 2
        with o' show ?thesis by (meson list.set_intros(2))
      qed
    qed
    show "\<forall>q \<in> set (r # rs). \<exists>out. derive_rule eng alg space q available sources = Inr out \<and>
        signature h ` set out \<subseteq> set seen'"
      using d 2 o' by auto
  qed (use 1 in simp)
qed simp

lemma saturate_induct:
  assumes "saturate h eng alg space sources rules n available seen = Inr out"
    and start: "\<And>a. a \<in> set available \<Longrightarrow> Q a"
    and rows: "\<And>rows pat as a. sources = Some rows \<Longrightarrow> rows pat = Inr as \<Longrightarrow> a \<in> set as \<Longrightarrow> Q a"
    and ground: "\<And>a. Q a \<Longrightarrow> is_ground (answer_value a)"
    and step: "\<And>r cs a. r \<in> set rules \<Longrightarrow> (\<And>c. c \<in> set cs \<Longrightarrow> Q c) \<Longrightarrow> rule_instance eng alg r cs a \<Longrightarrow> Q a"
    and "a \<in> set out"
  shows "Q a"
  using assms(1,2,6)
proof (induction n arbitrary: available seen)
  case (Suc n)
  then obtain added seen' where o: "one_round h eng alg space available sources rules seen = Inr (added, seen')"
      and rest: "(if added = [] then Inr available
        else saturate h eng alg space sources rules n (available @ added) seen') = Inr out" by auto
  have new: "Q x" if "x \<in> set added" for x
  proof -
    from one_round_spec [OF o] that obtain r ys where r: "r \<in> set rules"
        "derive_rule eng alg space r available sources = Inr ys" "x \<in> set ys" by blast
    have "\<exists>cs. set cs \<subseteq> Collect Q \<and> rule_instance eng alg r cs x"
      by (rule derive_rule_instance [OF r(2,3)]) (use Suc.prems(2) rows ground in auto)
    with step [OF r(1)] show ?thesis by blast
  qed
  show ?case
  proof (cases "added = []")
    case True
    with rest Suc.prems show ?thesis by auto
  next
    case False
    with rest have s: "saturate h eng alg space sources rules n (available @ added) seen' = Inr out" by simp
    have "Q x" if "x \<in> set (available @ added)" for x using that Suc.prems(2) new by auto
    from Suc.IH [OF s this Suc.prems(3)] show ?thesis .
  qed
qed simp

lemma saturate_closed:
  assumes "saturate h eng alg space sources rules n available (map (signature h) available) = Inr out" "r \<in> set rules"
  shows "set available \<subseteq> set out \<and> (\<exists>answers. derive_rule eng alg space r out sources = Inr answers \<and>
     signature h ` set answers \<subseteq> signature h ` set out)"
  using assms(1)
proof (induction n arbitrary: available)
  case (Suc n)
  then obtain added seen' where
    o: "one_round h eng alg space available sources rules (map (signature h) available) = Inr (added, seen')"
      and rest: "(if added = [] then Inr available
        else saturate h eng alg space sources rules n (available @ added) seen') = Inr out" by auto
  note spec = one_round_spec [OF o]
  then have seen': "seen' = map (signature h) (available @ added)" by simp
  show ?case
  proof (cases "added = []")
    case True
    with rest have out: "out = available" by simp
    from spec assms(2) obtain ys where "derive_rule eng alg space r available sources = Inr ys"
        "signature h ` set ys \<subseteq> set seen'" by blast
    with out seen' True show ?thesis by auto
  next
    case False
    with rest seen' Suc.IH [of "available @ added"] show ?thesis by auto
  qed
qed simp

end
