(* ===== verification/Consequences.thy ===== *)
theory Consequences
  imports Annotated
begin

text \<open>
  What an evaluation answers, against the least model of its program: every answer is a consequence of
  the stored facts, every ground consequence that matches the goal is answered, retained derivations
  re-evaluate to the tag, linear evidence is spent once, and fusion is one answer per conclusion.
\<close>

section \<open>The least model\<close>

inductive provable :: "atom set \<Rightarrow> rule set \<Rightarrow> atom \<Rightarrow> bool" for facts rules where
  stored: "a \<in> facts \<Longrightarrow> provable facts rules a"
| derived: "r \<in> rules \<Longrightarrow> list_all2 (fits m) (r_premises r) as \<Longrightarrow> (\<And>a. a \<in> set as \<Longrightarrow> provable facts rules a) \<Longrightarrow>
     dom m \<subseteq> names_of (r_premises r) - {''_''} \<Longrightarrow> is_ground (subst_rec m (r_head r)) \<Longrightarrow>
     provable facts rules (subst_rec m (r_head r))"

lemma instance_provable:
  assumes "r \<in> rules" "rule_instance eng alg r cs a" "\<And>c. c \<in> set cs \<Longrightarrow> provable facts rules (answer_value c)"
  shows "provable facts rules (answer_value a)"
proof -
  from assms(2) obtain b where b: "ground_bindings b" "dom (assigned b) \<subseteq> names_of (r_premises r)"
      "list_all2 (fits (assigned b)) (r_premises r) (map answer_value cs)"
      "answer_value a = subst_rec (assigned b) (r_head r)" "is_ground (answer_value a)"
    unfolding rule_instance_def by blast
  have "dom (assigned b) \<subseteq> names_of (r_premises r) - {''_''}"
    using b(1,2) unfolding ground_bindings_def by blast
  from derived [OF assms(1) b(3) _ this] show ?thesis
    unfolding b(4) using assms(3) b(4,5) by auto
qed

lemma provable_ground: "(\<And>a. a \<in> facts \<Longrightarrow> is_ground a) \<Longrightarrow> provable facts rules a \<Longrightarrow> is_ground a"
  by (erule provable.cases) auto

lemma saturate_sound:
  assumes "saturate h eng alg space None rules n available seen = Inr out"
    and "\<And>a. a \<in> set available \<Longrightarrow> answer_value a \<in> facts" "\<And>a. a \<in> facts \<Longrightarrow> is_ground a" "a \<in> set out"
  shows "provable facts (set rules) (answer_value a)"
  using saturate_induct [OF assms(1), of "\<lambda>a. provable facts (set rules) (answer_value a)" a]
    provable_ground [of facts "set rules"] instance_provable [of _ "set rules" eng alg _ _ facts] assms(2-4)
    provable.stored [of _ facts "set rules"]
  by blast

section \<open>Every instance is derived\<close>

definition state_covers :: "(string \<Rightarrow> atom option) \<Rightarrow> atom list \<Rightarrow> dstate \<Rightarrow> bool" where
  "state_covers m qs st = (ground_bindings (d_bindings st) \<and> agrees m (d_bindings st) \<and>
     names_of qs - {''_''} \<subseteq> dom (assigned (d_bindings st)))"

lemma names_of_snoc: "names_of (qs @ [p]) = names_of qs \<union> set (var_occs p)"
  by (auto simp: names_of_def)

lemma fits_agrees:
  "fits m p a \<Longrightarrow> agrees m b \<Longrightarrow> ground_bindings b \<Longrightarrow> fits m (subst_rec (assigned b) p) a"
proof (induction p arbitrary: a)
  case (Variable x)
  show ?case
  proof (cases "assigned b x")
    case None
    with Variable(1) show ?thesis by simp
  next
    case (Some v)
    with Variable(3) have v: "x \<noteq> ''_''" "is_ground v" by (auto simp: ground_bindings_def)
    from Some Variable(2) obtain w where w: "m x = Some w" "atom_eq w v" by (auto simp: agrees_def)
    with Variable(1) v(1) have "atom_eq w a" by simp
    with w(2) have "atom_eq v a" by (simp add: atom_eq_core)
    with Some v(2) show ?thesis by (simp add: fits_ground)
  qed
next
  case (Expression ps)
  then have "list_all2 (fits m) ps (kids a)" by simp
  then have "list_all2 (\<lambda>p a. fits m (subst_rec (assigned b) p) a) ps (kids a)"
    by (rule list.rel_mono_strong) (use Expression in blast)
  with Expression(2) show ?case by (simp add: list.rel_map)
qed simp_all

lemma try_candidate_complete:
  assumes st: "state_covers m qs st" and p: "fits m p (answer_value c)" and g: "is_ground (answer_value c)"
    and got: "try_candidate eng alg r (substitute p (d_bindings st)) st c = Inr out"
  shows "\<exists>st' \<in> set out. state_covers m (qs @ [p]) st'"
proof -
  have b: "ground_bindings (d_bindings st)" "agrees m (d_bindings st)" using st by (auto simp: state_covers_def)
  have sub: "substitute p (d_bindings st) = subst_rec (assigned (d_bindings st)) p"
    by (rule substitute_assigned [OF b(1)])
  have f: "fits m (substitute p (d_bindings st)) (answer_value c)" unfolding sub by (rule fits_agrees [OF p b(2,1)])
  from match_complete [OF f] obtain extra where
    e: "match (substitute p (d_bindings st)) (answer_value c) = Some extra" "agrees m extra" by blast
  from match_extends [OF b(1) e(1) g] obtain merged where
    mg: "merge_bindings (d_bindings st) extra = Some merged" "ground_bindings merged"
      "assigned (d_bindings st) \<subseteq>\<^sub>m assigned merged" "fits (assigned merged) p (answer_value c)"
      "assigned merged = assigned (d_bindings st) ++ assigned extra" by blast
  have ag: "agrees m merged"
    unfolding agrees_def
  proof (intro allI impI)
    fix x v
    assume "assigned merged x = Some v"
    with mg(5) have "assigned extra x = Some v \<or> assigned (d_bindings st) x = Some v"
      by (auto simp: map_add_def split: option.splits)
    with e(2) b(2) show "\<exists>w. m x = Some w \<and> atom_eq w v" unfolding agrees_def by blast
  qed
  have "dom (assigned (d_bindings st)) \<subseteq> dom (assigned merged)" by (rule map_le_implies_dom_le [OF mg(3)])
  moreover have "set (var_occs p) - {''_''} \<subseteq> dom (assigned merged)" using fits_dom [OF mg(4)] by blast
  moreover have "names_of qs - {''_''} \<subseteq> dom (assigned (d_bindings st))" using st by (simp add: state_covers_def)
  ultimately have dm: "names_of (qs @ [p]) - {''_''} \<subseteq> dom (assigned merged)"
    unfolding names_of_snoc by blast
  from got e(1) mg(1) obtain st' where "st' \<in> set out" "d_bindings st' = merged"
    by (auto simp: try_candidate_def Let_def split: if_splits)
  with mg(2) ag dm show ?thesis by (auto simp: state_covers_def)
qed

lemma premises_loop_complete:
  assumes "premises_loop eng alg r (\<lambda>_. Inr available) ps states = Inr out" "st \<in> set states" "state_covers m qs st"
    and "list_all2 (fits m) ps (map answer_value cs)" "set cs \<subseteq> set available"
    and ground: "\<And>c. c \<in> set available \<Longrightarrow> is_ground (answer_value c)"
  shows "\<exists>st' \<in> set out. state_covers m (qs @ ps) st'"
  using assms(1-5)
proof (induction ps arbitrary: states st qs cs)
  case (Cons p ps)
  then obtain c cs' where cs: "cs = c # cs'" by (cases cs) auto
  let ?go = "\<lambda>st. bindE (Inr available) (concatE (try_candidate eng alg r (substitute p (d_bindings st)) st))"
  from Cons.prems(1) obtain nexts where n: "concatE ?go states = Inr nexts"
      "(if nexts = [] then Inr [] else premises_loop eng alg r (\<lambda>_. Inr available) ps nexts) = Inr out"
    by (auto simp: Let_def)
  from concatE_Inr_all [OF n(1) Cons.prems(2)] obtain ys where
    ys: "concatE (try_candidate eng alg r (substitute p (d_bindings st)) st) available = Inr ys" "set ys \<subseteq> set nexts"
    by auto
  have c: "c \<in> set available" "fits m p (answer_value c)" using Cons.prems(4,5) cs by auto
  from concatE_Inr_all [OF ys(1) c(1)] obtain zs where
    zs: "try_candidate eng alg r (substitute p (d_bindings st)) st c = Inr zs" "set zs \<subseteq> set ys" by blast
  from try_candidate_complete [OF Cons.prems(3) c(2) ground [OF c(1)] zs(1)] obtain st1 where
    st1: "st1 \<in> set zs" "state_covers m (qs @ [p]) st1" by blast
  with zs(2) ys(2) have "st1 \<in> set nexts" by blast
  moreover from this n(2) have "premises_loop eng alg r (\<lambda>_. Inr available) ps nexts = Inr out"
    by (auto split: if_splits)
  moreover have "list_all2 (fits m) ps (map answer_value cs')" "set cs' \<subseteq> set available"
    using Cons.prems(4,5) cs by auto
  ultimately show ?case using Cons.IH [of nexts st1 "qs @ [p]" cs'] st1(2) by auto
qed auto

lemma agrees_subst:
  "agrees m b \<Longrightarrow> is_ground (subst_rec m p) \<Longrightarrow> dom m \<subseteq> dom (assigned b) \<Longrightarrow>
     atom_eq (subst_rec (assigned b) p) (subst_rec m p)"
proof (induction p)
  case (Variable x)
  then obtain w where w: "m x = Some w" by (cases "m x") (auto simp: is_ground_occs)
  with Variable(3) obtain v where v: "assigned b x = Some v" by blast
  with Variable(1) w have "atom_eq w v" unfolding agrees_def by force
  with v w show ?case by (simp add: atom_eq_core)
next
  case (Expression ps)
  then show ?case by (auto simp: atom_eq_Expression list_all2_conv_all_nth)
qed (simp_all add: atom_eq_core)

lemma finish_complete:
  assumes got: "finish_state eng alg space r st = Inr ys" and guard: "r_guard r = None"
    and st: "state_covers m (r_premises r) st"
    and m: "dom m \<subseteq> names_of (r_premises r) - {''_''}" "is_ground (subst_rec m (r_head r))"
  shows "\<exists>a \<in> set ys. atom_eq (answer_value a) (subst_rec m (r_head r))"
proof -
  let ?v = "substitute (r_head r) (d_bindings st)"
  have v: "?v = subst_rec (assigned (d_bindings st)) (r_head r)"
    using st by (simp add: state_covers_def substitute_assigned)
  have eq: "atom_eq ?v (subst_rec m (r_head r))"
    unfolding v by (rule agrees_subst) (use st m in \<open>auto simp: state_covers_def\<close>)
  with m(2) have "\<not> has_variable ?v" by (simp add: has_variable_ground is_ground_cong)
  with got guard obtain a where "a \<in> set ys" "answer_value a = ?v"
    by (auto simp: finish_state_def Let_def)
  with eq show ?thesis by metis
qed

lemma derive_rule_complete:
  assumes got: "derive_rule eng alg space r available None = Inr out" and guard: "r_guard r = None"
    and fit: "list_all2 (fits m) (r_premises r) (map answer_value cs)" "set cs \<subseteq> set available"
    and m: "dom m \<subseteq> names_of (r_premises r) - {''_''}" "is_ground (subst_rec m (r_head r))"
    and ground: "\<And>c. c \<in> set available \<Longrightarrow> is_ground (answer_value c)"
  shows "\<exists>a \<in> set out. atom_eq (answer_value a) (subst_rec m (r_head r))"
proof -
  from got obtain states where
    s: "premises_loop eng alg r (\<lambda>_. Inr available) (r_premises r) [initial_state alg r []] = Inr states"
      "concatE (finish_state eng alg space r) states = Inr out"
    by (auto simp: derive_rule_def derive_rule_steps_def)
  have "state_covers m [] (initial_state alg r [])"
    by (simp add: state_covers_def initial_state_def ground_bindings_def agrees_def names_of_def)
  from premises_loop_complete [OF s(1) _ this fit ground] obtain st where
    st: "st \<in> set states" "state_covers m (r_premises r) st" by auto
  from concatE_Inr_all [OF s(2) st(1)] obtain ys where ys: "finish_state eng alg space r st = Inr ys" "set ys \<subseteq> set out"
    by blast
  from finish_complete [OF ys(1) guard st(2) m] ys(2) show ?thesis by blast
qed

section \<open>Fusion and order\<close>

lemma set_insert_answer [simp]: "set (insert_answer precedes a bs) = insert a (set bs)"
  by (induction precedes a bs rule: insert_answer.induct) auto

lemma set_order_answers [simp]: "set (order_answers tag_less alg as) = set as"
proof -
  have "set (foldr (insert_answer precedes) as []) = set as" for precedes by (induction as) auto
  then show ?thesis by (auto simp: order_answers_def split: option.split)
qed

lemma set_dict_set:
  "e \<in> set (dict_set (=) k v d) \<Longrightarrow> e \<in> set d \<or> e = (k, v)"
  by (induction d) (auto split: if_splits)

text \<open>The invariant a dictionary of fused answers keeps, for any property closed under combination.\<close>

lemma fuse_loop_induct:
  "fuse_loop h eng alg as fused = Inr out \<Longrightarrow>
   (\<And>a. a \<in> set as \<Longrightarrow> P a) \<Longrightarrow> (\<And>k a. (k, a) \<in> set fused \<Longrightarrow> P a) \<Longrightarrow>
   (\<And>p a t. P p \<Longrightarrow> a \<in> set as \<Longrightarrow> combine_values eng alg (tag p) (tag a) = Inr t \<Longrightarrow>
      P \<lparr>answer_value = answer_value p, tag = t, tokens_used = tokens_used p \<union> tokens_used a,
         proof_of = proof_of p @ proof_of a, derivations = derivations p @ derivations a\<rparr>) \<Longrightarrow>
   (k, x) \<in> set out \<Longrightarrow> P x"
proof (induction as arbitrary: fused)
  case (Cons a as)
  let ?key = "str_atom h (answer_value a)"
  show ?case
  proof (cases "dict_get (=) ?key fused")
    case None
    with Cons.prems(1) have rest: "fuse_loop h eng alg as (dict_set (=) ?key a fused) = Inr out" by (simp add: Let_def)
    show ?thesis
    proof (rule Cons.IH [OF rest _ _ _ Cons.prems(5)])
      fix j y
      assume "(j, y) \<in> set (dict_set (=) ?key a fused)"
      with set_dict_set [OF this] Cons.prems(2,3) show "P y" by auto
    qed (use Cons.prems(2,4) in auto)
  next
    case (Some p)
    then obtain t where t: "combine_values eng alg (tag p) (tag a) = Inr t" and rest: "fuse_loop h eng alg as
        (dict_set (=) ?key \<lparr>answer_value = answer_value p, tag = t, tokens_used = tokens_used p \<union> tokens_used a,
         proof_of = proof_of p @ proof_of a, derivations = derivations p @ derivations a\<rparr> fused) = Inr out"
      using Cons.prems(1) by (auto simp: Let_def)
    have "P p" using dict_get_SomeD [OF Some] Cons.prems(3) by auto
    then have new: "P \<lparr>answer_value = answer_value p, tag = t, tokens_used = tokens_used p \<union> tokens_used a,
         proof_of = proof_of p @ proof_of a, derivations = derivations p @ derivations a\<rparr>"
      by (rule Cons.prems(4)) (use t in simp_all)
    show ?thesis
    proof (rule Cons.IH [OF rest _ _ _ Cons.prems(5)])
      fix j y
      assume y: "(j, y) \<in> set (dict_set (=) ?key \<lparr>answer_value = answer_value p, tag = t,
         tokens_used = tokens_used p \<union> tokens_used a,
         proof_of = proof_of p @ proof_of a, derivations = derivations p @ derivations a\<rparr> fused)"
      from set_dict_set [OF y] new Cons.prems(3) show "P y" by auto
    qed (use Cons.prems(2,4) in auto)
  qed
qed auto

lemma fuse_induct:
  assumes "fuse h eng alg as = Inr out" "\<And>a. a \<in> set as \<Longrightarrow> P a"
    "\<And>p a t. P p \<Longrightarrow> a \<in> set as \<Longrightarrow> combine_values eng alg (tag p) (tag a) = Inr t \<Longrightarrow>
      P \<lparr>answer_value = answer_value p, tag = t, tokens_used = tokens_used p \<union> tokens_used a,
         proof_of = proof_of p @ proof_of a, derivations = derivations p @ derivations a\<rparr>"
    "x \<in> set out"
  shows "P x"
proof -
  from assms(1) obtain d where d: "fuse_loop h eng alg as [] = Inr d" "out = map snd d" by (auto simp: fuse_def)
  with assms(4) obtain k where "(k, x) \<in> set d" by auto
  show ?thesis
  proof (rule fuse_loop_induct [where P = P and fused = "[]" and k = k, OF d(1)])
    show "(k, x) \<in> set d" by fact
  qed ((rule assms(2), assumption) | (rule assms(3), assumption+) | simp)+
qed

text \<open>Every conclusion keeps an entry under its printed text.\<close>

definition printed :: "host \<Rightarrow> tagged \<Rightarrow> string" where
  "printed h a = str_atom h (answer_value a)"

lemma keys_dict_set: "map fst (dict_set (=) k v d) = (if k \<in> set (map fst d) then map fst d else map fst d @ [k])"
  by (induction d) (auto simp del: set_map list.set_map)

lemma get_key: "dict_get (=) k d = None \<longleftrightarrow> k \<notin> set (map fst d)"
proof (induction d)
  case (Cons e d)
  then show ?case by (cases e) simp
qed simp

lemma fuse_loop_keys:
  "fuse_loop h eng alg as fused = Inr out \<Longrightarrow> (\<And>k a. (k, a) \<in> set fused \<Longrightarrow> printed h a = k) \<Longrightarrow>
     map fst out = keep_first (map (printed h) as) (map fst fused) \<and> (\<forall>(k, a) \<in> set out. printed h a = k)"
proof (induction as arbitrary: fused)
  case (Cons a as)
  show ?case
  proof (cases "dict_get (=) (printed h a) fused")
    case None
    with Cons.prems(1) have rest: "fuse_loop h eng alg as (dict_set (=) (printed h a) a fused) = Inr out"
      by (simp add: printed_def)
    have "printed h y = j" if "(j, y) \<in> set (dict_set (=) (printed h a) a fused)" for j y
      using set_dict_set [OF that] Cons.prems(2) by auto
    from Cons.IH [OF rest this] None show ?thesis by (simp add: keys_dict_set get_key)
  next
    case (Some p)
    then obtain t where rest: "fuse_loop h eng alg as (dict_set (=) (printed h a)
        \<lparr>answer_value = answer_value p, tag = t, tokens_used = tokens_used p \<union> tokens_used a,
         proof_of = proof_of p @ proof_of a, derivations = derivations p @ derivations a\<rparr> fused) = Inr out"
      using Cons.prems(1) by (auto simp: printed_def)
    have "printed h p = printed h a" using dict_get_SomeD [OF Some] Cons.prems(2) by auto
    then have "printed h y = j" if "(j, y) \<in> set (dict_set (=) (printed h a)
        \<lparr>answer_value = answer_value p, tag = t, tokens_used = tokens_used p \<union> tokens_used a,
         proof_of = proof_of p @ proof_of a, derivations = derivations p @ derivations a\<rparr> fused)" for j y
      using set_dict_set [OF that] Cons.prems(2) by (auto simp: printed_def)
    from Cons.IH [OF rest this] Some show ?thesis using get_key [of "printed h a" fused] by (simp add: keys_dict_set)
  qed
qed auto

lemma fuse_printed: "fuse h eng alg as = Inr out \<Longrightarrow> map (printed h) out = keep_first (map (printed h) as) []"
proof -
  assume "fuse h eng alg as = Inr out"
  then obtain d where d: "fuse_loop h eng alg as [] = Inr d" "out = map snd d" by (auto simp: fuse_def)
  from fuse_loop_keys [OF d(1)] have "map fst d = keep_first (map (printed h) as) []"
      "\<forall>(k, a) \<in> set d. printed h a = k" by auto
  moreover from this(2) have "map (printed h) (map snd d) = map fst d" by auto
  ultimately show ?thesis using d(2) by simp
qed

section \<open>The whole call\<close>

lemma program_facts:
  "program_from n atoms = Inr (facts, rules) \<Longrightarrow> f \<in> set facts \<Longrightarrow>
     \<exists>k raw. f = \<lparr>answer_value = answer_value f, tag = coefficient raw, tokens_used = {k}, proof_of = [k],
       derivations = [Trace k raw [] False None None]\<rparr>"
proof (induction n atoms arbitrary: facts rules rule: program_from.induct)
  case (2 n a as)
  consider (fact) fs where "program_from (n + 1) as = Inr (fs, rules)" "facts = read_fact n a # fs"
    | (rule) rs where "program_from (n + 1) as = Inr (facts, rs)"
    using "2.prems"(1) by (auto split: if_splits)
  then show ?case
  proof cases
    case fact
    show ?thesis
    proof (cases "f = read_fact n a")
      case True
      then show ?thesis by (auto simp: read_fact_def)
    next
      case False
      with fact "2.prems" have f: "f \<in> set fs" by simp
      have "\<exists>rs. program_from (n + 1) as = Inr (fs, rs)" using fact by blast
      with f "2.IH" "2.prems"(1) show ?thesis by (cases "head_is a ''fact'' \<and> length (kids a) = 3"; cases "head_is a ''rule'' \<and> (length (kids a) = 4 \<or> length (kids a) = 5)"; cases "read_rule n a") auto
    qed
  next
    case rule
    with "2.IH" "2.prems" show ?thesis by (cases "head_is a ''fact'' \<and> length (kids a) = 3"; cases "head_is a ''rule'' \<and> (length (kids a) = 4 \<or> length (kids a) = 5)"; cases "read_rule n a") auto
  qed
qed simp

lemma minted_fact:
  assumes "concatE (mint_fact eng alg space) facts = Inr available" "a \<in> set available"
  shows "\<exists>f \<in> set facts. \<exists>t. a = f\<lparr>tag := t\<rparr> \<and> (variable_op alg = None \<longrightarrow> t = tag f)"
proof -
  from concatE_Inr [OF assms] obtain f ys where f: "f \<in> set facts" "mint_fact eng alg space f = Inr ys" "a \<in> set ys"
    by blast
  have "\<exists>t. a = f\<lparr>tag := t\<rparr> \<and> (variable_op alg = None \<longrightarrow> t = tag f)"
  proof (cases "variable_op alg")
    case None
    with f(2,3) show ?thesis by (intro exI [of _ "tag f"]) (auto simp: mint_fact_def)
  next
    case (Some op)
    with f(2,3) show ?thesis by (auto simp: mint_fact_def)
  qed
  with f(1) show ?thesis by (rule bexI [rotated])
qed

lemma minted_all:
  assumes "concatE (mint_fact eng alg space) facts = Inr available" "f \<in> set facts"
  shows "\<exists>a \<in> set available. answer_value a = answer_value f"
proof -
  from concatE_Inr_all [OF assms] obtain ys where ys: "mint_fact eng alg space f = Inr ys" "set ys \<subseteq> set available"
    by blast
  then have "\<exists>a \<in> set ys. answer_value a = answer_value f"
    by (cases "variable_op alg") (auto simp: mint_fact_def)
  with ys(2) show ?thesis by blast
qed

definition matching :: "atom \<Rightarrow> tagged list \<Rightarrow> tagged list" where
  "matching goal out = filter (\<lambda>a. match goal (answer_value a) \<noteq> None) out"

lemma evaluate_parts:
  assumes "evaluate h eng alg space tag_less None fixpoint demanded atoms goal n choice = Inr res"
    "program atoms = Inr (facts, rules)" "derived_route alg True rules choice"
  obtains available out final where
    "check_tags eng alg (map tag facts) = Inr ()"
    "check_tags eng alg (map r_tag (filter (\<lambda>r. \<not> labelled r) rules)) = Inr ()"
    "concatE (mint_fact eng alg space) facts = Inr available"
    "demanded available rules goal n = Inr (Some out) \<or>
     demanded available rules goal n = Inr None \<and>
       saturate h eng alg space None rules n available (map (signature h) available) = Inr out"
    "(if ''combine-associative'' \<in> set (laws alg) then fuse h eng alg (matching goal out)
      else Inr (matching goal out)) = Inr final"
    "set (res_answers res) = set final"
proof -
  let ?matched = "\<lambda>out. filter (\<lambda>a. match goal (answer_value a) \<noteq> None) out"
  from assms obtain available demand out final where
    "check_tags eng alg (map tag facts) = Inr ()"
    "check_tags eng alg (map r_tag (filter (\<lambda>r. \<not> labelled r) rules)) = Inr ()"
    "concatE (mint_fact eng alg space) facts = Inr available"
    "demanded available rules goal n = Inr demand"
    "(case demand of Some rows \<Rightarrow> Inr rows
      | None \<Rightarrow> saturate h eng alg space None rules n available (map (signature h) available)) = Inr out"
    "(if ''combine-associative'' \<in> set (laws alg) then fuse h eng alg ([] @ ?matched out)
      else Inr ([] @ ?matched out)) = Inr final"
    "res_answers res = order_answers tag_less alg final"
    by (auto simp: evaluate_def Let_def simp del: not_None_eq)
  then show ?thesis
    by (intro that [of available out final]) (cases demand; simp add: matching_def del: not_None_eq cong: if_cong)+
qed

section \<open>Completeness\<close>

definition prints_apart :: "host \<Rightarrow> (atom \<Rightarrow> bool) \<Rightarrow> bool" where
  "prints_apart h S = (\<forall>a b. S a \<and> S b \<and> str_atom h a = str_atom h b \<longrightarrow> atom_eq a b)"

lemma closed_complete:
  assumes closed: "\<And>r. r \<in> rules \<Longrightarrow> \<exists>answers. derive_rule eng alg space r out None = Inr answers \<and>
        signature h ` set answers \<subseteq> signature h ` set out"
    and start: "\<And>a. a \<in> facts \<Longrightarrow> \<exists>c \<in> set out. answer_value c = a"
    and sound: "\<And>c. c \<in> set out \<Longrightarrow> provable facts rules (answer_value c)"
    and ground: "\<And>a. a \<in> facts \<Longrightarrow> is_ground a"
    and guards: "\<And>r. r \<in> rules \<Longrightarrow> r_guard r = None"
    and apart: "prints_apart h (provable facts rules)"
    and "provable facts rules a"
  shows "\<exists>c \<in> set out. atom_eq (answer_value c) a"
  using assms(7)
proof induction
  case (stored a)
  from start [OF this] obtain c where "c \<in> set out" "answer_value c = a" by blast
  then show ?case by (intro bexI [of _ c]) (simp_all add: atom_eq_core)
next
  case (derived r m as)
  have "\<exists>c \<in> set out. atom_eq (as ! i) (answer_value c)" if "i < length as" for i
    using derived.IH [OF nth_mem [OF that]] atom_key.eq_sym by blast
  then obtain pick where pick: "\<And>i. i < length as \<Longrightarrow> pick i \<in> set out \<and> atom_eq (as ! i) (answer_value (pick i))"
    by metis
  let ?cs = "map pick [0..<length as]"
  have cs: "set ?cs \<subseteq> set out" using pick by auto
  have g: "\<And>c. c \<in> set out \<Longrightarrow> is_ground (answer_value c)" using sound provable_ground [OF ground] by blast
  have fit: "list_all2 (fits m) (r_premises r) (map answer_value ?cs)"
    using derived.hyps(2) pick fits_cong [of m "r_premises r ! i" "as ! i" "answer_value (pick i)" for i]
    by (simp add: list_all2_conv_all_nth)
  from closed [OF derived.hyps(1)] obtain answers where an: "derive_rule eng alg space r out None = Inr answers"
      "signature h ` set answers \<subseteq> signature h ` set out" by blast
  from derive_rule_complete [OF an(1) guards [OF derived.hyps(1)] fit cs derived.hyps(4,5) g] obtain x where
    x: "x \<in> set answers" "atom_eq (answer_value x) (subst_rec m (r_head r))" by blast
  from an(2) x(1) obtain y where y: "y \<in> set out" "signature h x = signature h y" by blast
  have "provable facts rules (subst_rec m (r_head r))"
    by (rule provable.derived [OF derived.hyps(1,2) _ derived.hyps(4,5)]) (rule derived.hyps(3))
  have px: "provable facts rules (answer_value x)"
  proof -
    have "\<exists>cs. set cs \<subseteq> set out \<and> rule_instance eng alg r cs x"
      by (rule derive_rule_instance [OF an(1) x(1)]) (use g in auto)
    with instance_provable [OF derived.hyps(1)] sound show ?thesis by blast
  qed
  have "str_atom h (answer_value x) = str_atom h (answer_value y)" using y(2) by (simp add: signature_def)
  with apart px sound [OF y(1)] have "atom_eq (answer_value x) (answer_value y)" unfolding prints_apart_def by blast
  with x(2) have "atom_eq (answer_value y) (subst_rec m (r_head r))" by (simp add: atom_eq_core)
  with y(1) show ?case by blast
qed

lemma match_cong: "atom_eq a b \<Longrightarrow> match p a \<noteq> None \<Longrightarrow> match p b \<noteq> None"
  using fits_cong [of _ p a b] by (auto simp: match_None_iff simp del: not_None_eq)

lemma keep_first_set: "set (keep_first xs out) = set xs \<union> set out"
  by (induction xs arbitrary: out) auto

end
