(* ===== verification/Demand.thy ===== *)
theory Demand
  imports Algebra
begin

text \<open>
  Query-directed evaluation, \<open>metta/algebra/_demand.py\<close>: a program of flat integer-tagged facts and rules
  is certified (no cycle, few enough rounds, printable integers), and then only the demands the goal
  leads to are solved, each a relation with the arguments that are bound.

  The suspended rule generators, the cache of completed demands and the fact indexes compute a function
  of the demand, so they are read here as that function: \<open>solve\<close> recurses where the code pushes a
  generator. Its fuel is one level per round the certificate allows, which always suffices.
\<close>

section \<open>Shapes\<close>

text \<open>The tuple of a relation: whether it is an expression, its name and its arity.\<close>

datatype relkey = RelKey bool string nat

fun bit_length_nat :: "nat \<Rightarrow> nat" where
  "bit_length_nat n = (if n = 0 then 0 else Suc (bit_length_nat (n div 2)))"

declare bit_length_nat.simps [simp del]

definition bit_length :: "int \<Rightarrow> nat" where
  "bit_length i = bit_length_nat (nat \<bar>i\<bar>)"

text \<open>\<open>digits\<close> is the interpreter's limit on the digits of a printed integer; 0 is no limit.\<close>

definition printable_bits :: "nat \<Rightarrow> nat \<Rightarrow> bool" where
  "printable_bits digits bits = (digits = 0 \<or> bits < digits * 3)"

fun plain_argument :: "nat \<Rightarrow> atom \<Rightarrow> bool" where
  "plain_argument digits (Symbol s) = True"
| "plain_argument digits (Variable x) = True"
| "plain_argument digits (Grounded (VInt i) e) = printable_bits digits (bit_length i)"
| "plain_argument digits (Grounded (VObj oid) e) = False"
| "plain_argument digits (Grounded v e) = True"
| "plain_argument digits _ = False"

fun shape :: "nat \<Rightarrow> atom \<Rightarrow> (relkey \<times> atom list) option" where
  "shape digits (Symbol s) = Some (RelKey False s 0, [])"
| "shape digits (Expression (Symbol f # params)) =
     (if list_all (plain_argument digits) params then Some (RelKey True f (length params), params) else None)"
| "shape digits _ = None"

definition certified_shape :: "nat \<Rightarrow> atom \<Rightarrow> alg_error + relkey \<times> atom list" where
  "certified_shape digits a =
     (case shape digits a of
        None \<Rightarrow> Inl (EvaluationError ''algebra_demand_uncertified_atom'')
      | Some s \<Rightarrow> Inr s)"

definition integer_bits :: "nat \<Rightarrow> atom \<Rightarrow> nat option" where
  "integer_bits digits t =
     (case t of
        Grounded (VInt i) _ \<Rightarrow>
          (let bits = max 1 (bit_length i) in if printable_bits digits bits then Some bits else None)
      | _ \<Rightarrow> None)"

section \<open>The certificate\<close>

record tables =
  fact_rows :: "(relkey, tagged list) dict"
  rule_rows :: "(relkey, rule list) dict"
  dependencies :: "(relkey, relkey list) dict"
  bounds :: "(relkey, nat) dict"
  rule_bits :: "(int, nat) dict"
  rule_relations :: "(int, relkey list) dict"

text \<open>\<open>defaultdict\<close> reads, and a set of names kept as a list without repetitions.\<close>

definition rows_of :: "(relkey, 'a list) dict \<Rightarrow> relkey \<Rightarrow> 'a list" where
  "rows_of d k = (case dict_get (=) k d of None \<Rightarrow> [] | Some xs \<Rightarrow> xs)"

definition bound_of :: "(relkey, nat) dict \<Rightarrow> relkey \<Rightarrow> nat" where
  "bound_of d k = (case dict_get (=) k d of None \<Rightarrow> 1 | Some n \<Rightarrow> n)"

definition append_row :: "(relkey, 'a list) dict \<Rightarrow> relkey \<Rightarrow> 'a \<Rightarrow> (relkey, 'a list) dict" where
  "append_row d k x = dict_set (=) k (rows_of d k @ [x]) d"

definition add_need :: "(relkey, relkey list) dict \<Rightarrow> relkey \<Rightarrow> relkey \<Rightarrow> (relkey, relkey list) dict" where
  "add_need d k r = dict_set (=) k (if r \<in> set (rows_of d k) then rows_of d k else rows_of d k @ [r]) d"

definition argument_names :: "atom list \<Rightarrow> string list" where
  "argument_names params = concat (map (\<lambda>a. case a of Variable x \<Rightarrow> [x] | _ \<Rightarrow> []) params)"

fun scan_facts :: "nat \<Rightarrow> tagged list \<Rightarrow> tables \<Rightarrow> tables option" where
  "scan_facts digits [] t = Some t"
| "scan_facts digits (a # as) t =
     (case (shape digits (answer_value a), integer_bits digits (tag a)) of
        (Some (key, params), Some bits) \<Rightarrow>
          if argument_names params \<noteq> [] then None
          else scan_facts digits as
            (t\<lparr>fact_rows := append_row (fact_rows t) key a,
               bounds := dict_set (=) key (max (bound_of (bounds t) key) bits) (bounds t),
               dependencies := dict_setdefault (=) key [] (dependencies t)\<rparr>)
      | _ \<Rightarrow> None)"

fun scan_premises ::
  "nat \<Rightarrow> relkey \<Rightarrow> atom list \<Rightarrow> (relkey, relkey list) dict \<Rightarrow> relkey list \<Rightarrow> string list
     \<Rightarrow> ((relkey, relkey list) dict \<times> relkey list \<times> string list) option" where
  "scan_premises digits key [] deps relations names = Some (deps, relations, names)"
| "scan_premises digits key (p # ps) deps relations names =
     (case shape digits p of
        None \<Rightarrow> None
      | Some (rel, params) \<Rightarrow>
          scan_premises digits key ps (dict_setdefault (=) rel [] (add_need deps key rel))
            (relations @ [rel]) (names @ argument_names params))"

fun scan_rules :: "nat \<Rightarrow> rule list \<Rightarrow> tables \<Rightarrow> tables option" where
  "scan_rules digits [] t = Some t"
| "scan_rules digits (r # rs) t =
     (case (shape digits (r_head r), integer_bits digits (r_tag r)) of
        (Some (key, params), Some bits) \<Rightarrow>
          (case scan_premises digits key (r_premises r) (dict_setdefault (=) key [] (dependencies t)) [] [] of
             None \<Rightarrow> None
           | Some (deps, relations, names) \<Rightarrow>
               if ''_'' \<in> set (argument_names params) \<or> \<not> set (argument_names params) \<subseteq> set names then None
               else scan_rules digits rs
                 (t\<lparr>dependencies := deps, rule_rows := append_row (rule_rows t) key r,
                    rule_bits := dict_set (=) (r_order r) bits (rule_bits t),
                    rule_relations := dict_set (=) (r_order r) relations (rule_relations t)\<rparr>))
      | _ \<Rightarrow> None)"

text \<open>One rule's height and the bits its tag may reach, over the relations of its premises.\<close>

definition wider :: "string \<Rightarrow> nat \<Rightarrow> nat \<Rightarrow> nat" where
  "wider oper bits b =
     (if oper = ''*'' then bits + b else if oper = ''+'' then max bits b + 1 else max bits b)"

fun rule_cost ::
  "string \<Rightarrow> (relkey, nat) dict \<Rightarrow> (relkey, nat) dict \<Rightarrow> relkey list \<Rightarrow> nat \<Rightarrow> nat \<Rightarrow> alg_error + nat \<times> nat" where
  "rule_cost oper depth bnd [] height bits = Inr (height, bits)"
| "rule_cost oper depth bnd (rel # rels) height bits =
     (case dict_get (=) rel depth of
        None \<Rightarrow> Inl (EvaluationError ''KeyError'')
      | Some d \<Rightarrow> rule_cost oper depth bnd rels (max height (d + 1)) (wider oper bits (bound_of bnd rel)))"

fun key_cost ::
  "string \<Rightarrow> tables \<Rightarrow> relkey \<Rightarrow> rule list \<Rightarrow> (relkey, nat) dict \<Rightarrow> (relkey, nat) dict
     \<Rightarrow> alg_error + (relkey, nat) dict \<times> (relkey, nat) dict" where
  "key_cost oper t key [] depth bnd = Inr (depth, bnd)"
| "key_cost oper t key (r # rs) depth bnd =
     (case (dict_get (=) (r_order r) (rule_bits t), dict_get (=) (r_order r) (rule_relations t)) of
        (Some bits, Some relations) \<Rightarrow>
          bindE (rule_cost oper depth bnd relations 1 bits) (\<lambda>(height, bits').
            key_cost oper t key rs
              (dict_set (=) key (max (case dict_get (=) key depth of None \<Rightarrow> 0 | Some d \<Rightarrow> d) height) depth)
              (dict_set (=) key (max (bound_of bnd key) bits') bnd))
      | _ \<Rightarrow> Inl (EvaluationError ''KeyError''))"

definition dependents :: "(relkey, relkey list) dict \<Rightarrow> relkey \<Rightarrow> relkey list" where
  "dependents deps key = map fst (filter (\<lambda>(k, needs). key \<in> set needs) deps)"

definition blocked :: "(relkey, int) dict \<Rightarrow> nat" where
  "blocked waiting = length (filter (\<lambda>(k, c). 0 < c) waiting)"

lemma blocked_simps [simp]:
  "blocked [] = 0" "blocked ((k, c) # w) = (if 0 < c then Suc (blocked w) else blocked w)"
  by (simp_all add: blocked_def)

definition waiting_for :: "(relkey, int) dict \<Rightarrow> relkey \<Rightarrow> int" where
  "waiting_for w k = (case dict_get (=) k w of None \<Rightarrow> 0 | Some c \<Rightarrow> c)"

lemma waiting_for_simps [simp]:
  "waiting_for [] k = 0" "waiting_for ((j, c) # w) k = (if j = k then c else waiting_for w k)"
  "waiting_for (dict_set (=) j c w) k = (if j = k then c else waiting_for w k)"
  by (simp_all add: waiting_for_def)

lemma blocked_set:
  "blocked (dict_set (=) k (waiting_for w k - 1) w) + (if waiting_for w k = 1 then 1 else 0) \<le> blocked w"
proof (induction w)
  case (Cons e w)
  then show ?case by (cases e; cases "fst e = k") simp_all
qed simp

text \<open>Releasing a relation's dependents: one whose last need this was becomes ready.\<close>

fun release :: "relkey list \<Rightarrow> (relkey, int) dict \<Rightarrow> relkey list \<Rightarrow> (relkey, int) dict \<times> relkey list" where
  "release [] waiting ready = (waiting, ready)"
| "release (k # ks) waiting ready =
     (let left = waiting_for waiting k - 1 in
      release ks (dict_set (=) k left waiting) (if left = 0 then ready @ [k] else ready))"

lemma release_bound: "length (snd (release ks waiting ready)) + blocked (fst (release ks waiting ready)) \<le>
    length ready + blocked waiting"
proof (induction ks waiting ready rule: release.induct)
  case (2 k ks waiting ready)
  from "2.IH" [OF refl] blocked_set [of k waiting] show ?case by (simp add: Let_def split: if_splits)
qed simp

lemma release_measure: "(w, r) = release ks waiting ready \<Longrightarrow> length r + blocked w < Suc (length ready + blocked waiting)"
  using release_bound [of ks waiting ready] by (simp add: prod_eq_iff)

function certify_loop ::
  "nat \<Rightarrow> string \<Rightarrow> nat \<Rightarrow> tables \<Rightarrow> relkey list \<Rightarrow> (relkey, int) dict \<Rightarrow> (relkey, nat) dict \<Rightarrow> (relkey, nat) dict
     \<Rightarrow> alg_error + (relkey, nat) dict option" where
  "certify_loop digits oper max_rounds t [] waiting depth bnd = Inr (Some depth)"
| "certify_loop digits oper max_rounds t (key # ready) waiting depth bnd =
     bindE (key_cost oper t key (rows_of (rule_rows t) key) (dict_set (=) key 0 depth) bnd) (\<lambda>(depth', bnd').
       if max_rounds \<le> (case dict_get (=) key depth' of None \<Rightarrow> 0 | Some d \<Rightarrow> d) \<or>
          \<not> printable_bits digits (bound_of bnd' key)
       then Inr None
       else let (waiting', ready') = release (dependents (dependencies t) key) waiting ready in
         certify_loop digits oper max_rounds t ready' waiting' depth' bnd')"
  by pat_completeness auto
termination
  by (relation "measure (\<lambda>(digits, oper, max_rounds, t, ready, waiting, depth, bnd). length ready + blocked waiting)")
    (auto dest: release_measure)

definition direct_names :: "string list" where
  "direct_names = [''+'', ''*'', ''min'', ''max'']"

definition certify ::
  "nat \<Rightarrow> algebra \<Rightarrow> tagged list \<Rightarrow> rule list \<Rightarrow> atom \<Rightarrow> nat
     \<Rightarrow> alg_error + ((relkey, tagged list) dict \<times> (relkey, rule list) dict) option" where
  "certify digits alg facts rules goal max_rounds =
     (if \<not> (extend_op alg \<in> set direct_names \<and> combine_op alg \<in> set direct_names \<and> \<not> linear alg) \<or>
         rules = [] \<or> shape digits goal = None
      then Inr None
      else case scan_facts digits facts
          \<lparr>fact_rows = [], rule_rows = [], dependencies = [], bounds = [], rule_bits = [], rule_relations = []\<rparr> of
        None \<Rightarrow> Inr None
      | Some t1 \<Rightarrow>
          (case scan_rules digits rules t1 of
             None \<Rightarrow> Inr None
           | Some t \<Rightarrow>
               (let waiting = map (\<lambda>(k, needs). (k, int (length needs))) (dependencies t);
                    ready = map fst (filter (\<lambda>(k, c). c = 0) waiting) in
                bindE (certify_loop digits (extend_op alg) max_rounds t ready waiting [] (bounds t)) (\<lambda>result.
                  case result of
                    None \<Rightarrow> Inr None
                  | Some depth \<Rightarrow>
                      if length depth \<noteq> length (dependencies t) then Inr None
                      else Inr (Some (fact_rows t, rule_rows t))))))"

section \<open>Demands\<close>

record demand =
  dm_relation :: relkey
  dm_bindings :: "(nat \<times> atom) list"

definition is_variable :: "atom \<Rightarrow> bool" where
  "is_variable a = (case a of Variable _ \<Rightarrow> True | _ \<Rightarrow> False)"

definition from_pattern :: "nat \<Rightarrow> atom \<Rightarrow> alg_error + demand" where
  "from_pattern digits pattern =
     bindE (certified_shape digits pattern) (\<lambda>(rel, params).
       Inr \<lparr>dm_relation = rel, dm_bindings = filter (\<lambda>(i, a). \<not> is_variable a) (enumerate 0 params)\<rparr>)"

fun bind_head :: "atom list \<Rightarrow> (nat \<times> atom) list \<Rightarrow> bindings \<Rightarrow> bindings option" where
  "bind_head params [] result = Some result"
| "bind_head params ((i, v) # rest) result =
     (case params ! i of
        Variable x \<Rightarrow>
          (let result' = dict_setdefault (=) x v result in
           case dict_get (=) x result' of
             Some previous \<Rightarrow> if atom_eq previous v then bind_head params rest result' else None
           | None \<Rightarrow> None)
      | a \<Rightarrow> if atom_eq a v then bind_head params rest result else None)"

definition head_bindings :: "nat \<Rightarrow> rule \<Rightarrow> demand \<Rightarrow> alg_error + bindings option" where
  "head_bindings digits r d =
     bindE (certified_shape digits (r_head r)) (\<lambda>(rel, params). Inr (bind_head params (dm_bindings d) []))"

definition demanded_facts :: "nat \<Rightarrow> (relkey, tagged list) dict \<Rightarrow> demand \<Rightarrow> alg_error + tagged list" where
  "demanded_facts digits rows d =
     (if dm_bindings d = [] then Inr (rows_of rows (dm_relation d))
      else concatE (\<lambda>a. bindE (certified_shape digits (answer_value a)) (\<lambda>(rel, params).
        Inr (if list_all (\<lambda>(i, v). atom_eq (params ! i) v) (dm_bindings d) then [a] else [])))
        (rows_of rows (dm_relation d)))"

text \<open>The order of full closure: facts, then proof heights, then rule order and each premise's own order.\<close>

datatype rank = Rank (rank_height: nat) int "rank list"

fun rank_of :: "trace \<Rightarrow> rank" where
  "rank_of (Trace source raw cs is_rule key guard) =
     (let children = map rank_of cs in
      Rank (if is_rule then 1 + fold max (map rank_height children) 0 else 0) source children)"

fun rank_less :: "rank \<Rightarrow> rank \<Rightarrow> bool" and ranks_less :: "rank list \<Rightarrow> rank list \<Rightarrow> bool" where
  "rank_less (Rank h s cs) (Rank k t ds) = (h < k \<or> h = k \<and> (s < t \<or> s = t \<and> ranks_less cs ds))"
| "ranks_less [] [] = False"
| "ranks_less [] (y # ys) = True"
| "ranks_less (x # xs) [] = False"
| "ranks_less (x # xs) (y # ys) = (if x = y then ranks_less xs ys else rank_less x y)"

definition answer_rank :: "tagged \<Rightarrow> rank" where
  "answer_rank a = rank_of (hd (derivations a))"

definition unique_answers :: "host \<Rightarrow> tagged list \<Rightarrow> tagged list" where
  "unique_answers h answers = map snd (fold (\<lambda>a d. dict_set (=) (signature h a) a d) answers [])"

definition sort_answers :: "tagged list \<Rightarrow> tagged list" where
  "sort_answers answers =
     foldr (insert_answer (\<lambda>b a. rank_less (answer_rank b) (answer_rank a))) answers []"

fun solve ::
  "host \<Rightarrow> engine \<Rightarrow> algebra \<Rightarrow> string \<Rightarrow> nat \<Rightarrow> (relkey, tagged list) dict \<Rightarrow> (relkey, rule list) dict
     \<Rightarrow> nat \<Rightarrow> demand \<Rightarrow> alg_error + tagged list" where
  "solve h eng alg space digits facts rules 0 d = Inl (EvaluationError ''fuel'')"
| "solve h eng alg space digits facts rules (Suc n) d =
     bindE (demanded_facts digits facts d) (\<lambda>answers.
     bindE (concatE (\<lambda>r. bindE (head_bindings digits r d) (\<lambda>initial.
         case initial of
           None \<Rightarrow> Inr []
         | Some b \<Rightarrow> derive_rule_steps eng alg space r
             (\<lambda>pattern. bindE (from_pattern digits pattern) (solve h eng alg space digits facts rules n)) b))
       (rows_of rules (dm_relation d))) (\<lambda>derived.
     Inr (sort_answers (unique_answers h (answers @ derived)))))"

definition evaluate_demand ::
  "host \<Rightarrow> engine \<Rightarrow> algebra \<Rightarrow> string \<Rightarrow> nat \<Rightarrow> tagged list \<Rightarrow> rule list \<Rightarrow> atom \<Rightarrow> nat
     \<Rightarrow> alg_error + tagged list option" where
  "evaluate_demand h eng alg space digits facts rules goal max_rounds =
     bindE (certify digits alg facts rules goal max_rounds) (\<lambda>certified.
       case certified of
         None \<Rightarrow> Inr None
       | Some (fr, rr) \<Rightarrow>
           bindE (from_pattern digits goal) (\<lambda>d.
           bindE (solve h eng alg space digits fr rr (Suc max_rounds) d) (\<lambda>rows. Inr (Some rows))))"

end
