(* ===== verification/Certificates.thy ===== *)
theory Certificates
  imports Demand Consequences
begin

text \<open>
  What the certificate of \<open>Demand\<close> establishes: the rows of each relation, a rank that falls from every
  rule's head to its premises, and that none of its lookups can fail.
\<close>

section \<open>Reading the program\<close>

definition key_of :: "nat \<Rightarrow> atom \<Rightarrow> relkey option" where
  "key_of digits a = map_option fst (shape digits a)"

definition rel_of :: "nat \<Rightarrow> atom \<Rightarrow> relkey" where
  "rel_of digits a = fst (the (shape digits a))"

definition params_of :: "nat \<Rightarrow> atom \<Rightarrow> atom list" where
  "params_of digits a = snd (the (shape digits a))"

lemma shape_parts: "shape digits a = Some (k, ps) \<Longrightarrow> rel_of digits a = k \<and> params_of digits a = ps \<and> key_of digits a = Some k"
  by (simp add: rel_of_def params_of_def key_of_def)

lemma rows_of_append_row [simp]:
  "rows_of (append_row d k x) j = (if j = k then rows_of d k @ [x] else rows_of d j)"
  by (simp add: append_row_def rows_of_def)

lemma rows_of_add_need [simp]:
  "set (rows_of (add_need d k r) j) = (if j = k then insert r (set (rows_of d k)) else set (rows_of d j))"
  by (auto simp: add_need_def rows_of_def)

lemma rows_of_setdefault [simp]: "rows_of (dict_setdefault (=) k [] d) j = rows_of d j"
  by (auto simp: rows_of_def dict_setdefault_def split: option.splits)

definition keys_of :: "(relkey, 'a) dict \<Rightarrow> relkey set" where
  "keys_of d = set (map fst d)"

lemma keys_of_set [simp]: "keys_of (dict_set (=) k v d) = insert k (keys_of d)"
  by (auto simp only: keys_of_def keys_dict_set set_append set_simps split: if_splits)

lemma keys_of_get: "k \<in> keys_of d \<longleftrightarrow> dict_get (=) k d \<noteq> None"
  unfolding keys_of_def by (simp only: get_key not_not)

lemma keys_of_setdefault [simp]: "keys_of (dict_setdefault (=) k v d) = insert k (keys_of d)"
  by (auto simp: dict_setdefault_def keys_of_get split: option.splits)

lemma keys_of_need [simp]: "keys_of (add_need d k r) = insert k (keys_of d)"
  by (simp add: add_need_def)

lemma dict_ok_distinct: "dict_ok (=) d \<Longrightarrow> distinct (map fst d)"
proof (induction d)
  case (Cons e d)
  then show ?case using get_key [of "fst e" d] by (cases e) (simp del: set_map list.set_map)
qed simp

text \<open>A dependency table: each key once, each need once, and every need is a key.\<close>

definition deps_ok :: "(relkey, relkey list) dict \<Rightarrow> bool" where
  "deps_ok d = (dict_ok (=) d \<and> (\<forall>k. distinct (rows_of d k) \<and> set (rows_of d k) \<subseteq> keys_of d))"

lemma deps_ok_setdefault: "deps_ok d \<Longrightarrow> deps_ok (dict_setdefault (=) k [] d)"
  by (auto simp: deps_ok_def plain_key.dict_ok_setdefault)

lemma distinct_add_need: "distinct (rows_of d k) \<Longrightarrow> distinct (rows_of d j) \<Longrightarrow> distinct (rows_of (add_need d k r) j)"
  by (auto simp: add_need_def rows_of_def)

lemma dict_ok_need: "dict_ok (=) d \<Longrightarrow> dict_ok (=) (add_need d k r)"
  by (simp add: add_need_def plain_key.dict_ok_set)

lemma deps_ok_need: "deps_ok d \<Longrightarrow> deps_ok (dict_setdefault (=) r [] (add_need d k r))"
  unfolding deps_ok_def
  by (auto simp: plain_key.dict_ok_setdefault dict_ok_need distinct_add_need split: if_splits)

section \<open>What the scans collect\<close>

lemma scan_facts_spec:
  "scan_facts digits facts t = Some t' \<Longrightarrow> deps_ok (dependencies t) \<Longrightarrow>
     deps_ok (dependencies t') \<and> rule_rows t' = rule_rows t \<and> rule_bits t' = rule_bits t \<and>
     rule_relations t' = rule_relations t \<and> (\<forall>k. rows_of (dependencies t') k = rows_of (dependencies t) k) \<and>
     keys_of (dependencies t) \<subseteq> keys_of (dependencies t') \<and>
     (\<forall>k. rows_of (fact_rows t') k =
        rows_of (fact_rows t) k @ filter (\<lambda>a. key_of digits (answer_value a) = Some k) facts) \<and>
     (\<forall>a \<in> set facts. shape digits (answer_value a) \<noteq> None \<and>
        argument_names (params_of digits (answer_value a)) = [])"
proof (induction facts arbitrary: t)
  case (Cons a facts)
  from Cons.prems(1) obtain key ps bits where
    s: "shape digits (answer_value a) = Some (key, ps)" "integer_bits digits (tag a) = Some bits"
      "argument_names ps = []"
    by (auto split: option.splits if_splits)
  note p = shape_parts [OF s(1)]
  let ?t = "t\<lparr>fact_rows := append_row (fact_rows t) key a,
               bounds := dict_set (=) key (max (bound_of (bounds t) key) bits) (bounds t),
               dependencies := dict_setdefault (=) key [] (dependencies t)\<rparr>"
  have "scan_facts digits facts ?t = Some t'" "deps_ok (dependencies ?t)"
    using Cons.prems s by (simp_all add: deps_ok_setdefault)
  from Cons.IH [OF this] s p show ?case by (simp split: if_splits)
qed simp

lemma scan_premises_spec:
  "scan_premises digits key ps deps rels names = Some (deps', rels', names') \<Longrightarrow> deps_ok deps \<Longrightarrow>
     deps_ok deps' \<and> keys_of deps \<subseteq> keys_of deps' \<and> rels' = rels @ map (rel_of digits) ps \<and>
     set names' = set names \<union> (\<Union>p \<in> set ps. set (argument_names (params_of digits p))) \<and>
     (\<forall>p \<in> set ps. shape digits p \<noteq> None) \<and>
     (\<forall>k. set (rows_of deps' k) = set (rows_of deps k) \<union> (if k = key then set (map (rel_of digits) ps) else {}))"
proof (induction ps arbitrary: deps rels names)
  case (Cons p ps)
  from Cons.prems(1) obtain r xs where s: "shape digits p = Some (r, xs)" by (auto split: option.splits)
  let ?d = "dict_setdefault (=) r [] (add_need deps key r)"
  have "scan_premises digits key ps ?d (rels @ [r]) (names @ argument_names xs) = Some (deps', rels', names')"
    using Cons.prems(1) s by simp
  from Cons.IH [OF this deps_ok_need [OF Cons.prems(2)]] s shape_parts [OF s] show ?case by auto
qed auto

text \<open>One rule as certified: flat, its head's names named and bound by its premises.\<close>

definition rule_flat :: "nat \<Rightarrow> rule \<Rightarrow> bool" where
  "rule_flat digits r =
     (shape digits (r_head r) \<noteq> None \<and> (\<forall>p \<in> set (r_premises r). shape digits p \<noteq> None) \<and>
      ''_'' \<notin> set (argument_names (params_of digits (r_head r))) \<and>
      set (argument_names (params_of digits (r_head r))) \<subseteq>
        (\<Union>p \<in> set (r_premises r). set (argument_names (params_of digits p))))"

definition premise_rels :: "nat \<Rightarrow> rule \<Rightarrow> relkey list" where
  "premise_rels digits r = map (rel_of digits) (r_premises r)"

lemma scan_rules_spec:
  "scan_rules digits rules t = Some t' \<Longrightarrow> deps_ok (dependencies t) \<Longrightarrow> distinct (map r_order rules) \<Longrightarrow>
     deps_ok (dependencies t') \<and> fact_rows t' = fact_rows t \<and>
     keys_of (dependencies t) \<subseteq> keys_of (dependencies t') \<and>
     (\<forall>k. set (rows_of (dependencies t) k) \<subseteq> set (rows_of (dependencies t') k)) \<and>
     (\<forall>k. rows_of (rule_rows t') k = rows_of (rule_rows t) k @ filter (\<lambda>r. key_of digits (r_head r) = Some k) rules) \<and>
     (\<forall>n. n \<notin> r_order ` set rules \<longrightarrow> dict_get (=) n (rule_bits t') = dict_get (=) n (rule_bits t) \<and>
        dict_get (=) n (rule_relations t') = dict_get (=) n (rule_relations t)) \<and>
     (\<forall>r \<in> set rules. rule_flat digits r \<and> dict_get (=) (r_order r) (rule_bits t') \<noteq> None \<and>
        dict_get (=) (r_order r) (rule_relations t') = Some (premise_rels digits r) \<and>
        rel_of digits (r_head r) \<in> keys_of (dependencies t') \<and>
        set (premise_rels digits r) \<subseteq> set (rows_of (dependencies t') (rel_of digits (r_head r))))"
proof (induction rules arbitrary: t)
  case (Cons r rules)
  let ?d = "\<lambda>key. dict_setdefault (=) key [] (dependencies t)"
  from Cons.prems(1) obtain key ps bits deps rels names where
    s: "shape digits (r_head r) = Some (key, ps)" "integer_bits digits (r_tag r) = Some bits"
      "scan_premises digits key (r_premises r) (?d key) [] [] = Some (deps, rels, names)"
      "''_'' \<notin> set (argument_names ps)" "set (argument_names ps) \<subseteq> set names"
    by (auto split: option.splits if_splits)
  note p = shape_parts [OF s(1)]
  note sp = scan_premises_spec [OF s(3) deps_ok_setdefault [OF Cons.prems(2)]]
  let ?t = "t\<lparr>dependencies := deps, rule_rows := append_row (rule_rows t) key r,
                    rule_bits := dict_set (=) (r_order r) bits (rule_bits t),
                    rule_relations := dict_set (=) (r_order r) rels (rule_relations t)\<rparr>"
  have rest: "scan_rules digits rules ?t = Some t'" "deps_ok (dependencies ?t)" "distinct (map r_order rules)"
    using Cons.prems s sp by auto
  note IH = Cons.IH [OF rest]
  have fresh: "r_order r \<notin> r_order ` set rules" using Cons.prems(3) by auto
  have flat: "rule_flat digits r" using s p sp by (auto simp: rule_flat_def)
  have own: "dict_get (=) (r_order r) (rule_bits t') = Some bits" "dict_get (=) (r_order r) (rule_relations t') = Some rels"
    using IH fresh by auto
  have "set (rows_of deps key) \<subseteq> set (rows_of (dependencies t') key)" using IH by simp
  moreover have "set (premise_rels digits r) \<subseteq> set (rows_of deps key)" using sp by (simp add: premise_rels_def)
  ultimately have needs: "set (premise_rels digits r) \<subseteq> set (rows_of (dependencies t') key)" by blast
  have here: "key \<in> keys_of (dependencies t')" using IH sp by auto
  have rels: "rels = premise_rels digits r" using sp by (simp add: premise_rels_def)
  show ?case
  proof (intro conjI)
    show "\<forall>k. rows_of (rule_rows t') k = rows_of (rule_rows t) k @ filter (\<lambda>r. key_of digits (r_head r) = Some k) (r # rules)"
      using IH p by auto
    show "\<forall>q \<in> set (r # rules). rule_flat digits q \<and> dict_get (=) (r_order q) (rule_bits t') \<noteq> None \<and>
        dict_get (=) (r_order q) (rule_relations t') = Some (premise_rels digits q) \<and>
        rel_of digits (r_head q) \<in> keys_of (dependencies t') \<and>
        set (premise_rels digits q) \<subseteq> set (rows_of (dependencies t') (rel_of digits (r_head q)))"
      using IH flat own needs here rels p by simp
    show "\<forall>n. n \<notin> r_order ` set (r # rules) \<longrightarrow> dict_get (=) n (rule_bits t') = dict_get (=) n (rule_bits t) \<and>
        dict_get (=) n (rule_relations t') = dict_get (=) n (rule_relations t)"
      using IH by auto
  qed (use IH sp in auto)
qed simp

section \<open>The topological walk\<close>

lemma rule_cost_ok:
  "(\<And>rel. rel \<in> set rels \<Longrightarrow> dict_get (=) rel depth \<noteq> None) \<Longrightarrow>
     \<exists>h b. rule_cost oper depth bnd rels h0 b0 = Inr (h, b) \<and> h0 \<le> h \<and>
       (\<forall>rel \<in> set rels. the (dict_get (=) rel depth) < h)"
proof (induction rels arbitrary: h0 b0)
  case (Cons rel rels)
  obtain d where d: "dict_get (=) rel depth = Some d" using Cons.prems [of rel] by auto
  have "\<exists>h b. rule_cost oper depth bnd rels (max h0 (d + 1)) (wider oper b0 (bound_of bnd rel)) = Inr (h, b) \<and>
      max h0 (d + 1) \<le> h \<and> (\<forall>rel \<in> set rels. the (dict_get (=) rel depth) < h)"
    by (rule Cons.IH) (use Cons.prems in simp)
  then obtain h b where "rule_cost oper depth bnd rels (max h0 (d + 1)) (wider oper b0 (bound_of bnd rel)) = Inr (h, b)"
    "max h0 (d + 1) \<le> h" "\<forall>rel \<in> set rels. the (dict_get (=) rel depth) < h" by blast
  with d show ?case by (intro exI [of _ h] exI [of _ b]) auto
qed simp

lemma length_dict_set_key: "dict_get (=) k d \<noteq> None \<Longrightarrow> length (dict_set (=) k v d) = length d"
  by (induction d) (auto split: if_splits)

text \<open>The tables name every rule's bits and relations.\<close>

definition costed :: "tables \<Rightarrow> rule \<Rightarrow> relkey list \<Rightarrow> bool" where
  "costed t r rels = (dict_get (=) (r_order r) (rule_bits t) \<noteq> None \<and>
     dict_get (=) (r_order r) (rule_relations t) = Some rels)"

lemma key_cost_ok:
  "(\<And>r. r \<in> set rs \<Longrightarrow> costed t r (rels r) \<and> (\<forall>rel \<in> set (rels r). rel \<noteq> key \<and> dict_get (=) rel depth \<noteq> None)) \<Longrightarrow>
   dict_get (=) key depth = Some h0 \<Longrightarrow>
     \<exists>depth' bnd' h. key_cost oper t key rs depth bnd = Inr (depth', bnd') \<and> dict_get (=) key depth' = Some h \<and> h0 \<le> h \<and>
       (\<forall>j. j \<noteq> key \<longrightarrow> dict_get (=) j depth' = dict_get (=) j depth) \<and> length depth' = length depth \<and>
       (dict_ok (=) depth \<longrightarrow> dict_ok (=) depth') \<and>
       (rs \<noteq> [] \<longrightarrow> 0 < h) \<and> (\<forall>r \<in> set rs. \<forall>rel \<in> set (rels r). the (dict_get (=) rel depth) < h)"
proof (induction rs arbitrary: depth bnd h0)
  case (Cons r rs)
  from Cons.prems(1) [of r] obtain bits where
    c: "dict_get (=) (r_order r) (rule_bits t) = Some bits" "dict_get (=) (r_order r) (rule_relations t) = Some (rels r)"
    and own: "\<forall>rel \<in> set (rels r). rel \<noteq> key \<and> dict_get (=) rel depth \<noteq> None"
    by (auto simp: costed_def)
  from own have "\<And>rel. rel \<in> set (rels r) \<Longrightarrow> dict_get (=) rel depth \<noteq> None" by blast
  from rule_cost_ok [OF this] obtain h b where
    rc: "rule_cost oper depth bnd (rels r) 1 bits = Inr (h, b)" "\<forall>rel \<in> set (rels r). the (dict_get (=) rel depth) < h"
      "1 \<le> h"
    by blast
  let ?depth = "dict_set (=) key (max h0 h) depth" and ?bnd = "dict_set (=) key (max (bound_of bnd key) b) bnd"
  have step: "key_cost oper t key (r # rs) depth bnd = key_cost oper t key rs ?depth ?bnd"
    using c rc(1) Cons.prems(2) by simp
  have "\<And>q. q \<in> set rs \<Longrightarrow> costed t q (rels q) \<and> (\<forall>rel \<in> set (rels q). rel \<noteq> key \<and> dict_get (=) rel ?depth \<noteq> None)"
    using Cons.prems(1) by (auto simp: eq_commute [of key])
  from Cons.IH [OF this, of "max h0 h" ?bnd] obtain depth' bnd' h' where
    r: "key_cost oper t key rs ?depth ?bnd = Inr (depth', bnd')" "dict_get (=) key depth' = Some h'" "max h0 h \<le> h'"
      "\<forall>j. j \<noteq> key \<longrightarrow> dict_get (=) j depth' = dict_get (=) j ?depth" "length depth' = length ?depth"
      "dict_ok (=) ?depth \<longrightarrow> dict_ok (=) depth'"
      "\<forall>r \<in> set rs. \<forall>rel \<in> set (rels r). the (dict_get (=) rel ?depth) < h'"
    by auto
  have "the (dict_get (=) rel depth) < h'" if "q \<in> set rs" "rel \<in> set (rels q)" for q rel
    using r(7) that Cons.prems(1) [of q] by fastforce
  moreover have "the (dict_get (=) rel depth) < h'" if "rel \<in> set (rels r)" for rel
    using rc(2) that r(3) by force
  moreover have "length depth' = length depth"
    using r(5) Cons.prems(2) by (simp add: length_dict_set_key)
  ultimately show ?case
    unfolding step using r rc(3) plain_key.dict_ok_set [of depth key "max h0 h"] by (intro exI [of _ depth'] exI [of _ bnd'] exI [of _ h']) auto
qed auto

lemma release_spec:
  "distinct ks \<Longrightarrow> release ks w ready = (w', ready') \<Longrightarrow>
     (\<forall>k. waiting_for w' k = waiting_for w k - (if k \<in> set ks then 1 else 0)) \<and>
     ready' = ready @ filter (\<lambda>k. waiting_for w k = 1) ks"
proof (induction ks arbitrary: w ready)
  case (Cons k ks)
  let ?w = "dict_set (=) k (waiting_for w k - 1) w"
  have "release ks ?w (if waiting_for w k - 1 = 0 then ready @ [k] else ready) = (w', ready')"
    using Cons.prems(2) by (simp add: Let_def)
  from Cons.IH [OF _ this] Cons.prems(1) have
    "(\<forall>j. waiting_for w' j = waiting_for ?w j - (if j \<in> set ks then 1 else 0)) \<and>
     ready' = (if waiting_for w k - 1 = 0 then ready @ [k] else ready) @ filter (\<lambda>j. waiting_for ?w j = 1) ks" by simp
  moreover have "filter (\<lambda>j. waiting_for ?w j = 1) ks = filter (\<lambda>j. waiting_for w j = 1) ks"
    by (rule filter_cong) (use Cons.prems(1) in auto)
  ultimately show ?case using Cons.prems(1) by auto
qed simp

lemma dependents_set: "deps_ok deps \<Longrightarrow> k \<in> set (dependents deps key) \<longleftrightarrow> key \<in> set (rows_of deps k)"
proof -
  assume ok: "deps_ok deps"
  then have d: "dict_ok (=) deps" by (simp add: deps_ok_def)
  have "(k, needs) \<in> set deps \<longleftrightarrow> dict_get (=) k deps = Some needs" for needs
    using plain_key.dict_get_in [OF d] dict_get_SomeD [of "(=)" k deps needs] by auto
  then show ?thesis by (force simp: dependents_def rows_of_def split: option.splits)
qed

lemma dependents_distinct: "deps_ok deps \<Longrightarrow> distinct (dependents deps key)"
proof -
  have "dict_ok (=) d \<Longrightarrow> distinct (map fst d)" for d :: "(relkey, relkey list) dict" by (rule dict_ok_distinct)
  then show "deps_ok deps \<Longrightarrow> distinct (dependents deps key)"
    by (auto simp: dependents_def deps_ok_def intro: distinct_map_filter)
qed

section \<open>What a certificate guarantees\<close>

text \<open>The tables after both scans: every row's rule is costed, and its premises' relations are needs.\<close>

definition tables_ok :: "nat \<Rightarrow> tables \<Rightarrow> bool" where
  "tables_ok digits t =
     (deps_ok (dependencies t) \<and>
      (\<forall>k. \<forall>r \<in> set (rows_of (rule_rows t) k). costed t r (premise_rels digits r) \<and>
         set (premise_rels digits r) \<subseteq> set (rows_of (dependencies t) k)))"

definition ranked :: "nat \<Rightarrow> tables \<Rightarrow> (relkey, nat) dict \<Rightarrow> nat \<Rightarrow> bool" where
  "ranked digits t depth max_rounds =
     (\<forall>k \<in> keys_of depth. set (rows_of (dependencies t) k) \<subseteq> keys_of depth \<and>
        the (dict_get (=) k depth) < max_rounds \<and>
        (rows_of (rule_rows t) k \<noteq> [] \<longrightarrow> 0 < the (dict_get (=) k depth)) \<and>
        (\<forall>r \<in> set (rows_of (rule_rows t) k). \<forall>rel \<in> set (premise_rels digits r).
           the (dict_get (=) rel depth) < the (dict_get (=) k depth)))"

definition walking ::
  "nat \<Rightarrow> tables \<Rightarrow> relkey list \<Rightarrow> (relkey, int) dict \<Rightarrow> (relkey, nat) dict \<Rightarrow> nat \<Rightarrow> bool" where
  "walking digits t ready waiting depth max_rounds =
     (ranked digits t depth max_rounds \<and> distinct ready \<and> set ready \<inter> keys_of depth = {} \<and>
      dict_ok (=) depth \<and> keys_of depth \<union> set ready \<subseteq> keys_of (dependencies t) \<and>
      (\<forall>k \<in> set ready. set (rows_of (dependencies t) k) \<subseteq> keys_of depth) \<and>
      (\<forall>k. waiting_for waiting k = int (card (set (rows_of (dependencies t) k) - keys_of depth))))"

lemma walking_step:
  assumes ok: "tables_ok digits t" and w: "walking digits t (key # ready) waiting depth max_rounds"
  shows "\<exists>depth' bnd'. key_cost oper t key (rows_of (rule_rows t) key) (dict_set (=) key 0 depth) bnd = Inr (depth', bnd') \<and>
    (\<not> max_rounds \<le> the (dict_get (=) key depth') \<longrightarrow>
       walking digits t (snd (release (dependents (dependencies t) key) waiting ready))
         (fst (release (dependents (dependencies t) key) waiting ready)) depth' max_rounds) \<and>
    dict_get (=) key depth' \<noteq> None \<and> keys_of depth' = insert key (keys_of depth)"
proof -
  let ?D = "dependencies t" and ?R = "rows_of (rule_rows t)"
  let ?depth = "dict_set (=) key 0 depth"
  from w have r: "ranked digits t depth max_rounds" and key: "key \<notin> keys_of depth" "key \<notin> set ready" "key \<in> keys_of ?D"
    "set (rows_of ?D key) \<subseteq> keys_of depth" and ready: "distinct ready" "set ready \<inter> keys_of depth = {}"
    "set ready \<subseteq> keys_of ?D" "\<And>k. k \<in> set ready \<Longrightarrow> set (rows_of ?D k) \<subseteq> keys_of depth"
    and dk: "dict_ok (=) depth" "keys_of depth \<subseteq> keys_of ?D"
    and wt: "\<And>k. waiting_for waiting k = int (card (set (rows_of ?D k) - keys_of depth))"
    unfolding walking_def by auto
  have costs: "costed t r (premise_rels digits r) \<and>
      (\<forall>rel \<in> set (premise_rels digits r). rel \<noteq> key \<and> dict_get (=) rel ?depth \<noteq> None)" if "r \<in> set (?R key)" for r
  proof -
    have "costed t r (premise_rels digits r)" "set (premise_rels digits r) \<subseteq> set (rows_of ?D key)"
      using ok that unfolding tables_ok_def by blast+
    then have "set (premise_rels digits r) \<subseteq> keys_of depth" using key(4) by blast
    with key(1) \<open>costed t r (premise_rels digits r)\<close> show ?thesis by (auto simp: keys_of_get)
  qed
  have "\<exists>depth' bnd' h. key_cost oper t key (?R key) ?depth bnd = Inr (depth', bnd') \<and> dict_get (=) key depth' = Some h \<and>
       0 \<le> h \<and> (\<forall>j. j \<noteq> key \<longrightarrow> dict_get (=) j depth' = dict_get (=) j ?depth) \<and> length depth' = length ?depth \<and>
       (dict_ok (=) ?depth \<longrightarrow> dict_ok (=) depth') \<and> (?R key \<noteq> [] \<longrightarrow> 0 < h) \<and>
       (\<forall>r \<in> set (?R key). \<forall>rel \<in> set (premise_rels digits r). the (dict_get (=) rel ?depth) < h)"
    by (rule key_cost_ok [OF costs]) simp_all
  then obtain depth' bnd' hgt where
    c: "key_cost oper t key (?R key) ?depth bnd = Inr (depth', bnd')" "dict_get (=) key depth' = Some hgt"
      "\<And>j. j \<noteq> key \<Longrightarrow> dict_get (=) j depth' = dict_get (=) j depth" "dict_ok (=) ?depth \<longrightarrow> dict_ok (=) depth'"
      "\<forall>r \<in> set (?R key). \<forall>rel \<in> set (premise_rels digits r). the (dict_get (=) rel ?depth) < hgt"
      "?R key \<noteq> [] \<longrightarrow> 0 < hgt"
    by (elim exE conjE) simp
  have keys: "keys_of depth' = insert key (keys_of depth)"
    using c(2,3) by (auto simp: keys_of_get set_eq_iff) (metis option.distinct(1))+
  obtain w' ready' where rel: "release (dependents ?D key) waiting ready = (w', ready')" by force
  have dok: "deps_ok ?D" using ok by (simp add: tables_ok_def)
  note rs = release_spec [OF dependents_distinct [OF dok] rel]
  have wait': "waiting_for w' k = int (card (set (rows_of ?D k) - keys_of depth'))" for k
  proof (cases "key \<in> set (rows_of ?D k)")
    case True
    then have "set (rows_of ?D k) - keys_of depth = insert key (set (rows_of ?D k) - keys_of depth')"
      using keys key(1) by auto
    moreover have "key \<notin> set (rows_of ?D k) - keys_of depth'" using keys by simp
    ultimately have "card (set (rows_of ?D k) - keys_of depth) = Suc (card (set (rows_of ?D k) - keys_of depth'))"
      by simp
    with rs wt [of k] True show ?thesis by (simp add: dependents_set [OF dok])
  next
    case False
    then have "set (rows_of ?D k) - keys_of depth = set (rows_of ?D k) - keys_of depth'" using keys by auto
    with rs wt [of k] False show ?thesis by (simp add: dependents_set [OF dok])
  qed
  have added: "set ready' = set ready \<union> {k. key \<in> set (rows_of ?D k) \<and> set (rows_of ?D k) \<subseteq> keys_of depth'}"
  proof -
    have "waiting_for waiting k = 1 \<longleftrightarrow> set (rows_of ?D k) \<subseteq> keys_of depth'" if "key \<in> set (rows_of ?D k)" for k
    proof -
      have "waiting_for w' k = waiting_for waiting k - 1" using rs that by (simp add: dependents_set [OF dok])
      then have "waiting_for waiting k = 1 \<longleftrightarrow> card (set (rows_of ?D k) - keys_of depth') = 0"
        using wait' [of k] by linarith
      then show ?thesis by (simp only: card_eq_0_iff finite_Diff finite_set simp_thms Diff_eq_empty_iff)
    qed
    then show ?thesis using rs by (auto simp: dependents_set [OF dok])
  qed
  have fresh: "set ready \<inter> keys_of depth' = {}" using ready(2) keys key(2) by auto
  have "walking digits t ready' w' depth' max_rounds" if below: "\<not> max_rounds \<le> hgt"
    unfolding walking_def
  proof (intro conjI ballI allI)
    show "ranked digits t depth' max_rounds"
      unfolding ranked_def
    proof (intro ballI conjI)
      fix k assume k: "k \<in> keys_of depth'"
      show "set (rows_of ?D k) \<subseteq> keys_of depth'"
        using r key(4) k keys unfolding ranked_def by (cases "k = key") auto
      show "the (dict_get (=) k depth') < max_rounds"
        using r k keys below c(2,3) unfolding ranked_def by (cases "k = key") auto
      show "?R k \<noteq> [] \<longrightarrow> 0 < the (dict_get (=) k depth')"
        using r k keys c(2,3,6) unfolding ranked_def by (cases "k = key") auto
      fix q rel assume q: "q \<in> set (?R k)" and rel: "rel \<in> set (premise_rels digits q)"
      show "the (dict_get (=) rel depth') < the (dict_get (=) k depth')"
      proof (cases "k = key")
        case True
        with costs [of q] q rel have "rel \<noteq> key" by blast
        with c(2,3,5) q rel True show ?thesis by fastforce
      next
        case False
        with k keys have k': "k \<in> keys_of depth" by simp
        have "rel \<in> set (rows_of ?D k)" using ok q rel unfolding tables_ok_def by blast
        with r k' have "rel \<in> keys_of depth" "the (dict_get (=) rel depth) < the (dict_get (=) k depth)"
          using q rel unfolding ranked_def by blast+
        with key(1) False c(3) show ?thesis by metis
      qed
    qed
    have "distinct (dependents ?D key)" by (rule dependents_distinct [OF dok])
    moreover have "key \<notin> set (rows_of ?D k)" if "k \<in> set ready" for k using ready(4) [OF that] key(1) by blast
    then have "set ready \<inter> set (dependents ?D key) = {}" by (auto simp: dependents_set [OF dok])
    ultimately show "distinct ready'" using rs ready(1) by auto
    show "set ready' \<inter> keys_of depth' = {}"
    proof -
      have "k \<notin> keys_of depth'" if "key \<in> set (rows_of ?D k)" for k
        using r key(1,4) keys that unfolding ranked_def by (cases "k = key") auto
      then show ?thesis using fresh unfolding added by blast
    qed
    show "dict_ok (=) depth'" using c(4) dk(1) by (simp add: plain_key.dict_ok_set)
    show "keys_of depth' \<union> set ready' \<subseteq> keys_of ?D"
    proof -
      have "k \<in> keys_of ?D" if "key \<in> set (rows_of ?D k)" for k
        using that by (cases "dict_get (=) k ?D") (auto simp: rows_of_def keys_of_get)
      then show ?thesis using dk(2) key(3) keys ready(3) unfolding added by auto
    qed
    show "set (rows_of ?D k) \<subseteq> keys_of depth'" if "k \<in> set ready'" for k
      using that ready(4) keys unfolding added by auto
    show "waiting_for w' k = int (card (set (rows_of ?D k) - keys_of depth'))" for k by (rule wait')
  qed
  with c(1,2) keys rel show ?thesis by (intro exI [of _ depth'] exI [of _ bnd']) auto
qed

lemma certify_loop_ok:
  "tables_ok digits t \<Longrightarrow> walking digits t ready waiting depth max_rounds \<Longrightarrow>
     \<exists>res. certify_loop digits oper max_rounds t ready waiting depth bnd = Inr res \<and>
       (\<forall>final. res = Some final \<longrightarrow> ranked digits t final max_rounds \<and> dict_ok (=) final \<and>
          keys_of final \<subseteq> keys_of (dependencies t))"
proof (induction digits oper max_rounds t ready waiting depth bnd rule: certify_loop.induct)
  case (1 digits oper max_rounds t waiting depth bnd)
  then show ?case by (simp add: walking_def)
next
  case (2 digits oper max_rounds t key ready waiting depth bnd)
  from walking_step [OF "2.prems"(1,2), of oper bnd] obtain depth' bnd' where
    c: "key_cost oper t key (rows_of (rule_rows t) key) (dict_set (=) key 0 depth) bnd = Inr (depth', bnd')"
      "\<not> max_rounds \<le> the (dict_get (=) key depth') \<longrightarrow>
         walking digits t (snd (release (dependents (dependencies t) key) waiting ready))
           (fst (release (dependents (dependencies t) key) waiting ready)) depth' max_rounds"
      "dict_get (=) key depth' \<noteq> None" by blast
  obtain w' r' where rel: "release (dependents (dependencies t) key) waiting ready = (w', r')" by force
  let ?stop = "max_rounds \<le> the (dict_get (=) key depth') \<or> \<not> printable_bits digits (bound_of bnd' key)"
  from c(3) obtain d where d: "dict_get (=) key depth' = Some d" by blast
  show ?case
  proof (cases ?stop)
    case True
    then show ?thesis using c(1) d by auto
  next
    case False
    with c(2) rel have "walking digits t r' w' depth' max_rounds" by simp
    moreover have "\<not> (max_rounds \<le> (case dict_get (=) key depth' of None \<Rightarrow> 0 | Some d \<Rightarrow> d) \<or>
        \<not> printable_bits digits (bound_of bnd' key))" using False d by simp
    ultimately show ?thesis using "2.IH" [OF _ refl rel [symmetric] "2.prems"(1)] False c(1) d rel by auto
  qed
qed

lemma waiting_for_needs: "waiting_for (map (\<lambda>(k, needs). (k, int (length needs))) d) k = int (length (rows_of d k))"
proof (induction d)
  case (Cons e d)
  then show ?case by (cases e) (simp add: rows_of_def)
qed (simp add: rows_of_def)

lemma card_keys: "dict_ok (=) d \<Longrightarrow> card (keys_of d) = length d"
  unfolding keys_of_def using distinct_card [OF dict_ok_distinct, of d] by simp

definition facts_flat :: "nat \<Rightarrow> tagged list \<Rightarrow> bool" where
  "facts_flat digits facts = (\<forall>a \<in> set facts. shape digits (answer_value a) \<noteq> None \<and>
     argument_names (params_of digits (answer_value a)) = [])"

text \<open>What the evaluator may rely on once a program is certified.\<close>

definition certified ::
  "nat \<Rightarrow> tagged list \<Rightarrow> rule list \<Rightarrow> (relkey, tagged list) dict \<Rightarrow> (relkey, rule list) dict \<Rightarrow> (relkey \<Rightarrow> nat) \<Rightarrow> nat \<Rightarrow> bool" where
  "certified digits facts rules fr rr level max_rounds =
     (facts_flat digits facts \<and> (\<forall>r \<in> set rules. rule_flat digits r) \<and>
      (\<forall>k. rows_of fr k = filter (\<lambda>a. key_of digits (answer_value a) = Some k) facts) \<and>
      (\<forall>k. rows_of rr k = filter (\<lambda>r. key_of digits (r_head r) = Some k) rules) \<and>
      (\<forall>r \<in> set rules. 0 < level (rel_of digits (r_head r)) \<and> level (rel_of digits (r_head r)) < max_rounds \<and>
         (\<forall>p \<in> set (r_premises r). level (rel_of digits p) < level (rel_of digits (r_head r)))))"

text \<open>After both scans the walk may start: the relations that need nothing are ready.\<close>

definition no_tables :: tables where
  [simp]: "no_tables = \<lparr>fact_rows = [], rule_rows = [], dependencies = [], bounds = [], rule_bits = [], rule_relations = []\<rparr>"

definition waiting_of :: "tables \<Rightarrow> (relkey, int) dict" where
  "waiting_of t = map (\<lambda>(k, needs). (k, int (length needs))) (dependencies t)"

definition ready_of :: "tables \<Rightarrow> relkey list" where
  "ready_of t = map fst (filter (\<lambda>(k, c). c = 0) (waiting_of t))"

lemma certify_start:
  assumes facts: "scan_facts digits facts no_tables = Some t1" and rules: "scan_rules digits rules t1 = Some t"
    and orders: "distinct (map r_order rules)"
  shows "tables_ok digits t \<and> walking digits t (ready_of t) (waiting_of t) [] max_rounds"
proof -
  have ok0: "deps_ok (dependencies no_tables)" by (simp add: deps_ok_def rows_of_def)
  note sf = scan_facts_spec [OF facts ok0]
  have "deps_ok (dependencies t1)" using sf by blast
  note sr = scan_rules_spec [OF rules this orders]
  let ?D = "dependencies t"
  have rr: "rows_of (rule_rows t) k = filter (\<lambda>r. key_of digits (r_head r) = Some k) rules" for k
    using sr sf by (simp add: rows_of_def)
  have tok: "tables_ok digits t"
    unfolding tables_ok_def
  proof (intro conjI allI ballI)
    fix k r assume "r \<in> set (rows_of (rule_rows t) k)"
    then have r: "r \<in> set rules" "rel_of digits (r_head r) = k" using rr by (auto simp: key_of_def rel_of_def)
    from sr r(1) show "costed t r (premise_rels digits r)" by (simp add: costed_def)
    from sr r show "set (premise_rels digits r) \<subseteq> set (rows_of ?D k)" by blast
  qed (use sr in blast)
  have wt: "waiting_for (waiting_of t) k = int (length (rows_of ?D k))" for k
    unfolding waiting_of_def by (rule waiting_for_needs)
  have dok: "deps_ok ?D" using sr by blast
  have rd: "k \<in> set (ready_of t) \<Longrightarrow> k \<in> keys_of ?D \<and> rows_of ?D k = []" for k
  proof -
    assume "k \<in> set (ready_of t)"
    then have k: "(k, []) \<in> set ?D" by (auto simp: ready_of_def waiting_of_def)
    with plain_key.dict_get_in [of ?D k "[]"] dok have "dict_get (=) k ?D = Some []" by (simp add: deps_ok_def)
    then show ?thesis by (simp add: keys_of_get rows_of_def)
  qed
  have "distinct (map fst (waiting_of t))"
    using dict_ok_distinct [of ?D] dok by (simp add: waiting_of_def deps_ok_def comp_def split_beta)
  then have "distinct (ready_of t)" unfolding ready_of_def by (rule distinct_map_filter)
  moreover have "card (set (rows_of ?D k)) = length (rows_of ?D k)" for k
    using dok by (simp add: deps_ok_def distinct_card)
  ultimately have "walking digits t (ready_of t) (waiting_of t) [] max_rounds"
    using rd wt by (auto simp: walking_def ranked_def keys_of_def)
  with tok show ?thesis ..
qed

lemma all_settled:
  assumes "dict_ok (=) depth" "keys_of depth \<subseteq> keys_of (dependencies t)" "deps_ok (dependencies t)"
    and "length depth = length (dependencies t)"
  shows "keys_of depth = keys_of (dependencies t)"
  by (rule card_subset_eq)
    (use assms card_keys [of depth] card_keys [of "dependencies t"] in \<open>auto simp: keys_of_def deps_ok_def\<close>)

lemma certify_ok:
  assumes orders: "distinct (map r_order rules)"
  shows "\<exists>res. certify digits alg facts rules goal max_rounds = Inr res \<and>
    (\<forall>fr rr. res = Some (fr, rr) \<longrightarrow> shape digits goal \<noteq> None \<and> \<not> linear alg \<and>
       (\<exists>level. certified digits facts rules fr rr level max_rounds))"
proof (cases "\<not> (extend_op alg \<in> set direct_names \<and> combine_op alg \<in> set direct_names \<and> \<not> linear alg) \<or>
    rules = [] \<or> shape digits goal = None")
  case True
  then show ?thesis by (auto simp: certify_def)
next
  case declared: False
  let ?t0 = no_tables
  have ok0: "deps_ok (dependencies ?t0)" by (simp add: deps_ok_def rows_of_def)
  show ?thesis
  proof (cases "scan_facts digits facts ?t0")
    case None
    then show ?thesis using declared by (auto simp: certify_def)
  next
    case facts: (Some t1)
    note sf = scan_facts_spec [OF facts ok0]
    show ?thesis
    proof (cases "scan_rules digits rules t1")
      case None
      then show ?thesis using declared facts by (auto simp: certify_def)
    next
      case rules: (Some t)
      have "deps_ok (dependencies t1)" using sf by blast
      note sr = scan_rules_spec [OF rules this orders]
      let ?D = "dependencies t"
      have rr: "rows_of (rule_rows t) k = filter (\<lambda>r. key_of digits (r_head r) = Some k) rules" for k
        using sr sf by (simp add: rows_of_def)
      have fr: "rows_of (fact_rows t) k = filter (\<lambda>a. key_of digits (answer_value a) = Some k) facts" for k
        using sr sf by (simp add: rows_of_def)
      define waiting where "waiting = waiting_of t"
      define ready where "ready = ready_of t"
      have tok: "tables_ok digits t" and "walking digits t ready waiting [] max_rounds"
        using certify_start [OF facts rules orders] by (simp_all add: waiting_def ready_def)
      from certify_loop_ok [OF this, of "extend_op alg" "bounds t"] obtain res where
        res: "certify_loop digits (extend_op alg) max_rounds t ready waiting [] (bounds t) = Inr res"
          "\<And>final. res = Some final \<Longrightarrow> ranked digits t final max_rounds \<and> dict_ok (=) final \<and>
            keys_of final \<subseteq> keys_of ?D" by blast
      have c: "certify digits alg facts rules goal max_rounds = (case res of None \<Rightarrow> Inr None
          | Some depth \<Rightarrow> if length depth \<noteq> length ?D then Inr None else Inr (Some (fact_rows t, rule_rows t)))"
      proof -
        obtain gs where "shape digits goal = Some gs" using declared by auto
        with declared facts rules res(1) show ?thesis by (simp add: certify_def waiting_def ready_def waiting_of_def ready_of_def Let_def)
      qed
      show ?thesis
      proof (cases "\<exists>depth. res = Some depth \<and> length depth = length ?D")
        case False
        then show ?thesis using c by (cases res) auto
      next
        case True
        then obtain depth where d: "res = Some depth" "length depth = length ?D" by blast
        note r = res(2) [OF d(1)]
        have "deps_ok ?D" using sr by blast
        then have "keys_of depth = keys_of ?D" using all_settled [of depth t] r d(2) by blast
        then have low: "0 < the (dict_get (=) (rel_of digits (r_head q)) depth) \<and> the (dict_get (=) (rel_of digits (r_head q)) depth) < max_rounds \<and>
            (\<forall>p \<in> set (r_premises q). the (dict_get (=) (rel_of digits p) depth) < the (dict_get (=) (rel_of digits (r_head q)) depth))"
          if "q \<in> set rules" for q
        proof -
          have "key_of digits (r_head q) = Some (rel_of digits (r_head q))" "rel_of digits (r_head q) \<in> keys_of depth"
            using sr that \<open>keys_of depth = keys_of ?D\<close> by (auto simp: rule_flat_def key_of_def rel_of_def)
          moreover from this that have "q \<in> set (rows_of (rule_rows t) (rel_of digits (r_head q)))" by (simp add: rr)
          ultimately show ?thesis using r unfolding ranked_def premise_rels_def by force
        qed
        have "certified digits facts rules (fact_rows t) (rule_rows t) (\<lambda>k. the (dict_get (=) k depth)) max_rounds"
          unfolding certified_def facts_flat_def
        proof (intro conjI allI ballI)
          fix q p assume "q \<in> set rules" "p \<in> set (r_premises q)"
          with low show "the (dict_get (=) (rel_of digits p) depth) < the (dict_get (=) (rel_of digits (r_head q)) depth)" by blast
        qed (use sr sf rr fr low in blast)+
        with c d declared show ?thesis by auto
      qed
    qed
  qed
qed

end
