(* ===== verification/Demands.thy ===== *)
theory Demands
  imports Certificates
begin

text \<open>
  The demand evaluator against the least model: its answers are consequences, and none that the goal can
  match is missing.
\<close>

section \<open>Unique answers, in order\<close>

lemma set_sort_answers [simp]: "set (sort_answers as) = set as"
proof -
  have "set (foldr (insert_answer precedes) as []) = set as" for precedes by (induction as) auto
  then show ?thesis by (simp add: sort_answers_def)
qed

lemma unique_fold:
  fixes f :: "'a \<Rightarrow> 'k"
  shows "(\<forall>(k, c) \<in> set d. f c = k) \<Longrightarrow>
   (\<forall>(k, c) \<in> set (fold (\<lambda>a d. dict_set (=) (f a) a d) as d). f c = k \<and> c \<in> set as \<union> snd ` set d) \<and>
   set (map fst (fold (\<lambda>a d. dict_set (=) (f a) a d) as d)) = set (map fst d) \<union> f ` set as"
proof (induction as arbitrary: d)
  case (Cons a as)
  let ?d = "dict_set (=) (f a) a d"
  have 1: "\<forall>(k, c) \<in> set ?d. f c = k \<and> c \<in> insert a (snd ` set d)"
    using Cons.prems set_dict_set [of _ "f a" a d] by force
  have 2: "set (map fst ?d) = insert (f a) (set (map fst d))"
    by (simp only: keys_dict_set set_append set_simps split: if_split) auto
  from 1 have "\<forall>(k, c) \<in> set ?d. f c = k" by auto
  note IH = Cons.IH [OF this]
  have "snd ` set ?d \<subseteq> insert a (snd ` set d)" using 1 by force
  define F where "F = fold (\<lambda>a d. dict_set (=) (f a) a d) as ?d"
  have "f c = k \<and> c \<in> set (a # as) \<union> snd ` set d" if "(k, c) \<in> set F" for k c
  proof -
    from IH that have "f c = k \<and> c \<in> set as \<union> snd ` set ?d" unfolding F_def by blast
    with \<open>snd ` set ?d \<subseteq> insert a (snd ` set d)\<close> show ?thesis by auto
  qed
  then have "\<forall>(k, c) \<in> set F. f c = k \<and> c \<in> set (a # as) \<union> snd ` set d" by blast
  moreover have "set (map fst F) = set (map fst d) \<union> f ` set (a # as)"
    using IH 2 by (simp only: F_def set_simps image_insert) blast
  ultimately show ?case by (simp add: F_def)
qed force

lemma unique_answers_set: "set (unique_answers h as) \<subseteq> set as"
  using unique_fold [of "[]" "signature h" as] by (force simp: unique_answers_def)

lemma unique_answers_signature: "a \<in> set as \<Longrightarrow> \<exists>c \<in> set (unique_answers h as). signature h c = signature h a"
proof -
  let ?d = "fold (\<lambda>a d. dict_set (=) (signature h a) a d) as []"
  assume "a \<in> set as"
  then have "signature h a \<in> set (map fst ?d)" using unique_fold [of "[]" "signature h" as] by simp
  then obtain e where e: "e \<in> set ?d" "fst e = signature h a" by force
  with unique_fold [of "[]" "signature h" as] have "signature h (snd e) = fst e" by (cases e) auto
  with e show ?thesis by (auto simp: unique_answers_def)
qed

section \<open>Demands\<close>

definition demand_ok :: "demand \<Rightarrow> bool" where
  "demand_ok d = (\<forall>(i, v) \<in> set (dm_bindings d). is_ground v \<and>
     (case dm_relation d of RelKey e s n \<Rightarrow> i < n))"

lemma plain_leaf: "plain_argument digits a \<Longrightarrow> \<not> is_variable a \<Longrightarrow> is_ground a"
  by (cases a) (auto simp: is_variable_def)

lemma shape_cases:
  assumes "shape digits a = Some (k, ps)"
  obtains s where "a = Symbol s" "k = RelKey False s 0" "ps = []"
  | f where "a = Expression (Symbol f # ps)" "k = RelKey True f (length ps)" "list_all (plain_argument digits) ps"
  using assms by (cases "(digits, a)" rule: shape.cases) (auto split: if_splits)

lemma from_pattern_shape:
  assumes "from_pattern digits q = Inr d"
  obtains ps where "shape digits q = Some (dm_relation d, ps)"
    "dm_bindings d = filter (\<lambda>(i, a). \<not> is_variable a) (enumerate 0 ps)"
  using assms by (auto simp: from_pattern_def certified_shape_def split: option.splits)

lemma from_pattern_ok: "from_pattern digits q = Inr d \<Longrightarrow> demand_ok d"
proof -
  assume d: "from_pattern digits q = Inr d"
  from from_pattern_shape [OF d] obtain ps where s: "shape digits q = Some (dm_relation d, ps)"
    "dm_bindings d = filter (\<lambda>(i, a). \<not> is_variable a) (enumerate 0 ps)" .
  from shape_cases [OF s(1)] show ?thesis
  proof cases
    case 1
    with s(2) show ?thesis by (simp add: demand_ok_def)
  next
    case (2 f)
    then show ?thesis
      unfolding demand_ok_def s(2) using plain_leaf [of digits]
      by (auto simp: in_set_enumerate_eq list_all_length)
  qed
qed

lemma argument_names_nth: "i < length ps \<Longrightarrow> ps ! i = Variable x \<Longrightarrow> x \<in> set (argument_names ps)"
  using nth_mem [of i ps] by (force simp: argument_names_def)

lemma bind_head_ground:
  "bind_head ps bs b = Some b' \<Longrightarrow> (\<And>i v. (i, v) \<in> set bs \<Longrightarrow> i < length ps \<and> is_ground v) \<Longrightarrow>
     ''_'' \<notin> set (argument_names ps) \<Longrightarrow> ground_bindings b \<Longrightarrow>
     ground_bindings b' \<and> dom (assigned b') \<subseteq> dom (assigned b) \<union> set (argument_names ps)"
proof (induction bs arbitrary: b)
  case (Cons e bs)
  obtain i v where e: "e = (i, v)" by force
  have i: "i < length ps" "is_ground v" using Cons.prems(2) e by auto
  have rest: "\<And>i v. (i, v) \<in> set bs \<Longrightarrow> i < length ps \<and> is_ground v" by (rule Cons.prems(2)) simp
  show ?case
  proof (cases "\<exists>x. ps ! i = Variable x")
    case True
    then obtain x where x: "ps ! i = Variable x" by blast
    let ?b = "dict_setdefault (=) x v b"
    have name: "x \<in> set (argument_names ps)" by (rule argument_names_nth [OF i(1) x])
    from Cons.prems(1) e x have step: "bind_head ps bs ?b = Some b'"
      by (auto simp: Let_def split: option.splits if_splits)
    have "ground_bindings ?b \<and> dom (assigned ?b) \<subseteq> dom (assigned b) \<union> set (argument_names ps)"
      using Cons.prems(3,4) i(2) name
      by (auto simp: ground_bindings_def dict_setdefault_def plain_key.dict_ok_set split: option.splits if_splits)
    with Cons.IH [OF step rest Cons.prems(3)] show ?thesis by auto
  next
    case False
    with Cons.prems(1) e have "bind_head ps bs b = Some b'" by (cases "ps ! i") (auto split: if_splits)
    with Cons.IH [OF this rest Cons.prems(3,4)] show ?thesis by blast
  qed
qed auto

section \<open>Soundness\<close>

lemma var_occs_params: "shape digits p = Some (k, ps) \<Longrightarrow> set (argument_names ps) = set (var_occs p)"
proof -
  assume "shape digits p = Some (k, ps)"
  then show ?thesis
  proof (cases rule: shape_cases)
    case (2 f)
    have "list_all (plain_argument digits) ps \<Longrightarrow> set (argument_names ps) = (\<Union>a \<in> set ps. set (var_occs a))"
    proof (induction ps)
      case (Cons a ps)
      then show ?case by (cases a) (auto simp: argument_names_def)
    qed (simp add: argument_names_def)
    with 2 show ?thesis by simp
  qed (simp add: argument_names_def)
qed

lemma head_bindings_ok:
  assumes r: "rule_flat digits r" and k: "key_of digits (r_head r) = Some (dm_relation d)" and d: "demand_ok d"
    and got: "head_bindings digits r d = Inr (Some b)"
  shows "ground_bindings b \<and> dom (assigned b) \<subseteq> names_of (r_premises r)"
proof -
  from k obtain ps where ps: "shape digits (r_head r) = Some (dm_relation d, ps)" by (auto simp: key_of_def)
  have bh: "bind_head ps (dm_bindings d) [] = Some b"
    using got ps by (simp add: head_bindings_def certified_shape_def)
  have inb: "i < length ps \<and> is_ground v" if "(i, v) \<in> set (dm_bindings d)" for i v
    by (rule shape_cases [OF ps]) (use d that in \<open>auto simp: demand_ok_def\<close>)
  have "set (argument_names (params_of digits p)) = set (var_occs p)" if "p \<in> set (r_premises r)" for p
  proof -
    from r that obtain k qs where qs: "shape digits p = Some (k, qs)" by (auto simp: rule_flat_def)
    show ?thesis using var_occs_params [OF qs] shape_parts [OF qs] by simp
  qed
  then have "set (argument_names ps) \<subseteq> names_of (r_premises r)"
    using r shape_parts [OF ps] by (auto simp: rule_flat_def names_of_def)
  moreover have "''_'' \<notin> set (argument_names ps)" using r shape_parts [OF ps] by (simp add: rule_flat_def)
  ultimately show ?thesis
    using bind_head_ground [OF bh inb] by (fastforce simp: ground_bindings_def)
qed

lemma demanded_facts_set: "demanded_facts digits fr d = Inr out \<Longrightarrow> set out \<subseteq> set (rows_of fr (dm_relation d))"
proof (cases "dm_bindings d = []")
  case False
  assume "demanded_facts digits fr d = Inr out"
  with False have "concatE (\<lambda>a. bindE (certified_shape digits (answer_value a)) (\<lambda>(rel, ps).
        Inr (if list_all (\<lambda>(i, v). atom_eq (ps ! i) v) (dm_bindings d) then [a] else [])))
        (rows_of fr (dm_relation d)) = Inr out" by (simp add: demanded_facts_def)
  from concatE_Inr [OF this] show ?thesis by (force split: if_splits)
qed (simp add: demanded_facts_def)

text \<open>What one demand collects, before repetitions go: the facts it selects, then each rule's answers.\<close>

definition ask_for ::
  "host \<Rightarrow> engine \<Rightarrow> algebra \<Rightarrow> string \<Rightarrow> nat \<Rightarrow> (relkey, tagged list) dict \<Rightarrow> (relkey, rule list) dict \<Rightarrow> nat
     \<Rightarrow> atom \<Rightarrow> alg_error + tagged list" where
  "ask_for h eng alg space digits fr rr n pattern =
     bindE (from_pattern digits pattern) (solve h eng alg space digits fr rr n)"

definition rule_answers ::
  "host \<Rightarrow> engine \<Rightarrow> algebra \<Rightarrow> string \<Rightarrow> nat \<Rightarrow> (relkey, tagged list) dict \<Rightarrow> (relkey, rule list) dict \<Rightarrow> nat
     \<Rightarrow> demand \<Rightarrow> rule \<Rightarrow> alg_error + tagged list" where
  "rule_answers h eng alg space digits fr rr n d r =
     bindE (head_bindings digits r d) (\<lambda>initial.
       case initial of None \<Rightarrow> Inr []
       | Some b \<Rightarrow> derive_rule_steps eng alg space r (ask_for h eng alg space digits fr rr n) b)"

lemma solve_Suc:
  "solve h eng alg space digits fr rr (Suc n) d =
     bindE (demanded_facts digits fr d) (\<lambda>answers.
     bindE (concatE (rule_answers h eng alg space digits fr rr n d) (rows_of rr (dm_relation d))) (\<lambda>derived.
     Inr (sort_answers (unique_answers h (answers @ derived)))))"
  by (simp add: rule_answers_def [abs_def] ask_for_def [abs_def])

lemma solve_Inr:
  assumes "solve h eng alg space digits fr rr n d = Inr out"
  obtains k answers derived where "n = Suc k" "demanded_facts digits fr d = Inr answers"
    "concatE (rule_answers h eng alg space digits fr rr k d) (rows_of rr (dm_relation d)) = Inr derived"
    "out = sort_answers (unique_answers h (answers @ derived))"
  using assms by (cases n) (auto simp: solve_Suc simp del: solve.simps(2))

declare solve.simps(2) [simp del]

lemma solve_step:
  assumes cert: "certified digits facts rules fr rr level n0" and d: "demand_ok d"
    and start: "\<And>a. a \<in> set facts \<Longrightarrow> Q a" and ground: "\<And>a. Q a \<Longrightarrow> is_ground (answer_value a)"
    and step: "\<And>r cs a. r \<in> set rules \<Longrightarrow> (\<And>c. c \<in> set cs \<Longrightarrow> Q c) \<Longrightarrow> rule_instance eng alg r cs a \<Longrightarrow> Q a"
    and rows: "\<And>pat rows c. ask_for h eng alg space digits fr rr n pat = Inr rows \<Longrightarrow> c \<in> set rows \<Longrightarrow> Q c"
    and a: "demanded_facts digits fr d = Inr answers"
      "concatE (rule_answers h eng alg space digits fr rr n d) (rows_of rr (dm_relation d)) = Inr derived"
      "a \<in> set (answers @ derived)"
  shows "Q a"
proof -
  from a(3) consider "a \<in> set answers" | "a \<in> set derived" by auto
  then show ?thesis
  proof cases
    case 1
    with demanded_facts_set [OF a(1)] cert start show ?thesis by (auto simp: certified_def)
  next
    case 2
    from concatE_Inr [OF a(2) this] obtain r ys where
      r: "r \<in> set (rows_of rr (dm_relation d))" "rule_answers h eng alg space digits fr rr n d r = Inr ys" "a \<in> set ys" by blast
    have rule: "r \<in> set rules" "key_of digits (r_head r) = Some (dm_relation d)" "rule_flat digits r"
      using r(1) cert by (auto simp: certified_def)
    from r(2,3) obtain b where b: "head_bindings digits r d = Inr (Some b)"
        "derive_rule_steps eng alg space r (ask_for h eng alg space digits fr rr n) b = Inr ys"
      by (auto simp: rule_answers_def split: option.splits)
    note hb = head_bindings_ok [OF rule(3,2) d b(1)]
    have "\<exists>cs. set cs \<subseteq> Collect Q \<and> rule_instance eng alg r cs a"
      by (rule derive_rule_steps_instance [OF b(2) r(3)]) (use hb ground rows in auto)
    with step [OF rule(1)] show ?thesis by blast
  qed
qed

lemma solve_induct:
  assumes cert: "certified digits facts rules fr rr level n0"
    and start: "\<And>a. a \<in> set facts \<Longrightarrow> Q a" and ground: "\<And>a. Q a \<Longrightarrow> is_ground (answer_value a)"
    and step: "\<And>r cs a. r \<in> set rules \<Longrightarrow> (\<And>c. c \<in> set cs \<Longrightarrow> Q c) \<Longrightarrow> rule_instance eng alg r cs a \<Longrightarrow> Q a"
  shows "solve h eng alg space digits fr rr n d = Inr out \<Longrightarrow> demand_ok d \<Longrightarrow> a \<in> set out \<Longrightarrow> Q a"
proof (induction n arbitrary: d out a)
  case (Suc n)
  from solve_Inr [OF Suc.prems(1)] obtain answers derived where
    a: "demanded_facts digits fr d = Inr answers"
      "concatE (rule_answers h eng alg space digits fr rr n d) (rows_of rr (dm_relation d)) = Inr derived"
      "out = sort_answers (unique_answers h (answers @ derived))" by (metis nat.inject)
  have "a \<in> set (answers @ derived)" using Suc.prems(3) a(3) unique_answers_set by fastforce
  show ?case
  proof (rule solve_step [OF cert Suc.prems(2) start ground step _ a(1,2) \<open>a \<in> set (answers @ derived)\<close>])
    fix pat rows c assume "ask_for h eng alg space digits fr rr n pat = Inr rows" "c \<in> set rows"
    then obtain d' where d': "from_pattern digits pat = Inr d'" "solve h eng alg space digits fr rr n d' = Inr rows" "c \<in> set rows"
      by (auto simp: ask_for_def)
    from Suc.IH [OF d'(2) from_pattern_ok [OF d'(1)] d'(3)] show "Q c" .
  qed
qed simp

section \<open>Completeness\<close>

text \<open>The relation and arguments of an atom read up to equality, and the demand it meets.\<close>

definition loose :: "atom \<Rightarrow> (relkey \<times> atom list) option" where
  "loose a =
     (case core a of
        Symbol s \<Rightarrow> Some (RelKey False s 0, [])
      | Expression (Symbol f # _) \<Rightarrow> Some (RelKey True f (length (kids a) - 1), tl (kids a))
      | _ \<Rightarrow> None)"

definition meets :: "demand \<Rightarrow> atom \<Rightarrow> bool" where
  "meets d a = (\<exists>ps. loose a = Some (dm_relation d, ps) \<and>
     (\<forall>(i, v) \<in> set (dm_bindings d). i < length ps \<and> atom_eq (ps ! i) v))"

lemma loose_shape: "shape digits a = Some (k, ps) \<Longrightarrow> loose a = Some (k, ps)"
  by (erule shape_cases) (auto simp: loose_def)

lemma loose_subst:
  assumes "shape digits p = Some (k, ps)"
  shows "loose (subst_rec m p) = Some (k, map (subst_rec m) ps)"
  using assms by (rule shape_cases) (auto simp: loose_def)

lemma loose_fits:
  assumes "shape digits p = Some (k, ps)" "fits m p a"
  shows "\<exists>as. loose a = Some (k, as) \<and> list_all2 (fits m) ps as"
  using assms(1)
proof (cases rule: shape_cases)
  case (1 s)
  with assms(2) have "core a = Symbol s" by (auto simp: atom_eq_core)
  with 1 show ?thesis by (simp add: loose_def)
next
  case (2 f)
  with assms(2) have a: "is_expression a" "list_all2 (fits m) (Symbol f # ps) (kids a)" by auto
  then obtain c cs where c: "kids a = c # cs" "atom_eq (Symbol f) c" "list_all2 (fits m) ps cs"
    by (auto simp: list_all2_Cons1)
  have "a = Expression (c # cs)" using a(1) c(1) expression_kids by force
  moreover from this have "core a = Expression (Symbol f # map core cs)" using c(2) by (auto simp: atom_eq_core)
  ultimately show ?thesis using 2 c(3) by (auto simp: loose_def list_all2_lengthD)
qed

lemma plain_cases:
  assumes "plain_argument digits a"
  obtains x where "a = Variable x" | "is_ground a" "\<And>m. subst_rec m a = a"
  using assms by (cases a) auto

lemma bind_head_covers:
  "(\<And>i v. (i, v) \<in> set bs \<Longrightarrow> i < length ps \<and> is_ground v \<and> atom_eq (subst_rec m (ps ! i)) v) \<Longrightarrow>
     list_all (plain_argument digits) ps \<Longrightarrow> agrees m b \<Longrightarrow> \<exists>b'. bind_head ps bs b = Some b' \<and> agrees m b'"
proof (induction bs arbitrary: b)
  case (Cons e bs)
  obtain i v where e: "e = (i, v)" by force
  have i: "i < length ps" "is_ground v" "atom_eq (subst_rec m (ps ! i)) v" using Cons.prems(1) [of i v] e by auto
  have rest: "\<And>i v. (i, v) \<in> set bs \<Longrightarrow> i < length ps \<and> is_ground v \<and> atom_eq (subst_rec m (ps ! i)) v"
    by (rule Cons.prems(1)) simp
  have "plain_argument digits (ps ! i)" using Cons.prems(2) i(1) by (simp add: list_all_length)
  then show ?case
  proof (cases rule: plain_cases)
    case (1 x)
    obtain w where w: "m x = Some w" "atom_eq w v"
      using i(2,3) 1 is_ground_cong [of "Variable x" v] by (cases "m x") auto
    let ?b = "dict_setdefault (=) x v b"
    have ag: "agrees m ?b"
      using Cons.prems(3) w by (auto simp: agrees_def dict_setdefault_def split: option.splits if_splits)
    have "\<exists>u. dict_get (=) x ?b = Some u \<and> atom_eq u v"
    proof (cases "dict_get (=) x b")
      case (Some u)
      then have "atom_eq w u" using Cons.prems(3) w(1) unfolding agrees_def assigned_def by force
      with Some w(2) show ?thesis by (simp add: dict_setdefault_def atom_eq_core)
    qed (simp add: dict_setdefault_def atom_eq_core)
    with Cons.IH [OF rest Cons.prems(2) ag] 1 e show ?thesis by (auto simp: Let_def)
  next
    case 2
    then have "bind_head ps (e # bs) b = bind_head ps bs b" using i(3) e by (cases "ps ! i") auto
    with Cons.IH [OF rest Cons.prems(2,3)] show ?thesis by simp
  qed
qed auto

text \<open>The demand of a partly bound premise is met by every atom the premise fits.\<close>

lemma premise_met:
  assumes p: "shape digits p = Some (k, ps)" and b: "ground_bindings b" "agrees m b" and fit: "fits m p a"
    and d: "from_pattern digits (substitute p b) = Inr d"
  shows "dm_relation d = k \<and> meets d a"
proof -
  have sub: "substitute p b = subst_rec (assigned b) p" by (rule substitute_assigned [OF b(1)])
  from from_pattern_shape [OF d] obtain qs where qs: "shape digits (subst_rec (assigned b) p) = Some (dm_relation d, qs)"
    "dm_bindings d = filter (\<lambda>(i, a). \<not> is_variable a) (enumerate 0 qs)" unfolding sub .
  from loose_shape [OF qs(1)] loose_subst [OF p, of "assigned b"] have k: "k = dm_relation d" "qs = map (subst_rec (assigned b)) ps"
    by auto
  from loose_fits [OF p fit] obtain as where as: "loose a = Some (k, as)" "list_all2 (fits m) ps as" by blast
  have "i < length as \<and> atom_eq (as ! i) v" if "(i, v) \<in> set (dm_bindings d)" for i v
  proof -
    have i: "i < length ps" "v = subst_rec (assigned b) (ps ! i)" "\<not> is_variable v"
      using that by (auto simp: qs(2) k(2) in_set_enumerate_eq)
    have f: "fits m (ps ! i) (as ! i)" "length as = length ps" using as(2) i(1) by (auto simp: list_all2_conv_all_nth)
    have "list_all (plain_argument digits) ps" using p by (rule shape_cases) auto
    then have "plain_argument digits (ps ! i)" using i(1) by (simp add: list_all_length)
    then have "atom_eq (as ! i) v"
    proof (cases rule: plain_cases)
      case (1 x)
      with i(2,3) obtain u where u: "assigned b x = Some u" "v = u" by (cases "assigned b x") (auto simp: is_variable_def)
      with b obtain w where "m x = Some w" "atom_eq w u" "x \<noteq> ''_''" unfolding agrees_def ground_bindings_def by blast
      with f(1) 1 u show ?thesis by (auto simp: atom_eq_core)
    next
      case 2
      with f(1) i(2) show ?thesis by (auto simp: fits_ground atom_eq_core)
    qed
    with i f show ?thesis by simp
  qed
  with as k(1) show ?thesis by (auto simp: meets_def)
qed

lemma premises_loop_covers:
  assumes "premises_loop eng alg r ask ps states = Inr out" "st \<in> set states" "state_covers m qs st"
    and "list_all2 (fits m) ps as"
    and rows: "\<And>p a b rows. p \<in> set ps \<Longrightarrow> a \<in> set as \<Longrightarrow> fits m p a \<Longrightarrow> ground_bindings b \<Longrightarrow> agrees m b \<Longrightarrow>
      ask (substitute p b) = Inr rows \<Longrightarrow> \<exists>c \<in> set rows. atom_eq (answer_value c) a \<and> is_ground (answer_value c)"
  shows "\<exists>st' \<in> set out. state_covers m (qs @ ps) st'"
  using assms
proof (induction ps arbitrary: states st qs as)
  case (Cons p ps)
  then obtain a as' where as: "as = a # as'" by (cases as) auto
  let ?go = "\<lambda>st. let pattern = substitute p (d_bindings st) in bindE (ask pattern) (concatE (try_candidate eng alg r pattern st))"
  from Cons.prems(1) obtain nexts where n: "concatE ?go states = Inr nexts"
      "(if nexts = [] then Inr [] else premises_loop eng alg r ask ps nexts) = Inr out" by auto
  from concatE_Inr_all [OF n(1) Cons.prems(2)] obtain ys where ys: "?go st = Inr ys" "set ys \<subseteq> set nexts" by blast
  then obtain rows where r: "ask (substitute p (d_bindings st)) = Inr rows"
      "concatE (try_candidate eng alg r (substitute p (d_bindings st)) st) rows = Inr ys" by (auto simp: Let_def)
  have fit: "fits m p a" using Cons.prems(4) as by simp
  have b: "ground_bindings (d_bindings st)" "agrees m (d_bindings st)" using Cons.prems(3) by (auto simp: state_covers_def)
  have "\<exists>c \<in> set rows. atom_eq (answer_value c) a \<and> is_ground (answer_value c)"
    by (rule Cons.prems(5) [OF _ _ fit b r(1)]) (simp_all add: as)
  then obtain c where c: "c \<in> set rows" "atom_eq (answer_value c) a" "is_ground (answer_value c)" by blast
  have fc: "fits m p (answer_value c)" by (rule fits_cong [OF fit]) (use c(2) in \<open>simp add: atom_eq_core\<close>)
  from concatE_Inr_all [OF r(2) c(1)] obtain zs where
    zs: "try_candidate eng alg r (substitute p (d_bindings st)) st c = Inr zs" "set zs \<subseteq> set ys" by blast
  from try_candidate_complete [OF Cons.prems(3) fc c(3) zs(1)] obtain st1 where
    st1: "st1 \<in> set zs" "state_covers m (qs @ [p]) st1" by blast
  with zs(2) ys(2) have in1: "st1 \<in> set nexts" by blast
  with n(2) have rest: "premises_loop eng alg r ask ps nexts = Inr out" by (auto split: if_splits)
  have "\<exists>st' \<in> set out. state_covers m ((qs @ [p]) @ ps) st'"
  proof (rule Cons.IH [OF rest in1 st1(2)])
    show "list_all2 (fits m) ps as'" using Cons.prems(4) as by simp
    fix q x b rows
    assume "q \<in> set ps" "x \<in> set as'" "fits m q x" "ground_bindings b" "agrees m b" "ask (substitute q b) = Inr rows"
    then show "\<exists>c \<in> set rows. atom_eq (answer_value c) x \<and> is_ground (answer_value c)"
      by (intro Cons.prems(5) [of q x b]) (simp_all add: as)
  qed
  then show ?case by simp
qed auto

definition in_depth :: "nat \<Rightarrow> rule list \<Rightarrow> (relkey \<Rightarrow> nat) \<Rightarrow> nat \<Rightarrow> demand \<Rightarrow> bool" where
  "in_depth digits rules level n d =
     (\<forall>r \<in> set rules. key_of digits (r_head r) = Some (dm_relation d) \<longrightarrow> level (dm_relation d) < n)"

lemma in_depth_premise:
  assumes "certified digits facts rules fr rr level n0" "in_depth digits rules level (Suc n) d"
    and "r \<in> set rules" "key_of digits (r_head r) = Some (dm_relation d)" "p \<in> set (r_premises r)"
    and "dm_relation d' = rel_of digits p"
  shows "in_depth digits rules level n d'"
proof -
  have "level (rel_of digits (r_head r)) < Suc n"
    using assms(2-4) by (auto simp: in_depth_def key_of_def rel_of_def)
  moreover have "level (rel_of digits p) < level (rel_of digits (r_head r))"
    using assms(1,3,5) unfolding certified_def by blast
  ultimately show ?thesis using assms(6) by (simp add: in_depth_def)
qed

lemma demanded_facts_complete:
  assumes "demanded_facts digits fr d = Inr answers" "f \<in> set (rows_of fr (dm_relation d))"
    "shape digits (answer_value f) = Some (dm_relation d, ps)" "meets d (answer_value f)"
  shows "f \<in> set answers"
proof (cases "dm_bindings d = []")
  case True
  with assms(1,2) show ?thesis by (simp add: demanded_facts_def)
next
  case False
  have "list_all (\<lambda>(i, v). atom_eq (ps ! i) v) (dm_bindings d)"
    using assms(4) loose_shape [OF assms(3)] by (auto simp: meets_def list_all_iff)
  moreover from False assms(1) have "concatE (\<lambda>a. bindE (certified_shape digits (answer_value a)) (\<lambda>(rel, ps).
        Inr (if list_all (\<lambda>(i, v). atom_eq (ps ! i) v) (dm_bindings d) then [a] else [])))
        (rows_of fr (dm_relation d)) = Inr answers" by (simp add: demanded_facts_def)
  from concatE_Inr_all [OF this assms(2)] obtain ys where
    "bindE (certified_shape digits (answer_value f)) (\<lambda>(rel, ps).
        Inr (if list_all (\<lambda>(i, v). atom_eq (ps ! i) v) (dm_bindings d) then [f] else [])) = Inr ys" "set ys \<subseteq> set answers"
    by blast
  ultimately show ?thesis using assms(3) by (auto simp: certified_shape_def)
qed

lemma solve_complete:
  fixes facts :: "tagged list" and rules :: "rule list"
  defines "P \<equiv> provable (answer_value ` set facts) (set rules)"
  assumes cert: "certified digits facts rules fr rr level n0"
    and ground: "\<And>f. f \<in> set facts \<Longrightarrow> is_ground (answer_value f)"
    and guards: "\<And>r. r \<in> set rules \<Longrightarrow> r_guard r = None" and apart: "prints_apart h P"
  shows "solve h eng alg space digits fr rr n d = Inr out \<Longrightarrow> demand_ok d \<Longrightarrow> in_depth digits rules level n d \<Longrightarrow>
    P a \<Longrightarrow> meets d a \<Longrightarrow> \<exists>c \<in> set out. atom_eq (answer_value c) a"
proof (induction n arbitrary: d out a)
  case (Suc n)
  have groundP: "P x \<Longrightarrow> is_ground x" for x
    unfolding P_def using provable_ground [of "answer_value ` set facts" "set rules" x] ground by blast
  have startP: "P (answer_value f)" if "f \<in> set facts" for f unfolding P_def using that by (intro provable.stored) simp
  have stepP: "P (answer_value x)" if "r \<in> set rules" "\<And>c. c \<in> set cs \<Longrightarrow> P (answer_value c)" "rule_instance eng alg r cs x" for r cs x
    unfolding P_def by (rule instance_provable [OF that(1,3)]) (use that(2) in \<open>simp add: P_def\<close>)
  from solve_Inr [OF Suc.prems(1)] obtain answers derived where
    a: "demanded_facts digits fr d = Inr answers"
      "concatE (rule_answers h eng alg space digits fr rr n d) (rows_of rr (dm_relation d)) = Inr derived"
      "out = sort_answers (unique_answers h (answers @ derived))" by (metis nat.inject)
  have askP: "P (answer_value c)" if "ask_for h eng alg space digits fr rr n pat = Inr rows" "c \<in> set rows" for pat rows c
  proof -
    from that obtain d' where d': "from_pattern digits pat = Inr d'" "solve h eng alg space digits fr rr n d' = Inr rows"
      by (auto simp: ask_for_def)
    show ?thesis
      by (rule solve_induct [where Q = "\<lambda>c. P (answer_value c)", OF cert startP groundP stepP d'(2) from_pattern_ok [OF d'(1)] that(2)])
  qed
  have all: "P (answer_value c)" if "c \<in> set (answers @ derived)" for c
    by (rule solve_step [where Q = "\<lambda>c. P (answer_value c)", OF cert Suc.prems(2) startP groundP stepP askP a(1,2) that])
  have "\<exists>y \<in> set (answers @ derived). atom_eq (answer_value y) a"
    using Suc.prems(4) unfolding P_def
  proof cases
    case stored
    then obtain f where f: "f \<in> set facts" "a = answer_value f" by auto
    with cert obtain k ps where s: "shape digits (answer_value f) = Some (k, ps)"
      by (auto simp: certified_def facts_flat_def)
    with Suc.prems(5) f loose_shape [OF s] have k: "k = dm_relation d" by (auto simp: meets_def)
    have "f \<in> set (rows_of fr (dm_relation d))"
      using cert f(1) shape_parts [OF s] k by (simp add: certified_def)
    from demanded_facts_complete [OF a(1) this] s k f Suc.prems(5) have "f \<in> set answers" by simp
    with f(2) show ?thesis by (intro bexI [of _ f]) (auto simp: atom_eq_core)
  next
    case (derived r m as)
    have flat: "rule_flat digits r" using cert derived(2) by (simp add: certified_def)
    then obtain k ps where s: "shape digits (r_head r) = Some (k, ps)" by (auto simp: rule_flat_def)
    from Suc.prems(5) obtain bs where bs: "loose (subst_rec m (r_head r)) = Some (dm_relation d, bs)"
      "\<forall>(i, v) \<in> set (dm_bindings d). i < length bs \<and> atom_eq (bs ! i) v" unfolding derived(1) meets_def by blast
    with loose_subst [OF s] have k: "k = dm_relation d" "bs = map (subst_rec m) ps" by auto
    have key: "key_of digits (r_head r) = Some (dm_relation d)" using shape_parts [OF s] k by simp
    have r: "r \<in> set (rows_of rr (dm_relation d))" using cert derived(2) key by (simp add: certified_def)
    from concatE_Inr_all [OF a(2) r] obtain ys where
      ys: "rule_answers h eng alg space digits fr rr n d r = Inr ys" "set ys \<subseteq> set derived" by blast
    have "list_all (plain_argument digits) ps" using s by (rule shape_cases) auto
    moreover have "i < length ps \<and> is_ground v \<and> atom_eq (subst_rec m (ps ! i)) v" if "(i, v) \<in> set (dm_bindings d)" for i v
      using bs(2) k(2) that Suc.prems(2) by (auto simp: demand_ok_def)
    ultimately obtain b where b: "bind_head ps (dm_bindings d) [] = Some b" "agrees m b"
      using bind_head_covers [of "dm_bindings d" ps m digits "[]"] by (auto simp: agrees_def)
    have hb: "head_bindings digits r d = Inr (Some b)" using s b(1) by (simp add: head_bindings_def certified_shape_def)
    note gb = head_bindings_ok [OF flat key Suc.prems(2) hb]
    from ys(1) hb obtain states where st:
      "premises_loop eng alg r (ask_for h eng alg space digits fr rr n) (r_premises r) [initial_state alg r b] = Inr states"
      "concatE (finish_state eng alg space r) states = Inr ys"
      by (auto simp: rule_answers_def derive_rule_steps_def)
    have "\<exists>st' \<in> set states. state_covers m ([] @ r_premises r) st'"
    proof (rule premises_loop_covers [OF st(1) _ _ derived(3)])
      show "state_covers m [] (initial_state alg r b)"
        using gb b(2) by (simp add: state_covers_def initial_state_def names_of_def)
    next
      fix p x bb rows
      assume p: "p \<in> set (r_premises r)" "x \<in> set as" "fits m p x" "ground_bindings bb" "agrees m bb"
        and rows: "ask_for h eng alg space digits fr rr n (substitute p bb) = Inr rows"
      from rows obtain d' where d': "from_pattern digits (substitute p bb) = Inr d'"
          "solve h eng alg space digits fr rr n d' = Inr rows" by (auto simp: ask_for_def)
      from flat p(1) obtain kp qs where sp: "shape digits p = Some (kp, qs)" by (auto simp: rule_flat_def)
      note met = premise_met [OF sp p(4,5,3) d'(1)]
      have "in_depth digits rules level n d'"
        by (rule in_depth_premise [OF cert Suc.prems(3) derived(2) key p(1)]) (use met shape_parts [OF sp] in simp)
      from Suc.IH [OF d'(2) from_pattern_ok [OF d'(1)] this _ conjunct2 [OF met]] derived(4) [OF p(2)]
      obtain c where c: "c \<in> set rows" "atom_eq (answer_value c) x" unfolding P_def by blast
      have "is_ground (answer_value c)" by (rule groundP [OF askP [OF rows c(1)]])
      with c show "\<exists>c \<in> set rows. atom_eq (answer_value c) x \<and> is_ground (answer_value c)" by blast
    qed simp
    then obtain st' where st': "st' \<in> set states" "state_covers m (r_premises r) st'" by auto
    from concatE_Inr_all [OF st(2) st'(1)] obtain zs where zs: "finish_state eng alg space r st' = Inr zs" "set zs \<subseteq> set ys"
      by blast
    from finish_complete [OF zs(1) guards [OF derived(2)] st'(2) derived(5,6)] zs(2) ys(2) derived(1)
    show ?thesis by auto
  qed
  then obtain y where y: "y \<in> set (answers @ derived)" "atom_eq (answer_value y) a" by blast
  from unique_answers_signature [OF y(1), of h] obtain c where
    c: "c \<in> set (unique_answers h (answers @ derived))" "signature h c = signature h y" by blast
  then have "str_atom h (answer_value c) = str_atom h (answer_value y)" by (simp add: signature_def)
  moreover have "c \<in> set (answers @ derived)" using c(1) unique_answers_set by blast
  ultimately have "atom_eq (answer_value c) (answer_value y)"
    using apart all [OF y(1)] all [of c] unfolding prints_apart_def by blast
  with y(2) c(1) show ?case by (intro bexI [of _ c]) (auto simp: a(3) atom_eq_core)
qed simp

section \<open>The whole demand evaluation\<close>

lemma goal_in_depth:
  assumes "certified digits facts rules fr rr level n0"
  shows "in_depth digits rules level (Suc n0) d"
  using assms by (auto simp: certified_def in_depth_def key_of_def rel_of_def less_Suc_eq split: option.splits)

lemma evaluate_demand_Inr:
  assumes "evaluate_demand h eng alg space digits facts rules goal n = Inr (Some out)" "distinct (map r_order rules)"
  obtains fr rr level d where "certified digits facts rules fr rr level n" "from_pattern digits goal = Inr d"
    "solve h eng alg space digits fr rr (Suc n) d = Inr out"
proof -
  from assms(1) obtain fr rr d where c: "certify digits alg facts rules goal n = Inr (Some (fr, rr))"
      "from_pattern digits goal = Inr d" "solve h eng alg space digits fr rr (Suc n) d = Inr out"
    by (auto simp: evaluate_demand_def split: option.splits)
  with certify_ok [OF assms(2), of digits alg facts goal n] that show ?thesis by auto
qed

lemma demand_induct:
  assumes got: "evaluate_demand h eng alg space digits facts rules goal n = Inr (Some out)" "distinct (map r_order rules)"
    and start: "\<And>a. a \<in> set facts \<Longrightarrow> Q a" and ground: "\<And>a. Q a \<Longrightarrow> is_ground (answer_value a)"
    and step: "\<And>r cs a. r \<in> set rules \<Longrightarrow> (\<And>c. c \<in> set cs \<Longrightarrow> Q c) \<Longrightarrow> rule_instance eng alg r cs a \<Longrightarrow> Q a"
    and a: "a \<in> set out"
  shows "Q a"
proof -
  obtain fr rr level d where c: "certified digits facts rules fr rr level n" "from_pattern digits goal = Inr d"
      "solve h eng alg space digits fr rr (Suc n) d = Inr out"
    by (rule evaluate_demand_Inr [OF got])
  show ?thesis by (rule solve_induct [where Q = Q, OF c(1) start ground step c(3) from_pattern_ok [OF c(2)] a])
qed

lemma goal_meets:
  assumes d: "from_pattern digits goal = Inr d" and fit: "fits m goal a"
  shows "meets d a"
proof -
  from from_pattern_shape [OF d] obtain ps where ps: "shape digits goal = Some (dm_relation d, ps)" by blast
  have "substitute goal [] = goal"
    using substitute_assigned [of "[]" goal] by (simp add: ground_bindings_def subst_rec_none)
  with premise_met [OF ps, of "[]" m a d] d fit show ?thesis by (simp add: ground_bindings_def agrees_def)
qed

lemma demand_complete:
  fixes facts :: "tagged list" and rules :: "rule list"
  defines "P \<equiv> provable (answer_value ` set facts) (set rules)"
  assumes got: "evaluate_demand h eng alg space digits facts rules goal n = Inr (Some out)" "distinct (map r_order rules)"
    and ground: "\<And>f. f \<in> set facts \<Longrightarrow> is_ground (answer_value f)"
    and guards: "\<And>r. r \<in> set rules \<Longrightarrow> r_guard r = None" and apart: "prints_apart h P"
    and y: "P y" "match goal y \<noteq> None"
  shows "\<exists>c \<in> set out. atom_eq (answer_value c) y"
proof -
  obtain fr rr level d where c: "certified digits facts rules fr rr level n" "from_pattern digits goal = Inr d"
      "solve h eng alg space digits fr rr (Suc n) d = Inr out"
    by (rule evaluate_demand_Inr [OF got])
  from y(2) obtain m where "fits m goal y" using match_sound by blast
  from goal_meets [OF c(2) this] show ?thesis
    using solve_complete [OF c(1) ground guards apart [unfolded P_def] c(3) from_pattern_ok [OF c(2)] goal_in_depth [OF c(1)]] y(1)
    unfolding P_def by blast
qed

end
