(* ===== verification/Totality.thy ===== *)
theory Totality
  imports Demands
begin

text \<open>
  What the certificate makes total: on a certified program the demand evaluator raises no error of its own,
  neither the refusal of an uncertified atom nor running out of fuel.
\<close>

section \<open>Errors that are the evaluator's own\<close>

text \<open>The engine's own operations raise no error of the evaluator.\<close>

definition own_error :: "alg_error \<Rightarrow> bool" where
  "own_error e = (\<exists>msg. e = EvaluationError msg)"

definition engine_plain :: "engine \<Rightarrow> bool" where
  "engine_plain eng = (\<forall>name l r e. native_operation eng name l r = Inl e \<longrightarrow> \<not> own_error e)"

lemma own_error_simps [simp]:
  "own_error (EvaluationError msg)" "\<not> own_error (OperationError msg)" "\<not> own_error (DeclarationError msg)"
  "\<not> own_error (LinearEvidence i)" "\<not> own_error CarrierRefused"
  by (simp_all add: own_error_def)

lemma bindE_Inl: "bindE x f = Inl e \<longleftrightarrow> x = Inl e \<or> (\<exists>a. x = Inr a \<and> f a = Inl e)"
  by (cases x) auto

lemma concatE_Inl: "concatE f xs = Inl e \<Longrightarrow> \<exists>x \<in> set xs. f x = Inl e"
  by (induction xs) (auto simp: bindE_Inl)

lemma operate_error: "engine_plain eng \<Longrightarrow> operate eng alg name l r = Inl e \<Longrightarrow> \<not> own_error e"
  by (auto simp: operate_def engine_plain_def split: option.splits if_splits list.splits)

lemma operation_error: "engine_plain eng \<Longrightarrow> operation eng alg name l r = Inl e \<Longrightarrow> \<not> own_error e"
  by (auto simp: operation_def bindE_Inl require_success_def check_values_def split: if_splits dest: operate_error)

lemma instance_tag_error: "engine_plain eng \<Longrightarrow> instance_tag eng alg space r st v = Inl e \<Longrightarrow> \<not> own_error e"
  by (auto simp: instance_tag_def label_def minted_def extend_values_def bindE_Inl require_success_def check_values_def
      split: if_splits option.splits list.splits dest: operate_error operation_error)

lemma finish_state_error: "engine_plain eng \<Longrightarrow> finish_state eng alg space r st = Inl e \<Longrightarrow> \<not> own_error e"
  by (auto simp: finish_state_def Let_def bindE_Inl guard_holds_def split: if_splits option.splits dest: instance_tag_error)

lemma try_candidate_error: "engine_plain eng \<Longrightarrow> try_candidate eng alg r pat st c = Inl e \<Longrightarrow> \<not> own_error e"
  by (auto simp: try_candidate_def Let_def extend_values_def bindE_Inl split: option.splits if_splits dest: operation_error)

lemma try_candidate_match:
  assumes "try_candidate eng alg r pat st c = Inr out" "st' \<in> set out"
  shows "\<exists>extra. match pat (answer_value c) = Some extra \<and> merge_bindings (d_bindings st) extra = Some (d_bindings st')"
  using assms by (auto simp: try_candidate_def Let_def split: option.splits if_splits)

text \<open>A property of the bindings that every match keeps holds wherever the rule asks, and where it ends.\<close>

definition keeps :: "(bindings \<Rightarrow> bool) \<Rightarrow> (atom \<Rightarrow> alg_error + tagged list) \<Rightarrow> atom \<Rightarrow> bool" where
  "keeps I ask p = (\<forall>b rows c extra b'. I b \<and> ask (substitute p b) = Inr rows \<and> c \<in> set rows \<and>
      match (substitute p b) (answer_value c) = Some extra \<and> merge_bindings b extra = Some b' \<longrightarrow> I b')"

definition premise_states ::
  "engine \<Rightarrow> algebra \<Rightarrow> rule \<Rightarrow> (atom \<Rightarrow> alg_error + tagged list) \<Rightarrow> atom \<Rightarrow> dstate \<Rightarrow> alg_error + dstate list" where
  "premise_states eng alg r ask p st =
     (let pattern = substitute p (d_bindings st) in bindE (ask pattern) (concatE (try_candidate eng alg r pattern st)))"

lemma premises_loop_Cons:
  "premises_loop eng alg r ask (p # ps) states =
     bindE (concatE (premise_states eng alg r ask p) states) (\<lambda>states'.
       if states' = [] then Inr [] else premises_loop eng alg r ask ps states')"
  by (simp add: premise_states_def [abs_def])

lemma premise_keeps:
  assumes got: "concatE (premise_states eng alg r ask p) states = Inr nexts" "st' \<in> set nexts"
    and states: "\<And>st. st \<in> set states \<Longrightarrow> I (d_bindings st)" and k: "keeps I ask p"
  shows "I (d_bindings st')"
proof -
  from concatE_Inr [OF got] obtain st ys where st: "st \<in> set states" "premise_states eng alg r ask p st = Inr ys" "st' \<in> set ys" by blast
  from st(2) obtain rows where rows: "ask (substitute p (d_bindings st)) = Inr rows"
      "concatE (try_candidate eng alg r (substitute p (d_bindings st)) st) rows = Inr ys" by (auto simp: premise_states_def Let_def)
  from concatE_Inr [OF rows(2) st(3)] obtain c zs where c: "c \<in> set rows"
      "try_candidate eng alg r (substitute p (d_bindings st)) st c = Inr zs" "st' \<in> set zs" by blast
  from try_candidate_match [OF c(2,3)] obtain extra where
    "match (substitute p (d_bindings st)) (answer_value c) = Some extra"
    "merge_bindings (d_bindings st) extra = Some (d_bindings st')" by blast
  with k states [OF st(1)] rows(1) c(1) show ?thesis unfolding keeps_def by blast
qed

lemma premises_loop_keeps:
  assumes "premises_loop eng alg r ask ps states = Inr finals" "st' \<in> set finals"
    and "\<And>st. st \<in> set states \<Longrightarrow> I (d_bindings st)" and "\<And>p. p \<in> set ps \<Longrightarrow> keeps I ask p"
  shows "I (d_bindings st')"
  using assms(1,3,4)
proof (induction ps arbitrary: states)
  case Nil
  with assms(2) show ?case by simp
next
  case (Cons p ps)
  then obtain nexts where n: "concatE (premise_states eng alg r ask p) states = Inr nexts"
      "nexts = [] \<longrightarrow> finals = []" "nexts \<noteq> [] \<longrightarrow> premises_loop eng alg r ask ps nexts = Inr finals"
    unfolding premises_loop_Cons by (auto split: if_splits)
  have "I (d_bindings st)" if "st \<in> set nexts" for st
    using premise_keeps [OF n(1) that, of I] Cons.prems(2,3) by simp
  with n(2,3) Cons.IH [of nexts] Cons.prems(3) assms(2) show ?case by (cases "nexts = []") auto
qed

lemma premises_loop_error:
  assumes "premises_loop eng alg r ask ps states = Inl e" "own_error e" "engine_plain eng"
    and "\<And>st. st \<in> set states \<Longrightarrow> I (d_bindings st)" and "\<And>p. p \<in> set ps \<Longrightarrow> keeps I ask p"
  shows "\<exists>p \<in> set ps. \<exists>b. I b \<and> ask (substitute p b) = Inl e"
  using assms(1,4,5)
proof (induction ps arbitrary: states)
  case (Cons p ps)
  from Cons.prems(1) consider (here) "concatE (premise_states eng alg r ask p) states = Inl e"
    | (later) nexts where "concatE (premise_states eng alg r ask p) states = Inr nexts" "premises_loop eng alg r ask ps nexts = Inl e"
    unfolding premises_loop_Cons by (auto simp: bindE_Inl split: if_splits)
  then show ?case
  proof cases
    case here
    from concatE_Inl [OF this] obtain st where st: "st \<in> set states" "premise_states eng alg r ask p st = Inl e" by blast
    then have "ask (substitute p (d_bindings st)) = Inl e"
      using assms(2) try_candidate_error [OF assms(3)] by (auto simp: premise_states_def Let_def bindE_Inl dest!: concatE_Inl)
    with Cons.prems(2) [OF st(1)] show ?thesis by auto
  next
    case later
    have "I (d_bindings st)" if "st \<in> set nexts" for st
      using premise_keeps [OF later(1) that, of I] Cons.prems(2,3) by simp
    then have "\<exists>p \<in> set ps. \<exists>b. I b \<and> ask (substitute p b) = Inl e"
      by (rule Cons.IH [OF later(2)]) (simp_all add: Cons.prems(3))
    then show ?thesis by auto
  qed
qed simp

section \<open>Certified atoms stay certified\<close>

lemma match_step_values:
  assumes "match_step x y b = Some (ps, b')"
  shows "(\<forall>(p, a) \<in> set ps. a \<in> set (kids y)) \<and>
    (assigned b' z = Some v \<longrightarrow> assigned b z = Some v \<or> v = y \<and> x = Variable z)"
proof (cases x)
  case (Expression xs)
  with assms show ?thesis by (auto simp: match_step_def dest: set_zip_rightD split: if_splits)
qed (use assms in \<open>auto simp: match_step_def split: if_splits option.splits\<close>)

lemma match_loop_values:
  "match_loop st b = Some b' \<Longrightarrow> (\<And>p a. (p, a) \<in> set st \<Longrightarrow> C a) \<Longrightarrow> (\<forall>y. C y \<longrightarrow> (\<forall>a \<in> set (kids y). C a)) \<Longrightarrow>
     assigned b' z = Some v \<Longrightarrow> assigned b z = Some v \<or> C v"
proof (induction st b rule: match_loop.induct)
  case (2 x y st b)
  from "2.prems"(1) obtain ps c where step: "match_step x y b = Some (ps, c)" and rest: "match_loop (ps @ st) c = Some b'"
    by (auto split: option.splits)
  have y: "C y" by (rule "2.prems"(2) [of x]) simp
  have "C a" if "(p, a) \<in> set (ps @ st)" for p a
  proof (cases "(p, a) \<in> set ps")
    case True
    then have "a \<in> set (kids y)" using match_step_values [OF step] by fast
    with y "2.prems"(3) show ?thesis by blast
  qed (use that "2.prems"(2) [of p a] in simp)
  then have "assigned c z = Some v \<or> C v" using "2.IH" [OF step refl rest _ "2.prems"(3,4)] by blast
  then show ?case using match_step_values [OF step, of z v] y by blast
qed auto

definition plain_values :: "nat \<Rightarrow> bindings \<Rightarrow> bool" where
  "plain_values digits b = (\<forall>x v. assigned b x = Some v \<longrightarrow> plain_argument digits v)"

lemma plain_kids: "plain_argument digits a \<Longrightarrow> kids a = []"
  by (cases a) simp_all

lemma match_plain:
  assumes m: "match p a = Some m" and p: "shape digits p = Some (k, ps)" and a: "shape digits a = Some (j, as)"
  shows "plain_values digits m"
  using p
proof (cases rule: shape_cases)
  case (1 s)
  with m show ?thesis by (auto simp: match_def match_step_def plain_values_def assigned_def split: if_splits)
next
  case p: (2 f)
  from a show ?thesis
  proof (cases rule: shape_cases)
    case (1 s)
    with m p show ?thesis by (simp add: match_def match_step_def)
  next
    case (2 g)
    have len: "length ps = length as"
      using m p 2 by (simp add: match_def match_step_def split: if_splits)
    have loop: "match_loop (rev (zip (Symbol f # ps) (Symbol g # as))) [] = Some m"
      using m p 2 len by (simp add: match_def match_step_def)
    have args_plain: "\<And>x. x \<in> set as \<Longrightarrow> plain_argument digits x" using 2 by (simp add: list_all_iff)
    have "plain_argument digits v" if "assigned m z = Some v" for z v
    proof -
      have "assigned ([] :: bindings) z = Some v \<or> plain_argument digits v"
      proof (rule match_loop_values [OF loop _ _ that])
        fix q x assume "(q, x) \<in> set (rev (zip (Symbol f # ps) (Symbol g # as)))"
        then have "x \<in> set (Symbol g # as)" by (auto dest: set_zip_rightD)
        with args_plain show "plain_argument digits x" by auto
      next
        show "\<forall>y. plain_argument digits y \<longrightarrow> (\<forall>x \<in> set (kids y). plain_argument digits x)"
          using plain_kids [of digits] by simp
      qed
      then show ?thesis by (simp add: assigned_def)
    qed
    then show ?thesis by (simp add: plain_values_def)
  qed
qed

lemma plain_subst:
  "plain_argument digits a \<Longrightarrow> (\<And>x v. x \<in> set (var_occs a) \<Longrightarrow> m x = Some v \<Longrightarrow> plain_argument digits v) \<Longrightarrow>
     plain_argument digits (subst_rec m a)"
  by (cases "(digits, a)" rule: plain_argument.cases) (auto split: option.splits)

lemma shape_subst:
  assumes p: "shape digits p = Some (k, ps)" and m: "\<And>x v. x \<in> set (var_occs p) \<Longrightarrow> m x = Some v \<Longrightarrow> plain_argument digits v"
  shows "shape digits (subst_rec m p) = Some (k, map (subst_rec m) ps)"
  using p
proof (cases rule: shape_cases)
  case (2 f)
  have "plain_argument digits (subst_rec m x)" if "x \<in> set ps" for x
  proof (rule plain_subst)
    show "plain_argument digits x" using that 2 by (simp add: list_all_iff)
    show "plain_argument digits v" if "z \<in> set (var_occs x)" "m z = Some v" for z v
      using that 2 \<open>x \<in> set ps\<close> by (intro m [of z v]) auto
  qed
  then have "list_all (plain_argument digits) (map (subst_rec m) ps)" by (simp add: list_all_iff)
  with 2 show ?thesis by simp
qed simp

lemma enumerate_value: "(i, a) \<in> set (enumerate 0 ps) \<Longrightarrow> a \<in> set ps"
  by (auto simp: in_set_enumerate_eq)

definition demand_plain :: "nat \<Rightarrow> demand \<Rightarrow> bool" where
  "demand_plain digits d = (\<forall>(i, v) \<in> set (dm_bindings d). plain_argument digits v)"

lemma from_pattern_plain: "from_pattern digits q = Inr d \<Longrightarrow> demand_plain digits d"
  unfolding demand_plain_def
proof (intro ballI, clarify)
  fix i v
  assume d: "from_pattern digits q = Inr d" and v: "(i, v) \<in> set (dm_bindings d)"
  from from_pattern_shape [OF d] obtain ps where s: "shape digits q = Some (dm_relation d, ps)"
    "dm_bindings d = filter (\<lambda>(i, a). \<not> is_variable a) (enumerate 0 ps)" .
  have "(i, v) \<in> set (enumerate 0 ps)" using v s(2) by simp
  then have v: "v \<in> set ps" by (rule enumerate_value)
  from s(1) show "plain_argument digits v" by (rule shape_cases) (use v in \<open>auto simp: list_all_iff\<close>)
qed

lemma bind_head_plain:
  "bind_head ps bs b = Some b' \<Longrightarrow> (\<And>i v. (i, v) \<in> set bs \<Longrightarrow> plain_argument digits v) \<Longrightarrow> plain_values digits b \<Longrightarrow> plain_values digits b'"
proof (induction bs arbitrary: b)
  case (Cons e bs)
  obtain i v where e: "e = (i, v)" by force
  have v: "plain_argument digits v" using Cons.prems(2) e by auto
  have rest: "plain_argument digits v" if "(i, v) \<in> set bs" for i v
    by (rule Cons.prems(2) [of i]) (simp add: that)
  show ?case
  proof (cases "\<exists>x. ps ! i = Variable x")
    case True
    then obtain x where x: "ps ! i = Variable x" by blast
    let ?b = "dict_setdefault (=) x v b"
    from Cons.prems(1) e x have step: "bind_head ps bs ?b = Some b'"
      by (auto simp: Let_def split: option.splits if_splits)
    have "plain_values digits ?b"
      using Cons.prems(3) v by (auto simp: plain_values_def dict_setdefault_def split: option.splits if_splits)
    from Cons.IH [OF step rest this] show ?thesis .
  next
    case False
    with Cons.prems(1) e have "bind_head ps bs b = Some b'" by (cases "ps ! i") (auto split: if_splits)
    from Cons.IH [OF this rest Cons.prems(3)] show ?thesis .
  qed
qed simp

section \<open>Every refusal is somebody else's\<close>

definition flat :: "nat \<Rightarrow> atom \<Rightarrow> bool" where
  "flat digits a = (shape digits a \<noteq> None)"

definition plain_bindings :: "nat \<Rightarrow> bindings \<Rightarrow> bool" where
  "plain_bindings digits b = (ground_bindings b \<and> plain_values digits b)"

lemma plain_bindings_match:
  assumes b: "plain_bindings digits b" and p: "flat digits p" and c: "flat digits a" "is_ground a"
    and m: "match (substitute p b) a = Some extra" "merge_bindings b extra = Some b'"
  shows "plain_bindings digits b'"
proof -
  have g: "ground_bindings b" and v: "plain_values digits b" using b by (simp_all add: plain_bindings_def)
  from p obtain k ps where s: "shape digits p = Some (k, ps)" by (auto simp: flat_def)
  have "shape digits (substitute p b) = Some (k, map (subst_rec (assigned b)) ps)"
    using shape_subst [OF s, of "assigned b"] v substitute_assigned [OF g, of p] by (simp add: plain_values_def)
  moreover from c obtain j as where "shape digits a = Some (j, as)" by (auto simp: flat_def)
  ultimately have e: "plain_values digits extra" by (rule match_plain [OF m(1)])
  from match_extends [OF g m(1) c(2)] m(2) have r: "ground_bindings b'" "assigned b' = assigned b ++ assigned extra" by auto
  from v e have "plain_values digits b'" unfolding plain_values_def r(2) by (auto simp: map_add_def split: option.splits)
  with r(1) show ?thesis by (simp add: plain_bindings_def)
qed

lemma rule_bindings_plain:
  assumes r: "rule_flat digits r" "key_of digits (r_head r) = Some (dm_relation d)"
    and d: "demand_ok d" "demand_plain digits d"
    and b: "head_bindings digits r d = Inr (Some b)"
  shows "plain_bindings digits b"
proof -
  from b obtain ps where "bind_head ps (dm_bindings d) [] = Some b"
    by (auto simp: head_bindings_def certified_shape_def split: option.splits)
  from bind_head_plain [OF this, of digits] d(2) head_bindings_ok [OF r d(1) b] show ?thesis
    by (fastforce simp: plain_bindings_def plain_values_def assigned_def demand_plain_def)
qed

lemma plain_keeps:
  assumes "flat digits p" and "\<And>pat rows c. ask pat = Inr rows \<Longrightarrow> c \<in> set rows \<Longrightarrow> is_ground (answer_value c) \<and> flat digits (answer_value c)"
  shows "keeps (plain_bindings digits) ask p"
  unfolding keeps_def using plain_bindings_match [OF _ assms(1)] assms(2) by blast

lemma flat_subst:
  assumes "flat digits p" "plain_bindings digits b"
  shows "flat digits (substitute p b)"
proof -
  from assms(1) obtain k ps where s: "shape digits p = Some (k, ps)" by (auto simp: flat_def)
  show ?thesis using shape_subst [OF s, of "assigned b"] assms(2) substitute_assigned [of b p]
    by (simp add: plain_values_def plain_bindings_def flat_def)
qed

lemma rule_answers_flat:
  assumes r: "rule_flat digits r"
    and b: "plain_bindings digits b" and out: "derive_rule_steps eng alg space r ask b = Inr out" "a \<in> set out"
    and rows: "\<And>pat rows c. ask pat = Inr rows \<Longrightarrow> c \<in> set rows \<Longrightarrow> is_ground (answer_value c) \<and> flat digits (answer_value c)"
  shows "flat digits (answer_value a)"
proof -
  from out(1) obtain finals where f: "premises_loop eng alg r ask (r_premises r) [initial_state alg r b] = Inr finals"
      "concatE (finish_state eng alg space r) finals = Inr out" by (auto simp: derive_rule_steps_def)
  from concatE_Inr [OF f(2) out(2)] obtain st ys where st: "st \<in> set finals" "finish_state eng alg space r st = Inr ys" "a \<in> set ys"
    by blast
  have "plain_bindings digits (d_bindings st)"
    by (rule premises_loop_keeps [OF f(1) st(1)]) (use b r plain_keeps [OF _ rows] in \<open>auto simp: initial_state_def rule_flat_def flat_def\<close>)
  moreover have "answer_value a = substitute (r_head r) (d_bindings st)"
    using st(2,3) by (auto simp: finish_state_def Let_def split: if_splits)
  ultimately show ?thesis using flat_subst [of digits "r_head r"] r by (auto simp: rule_flat_def flat_def)
qed

lemma solve_flat:
  assumes cert: "certified digits facts rules fr rr level n0"
    and ground: "\<And>f. f \<in> set facts \<Longrightarrow> is_ground (answer_value f)"
  shows "solve h eng alg space digits fr rr n d = Inr out \<Longrightarrow> demand_ok d \<Longrightarrow>
    demand_plain digits d \<Longrightarrow> a \<in> set out \<Longrightarrow>
    is_ground (answer_value a) \<and> flat digits (answer_value a)"
proof (induction n arbitrary: d out a)
  case (Suc n)
  have g: "is_ground (answer_value a)"
    by (rule solve_induct [where Q = "\<lambda>c. is_ground (answer_value c)", OF cert ground _ _ Suc.prems(1,2,4)])
      (auto simp: rule_instance_def)
  have rows: "is_ground (answer_value c) \<and> flat digits (answer_value c)"
    if ask: "ask_for h eng alg space digits fr rr n pat = Inr rows" "c \<in> set rows" for pat rows c
  proof -
    from ask obtain d' where d': "from_pattern digits pat = Inr d'" "solve h eng alg space digits fr rr n d' = Inr rows"
      by (auto simp: ask_for_def)
    from Suc.IH [OF d'(2) from_pattern_ok [OF d'(1)] from_pattern_plain [OF d'(1)] ask(2)] show ?thesis by blast
  qed
  from solve_Inr [OF Suc.prems(1)] obtain answers derived where
    got: "demanded_facts digits fr d = Inr answers"
      "concatE (rule_answers h eng alg space digits fr rr n d) (rows_of rr (dm_relation d)) = Inr derived"
      "out = sort_answers (unique_answers h (answers @ derived))" by (metis nat.inject)
  have "a \<in> set (answers @ derived)" using Suc.prems(4) got(3) unique_answers_set by fastforce
  then consider "a \<in> set answers" | "a \<in> set derived" by auto
  then show ?case
  proof cases
    case 1
    with demanded_facts_set [OF got(1)] cert g show ?thesis by (auto simp: certified_def facts_flat_def flat_def)
  next
    case 2
    from concatE_Inr [OF got(2) this] obtain r ys where
      r: "r \<in> set (rows_of rr (dm_relation d))" "rule_answers h eng alg space digits fr rr n d r = Inr ys" "a \<in> set ys" by blast
    have rule: "key_of digits (r_head r) = Some (dm_relation d)" "rule_flat digits r"
      using r(1) cert by (auto simp: certified_def)
    from r(2,3) obtain b where b: "head_bindings digits r d = Inr (Some b)"
        "derive_rule_steps eng alg space r (ask_for h eng alg space digits fr rr n) b = Inr ys"
      by (auto simp: rule_answers_def split: option.splits)
    have "flat digits (answer_value a)"
      by (rule rule_answers_flat [OF rule(2) rule_bindings_plain [OF rule(2,1) Suc.prems(2,3) b(1)] b(2) r(3)])
        (use rows in blast)
    with g show ?thesis ..
  qed
qed simp

lemma demanded_facts_ok:
  assumes "certified digits facts rules fr rr level n0"
  shows "demanded_facts digits fr d \<noteq> Inl e"
proof
  assume "demanded_facts digits fr d = Inl e"
  then obtain a where "a \<in> set (rows_of fr (dm_relation d))" "shape digits (answer_value a) = None"
    by (auto simp: demanded_facts_def bindE_Inl certified_shape_def split: if_splits option.splits dest!: concatE_Inl)
  with assms show False by (auto simp: certified_def facts_flat_def)
qed

lemma solve_total:
  assumes cert: "certified digits facts rules fr rr level n0" and eng: "engine_plain eng"
    and ground: "\<And>f. f \<in> set facts \<Longrightarrow> is_ground (answer_value f)" and e: "own_error e"
  shows "demand_ok d \<Longrightarrow> demand_plain digits d \<Longrightarrow>
    in_depth digits rules level n d \<Longrightarrow> 0 < n \<Longrightarrow> solve h eng alg space digits fr rr n d \<noteq> Inl e"
proof (induction n arbitrary: d)
  case (Suc n)
  show ?case
  proof
    assume "solve h eng alg space digits fr rr (Suc n) d = Inl e"
    then obtain r where r: "r \<in> set (rows_of rr (dm_relation d))"
        "rule_answers h eng alg space digits fr rr n d r = Inl e"
      using demanded_facts_ok [OF cert, of d e] by (auto simp: solve_Suc bindE_Inl dest!: concatE_Inl)
    have rule: "r \<in> set rules" "key_of digits (r_head r) = Some (dm_relation d)" "rule_flat digits r"
      using r(1) cert by (auto simp: certified_def)
    from rule(3) r(2) obtain b where b: "head_bindings digits r d = Inr (Some b)"
        "derive_rule_steps eng alg space r (ask_for h eng alg space digits fr rr n) b = Inl e"
      by (auto simp: rule_answers_def bindE_Inl head_bindings_def certified_shape_def rule_flat_def split: option.splits)
    note start = rule_bindings_plain [OF rule(3,2) Suc.prems(1,2) b(1)]
    have rows: "is_ground (answer_value c) \<and> flat digits (answer_value c)"
      if "ask_for h eng alg space digits fr rr n pat = Inr rows" "c \<in> set rows" for pat rows c
    proof -
      from that obtain d' where d': "from_pattern digits pat = Inr d'" "solve h eng alg space digits fr rr n d' = Inr rows"
        by (auto simp: ask_for_def)
      from solve_flat [OF cert ground d'(2) from_pattern_ok [OF d'(1)] from_pattern_plain [OF d'(1)] that(2)] show ?thesis .
    qed
    from b(2) have "premises_loop eng alg r (ask_for h eng alg space digits fr rr n) (r_premises r) [initial_state alg r b] = Inl e"
      using e finish_state_error [OF eng] by (auto simp: derive_rule_steps_def bindE_Inl dest!: concatE_Inl)
    moreover have "plain_bindings digits (d_bindings st)" if "st \<in> set [initial_state alg r b]" for st
      using that start by (simp add: initial_state_def)
    ultimately have "\<exists>p \<in> set (r_premises r). \<exists>bb. plain_bindings digits bb \<and>
        ask_for h eng alg space digits fr rr n (substitute p bb) = Inl e"
      by (rule premises_loop_error [OF _ e eng]) (use rule(3) plain_keeps [OF _ rows] in \<open>auto simp: rule_flat_def flat_def\<close>)
    then obtain p bb where p: "p \<in> set (r_premises r)" "plain_bindings digits bb"
        "ask_for h eng alg space digits fr rr n (substitute p bb) = Inl e" by blast
    from rule(3) p(1) obtain k ps where sp: "shape digits p = Some (k, ps)" by (auto simp: rule_flat_def)
    have ss: "shape digits (substitute p bb) = Some (k, map (subst_rec (assigned bb)) ps)"
      using shape_subst [OF sp, of "assigned bb"] p(2) substitute_assigned [of bb p]
      by (simp add: plain_values_def plain_bindings_def)
    then obtain d' where d': "from_pattern digits (substitute p bb) = Inr d'" "dm_relation d' = k"
        "solve h eng alg space digits fr rr n d' = Inl e"
      using p(3) by (auto simp: ask_for_def from_pattern_def certified_shape_def)
    have "level (rel_of digits p) < level (dm_relation d)" "level (dm_relation d) < Suc n"
      using cert rule(1,2) p(1) Suc.prems(3) unfolding certified_def in_depth_def by (auto simp: key_of_def rel_of_def)
    then have "0 < n" by simp
    moreover have "in_depth digits rules level n d'"
      by (rule in_depth_premise [OF cert Suc.prems(3) rule(1,2) p(1)]) (use d'(2) shape_parts [OF sp] in simp)
    ultimately show False
      using Suc.IH [OF from_pattern_ok [OF d'(1)] from_pattern_plain [OF d'(1)]] d'(3) by blast
  qed
qed simp

end
