(* ===== verification/Bits.thy ===== *)
theory Bits
  imports Totality
begin

text \<open>
  The integer bound of the certificate: every tag the demand evaluator computes is an integer no longer than
  the bits the certificate charged its relation, and those are printable.
\<close>

section \<open>The length of an integer\<close>

lemma bit_length_nat_less: "n < 2 ^ bit_length_nat n"
proof (induction n rule: less_induct)
  case (less n)
  show ?case
  proof (cases "n = 0")
    case False
    then have "n div 2 < 2 ^ bit_length_nat (n div 2)" using less by simp
    then have "n < 2 * 2 ^ bit_length_nat (n div 2)" by linarith
    with False show ?thesis by (simp add: bit_length_nat.simps [of n])
  qed (simp add: bit_length_nat.simps)
qed

lemma bit_length_nat_le: "n < 2 ^ k \<Longrightarrow> bit_length_nat n \<le> k"
proof (induction k arbitrary: n)
  case (Suc k)
  then have "n div 2 < 2 ^ k" by simp
  from Suc.IH [OF this] show ?case by (simp add: bit_length_nat.simps [of n])
qed (simp add: bit_length_nat.simps)

lemma bit_length_le_iff: "bit_length i \<le> k \<longleftrightarrow> \<bar>i\<bar> < 2 ^ k"
proof
  assume k: "bit_length i \<le> k"
  have "nat \<bar>i\<bar> < 2 ^ bit_length i" unfolding bit_length_def by (rule bit_length_nat_less)
  also have "\<dots> \<le> 2 ^ k" using k by simp
  finally show "\<bar>i\<bar> < 2 ^ k" by (simp add: nat_less_iff)
next
  assume "\<bar>i\<bar> < 2 ^ k"
  then have "nat \<bar>i\<bar> < 2 ^ k" by (simp add: nat_less_iff)
  then show "bit_length i \<le> k" unfolding bit_length_def by (rule bit_length_nat_le)
qed

lemma bit_length_mult: "bit_length i \<le> a \<Longrightarrow> bit_length j \<le> b \<Longrightarrow> bit_length (i * j) \<le> a + b"
  unfolding bit_length_le_iff by (simp add: abs_mult power_add mult_strict_mono)

lemma bit_length_plus: "bit_length i \<le> a \<Longrightarrow> bit_length j \<le> b \<Longrightarrow> bit_length (i + j) \<le> max a b + 1"
proof -
  assume i: "bit_length i \<le> a" and j: "bit_length j \<le> b"
  have "bit_length i \<le> max a b" "bit_length j \<le> max a b" using i j by simp_all
  then have "\<bar>i\<bar> < 2 ^ max a b" "\<bar>j\<bar> < 2 ^ max a b" by (simp_all only: bit_length_le_iff)
  then show ?thesis unfolding bit_length_le_iff by simp
qed

lemma bit_length_choice:
  "bit_length i \<le> a \<Longrightarrow> bit_length j \<le> b \<Longrightarrow> bit_length (min i j) \<le> max a b \<and> bit_length (max i j) \<le> max a b"
  by (simp add: min_def max_def)

section \<open>One rule\<close>

text \<open>A tag is an integer of at most so many bits, as the certificate counts them (at least one).\<close>

definition fits_bits :: "nat \<Rightarrow> atom \<Rightarrow> bool" where
  "fits_bits n t = (1 \<le> n \<and> (\<exists>i e. t = Grounded (VInt i) e \<and> bit_length i \<le> n))"

lemma integer_bits_fits: "integer_bits digits t = Some n \<Longrightarrow> fits_bits n t \<and> printable_bits digits n"
  by (auto simp: integer_bits_def fits_bits_def Let_def split: atom.splits pyvalue.splits if_splits)

lemma fits_bits_mono: "fits_bits n t \<Longrightarrow> n \<le> m \<Longrightarrow> fits_bits m t"
  by (auto simp: fits_bits_def)

lemma printable_mono: "printable_bits digits n \<Longrightarrow> m \<le> n \<Longrightarrow> printable_bits digits m"
  by (auto simp: printable_bits_def)

lemma extend_fits:
  assumes op: "extend_op alg \<in> set direct_names" and t: "fits_bits n l" "fits_bits m r"
    and v: "extend_values eng alg l r = Inr v"
  shows "fits_bits (wider (extend_op alg) n m) v"
proof -
  from t obtain i e j d where ij: "l = Grounded (VInt i) e" "r = Grounded (VInt j) d" "bit_length i \<le> n" "bit_length j \<le> m"
    "1 \<le> n" "1 \<le> m" by (auto simp: fits_bits_def)
  have "operate eng alg (extend_op alg) l r = Inr v"
    using v by (auto simp: extend_values_def operation_def)
  with op ij bit_length_mult [OF ij(3,4)] bit_length_plus [OF ij(3,4)] bit_length_choice [OF ij(3,4)] show ?thesis
    by (auto simp: operate_def direct_names_def fits_bits_def wider_def gnd_def)
qed

lemma fold_fits:
  assumes op: "extend_op alg \<in> set direct_names"
  shows "list_all2 fits_bits ns ts \<Longrightarrow> fits_bits n t \<Longrightarrow> foldE (extend_values eng alg) t ts = Inr v \<Longrightarrow>
    fits_bits (fold (\<lambda>m n. wider (extend_op alg) n m) ns n) v"
proof (induction ns ts arbitrary: n t rule: list_all2_induct)
  case (Cons m ns r ts)
  then obtain u where u: "extend_values eng alg t r = Inr u" "foldE (extend_values eng alg) u ts = Inr v" by auto
  from Cons.IH [OF extend_fits [OF op Cons.prems(1) Cons.hyps(1) u(1)] u(2)] show ?case by simp
qed simp

section \<open>The walk\<close>

definition rule_width :: "string \<Rightarrow> nat \<Rightarrow> (relkey \<Rightarrow> nat) \<Rightarrow> nat \<Rightarrow> rule \<Rightarrow> nat" where
  "rule_width oper digits wide bits r = fold (\<lambda>m n. wider oper n m) (map wide (premise_rels digits r)) bits"

lemma rule_cost_width:
  "rule_cost oper depth bnd rels h0 b0 = Inr (h, b) \<Longrightarrow> b = fold (\<lambda>m n. wider oper n m) (map (bound_of bnd) rels) b0"
  by (induction rels arbitrary: h0 b0) (auto split: option.splits)

lemma bound_of_set [simp]: "bound_of (dict_set (=) k v d) j = (if j = k then v else bound_of d j)"
  by (simp add: bound_of_def)

lemma key_cost_width:
  "key_cost oper t key rs depth bnd = Inr (depth', bnd') \<Longrightarrow>
   (\<And>r. r \<in> set rs \<Longrightarrow> dict_get (=) (r_order r) (rule_relations t) = Some (premise_rels digits r) \<and>
      key \<notin> set (premise_rels digits r)) \<Longrightarrow>
   (\<forall>j. j \<noteq> key \<longrightarrow> bound_of bnd' j = bound_of bnd j) \<and> bound_of bnd key \<le> bound_of bnd' key \<and>
   (\<forall>r \<in> set rs. \<exists>bits. dict_get (=) (r_order r) (rule_bits t) = Some bits \<and>
      rule_width oper digits (bound_of bnd) bits r \<le> bound_of bnd' key)"
proof (induction rs arbitrary: depth bnd)
  case (Cons r rs)
  from Cons.prems(2) [of r] have rel: "dict_get (=) (r_order r) (rule_relations t) = Some (premise_rels digits r)" by simp
  from Cons.prems(1) rel obtain bits h b where c: "dict_get (=) (r_order r) (rule_bits t) = Some bits"
      "rule_cost oper depth bnd (premise_rels digits r) 1 bits = Inr (h, b)"
    and rest: "key_cost oper t key rs
        (dict_set (=) key (max (case dict_get (=) key depth of None \<Rightarrow> 0 | Some d \<Rightarrow> d) h) depth)
        (dict_set (=) key (max (bound_of bnd key) b) bnd) = Inr (depth', bnd')"
    by (auto split: option.splits)
  let ?bnd = "dict_set (=) key (max (bound_of bnd key) b) bnd"
  have IH: "(\<forall>j. j \<noteq> key \<longrightarrow> bound_of bnd' j = bound_of ?bnd j) \<and> bound_of ?bnd key \<le> bound_of bnd' key \<and>
   (\<forall>r \<in> set rs. \<exists>bits. dict_get (=) (r_order r) (rule_bits t) = Some bits \<and>
      rule_width oper digits (bound_of ?bnd) bits r \<le> bound_of bnd' key)"
    by (rule Cons.IH [OF rest]) (use Cons.prems(2) in simp)
  have same: "rule_width oper digits (bound_of ?bnd) bits q = rule_width oper digits (bound_of bnd) bits q"
    if "q \<in> set rs" for q bits
  proof -
    have "key \<notin> set (premise_rels digits q)" using Cons.prems(2) [of q] that by simp
    then have "map (bound_of ?bnd) (premise_rels digits q) = map (bound_of bnd) (premise_rels digits q)" by auto
    then show ?thesis unfolding rule_width_def by (simp only:)
  qed
  have "rule_width oper digits (bound_of bnd) bits r \<le> bound_of bnd' key"
    using IH rule_cost_width [OF c(2)] by (simp add: rule_width_def)
  with IH same c(1) show ?case by auto
qed auto

text \<open>Every settled relation is printable and wide enough for its facts and for each of its rules.\<close>

definition widths ::
  "string \<Rightarrow> nat \<Rightarrow> tables \<Rightarrow> (relkey \<Rightarrow> bool) \<Rightarrow> (relkey, nat) dict \<Rightarrow> bool" where
  "widths oper digits t settled bnd =
     (\<forall>k. bound_of (bounds t) k \<le> bound_of bnd k \<and> (settled k \<longrightarrow> printable_bits digits (bound_of bnd k) \<and>
        (\<forall>r \<in> set (rows_of (rule_rows t) k). \<exists>bits. dict_get (=) (r_order r) (rule_bits t) = Some bits \<and>
           rule_width oper digits (bound_of bnd) bits r \<le> bound_of bnd k)))"

lemma rule_width_same: "(\<And>k. k \<in> set (premise_rels digits r) \<Longrightarrow> f k = g k) \<Longrightarrow>
    rule_width oper digits f bits r = rule_width oper digits g bits r"
proof -
  assume "\<And>k. k \<in> set (premise_rels digits r) \<Longrightarrow> f k = g k"
  then have "map f (premise_rels digits r) = map g (premise_rels digits r)" by simp
  then show ?thesis unfolding rule_width_def by (simp only:)
qed

lemma widths_step:
  assumes tok: "tables_ok digits t" and w: "walking digits t (key # ready) waiting depth n"
    and wid: "widths oper digits t (\<lambda>k. k \<in> keys_of depth) bnd"
    and c: "key_cost oper t key (rows_of (rule_rows t) key) d0 bnd = Inr (depth', bnd')"
    and p: "printable_bits digits (bound_of bnd' key)"
  shows "widths oper digits t (\<lambda>k. k \<in> insert key (keys_of depth)) bnd'"
proof -
  let ?R = "rows_of (rule_rows t)"
  from w have r: "ranked digits t depth n" and key: "key \<notin> keys_of depth"
    "set (rows_of (dependencies t) key) \<subseteq> keys_of depth" by (auto simp: walking_def)
  have rels: "set (premise_rels digits q) \<subseteq> keys_of depth" if "q \<in> set (?R k)" "k \<in> insert key (keys_of depth)" for q k
  proof -
    have "set (premise_rels digits q) \<subseteq> set (rows_of (dependencies t) k)" using tok that(1) by (auto simp: tables_ok_def)
    also have "\<dots> \<subseteq> keys_of depth" using r key(2) that(2) by (auto simp: ranked_def)
    finally show ?thesis .
  qed
  have kc: "(\<forall>j. j \<noteq> key \<longrightarrow> bound_of bnd' j = bound_of bnd j) \<and> bound_of bnd key \<le> bound_of bnd' key \<and>
   (\<forall>r \<in> set (?R key). \<exists>bits. dict_get (=) (r_order r) (rule_bits t) = Some bits \<and>
      rule_width oper digits (bound_of bnd) bits r \<le> bound_of bnd' key)"
  proof (rule key_cost_width [OF c])
    fix q assume q: "q \<in> set (?R key)"
    show "dict_get (=) (r_order q) (rule_relations t) = Some (premise_rels digits q) \<and> key \<notin> set (premise_rels digits q)"
      using tok q rels [OF q] key(1) by (auto simp: tables_ok_def costed_def)
  qed
  have same: "rule_width oper digits (bound_of bnd') bits q = rule_width oper digits (bound_of bnd) bits q"
    if "q \<in> set (?R k)" "k \<in> insert key (keys_of depth)" for q k bits
    by (rule rule_width_same) (use rels [OF that] key(1) kc in auto)
  show ?thesis
    unfolding widths_def
  proof (intro allI conjI impI ballI)
    fix k
    show "bound_of (bounds t) k \<le> bound_of bnd' k"
      using wid kc unfolding widths_def by (cases "k = key") (auto intro: order_trans)
    assume k: "k \<in> insert key (keys_of depth)"
    show "printable_bits digits (bound_of bnd' k)"
      using wid kc p k unfolding widths_def by (cases "k = key") auto
    fix q assume q: "q \<in> set (?R k)"
    show "\<exists>bits. dict_get (=) (r_order q) (rule_bits t) = Some bits \<and> rule_width oper digits (bound_of bnd') bits q \<le> bound_of bnd' k"
    proof (cases "k = key")
      case True
      with kc q same [OF q k] show ?thesis by auto
    next
      case False
      with k have "k \<in> keys_of depth" by simp
      with wid q have "\<exists>bits. dict_get (=) (r_order q) (rule_bits t) = Some bits \<and>
          rule_width oper digits (bound_of bnd) bits q \<le> bound_of bnd k" by (simp add: widths_def)
      with same [OF q k] kc False show ?thesis by simp
    qed
  qed
qed

lemma certify_loop_widths:
  "certify_loop digits oper n t ready waiting depth bnd = Inr (Some final) \<Longrightarrow> tables_ok digits t \<Longrightarrow>
     walking digits t ready waiting depth n \<Longrightarrow> widths oper digits t (\<lambda>k. k \<in> keys_of depth) bnd \<Longrightarrow>
     \<exists>bnd'. widths oper digits t (\<lambda>k. k \<in> keys_of final) bnd'"
proof (induction digits oper n t ready waiting depth bnd rule: certify_loop.induct)
  case (1 digits oper n t waiting depth bnd)
  then show ?case by auto
next
  case (2 digits oper n t key ready waiting depth bnd)
  from walking_step [OF "2.prems"(2,3), of oper bnd] obtain depth' bnd' where
    c: "key_cost oper t key (rows_of (rule_rows t) key) (dict_set (=) key 0 depth) bnd = Inr (depth', bnd')"
      "\<not> n \<le> the (dict_get (=) key depth') \<longrightarrow>
         walking digits t (snd (release (dependents (dependencies t) key) waiting ready))
           (fst (release (dependents (dependencies t) key) waiting ready)) depth' n"
      "dict_get (=) key depth' \<noteq> None" "keys_of depth' = insert key (keys_of depth)" by blast
  obtain w' r' where rel: "release (dependents (dependencies t) key) waiting ready = (w', r')" by force
  from c(3) obtain d where d: "dict_get (=) key depth' = Some d" by blast
  let ?stop = "n \<le> (case dict_get (=) key depth' of None \<Rightarrow> 0 | Some d \<Rightarrow> d) \<or> \<not> printable_bits digits (bound_of bnd' key)"
  from "2.prems"(1) c(1) rel have go: "\<not> ?stop" "certify_loop digits oper n t r' w' depth' bnd' = Inr (Some final)"
    by (auto split: if_splits)
  from c(2) rel go(1) d have "walking digits t r' w' depth' n" by simp
  moreover have "widths oper digits t (\<lambda>k. k \<in> keys_of depth') bnd'"
    unfolding c(4) by (rule widths_step [OF "2.prems"(2,3,4) c(1)]) (use go(1) in simp)
  ultimately show ?case using "2.IH" [OF go(1) refl rel [symmetric] go(2) "2.prems"(2)] by blast
qed

section \<open>Every tag is printable\<close>

definition wide_enough :: "nat \<Rightarrow> algebra \<Rightarrow> tagged list \<Rightarrow> rule list \<Rightarrow> (relkey \<Rightarrow> nat) \<Rightarrow> bool" where
  "wide_enough digits alg facts rules wide =
     ((\<forall>a \<in> set facts. fits_bits (wide (rel_of digits (answer_value a))) (tag a) \<and>
         printable_bits digits (wide (rel_of digits (answer_value a)))) \<and>
      (\<forall>r \<in> set rules. \<exists>bits. fits_bits bits (r_tag r) \<and>
         rule_width (extend_op alg) digits wide bits r \<le> wide (rel_of digits (r_head r)) \<and>
         printable_bits digits (wide (rel_of digits (r_head r)))))"

lemma scan_facts_bits:
  "scan_facts digits facts t = Some t' \<Longrightarrow>
     keys_of (dependencies t) \<subseteq> keys_of (dependencies t') \<and>
     (\<forall>k. bound_of (bounds t) k \<le> bound_of (bounds t') k) \<and>
     (\<forall>a \<in> set facts. rel_of digits (answer_value a) \<in> keys_of (dependencies t') \<and> (\<exists>bits. integer_bits digits (tag a) = Some bits \<and>
        bits \<le> bound_of (bounds t') (rel_of digits (answer_value a))))"
proof (induction facts arbitrary: t)
  case (Cons a facts)
  from Cons.prems obtain key ps bits where
    s: "shape digits (answer_value a) = Some (key, ps)" "integer_bits digits (tag a) = Some bits"
      and rest: "scan_facts digits facts (t\<lparr>fact_rows := append_row (fact_rows t) key a,
               bounds := dict_set (=) key (max (bound_of (bounds t) key) bits) (bounds t),
               dependencies := dict_setdefault (=) key [] (dependencies t)\<rparr>) = Some t'"
    by (auto split: option.splits if_splits)
  have step: "bound_of (dict_set (=) key (max (bound_of (bounds t) key) bits) (bounds t)) k \<le> bound_of (bounds t') k" for k
    using Cons.IH [OF rest] by simp
  have m: "max (bound_of (bounds t) key) bits \<le> bound_of (bounds t') key" using step [of key] by simp
  have grow: "bound_of (bounds t) k \<le> bound_of (bounds t') k" for k
    using step [of k] by (cases "k = key") auto
  have "key \<in> keys_of (dependencies t')" "keys_of (dependencies t) \<subseteq> keys_of (dependencies t')"
    using Cons.IH [OF rest] by auto
  with Cons.IH [OF rest] s shape_parts [OF s(1)] m grow show ?case by auto
qed simp

lemma scan_rules_bits:
  "scan_rules digits rules t = Some t' \<Longrightarrow> distinct (map r_order rules) \<Longrightarrow>
     bounds t' = bounds t \<and> (\<forall>n. n \<notin> r_order ` set rules \<longrightarrow> dict_get (=) n (rule_bits t') = dict_get (=) n (rule_bits t)) \<and>
     (\<forall>r \<in> set rules. \<exists>bits. integer_bits digits (r_tag r) = Some bits \<and> dict_get (=) (r_order r) (rule_bits t') = Some bits)"
proof (induction rules arbitrary: t)
  case (Cons r rules)
  from Cons.prems(1) obtain key ps bits deps rels names where
    s: "integer_bits digits (r_tag r) = Some bits"
      and rest: "scan_rules digits rules (t\<lparr>dependencies := deps, rule_rows := append_row (rule_rows t) key r,
          rule_bits := dict_set (=) (r_order r) bits (rule_bits t),
          rule_relations := dict_set (=) (r_order r) rels (rule_relations t)\<rparr>) = Some t'"
    by (auto split: option.splits if_splits)
  from Cons.IH [OF rest] Cons.prems(2) s show ?case by auto
qed simp

lemma certify_widths:
  assumes orders: "distinct (map r_order rules)" and got: "certify digits alg facts rules goal n = Inr (Some (fr, rr))"
  shows "extend_op alg \<in> set direct_names \<and> \<not> linear alg \<and> (\<exists>wide. wide_enough digits alg facts rules wide)"
proof -
  from got have declared: "extend_op alg \<in> set direct_names" "\<not> linear alg"
    by (auto simp: certify_def split: if_splits)
  from got obtain t1 t depth where
    facts: "scan_facts digits facts no_tables = Some t1" and rules: "scan_rules digits rules t1 = Some t"
    and loop: "certify_loop digits (extend_op alg) n t (ready_of t) (waiting_of t) [] (bounds t) = Inr (Some depth)"
    and len: "length depth = length (dependencies t)"
    by (auto simp: certify_def waiting_of_def ready_of_def Let_def split: if_splits option.splits)
  from certify_start [OF facts rules orders] have tok: "tables_ok digits t"
    and w: "walking digits t (ready_of t) (waiting_of t) [] n" by auto
  from certify_loop_ok [OF tok w, of "extend_op alg" "bounds t"] loop have
    fin: "ranked digits t depth n" "dict_ok (=) depth" "keys_of depth \<subseteq> keys_of (dependencies t)" by auto
  have "deps_ok (dependencies t)" using tok by (simp add: tables_ok_def)
  from all_settled [OF fin(2,3) this len] have keys: "keys_of depth = keys_of (dependencies t)" .
  have "widths (extend_op alg) digits t (\<lambda>k. k \<in> keys_of []) (bounds t)" by (simp add: widths_def keys_of_def)
  from certify_loop_widths [OF loop tok w this] obtain bnd where
    bnd: "widths (extend_op alg) digits t (\<lambda>k. k \<in> keys_of depth) bnd" by blast
  have ok0: "deps_ok (dependencies no_tables)" by (simp add: deps_ok_def rows_of_def)
  note sf = scan_facts_spec [OF facts ok0] and fb = scan_facts_bits [OF facts]
  have ok1: "deps_ok (dependencies t1)" using sf by blast
  note sr = scan_rules_spec [OF rules ok1 orders] and rb = scan_rules_bits [OF rules orders]
  have "wide_enough digits alg facts rules (bound_of bnd)"
    unfolding wide_enough_def
  proof (intro conjI ballI)
    fix a assume a: "a \<in> set facts"
    let ?k = "rel_of digits (answer_value a)"
    from fb a obtain bits where b: "integer_bits digits (tag a) = Some bits" "bits \<le> bound_of (bounds t1) ?k" by blast
    have "bound_of (bounds t1) ?k \<le> bound_of bnd ?k" using bnd rb by (simp add: widths_def)
    with integer_bits_fits [OF b(1)] b(2) show "fits_bits (bound_of bnd ?k) (tag a)" by (auto intro: fits_bits_mono)
    have "?k \<in> keys_of (dependencies t)" using fb a sr by blast
    with keys bnd show "printable_bits digits (bound_of bnd ?k)" by (simp add: widths_def)
  next
    fix r assume r: "r \<in> set rules"
    let ?k = "rel_of digits (r_head r)"
    have "key_of digits (r_head r) = Some ?k" using sr r by (auto simp: rule_flat_def key_of_def rel_of_def)
    then have "r \<in> set (rows_of (rule_rows t) ?k)" using sr sf r by (simp add: rows_of_def)
    moreover have k: "?k \<in> keys_of depth" using sr r keys by simp
    ultimately obtain bits where b: "dict_get (=) (r_order r) (rule_bits t) = Some bits"
        "rule_width (extend_op alg) digits (bound_of bnd) bits r \<le> bound_of bnd ?k" "printable_bits digits (bound_of bnd ?k)"
      using bnd by (auto simp: widths_def)
    have "integer_bits digits (r_tag r) = Some bits" using rb r b(1) by fastforce
    from integer_bits_fits [OF this] b(2,3) show "\<exists>bits. fits_bits bits (r_tag r) \<and>
         rule_width (extend_op alg) digits (bound_of bnd) bits r \<le> bound_of bnd ?k \<and> printable_bits digits (bound_of bnd ?k)"
      by blast
  qed
  with declared show ?thesis by blast
qed

end
