(* ===== verification/Evaluations.thy ===== *)
theory Evaluations
  imports Demands
begin

text \<open>
  The properties of a whole annotated evaluation (\<open>_evaluate_with_budget\<close>): exactness against the least
  model, soundness, reinterpretation of retained derivations, linear evidence and fusion, with a small
  program on which each is instantiated.
\<close>

section \<open>What a call derives\<close>

lemma read_rule_order: "read_rule n a = Inr r \<Longrightarrow> r_order r = n"
  by (auto simp: read_rule_def Let_def split: if_splits)

lemma program_from_orders:
  "program_from n atoms = Inr (facts, rules) \<Longrightarrow> distinct (map r_order rules) \<and> (\<forall>r \<in> set rules. n \<le> r_order r)"
proof (induction atoms arbitrary: n facts rules)
  case (Cons a as)
  from Cons.prems consider (rest) fs where "program_from (n + 1) as = Inr (fs, rules)"
    | (rule) q rs where "read_rule n a = Inr q" "program_from (n + 1) as = Inr (facts, rs)" "rules = q # rs"
    by (auto split: if_splits)
  then show ?case
  proof cases
    case rest
    from Cons.IH [OF this] show ?thesis by auto
  next
    case rule
    from Cons.IH [OF rule(2)] read_rule_order [OF rule(1)] rule(3) show ?thesis by force
  qed
qed simp

lemma program_orders: "program atoms = Inr (facts, rules) \<Longrightarrow> distinct (map r_order rules)"
  using program_from_orders [of 0 atoms] by (simp add: program_def)

text \<open>What every round keeps, carried from the stored facts to the answers of the call.\<close>

lemma evaluate_induct:
  assumes ev: "evaluate h eng alg space tag_less None fixpoint (evaluate_demand h eng alg space digits) atoms goal n choice = Inr res"
    and prog: "program atoms = Inr (facts, rules)" and route: "derived_route alg True rules choice"
    and start: "\<And>f t. f \<in> set facts \<Longrightarrow> variable_op alg = None \<longrightarrow> t = tag f \<Longrightarrow> Q (f\<lparr>tag := t\<rparr>)"
    and ground: "\<And>a. Q a \<Longrightarrow> is_ground (answer_value a)"
    and step: "\<And>r cs a. r \<in> set rules \<Longrightarrow> (\<And>c. c \<in> set cs \<Longrightarrow> Q c) \<Longrightarrow> rule_instance eng alg r cs a \<Longrightarrow> Q a"
    and single: "\<And>a. Q a \<Longrightarrow> P a"
    and fused: "\<And>p a t. P p \<Longrightarrow> Q a \<Longrightarrow> combine_values eng alg (tag p) (tag a) = Inr t \<Longrightarrow>
      P \<lparr>answer_value = answer_value p, tag = t, tokens_used = tokens_used p \<union> tokens_used a,
         proof_of = proof_of p @ proof_of a, derivations = derivations p @ derivations a\<rparr>"
    and a: "a \<in> set (res_answers res)"
  shows "P a \<and> match goal (answer_value a) \<noteq> None"
proof -
  obtain available out final where
    av: "concatE (mint_fact eng alg space) facts = Inr available" and
    rows: "evaluate_demand h eng alg space digits available rules goal n = Inr (Some out) \<or>
      evaluate_demand h eng alg space digits available rules goal n = Inr None \<and>
      saturate h eng alg space None rules n available (map (signature h) available) = Inr out" and
    fin: "(if ''combine-associative'' \<in> set (laws alg) then fuse h eng alg (matching goal out)
      else Inr (matching goal out)) = Inr final" and
    res: "set (res_answers res) = set final"
    by (rule evaluate_parts [OF ev prog route])
  have start': "Q x" if x: "x \<in> set available" for x
  proof -
    from minted_fact [OF av x] obtain f t where f: "f \<in> set facts" "x = f\<lparr>tag := t\<rparr>" "variable_op alg = None \<longrightarrow> t = tag f"
      by (elim bexE exE conjE)
    show ?thesis unfolding f(2) by (rule start [OF f(1,3)])
  qed
  have out: "Q x" if "x \<in> set out" for x
    using rows
  proof (elim disjE conjE)
    assume "evaluate_demand h eng alg space digits available rules goal n = Inr (Some out)"
    then show ?thesis by (rule demand_induct [OF _ program_orders [OF prog] start' ground step that])
  next
    assume "saturate h eng alg space None rules n available (map (signature h) available) = Inr out"
    then show ?thesis by (rule saturate_induct [OF _ start' _ ground step that]) simp_all
  qed
  let ?R = "\<lambda>x. P x \<and> match goal (answer_value x) \<noteq> None"
  let ?m = "matching goal out"
  have m: "Q x \<and> ?R x" if "x \<in> set ?m" for x using that out single by (simp add: matching_def)
  show ?thesis
  proof (cases "''combine-associative'' \<in> set (laws alg)")
    case True
    with fin have fu: "fuse h eng alg ?m = Inr final" by simp
    show ?thesis
    proof (rule fuse_induct [OF fu, where P = ?R])
      show "a \<in> set final" using a res by simp
    next
      fix x
      assume "x \<in> set ?m"
      with m show "?R x" by blast
    next
      fix p x t
      assume "?R p" "x \<in> set ?m" "combine_values eng alg (tag p) (tag x) = Inr t"
      with fused [of p x t] m [of x] show "?R \<lparr>answer_value = answer_value p, tag = t, tokens_used = tokens_used p \<union> tokens_used x,
         proof_of = proof_of p @ proof_of x, derivations = derivations p @ derivations x\<rparr>" by simp
    qed
  next
    case False
    with fin a res have "a \<in> set ?m" by simp
    with m show ?thesis by blast
  qed
qed

lemma evaluate_provable:
  assumes "evaluate h eng alg space tag_less None fixpoint (evaluate_demand h eng alg space digits) atoms goal n choice = Inr res"
    and "program atoms = Inr (facts, rules)" "derived_route alg True rules choice"
    and ground: "\<And>f. f \<in> set facts \<Longrightarrow> is_ground (answer_value f)" and "a \<in> set (res_answers res)"
  shows "provable (answer_value ` set facts) (set rules) (answer_value a) \<and> match goal (answer_value a) \<noteq> None"
proof (rule evaluate_induct [OF assms(1-3) _ _ _ _ _ assms(5),
      where Q = "\<lambda>a. provable (answer_value ` set facts) (set rules) (answer_value a)"
        and P = "\<lambda>a. provable (answer_value ` set facts) (set rules) (answer_value a)"])
  fix a
  assume "provable (answer_value ` set facts) (set rules) (answer_value a)"
  then show "is_ground (answer_value a)"
    using provable_ground [of "answer_value ` set facts" "set rules" "answer_value a"] ground by auto
next
  fix r cs a
  assume "r \<in> set rules" "\<And>c. c \<in> set cs \<Longrightarrow> provable (answer_value ` set facts) (set rules) (answer_value c)"
    "rule_instance eng alg r cs a"
  then show "provable (answer_value ` set facts) (set rules) (answer_value a)"
    using instance_provable [of r "set rules" eng alg cs a "answer_value ` set facts"] by simp
next
  fix f t
  assume "f \<in> set facts"
  then show "provable (answer_value ` set facts) (set rules) (answer_value (f\<lparr>tag := t\<rparr>))"
    by (intro provable.stored) simp
qed simp_all

section \<open>Reinterpreting, and spending evidence\<close>

definition own_inputs :: "algebra \<Rightarrow> bool" where
  "own_inputs alg = (variable_op alg = None \<and> alg_name alg \<notin> {''bool'', ''bag'', ''set'', ''counting'', ''prov''})"

definition plain_rule :: "rule \<Rightarrow> bool" where
  "plain_rule r = (r_guard r = None \<and> \<not> headed_tag (r_tag r) ''function'' \<and> coefficient (r_tag r) = r_tag r)"

definition reads_back :: "engine \<Rightarrow> algebra \<Rightarrow> string \<Rightarrow> tagged \<Rightarrow> bool" where
  "reads_back eng alg space a = (\<exists>t. derivations a = [t] \<and> interpret_trace eng alg space t = Inr (tag a))"

lemma interpret_children:
  "(\<And>c. c \<in> set cs \<Longrightarrow> reads_back eng alg space c) \<Longrightarrow>
     foldE (\<lambda>v c. bindE c (extend_values eng alg v)) v (map (interpret_trace eng alg space) (concat (map derivations cs))) =
     foldE (extend_values eng alg) v (map tag cs)"
proof (induction cs arbitrary: v)
  case (Cons c cs)
  from Cons.prems [of c] obtain t where t: "derivations c = [t]" "interpret_trace eng alg space t = Inr (tag c)"
    by (auto simp: reads_back_def)
  have "\<And>v. foldE (\<lambda>v c. bindE c (extend_values eng alg v)) v (map (interpret_trace eng alg space) (concat (map derivations cs))) =
     foldE (extend_values eng alg) v (map tag cs)"
    by (rule Cons.IH) (rule Cons.prems, simp)
  with t show ?case by simp
qed simp

lemma check_tags_all: "check_tags eng alg ts = Inr () \<Longrightarrow> t \<in> set ts \<Longrightarrow> check_values eng alg [t] = Inr ()"
  by (induction ts) auto

lemma instance_reads_back:
  assumes alg: "own_inputs alg" and r: "plain_rule r" "check_values eng alg [r_tag r] = Inr ()"
    and inst: "rule_instance eng alg r cs a" and cs: "\<And>c. c \<in> set cs \<Longrightarrow> reads_back eng alg space c"
  shows "reads_back eng alg space a"
proof -
  from inst r(1) have d: "derivations a =
      [Trace (r_order r) (r_tag r) (concat (map derivations cs)) True (Some (answer_value a)) None]"
    by (auto simp: rule_instance_def plain_rule_def)
  have nl: "\<not> labelled r" using r(1) by (simp add: plain_rule_def labelled_def)
  have "foldE (extend_values eng alg) (r_tag r) (map tag cs) = Inr (tag a)"
    using inst nl alg by (simp add: rule_instance_def own_inputs_def)
  with d r alg interpret_children [OF cs, where v = "r_tag r"] show ?thesis
    by (simp add: reads_back_def plain_rule_def own_inputs_def carrier_input_def)
qed

text \<open>The stored facts a derivation rests on: its fact_leaves, in order.\<close>

fun fact_leaves :: "trace \<Rightarrow> int list" where
  "fact_leaves (Trace source raw cs is_rule key guard) = (if is_rule then concat (map fact_leaves cs) else [source])"

definition spent_once :: "tagged \<Rightarrow> bool" where
  "spent_once a = (\<forall>t \<in> set (derivations a). distinct (fact_leaves t) \<and> set (fact_leaves t) \<subseteq> tokens_used a)"

lemma fact_leaves_children:
  "(\<And>c. c \<in> set cs \<Longrightarrow> \<exists>t. derivations c = [t] \<and> distinct (fact_leaves t) \<and> set (fact_leaves t) = tokens_used c) \<Longrightarrow>
     sorted_wrt disjoint_tokens cs \<Longrightarrow>
     distinct (concat (map fact_leaves (concat (map derivations cs)))) \<and>
     set (concat (map fact_leaves (concat (map derivations cs)))) = \<Union> (tokens_used ` set cs)"
proof (induction cs)
  case (Cons c cs)
  from Cons.prems(1) [of c] obtain t where t: "derivations c = [t]" "distinct (fact_leaves t)" "set (fact_leaves t) = tokens_used c"
    by auto
  have IH: "distinct (concat (map fact_leaves (concat (map derivations cs)))) \<and>
     set (concat (map fact_leaves (concat (map derivations cs)))) = \<Union> (tokens_used ` set cs)"
    by (rule Cons.IH) (use Cons.prems in auto)
  have "tokens_used c \<inter> \<Union> (tokens_used ` set cs) = {}"
    using Cons.prems(2) unfolding disjoint_tokens_def by auto
  with t IH show ?case by simp
qed simp

section \<open>A program\<close>

text \<open>Two weighted facts and a rule over one of them; tags are integers under \<open>+\<close> and \<open>*\<close>.\<close>

definition sample_engine :: engine where
  "sample_engine = \<lparr>carrier_ok = (\<lambda>_. True), real_payload = (\<lambda>_. False), real_arith = (\<lambda>_ a _. a),
     native_operation = (\<lambda>_ a _. Inr a), evaluation = (\<lambda>_. [])\<rparr>"

definition sample_algebra :: "string list \<Rightarrow> algebra" where
  "sample_algebra reqs = \<lparr>alg_name = ''weights'', combine_op = ''+'', extend_op = ''*'', zero_tag = gnd (VInt 0),
     one_tag = gnd (VInt 1), laws = [''combine-associative''], checked = True, requires = reqs,
     descending = Some True, saturation = False, variable_op = None\<rparr>"

definition edge :: "string \<Rightarrow> atom" where
  "edge a = Expression [Symbol ''edge'', Symbol a]"

definition reach :: atom where
  "reach = Expression [Symbol ''reach'']"

definition sample_atoms :: "atom list" where
  "sample_atoms = [Expression [Symbol ''fact'', gnd (VInt 2), edge ''a''],
     Expression [Symbol ''fact'', gnd (VInt 5), edge ''b''],
     Expression [Symbol ''rule'', gnd (VInt 3), reach,
       Expression [Symbol ''premises'', Expression [Symbol ''edge'', Variable ''x'']]]]"

definition int_less :: "atom \<Rightarrow> atom \<Rightarrow> bool" where
  "int_less a b = (case (a, b) of (Grounded (VInt i) _, Grounded (VInt j) _) \<Rightarrow> i < j | _ \<Rightarrow> False)"

definition sample_run :: "string list \<Rightarrow> alg_error + evaluation_result" where
  "sample_run reqs = evaluate sample_host sample_engine (sample_algebra reqs) ''&self'' int_less None (\<lambda>_. Inr [])
     (evaluate_demand sample_host sample_engine (sample_algebra reqs) ''&self'' 0)
     sample_atoms (Variable ''g'') 4 (Some True)"

text \<open>What the run answers.\<close>

definition sample_program :: "tagged list \<times> rule list" where
  "sample_program = projr (program sample_atoms)"
definition sample_result :: evaluation_result where
 "sample_result = \<lparr>res_answers =
        [\<lparr>answer_value = reach, tag = gnd (VInt 21), tokens_used = {0, 1}, proof_of = [2, 0, 2, 1],
            derivations =
              [Trace 2 (gnd (VInt 3)) [Trace 0 (gnd (VInt 2)) [] False None None] True (Some reach) None,
               Trace 2 (gnd (VInt 3)) [Trace 1 (gnd (VInt 5)) [] False None None] True (Some reach) None]\<rparr>,
         \<lparr>answer_value = edge ''b'', tag = gnd (VInt 5), tokens_used = {1}, proof_of = [1],
            derivations = [Trace 1 (gnd (VInt 5)) [] False None None]\<rparr>,
         \<lparr>answer_value = edge ''a'', tag = gnd (VInt 2), tokens_used = {0}, proof_of = [0],
            derivations = [Trace 0 (gnd (VInt 2)) [] False None None]\<rparr>],
        res_fused = True, res_demand = False, res_fixpoint = False\<rparr>"

lemma sample_runs: "sample_run [] = Inr sample_result" "sample_run [''linear''] = Inr sample_result"
  by code_simp+

lemma sample_program: "program sample_atoms = Inr (fst sample_program, snd sample_program)"
  by code_simp

lemma sample_route: "derived_route (sample_algebra reqs) True rules (Some True)"
  by (simp add: derived_route_def)

lemma sample_ground: "\<forall>f \<in> set (fst sample_program). is_ground (answer_value f)"
  by code_simp

lemma sample_answer: "answer_value (hd (res_answers sample_result)) = reach" "hd (res_answers sample_result) \<in> set (res_answers sample_result)"
  by (simp_all add: sample_result_def)

lemma sample_rules: "snd sample_program = [\<lparr>r_order = 2, r_tag = gnd (VInt 3), r_head = reach, r_premises =
    [Expression [Symbol ''edge'', Variable ''x'']], r_guard = None\<rparr>]"
  by code_simp

lemma sample_facts: "map answer_value (fst sample_program) = [edge ''a'', edge ''b'']"
  by code_simp

lemma sample_model:
  assumes "provable (answer_value ` set (fst sample_program)) (set (snd sample_program)) a"
  shows "a \<in> {edge ''a'', edge ''b'', reach}"
  using assms
proof cases
  case stored
  then show ?thesis using arg_cong [OF sample_facts, of set] by auto
next
  case (derived r m as)
  then show ?thesis by (simp add: sample_rules reach_def)
qed

lemma sample_apart:
  "prints_apart sample_host (provable (answer_value ` set (fst sample_program)) (set (snd sample_program)))"
proof -
  have "\<forall>a \<in> {edge ''a'', edge ''b'', reach}. \<forall>b \<in> {edge ''a'', edge ''b'', reach}.
      str_atom sample_host a = str_atom sample_host b \<longrightarrow> atom_eq a b" by code_simp
  then show ?thesis unfolding prints_apart_def using sample_model by blast
qed

text \<open>Every answer of the round loop is a matching consequence of the stored facts, for any rules, guards,
  labels and laws (only the facts must be ground).\<close>

theorem evaluate_sound:
  assumes "evaluate h eng alg space tag_less None fixpoint (evaluate_demand h eng alg space digits) atoms goal n choice = Inr res"
    and "program atoms = Inr (facts, rules)" "derived_route alg True rules choice"
    and "\<forall>f \<in> set facts. is_ground (answer_value f)" "a \<in> set (res_answers res)"
  shows "provable (answer_value ` set facts) (set rules) (answer_value a) \<and> (\<exists>m. fits m goal (answer_value a))"
  using evaluate_provable [OF assms(1-3) _ assms(5)] assms(4) by (auto simp: match_None_iff simp del: not_None_eq)

theorem evaluate_sound_witness:
  "provable (answer_value ` set (fst sample_program)) (set (snd sample_program)) reach"
  using evaluate_sound [OF sample_runs(1) [unfolded sample_run_def] sample_program sample_route sample_ground
    sample_answer(2)] by (simp only: sample_answer(1))

text \<open>C8. Reinterpreting an answer's retained derivations under the carrier that computed it gives back its
  tag: derivations record everything the tag was computed from. (The carriers that read inputs as one,
  minted inputs, guards and labels are refused or defined otherwise; a rule tag must not unwrap twice.)\<close>

theorem evaluate_reinterprets:
  assumes "evaluate h eng alg space tag_less None fixpoint (evaluate_demand h eng alg space digits) atoms goal n choice = Inr res"
    and "program atoms = Inr (facts, rules)" "derived_route alg True rules choice"
    and "\<forall>f \<in> set facts. is_ground (answer_value f)" "own_inputs alg" "\<forall>r \<in> set rules. plain_rule r"
    and "a \<in> set (res_answers res)"
  shows "interpret_alternatives eng alg space (derivations a) = Inr (tag a)"
proof -
  let ?Q = "\<lambda>a. reads_back eng alg space a \<and> is_ground (answer_value a)"
  let ?P = "\<lambda>a. derivations a \<noteq> [] \<and> interpret_alternatives eng alg space (derivations a) = Inr (tag a)"
  obtain available out final where
    facts: "check_tags eng alg (map tag facts) = Inr ()" and
    rules: "check_tags eng alg (map r_tag (filter (\<lambda>r. \<not> labelled r) rules)) = Inr ()"
    by (rule evaluate_parts [OF assms(1-3)])
  have "?P a \<and> match goal (answer_value a) \<noteq> None"
  proof (rule evaluate_induct [OF assms(1-3) _ _ _ _ _ assms(7), where Q = ?Q and P = ?P])
    fix f t
    assume f: "f \<in> set facts" and t: "variable_op alg = None \<longrightarrow> t = tag f"
    from program_facts [OF assms(2) [unfolded program_def] f] obtain k raw where
      d: "f = \<lparr>answer_value = answer_value f, tag = coefficient raw, tokens_used = {k}, proof_of = [k],
        derivations = [Trace k raw [] False None None]\<rparr>" by (elim exE)
    have tg: "tag f = coefficient raw" by (subst d) simp
    have dv: "derivations f = [Trace k raw [] False None None]" by (subst d) simp
    have "check_values eng alg [coefficient raw] = Inr ()"
      using check_tags_all [OF facts] f tg by (metis imageI list.set_map)
    then show "?Q (f\<lparr>tag := t\<rparr>)"
      using f t tg dv assms(4,5) by (simp add: reads_back_def carrier_input_def own_inputs_def)
  next
    fix r cs x
    assume r: "r \<in> set rules" and cs: "\<And>c. c \<in> set cs \<Longrightarrow> ?Q c" and inst: "rule_instance eng alg r cs x"
    have "plain_rule r" using r assms(6) by blast
    moreover have "check_values eng alg [r_tag r] = Inr ()"
      using check_tags_all [OF rules] r \<open>plain_rule r\<close> by (simp add: plain_rule_def labelled_def)
    ultimately have "reads_back eng alg space x"
      using instance_reads_back [OF assms(5) _ _ inst] cs by blast
    then show "?Q x" using inst by (simp add: rule_instance_def)
  next
    fix p x t
    assume "?P p" "?Q x" "combine_values eng alg (tag p) (tag x) = Inr t"
    then show "?P \<lparr>answer_value = answer_value p, tag = t, tokens_used = tokens_used p \<union> tokens_used x,
         proof_of = proof_of p @ proof_of x, derivations = derivations p @ derivations x\<rparr>"
      by (auto simp: reads_back_def interpret_alternatives_def foldE_append split: list.splits)
  qed (auto simp: reads_back_def interpret_alternatives_def)
  then show ?thesis by blast
qed

theorem evaluate_reinterprets_witness:
  "interpret_alternatives sample_engine (sample_algebra []) ''&self'' (derivations (hd (res_answers sample_result))) =
     Inr (gnd (VInt 21))"
proof -
  have "own_inputs (sample_algebra [])" "\<forall>r \<in> set (snd sample_program). plain_rule r"
    "tag (hd (res_answers sample_result)) = gnd (VInt 21)" by code_simp+
  with evaluate_reinterprets [OF sample_runs(1) [unfolded sample_run_def] sample_program sample_route sample_ground
    _ _ sample_answer(2)] show ?thesis by simp
qed

text \<open>C9. Under a linear carrier no derivation spends a stored fact twice: the fact_leaves of every alternative
  are distinct and are accounted in the answer's evidence.\<close>

theorem linear_evidence_spent_once:
  assumes "evaluate h eng alg space tag_less None fixpoint (evaluate_demand h eng alg space digits) atoms goal n choice = Inr res"
    and "program atoms = Inr (facts, rules)" "derived_route alg True rules choice"
    and "\<forall>f \<in> set facts. is_ground (answer_value f)" "''linear'' \<in> set (requires alg)"
    and "a \<in> set (res_answers res)"
  shows "spent_once a"
proof -
  let ?Q = "\<lambda>a. (\<exists>t. derivations a = [t] \<and> distinct (fact_leaves t) \<and> set (fact_leaves t) = tokens_used a) \<and>
    is_ground (answer_value a)"
  have "spent_once a \<and> match goal (answer_value a) \<noteq> None"
  proof (rule evaluate_induct [OF assms(1-3) _ _ _ _ _ assms(6), where Q = ?Q and P = spent_once])
    fix f t
    assume f: "f \<in> set facts"
    from program_facts [OF assms(2) [unfolded program_def] f] obtain k raw where
      d: "f = \<lparr>answer_value = answer_value f, tag = coefficient raw, tokens_used = {k}, proof_of = [k],
        derivations = [Trace k raw [] False None None]\<rparr>" by (elim exE)
    have "tokens_used f = {k}" "derivations f = [Trace k raw [] False None None]" by (subst d, simp)+
    then show "?Q (f\<lparr>tag := t\<rparr>)" using f assms(4) by simp
  next
    fix r cs x
    assume cs: "\<And>c. c \<in> set cs \<Longrightarrow> ?Q c" and inst: "rule_instance eng alg r cs x"
    from inst obtain g where d: "derivations x =
        [Trace (r_order r) (r_tag r) (concat (map derivations cs)) True (Some (answer_value x)) g]"
      by (auto simp: rule_instance_def)
    have "sorted_wrt disjoint_tokens cs" "tokens_used x = \<Union> (tokens_used ` set cs)"
      using inst assms(5) by (auto simp: rule_instance_def linear_def)
    with fact_leaves_children [of cs] cs d inst show "?Q x" by (simp add: rule_instance_def)
  next
    fix p x t
    assume "spent_once p" "?Q x"
    then show "spent_once \<lparr>answer_value = answer_value p, tag = t, tokens_used = tokens_used p \<union> tokens_used x,
         proof_of = proof_of p @ proof_of x, derivations = derivations p @ derivations x\<rparr>"
      by (auto simp: spent_once_def)
  next
    fix x :: tagged
    assume "?Q x"
    then show "spent_once x" by (elim conjE exE) (simp add: spent_once_def)
  next
    fix x :: tagged
    assume "?Q x"
    then show "is_ground (answer_value x)" by simp
  qed
  then show ?thesis by blast
qed

theorem linear_evidence_spent_once_witness: "spent_once (hd (res_answers sample_result))"
proof -
  have "''linear'' \<in> set (requires (sample_algebra [''linear'']))" by code_simp
  from linear_evidence_spent_once [OF sample_runs(2) [unfolded sample_run_def] sample_program sample_route
    sample_ground this sample_answer(2)] show ?thesis .
qed

section \<open>Fusion\<close>

definition merges :: "engine \<Rightarrow> algebra \<Rightarrow> tagged list \<Rightarrow> tagged \<Rightarrow> bool" where
  "merges eng alg same x =
     (same \<noteq> [] \<and> answer_value x = answer_value (hd same) \<and>
      foldE (combine_values eng alg) (tag (hd same)) (map tag (tl same)) = Inr (tag x) \<and>
      tokens_used x = \<Union> (tokens_used ` set same) \<and> proof_of x = concat (map proof_of same) \<and>
      derivations x = concat (map derivations same))"

fun slot :: "engine \<Rightarrow> algebra \<Rightarrow> tagged list \<Rightarrow> tagged option \<Rightarrow> bool" where
  "slot eng alg same None = (same = [])"
| "slot eng alg same (Some x) = merges eng alg same x"

definition fused_so_far :: "host \<Rightarrow> engine \<Rightarrow> algebra \<Rightarrow> tagged list \<Rightarrow> (string, tagged) dict \<Rightarrow> bool" where
  "fused_so_far h eng alg as d = (dict_ok (=) d \<and>
     (\<forall>k. slot eng alg (filter (\<lambda>a. printed h a = k) as) (dict_get (=) k d)))"

lemma merges_snoc:
  "merges eng alg same p \<Longrightarrow> combine_values eng alg (tag p) (tag a) = Inr t \<Longrightarrow>
     merges eng alg (same @ [a]) \<lparr>answer_value = answer_value p, tag = t, tokens_used = tokens_used p \<union> tokens_used a,
         proof_of = proof_of p @ proof_of a, derivations = derivations p @ derivations a\<rparr>"
  by (auto simp: merges_def foldE_append)

lemma fused_step:
  assumes "fused_so_far h eng alg seen d" "merges eng alg (filter (\<lambda>b. printed h b = printed h a) seen @ [a]) x"
  shows "fused_so_far h eng alg (seen @ [a]) (dict_set (=) (printed h a) x d)"
  unfolding fused_so_far_def
proof (intro conjI allI)
  show "dict_ok (=) (dict_set (=) (printed h a) x d)"
    using assms(1) by (simp add: fused_so_far_def plain_key.dict_ok_set)
next
  fix k
  show "slot eng alg (filter (\<lambda>a. printed h a = k) (seen @ [a])) (dict_get (=) k (dict_set (=) (printed h a) x d))"
  proof (cases "printed h a = k")
    case True
    with assms(2) show ?thesis by simp
  next
    case False
    then have "filter (\<lambda>a. printed h a = k) (seen @ [a]) = filter (\<lambda>a. printed h a = k) seen" by simp
    with False assms(1) show ?thesis unfolding fused_so_far_def by simp
  qed
qed

lemma fused_get:
  "fused_so_far h eng alg seen d \<Longrightarrow> dict_get (=) k d = None \<Longrightarrow> filter (\<lambda>a. printed h a = k) seen = []"
  "fused_so_far h eng alg seen d \<Longrightarrow> dict_get (=) k d = Some x \<Longrightarrow> merges eng alg (filter (\<lambda>a. printed h a = k) seen) x"
  unfolding fused_so_far_def by (metis slot.simps(1), metis slot.simps(2))

lemma fuse_loop_groups:
  "fuse_loop h eng alg as d = Inr out \<Longrightarrow> fused_so_far h eng alg seen d \<Longrightarrow> fused_so_far h eng alg (seen @ as) out"
proof (induction as arbitrary: d seen)
  case (Cons a as)
  let ?k = "printed h a"
  show ?case
  proof (cases "dict_get (=) ?k d")
    case None
    with Cons.prems(1) have rest: "fuse_loop h eng alg as (dict_set (=) ?k a d) = Inr out" by (simp add: printed_def)
    have "merges eng alg (filter (\<lambda>b. printed h b = ?k) seen @ [a]) a"
      unfolding fused_get(1) [OF Cons.prems(2) None] by (simp add: merges_def)
    from Cons.IH [OF rest fused_step [OF Cons.prems(2) this]] show ?thesis by simp
  next
    case (Some p)
    then obtain t where t: "combine_values eng alg (tag p) (tag a) = Inr t" and rest: "fuse_loop h eng alg as
        (dict_set (=) ?k \<lparr>answer_value = answer_value p, tag = t, tokens_used = tokens_used p \<union> tokens_used a,
         proof_of = proof_of p @ proof_of a, derivations = derivations p @ derivations a\<rparr> d) = Inr out"
      using Cons.prems(1) by (auto simp: printed_def)
    note merges_snoc [OF fused_get(2) [OF Cons.prems(2) Some] t]
    from Cons.IH [OF rest fused_step [OF Cons.prems(2) this]] show ?thesis by simp
  qed
qed simp

text \<open>Fusion answers one entry per printed conclusion, in the order of first appearance, and each entry
  is the fold of its same: the first value, the tags combined from the left, the evidence united, the
  proofs and derivations joined in order.\<close>

theorem fuse_per_conclusion:
  assumes "fuse h eng alg as = Inr out"
  shows "map (printed h) out = keep_first (map (printed h) as) [] \<and>
    (\<forall>x \<in> set out. merges eng alg (filter (\<lambda>a. printed h a = printed h x) as) x)"
proof -
  from assms obtain d where d: "fuse_loop h eng alg as [] = Inr d" "out = map snd d" by (auto simp: fuse_def)
  have g: "fused_so_far h eng alg as d"
    using fuse_loop_groups [OF d(1), of "[]"] by (simp add: fused_so_far_def)
  have "merges eng alg (filter (\<lambda>a. printed h a = printed h x) as) x" if "x \<in> set out" for x
  proof -
    from that d(2) obtain k where k: "(k, x) \<in> set d" by auto
    with fuse_loop_keys [OF d(1)] have "printed h x = k" by auto
    moreover have "dict_get (=) k d = Some x"
      using plain_key.dict_get_in [OF _ k] g by (simp add: fused_so_far_def)
    ultimately show ?thesis using fused_get(2) [OF g] by simp
  qed
  with fuse_printed [OF assms] show ?thesis by blast
qed

theorem fuse_per_conclusion_witness:
  "\<exists>out. fuse sample_host sample_engine (sample_algebra []) (fst sample_program @ fst sample_program) = Inr out \<and>
     map (printed sample_host) out =
       keep_first (map (printed sample_host) (fst sample_program @ fst sample_program)) [] \<and> length out = 2"
proof -
  define as where "as = fst sample_program @ fst sample_program"
  have "\<exists>out. fuse sample_host sample_engine (sample_algebra []) as = Inr out \<and> length out = 2"
    unfolding as_def by (rule exI [of _ "projr (fuse sample_host sample_engine (sample_algebra [])
      (fst sample_program @ fst sample_program))"]) code_simp
  with fuse_per_conclusion show ?thesis unfolding as_def by blast
qed

text \<open>What a call works on, by demand or by rounds: consequences only, and every one the goal matches.\<close>

lemma minted_values:
  assumes "concatE (mint_fact eng alg space) facts = Inr available"
  shows "answer_value ` set available = answer_value ` set facts"
proof -
  have "answer_value a \<in> answer_value ` set facts" if "a \<in> set available" for a
    using minted_fact [OF assms that] by auto
  moreover have "answer_value f \<in> answer_value ` set available" if "f \<in> set facts" for f
    using minted_all [OF assms that] by (metis imageI)
  ultimately show ?thesis by blast
qed

lemma rounds_keep:
  assumes "saturate h eng alg space None rules n available seen = Inr out"
    and "seen = map (signature h) available"
  shows "set available \<subseteq> set out"
proof (cases rules)
  case Nil
  with assms have "available = out" by (cases n) auto
  then show ?thesis by simp
next
  case (Cons r rs)
  with saturate_closed [OF assms(1) [unfolded assms(2)], of r] show ?thesis by auto
qed

lemma conclusions_exact:
  fixes available :: "tagged list" and rules :: "rule list"
  defines "P \<equiv> provable (answer_value ` set available) (set rules)"
  assumes rows: "evaluate_demand h eng alg space digits available rules goal n = Inr (Some out) \<or>
      saturate h eng alg space None rules n available (map (signature h) available) = Inr out"
    and orders: "distinct (map r_order rules)" and ground: "\<And>f. f \<in> set available \<Longrightarrow> is_ground (answer_value f)"
  shows "c \<in> set out \<Longrightarrow> P (answer_value c)"
    and "(\<And>r. r \<in> set rules \<Longrightarrow> r_guard r = None) \<Longrightarrow> prints_apart h P \<Longrightarrow> P y \<Longrightarrow> match goal y \<noteq> None \<Longrightarrow>
      \<exists>c \<in> set out. atom_eq (answer_value c) y"
proof -
  have g: "is_ground a" if "a \<in> answer_value ` set available" for a using that ground by auto
  have gr: "is_ground (answer_value a)" if "P (answer_value a)" for a using that provable_ground [OF g] unfolding P_def by blast
  have st: "P (answer_value a)" if "a \<in> set available" for a using that unfolding P_def by (intro provable.stored) simp
  have step: "P (answer_value a)" if "r \<in> set rules" "\<And>c. c \<in> set cs \<Longrightarrow> P (answer_value c)" "rule_instance eng alg r cs a" for r cs a
    using instance_provable [OF that(1,3)] that(2) unfolding P_def by blast
  have sound: "P (answer_value c)" if c: "c \<in> set out" for c
    using rows
  proof (elim disjE)
    assume "evaluate_demand h eng alg space digits available rules goal n = Inr (Some out)"
    then show ?thesis by (rule demand_induct [where Q = "\<lambda>a. P (answer_value a)", OF _ orders st gr step c])
  next
    assume "saturate h eng alg space None rules n available (map (signature h) available) = Inr out"
    then show ?thesis unfolding P_def by (rule saturate_sound [OF _ _ g c]) simp_all
  qed
  then show "c \<in> set out \<Longrightarrow> P (answer_value c)" .
  assume guards: "\<And>r. r \<in> set rules \<Longrightarrow> r_guard r = None" and apart: "prints_apart h P" and y: "P y" "match goal y \<noteq> None"
  show "\<exists>c \<in> set out. atom_eq (answer_value c) y"
    using rows
  proof (elim disjE)
    assume "evaluate_demand h eng alg space digits available rules goal n = Inr (Some out)"
    from demand_complete [OF this orders ground guards apart [unfolded P_def] y(1) [unfolded P_def] y(2)] show ?thesis .
  next
    assume sat: "saturate h eng alg space None rules n available (map (signature h) available) = Inr out"
    have start: "\<exists>c \<in> set out. answer_value c = a" if "a \<in> answer_value ` set available" for a
      using that rounds_keep [OF sat refl] by blast
    show ?thesis
      by (rule closed_complete [OF _ start sound [unfolded P_def] g guards apart [unfolded P_def] y(1) [unfolded P_def]])
        (use saturate_closed [OF sat] in auto)
  qed
qed

text \<open>C7. With stored facts and unguarded rules, and where distinct conclusions print apart, the round loop
  answers the goal exactly: an atom is (equal to) an answer if and only if it is (equal to) a matching
  member of the least model of the program.\<close>

theorem evaluate_least_model:
  assumes "evaluate h eng alg space tag_less None fixpoint (evaluate_demand h eng alg space digits) atoms goal n choice = Inr res"
    and "program atoms = Inr (facts, rules)" "derived_route alg True rules choice"
    and "\<forall>f \<in> set facts. is_ground (answer_value f)" "\<forall>r \<in> set rules. r_guard r = None"
    and "prints_apart h (provable (answer_value ` set facts) (set rules))"
  shows "(\<exists>a \<in> set (res_answers res). atom_eq (answer_value a) x) \<longleftrightarrow>
    (\<exists>y. provable (answer_value ` set facts) (set rules) y \<and> match goal y \<noteq> None \<and> atom_eq y x)"
proof
  let ?P = "provable (answer_value ` set facts) (set rules)"
  assume "\<exists>a \<in> set (res_answers res). atom_eq (answer_value a) x"
  then obtain a where "a \<in> set (res_answers res)" "atom_eq (answer_value a) x" by blast
  with evaluate_provable [OF assms(1-3), of a] assms(4) show "\<exists>y. ?P y \<and> match goal y \<noteq> None \<and> atom_eq y x"
    by (intro exI [of _ "answer_value a"]) simp
next
  let ?P = "provable (answer_value ` set facts) (set rules)"
  assume "\<exists>y. ?P y \<and> match goal y \<noteq> None \<and> atom_eq y x"
  then obtain y where y: "?P y" "match goal y \<noteq> None" "atom_eq y x" by blast
  obtain available out final where
    "check_tags eng alg (map tag facts) = Inr ()"
    "check_tags eng alg (map r_tag (filter (\<lambda>r. \<not> labelled r) rules)) = Inr ()" and
    av: "concatE (mint_fact eng alg space) facts = Inr available" and
    rows: "evaluate_demand h eng alg space digits available rules goal n = Inr (Some out) \<or>
      evaluate_demand h eng alg space digits available rules goal n = Inr None \<and>
      saturate h eng alg space None rules n available (map (signature h) available) = Inr out" and
    fin: "(if ''combine-associative'' \<in> set (laws alg) then fuse h eng alg (matching goal out)
      else Inr (matching goal out)) = Inr final" and
    res: "set (res_answers res) = set final"
    by (rule evaluate_parts [OF assms(1-3)])
  have stored: "answer_value ` set available = answer_value ` set facts"
    by (rule minted_values [OF av])
  have ground: "is_ground (answer_value f)" if "f \<in> set available" for f
    using minted_fact [OF av that] assms(4) by auto
  have rows: "evaluate_demand h eng alg space digits available rules goal n = Inr (Some out) \<or>
      saturate h eng alg space None rules n available (map (signature h) available) = Inr out"
    using rows by blast
  note exact = conclusions_exact [OF _ program_orders [OF assms(2)], where available = available and n = n and out = out
      and h = h and eng = eng and alg = alg and space = space and digits = digits and goal = goal, unfolded stored]
  have sound: "?P (answer_value c)" if "c \<in> set out" for c
    using exact(1) [OF rows ground that] by simp
  have "\<exists>c \<in> set out. atom_eq (answer_value c) y"
    using exact(2) [OF rows ground _ assms(6) y(1,2)] assms(5) by simp
  then obtain c where c: "c \<in> set out" "atom_eq (answer_value c) y" by blast
  have m: "match goal (answer_value c) \<noteq> None"
    by (rule match_cong [OF _ y(2)]) (use c(2) in \<open>simp add: atom_eq_core\<close>)
  let ?m = "matching goal out"
  have cm: "c \<in> set ?m" using c(1) m by (simp add: matching_def)
  have "\<exists>a \<in> set final. printed h a = printed h c"
  proof (cases "''combine-associative'' \<in> set (laws alg)")
    case True
    with fin have "fuse h eng alg ?m = Inr final" by simp
    then have "printed h ` set final = printed h ` set ?m"
      using arg_cong [OF fuse_printed, of h eng alg ?m final set] by (simp add: keep_first_set)
    then have "printed h c \<in> printed h ` set final" using imageI [OF cm, of "printed h"] by (simp only:)
    then obtain a where "a \<in> set final" "printed h c = printed h a" by (rule imageE) simp
    then show ?thesis by (intro bexI [of _ a]) simp_all
  next
    case False
    with fin cm show ?thesis by auto
  qed
  then obtain a where a: "a \<in> set final" "printed h a = printed h c" by blast
  with evaluate_provable [OF assms(1-3), of a] assms(4) res have "?P (answer_value a)" by simp
  with a(2) sound [OF c(1)] assms(6) have "atom_eq (answer_value a) (answer_value c)"
    unfolding prints_apart_def printed_def by blast
  with c(2) y(3) have "atom_eq (answer_value a) x" by (simp add: atom_eq_core)
  with a(1) res show "\<exists>a \<in> set (res_answers res). atom_eq (answer_value a) x" by blast
qed

theorem evaluate_least_model_witness:
  "\<exists>a \<in> set (res_answers sample_result). atom_eq (answer_value a) reach"
proof -
  let ?P = "provable (answer_value ` set (fst sample_program)) (set (snd sample_program))"
  have "?P reach \<and> match (Variable ''g'') reach \<noteq> None \<and> atom_eq reach reach"
  proof (intro conjI)
    have "answer_value ` set (fst sample_program) = {edge ''a'', edge ''b''}"
      using arg_cong [OF sample_facts, of set] by simp
    then have "?P (edge ''a'')" by (intro provable.stored) simp
    moreover have "list_all2 (fits [''x'' \<mapsto> Symbol ''a'']) [Expression [Symbol ''edge'', Variable ''x'']] [edge ''a'']"
      by (simp add: edge_def atom_eq_core)
    ultimately have "?P (subst_rec [''x'' \<mapsto> Symbol ''a''] reach)"
      using provable.derived [of _ "set (snd sample_program)" "[''x'' \<mapsto> Symbol ''a'']" "[edge ''a'']"]
      by (simp add: sample_rules names_of_def reach_def)
    then show "?P reach" by (simp add: reach_def)
    show "match (Variable ''g'') reach \<noteq> None" by code_simp
  qed (simp add: atom_eq_core)
  moreover have "\<forall>r \<in> set (snd sample_program). r_guard r = None" by (simp add: sample_rules)
  ultimately show ?thesis
    using evaluate_least_model [OF sample_runs(1) [unfolded sample_run_def] sample_program sample_route sample_ground
      _ sample_apart, of reach] by blast
qed

end
