(* ===== verification/Accounts.thy ===== *)
theory Accounts
  imports Evaluations Bits "HOL-Library.Multiset"
begin

text \<open>
  Proofs one by one. A proof is told apart by the numbers it is made of (\<open>proof_of\<close>), which read back uniquely
  as a tree; its \<open>account\<close> is everything an answer says of it: the conclusion, the tag, the evidence, the numbers and the
  retained derivation. Either route of an evaluation answers exactly the proofs of its program, each with its account.
\<close>

section \<open>Accounts\<close>

text \<open>Conclusions are compared as atoms are, by their cores.\<close>

fun trace_core :: "trace \<Rightarrow> trace" where
  "trace_core (Trace source raw cs is_rule key guard) =
     Trace source raw (map trace_core cs) is_rule (map_option core key) guard"

type_synonym account = "atom \<times> atom \<times> int set \<times> int list \<times> trace list"

definition account :: "tagged \<Rightarrow> account" where
  "account a = (core (answer_value a), tag a, tokens_used a, proof_of a, map trace_core (derivations a))"

lemma account_parts:
  "account a = account b \<Longrightarrow> atom_eq (answer_value a) (answer_value b) \<and> tag a = tag b \<and> tokens_used a = tokens_used b
     \<and> proof_of a = proof_of b \<and> map trace_core (derivations a) = map trace_core (derivations b)"
  by (simp add: account_def atom_eq_core)

lemma accounts_parts:
  assumes "map account cs = map account ds"
  shows "list_all2 atom_eq (map answer_value cs) (map answer_value ds)" "map tag cs = map tag ds"
    "tokens_used ` set cs = tokens_used ` set ds" "map proof_of cs = map proof_of ds"
    "map trace_core (concat (map derivations cs)) = map trace_core (concat (map derivations ds))"
proof -
  have len: "length cs = length ds" using map_eq_imp_length_eq [OF assms] .
  have each: "account (cs ! i) = account (ds ! i)" if "i < length ds" for i
    using arg_cong [OF assms, of "\<lambda>xs. xs ! i"] that len by simp
  note parts = account_parts [OF each]
  show "list_all2 atom_eq (map answer_value cs) (map answer_value ds)"
    using parts len by (simp add: list_all2_conv_all_nth)
  show "map tag cs = map tag ds" "map proof_of cs = map proof_of ds" using parts len by (auto intro!: nth_equalityI)
  have "map tokens_used cs = map tokens_used ds" using parts len by (auto intro!: nth_equalityI)
  from arg_cong [OF this, of set] show "tokens_used ` set cs = tokens_used ` set ds" by simp
  have "map (map trace_core \<circ> derivations) cs = map (map trace_core \<circ> derivations) ds"
    using parts len by (auto intro!: nth_equalityI)
  then show "map trace_core (concat (map derivations cs)) = map trace_core (concat (map derivations ds))"
    by (simp add: map_concat)
qed

section \<open>An instance has the account its premises give it\<close>

lemma fits_determined:
  "fits m p a \<Longrightarrow> fits m' p a' \<Longrightarrow> atom_eq a a' \<Longrightarrow> x \<in> set (var_occs p) \<Longrightarrow> x \<noteq> ''_'' \<Longrightarrow>
     \<exists>v w. m x = Some v \<and> m' x = Some w \<and> atom_eq v w"
proof (induction p arbitrary: a a')
  case (Variable y)
  then show ?case by (auto simp: atom_eq_core split: option.splits)
next
  case (Expression ps)
  then have a: "a = Expression (kids a)" "a' = Expression (kids a')" by (simp_all add: expression_kids)
  have eq: "list_all2 atom_eq (kids a) (kids a')"
    using Expression.prems(3) atom_eq_Expression [of "kids a" "kids a'"] a by simp
  from Expression.prems(4) obtain q where "q \<in> set ps" "x \<in> set (var_occs q)" by auto
  then obtain i where i: "i < length ps" "x \<in> set (var_occs (ps ! i))" by (metis in_set_conv_nth)
  show ?case
  proof (rule Expression.IH)
    show "ps ! i \<in> set ps" using i(1) by simp
    show "fits m (ps ! i) (kids a ! i)" "fits m' (ps ! i) (kids a' ! i)"
      using Expression.prems(1,2) i(1) by (auto simp: list_all2_conv_all_nth)
    show "atom_eq (kids a ! i) (kids a' ! i)"
      using eq Expression.prems(1) i(1) by (auto simp: list_all2_conv_all_nth)
  qed (use i Expression.prems in auto)
qed auto

lemma fits_determined_all:
  assumes "list_all2 (fits m) ps as" "list_all2 (fits m') ps as'" "list_all2 atom_eq as as'" "x \<in> names_of ps" "x \<noteq> ''_''"
  shows "\<exists>v w. m x = Some v \<and> m' x = Some w \<and> atom_eq v w"
proof -
  from assms(4) obtain q where "q \<in> set ps" "x \<in> set (var_occs q)" by (auto simp: names_of_def)
  then obtain i where i: "i < length ps" "x \<in> set (var_occs (ps ! i))" by (metis in_set_conv_nth)
  show ?thesis
    by (rule fits_determined [of m "ps ! i" "as ! i" m' "as' ! i"])
      (use assms i in \<open>auto simp: list_all2_conv_all_nth\<close>)
qed

lemma instance_account:
  assumes a: "rule_instance eng alg r cs a" and b: "rule_instance eng alg r ds b" and eq: "map account cs = map account ds"
    and r: "\<not> labelled r" "variable_op alg = None"
  shows "account a = account b"
proof -
  note parts = accounts_parts [OF eq]
  from a obtain m where m: "ground_bindings m" "dom (assigned m) \<subseteq> names_of (r_premises r)"
      "list_all2 (fits (assigned m)) (r_premises r) (map answer_value cs)" "answer_value a = subst_rec (assigned m) (r_head r)"
    by (auto simp: rule_instance_def)
  from b obtain m' where m': "ground_bindings m'" "dom (assigned m') \<subseteq> names_of (r_premises r)"
      "list_all2 (fits (assigned m')) (r_premises r) (map answer_value ds)" "answer_value b = subst_rec (assigned m') (r_head r)"
    by (auto simp: rule_instance_def)
  have det: "\<exists>v w. assigned m x = Some v \<and> assigned m' x = Some w \<and> atom_eq v w" if "x \<in> names_of (r_premises r)" "x \<noteq> ''_''" for x
    by (rule fits_determined_all [OF m(3) m'(3) parts(1) that])
  have named: "x \<noteq> ''_''" if "x \<in> dom (assigned m) \<union> dom (assigned m')" for x
    using that m(1) m'(1) unfolding ground_bindings_def by blast
  have "agrees (assigned m') m"
    unfolding agrees_def
  proof (intro allI impI)
    fix x v assume x: "assigned m x = Some v"
    then have "x \<in> names_of (r_premises r)" "x \<noteq> ''_''" using m(2) named [of x] by auto
    from det [OF this] x show "\<exists>w. assigned m' x = Some w \<and> atom_eq w v" by (auto simp: atom_eq_core)
  qed
  moreover have "dom (assigned m') \<subseteq> dom (assigned m)" using det m'(2) named by blast
  moreover have "is_ground (subst_rec (assigned m') (r_head r))" using b m'(4) by (simp add: rule_instance_def)
  ultimately have same: "atom_eq (answer_value a) (answer_value b)"
    using agrees_subst [of "assigned m'" m "r_head r"] m(4) m'(4) by simp
  have tag: "tag a = tag b" using a b r parts(2) by (simp add: rule_instance_def)
  have tok: "tokens_used a = tokens_used b" "proof_of a = proof_of b" using a b parts(3,4) by (simp_all add: rule_instance_def)
  let ?g = "map_option (\<lambda>g. Expression (g # map tag cs)) (r_guard r)"
  have "derivations a = [Trace (r_order r) (r_tag r) (concat (map derivations cs)) True (Some (answer_value a)) ?g]"
    "derivations b = [Trace (r_order r) (r_tag r) (concat (map derivations ds)) True (Some (answer_value b)) ?g]"
    using a b parts(2) by (auto simp: rule_instance_def)
  with parts(5) same tag tok show ?thesis by (simp add: account_def atom_eq_core)
qed

section \<open>Proofs, and their unique readings\<close>

inductive proved :: "engine \<Rightarrow> algebra \<Rightarrow> tagged list \<Rightarrow> rule list \<Rightarrow> tagged \<Rightarrow> bool" for eng alg facts rules where
  proved_fact: "f \<in> set facts \<Longrightarrow> proved eng alg facts rules f"
| proved_rule: "r \<in> set rules \<Longrightarrow> rule_instance eng alg r cs a \<Longrightarrow> (\<And>c. c \<in> set cs \<Longrightarrow> proved eng alg facts rules c) \<Longrightarrow>
     proved eng alg facts rules a"

definition numbered :: "tagged list \<Rightarrow> rule list \<Rightarrow> bool" where
  "numbered facts rules =
     ((\<forall>f \<in> set facts. proof_of f = [hd (proof_of f)]) \<and> distinct (map (\<lambda>f. hd (proof_of f)) facts @ map r_order rules))"

lemma numbered_fact: "numbered facts rules \<Longrightarrow> f \<in> set facts \<Longrightarrow> \<exists>k. proof_of f = [k] \<and> k \<notin> r_order ` set rules"
  unfolding numbered_def by (intro exI [of _ "hd (proof_of f)"]) auto

lemma numbered_facts: "numbered facts rules \<Longrightarrow> f \<in> set facts \<Longrightarrow> g \<in> set facts \<Longrightarrow> proof_of f = proof_of g \<Longrightarrow> f = g"
  using inj_onD [of "\<lambda>f. hd (proof_of f)" "set facts" f g] by (simp add: numbered_def distinct_map)

lemma numbered_rules: "numbered facts rules \<Longrightarrow> q \<in> set rules \<Longrightarrow> r \<in> set rules \<Longrightarrow> r_order q = r_order r \<Longrightarrow> q = r"
  unfolding numbered_def by (auto simp: distinct_map dest: inj_onD)

lemma instance_length: "rule_instance eng alg r cs a \<Longrightarrow> length cs = length (r_premises r)"
  unfolding rule_instance_def by (auto dest: list_all2_lengthD)

lemma instance_proof: "rule_instance eng alg r cs a \<Longrightarrow> proof_of a = r_order r # concat (map proof_of cs)"
  by (simp add: rule_instance_def)

lemma accounts_read:
  "length cs = length ds \<Longrightarrow>
   (\<And>c d u v. c \<in> set cs \<Longrightarrow> d \<in> set ds \<Longrightarrow> proof_of c @ u = proof_of d @ v \<Longrightarrow> account c = account d \<and> u = v) \<Longrightarrow>
   concat (map proof_of cs) @ u = concat (map proof_of ds) @ v \<Longrightarrow> map account cs = map account ds \<and> u = v"
proof (induction cs ds rule: list_induct2)
  case (Cons c cs d ds)
  have 1: "account c = account d \<and> concat (map proof_of cs) @ u = concat (map proof_of ds) @ v"
    by (rule Cons.prems(1)) (use Cons.prems(2) in simp_all)
  have "map account cs = map account ds \<and> u = v"
    by (rule Cons.IH [OF _ conjunct2 [OF 1]], rule Cons.prems(1)) simp_all
  with 1 show ?case by simp
qed simp

text \<open>Numbers in prefix order, as in Polish notation: no proof is a proper prefix of another.\<close>

lemma proofs_read:
  assumes num: "numbered facts rules" and plain: "\<forall>r \<in> set rules. \<not> labelled r" "variable_op alg = None"
  shows "proved eng alg facts rules a \<Longrightarrow> proved eng alg facts rules b \<Longrightarrow> proof_of a @ u = proof_of b @ v \<Longrightarrow>
    account a = account b \<and> u = v"
proof (induction arbitrary: b u v rule: proved.induct)
  case (proved_fact f)
  from numbered_fact [OF num proved_fact.hyps] obtain k where k: "proof_of f = [k]" "k \<notin> r_order ` set rules" by blast
  from proved_fact.prems(1) show ?case
  proof cases
    case g: proved_fact
    from numbered_fact [OF num g] obtain j where "proof_of b = [j]" by blast
    with proved_fact.prems(2) k numbered_facts [OF num proved_fact.hyps g] show ?thesis by simp
  next
    case (proved_rule r ds)
    with instance_proof [OF proved_rule(2)] proved_fact.prems(2) k show ?thesis by auto
  qed
next
  case (proved_rule r cs a)
  note pa = instance_proof [OF proved_rule.hyps(2)]
  from proved_rule.prems(1) show ?case
  proof cases
    case proved_fact
    from numbered_fact [OF num proved_fact] obtain k where "proof_of b = [k]" "k \<notin> r_order ` set rules" by blast
    then have "r_order r \<notin> r_order ` set rules" using proved_rule.prems(2) unfolding pa by simp
    with imageI [OF proved_rule.hyps(1), of r_order] show ?thesis by contradiction
  next
    case b: (proved_rule q ds)
    note pb = instance_proof [OF b(2)]
    have heads: "r_order r = r_order q" "concat (map proof_of cs) @ u = concat (map proof_of ds) @ v"
      using proved_rule.prems(2) unfolding pa pb append_Cons list.inject by blast+
    have q: "q = r" by (rule numbered_rules [OF num b(1) proved_rule.hyps(1) heads(1) [symmetric]])
    have len: "length cs = length ds" using instance_length [OF proved_rule.hyps(2)] instance_length [OF b(2)] q by simp
    have "map account cs = map account ds \<and> u = v"
    proof (rule accounts_read [OF len _ heads(2)])
      fix c d u' v' assume c: "c \<in> set cs" "d \<in> set ds" "proof_of c @ u' = proof_of d @ v'"
      show "account c = account d \<and> u' = v'" by (rule proved_rule.IH [OF c(1) b(3) [OF c(2)] c(3)])
    qed
    then have cs: "map account cs = map account ds" "u = v" by simp_all
    have "account a = account b"
      by (rule instance_account [OF proved_rule.hyps(2) b(2) [unfolded q] cs(1)]) (use plain proved_rule.hyps(1) in simp_all)
    with cs(2) show ?thesis by simp
  qed
qed

lemma proved_account:
  assumes "numbered facts rules" "\<forall>r \<in> set rules. \<not> labelled r" "variable_op alg = None"
    and "proved eng alg facts rules a" "proved eng alg facts rules b" "proof_of a = proof_of b"
  shows "account a = account b"
  using proofs_read [OF assms(1-5), of "[]" "[]"] assms(6) by simp

lemma signed_account:
  assumes "numbered facts rules" "\<forall>r \<in> set rules. \<not> labelled r" "variable_op alg = None"
    and "proved eng alg facts rules a" "proved eng alg facts rules b" "signature h a = signature h b"
  shows "account a = account b"
  using proved_account [OF assms(1-5)] assms(6) by (simp add: signature_def)

lemma proved_ground: "(\<And>f. f \<in> set facts \<Longrightarrow> is_ground (answer_value f)) \<Longrightarrow> proved eng alg facts rules a \<Longrightarrow> is_ground (answer_value a)"
  by (erule proved.cases) (auto simp: rule_instance_def)

section \<open>Every proof is derived\<close>

text \<open>A loop over premises whose caller offers, for each chosen answer, one with its account.\<close>

lemma premises_loop_chain:
  assumes "premises_loop eng alg r ask ps states = Inr out" "st \<in> set states" "state_covers m qs st"
    "partial_match eng alg r pool qs ds st" "list_all2 (fits m) ps (map answer_value cs)" "set ps \<subseteq> set (r_premises r)"
    and rows: "\<And>p c b rows. p \<in> set ps \<Longrightarrow> c \<in> set cs \<Longrightarrow> fits m p (answer_value c) \<Longrightarrow> ground_bindings b \<Longrightarrow> agrees m b \<Longrightarrow>
      ask (substitute p b) = Inr rows \<Longrightarrow> \<exists>c' \<in> set rows. account c' = account c \<and> c' \<in> pool"
    and ground: "\<And>c. c \<in> pool \<Longrightarrow> is_ground (answer_value c)"
  shows "\<exists>st' \<in> set out. \<exists>cs'. state_covers m (qs @ ps) st' \<and> partial_match eng alg r pool (qs @ ps) (ds @ cs') st'
    \<and> map account cs' = map account cs"
  using assms(1-6) rows
proof (induction ps arbitrary: states st qs ds cs)
  case Nil
  then show ?case by (intro bexI [of _ st] exI [of _ "[]"]) auto
next
  case (Cons p ps)
  then obtain c cs1 where cs: "cs = c # cs1" by (cases cs) auto
  let ?go = "\<lambda>st. let pattern = substitute p (d_bindings st) in bindE (ask pattern) (concatE (try_candidate eng alg r pattern st))"
  from Cons.prems(1) obtain nexts where n: "concatE ?go states = Inr nexts"
      "(if nexts = [] then Inr [] else premises_loop eng alg r ask ps nexts) = Inr out" by auto
  from concatE_Inr_all [OF n(1) Cons.prems(2)] obtain ys where ys: "?go st = Inr ys" "set ys \<subseteq> set nexts" by blast
  then obtain rows where r: "ask (substitute p (d_bindings st)) = Inr rows"
      "concatE (try_candidate eng alg r (substitute p (d_bindings st)) st) rows = Inr ys" by (auto simp: Let_def)
  have fit: "fits m p (answer_value c)" using Cons.prems(5) cs by simp
  have b: "ground_bindings (d_bindings st)" "agrees m (d_bindings st)" using Cons.prems(3) by (auto simp: state_covers_def)
  have "\<exists>c' \<in> set rows. account c' = account c \<and> c' \<in> pool"
    by (rule Cons.prems(7) [OF _ _ fit b r(1)]) (simp_all add: cs)
  then obtain c' where c': "c' \<in> set rows" "account c' = account c" "c' \<in> pool" by blast
  note g = ground [OF c'(3)]
  have fc: "fits m p (answer_value c')"
    by (rule fits_cong [OF fit]) (use account_parts [OF c'(2)] in \<open>simp add: atom_eq_core\<close>)
  from concatE_Inr_all [OF r(2) c'(1)] obtain zs where
    zs: "try_candidate eng alg r (substitute p (d_bindings st)) st c' = Inr zs" "set zs \<subseteq> set ys" by blast
  from try_candidate_complete [OF Cons.prems(3) fc g zs(1)] obtain st1 where
    st1: "st1 \<in> set zs" "state_covers m (qs @ [p]) st1" by blast
  have p: "p \<in> set (r_premises r)" using Cons.prems(6) by simp
  note part = try_candidate_partial [OF Cons.prems(4) c'(3) g p zs(1) st1(1)]
  with st1(1) zs(2) ys(2) have in1: "st1 \<in> set nexts" by blast
  with n(2) have rest: "premises_loop eng alg r ask ps nexts = Inr out" by (auto split: if_splits)
  have "\<exists>st' \<in> set out. \<exists>cs'. state_covers m ((qs @ [p]) @ ps) st' \<and>
      partial_match eng alg r pool ((qs @ [p]) @ ps) ((ds @ [c']) @ cs') st' \<and> map account cs' = map account cs1"
  proof (rule Cons.IH [OF rest in1 st1(2) part])
    show "list_all2 (fits m) ps (map answer_value cs1)" "set ps \<subseteq> set (r_premises r)" using Cons.prems(5,6) cs by simp_all
    fix q x b rows
    assume "q \<in> set ps" "x \<in> set cs1" "fits m q (answer_value x)" "ground_bindings b" "agrees m b" "ask (substitute q b) = Inr rows"
    then show "\<exists>c' \<in> set rows. account c' = account x \<and> c' \<in> pool"
      by (intro Cons.prems(7) [of q x b]) (simp_all add: cs)
  qed
  then obtain st' cs2 where st': "st' \<in> set out" "state_covers m ((qs @ [p]) @ ps) st'"
      "partial_match eng alg r pool ((qs @ [p]) @ ps) ((ds @ [c']) @ cs2) st'" "map account cs2 = map account cs1" by blast
  show ?case
    by (rule bexI [OF _ st'(1)], rule exI [of _ "c' # cs2"]) (use st' c'(2) cs in simp)
qed

lemma finish_chain:
  assumes got: "finish_state eng alg space r st = Inr ys" and st: "state_covers m (r_premises r) st"
    and part: "partial_match eng alg r pool (r_premises r) cs' st" and eq: "map account cs' = map account cs"
    and inst: "rule_instance eng alg r cs a" and m: "answer_value a = subst_rec m (r_head r)" "dom m \<subseteq> names_of (r_premises r) - {''_''}"
    and r: "\<not> labelled r" "variable_op alg = None"
  shows "\<exists>x \<in> set ys. rule_instance eng alg r cs' x \<and> account x = account a"
proof -
  let ?v = "substitute (r_head r) (d_bindings st)"
  have ground: "is_ground (subst_rec m (r_head r))" using inst m(1) by (simp add: rule_instance_def)
  have v: "?v = subst_rec (assigned (d_bindings st)) (r_head r)"
    using st by (simp add: state_covers_def substitute_assigned)
  have "atom_eq ?v (subst_rec m (r_head r))"
    unfolding v by (rule agrees_subst) (use st m ground in \<open>auto simp: state_covers_def\<close>)
  with ground have nv: "\<not> has_variable ?v" by (simp add: has_variable_ground is_ground_cong)
  have "d_premise_tags st = map tag cs" using part accounts_parts(2) [OF eq] by (simp add: partial_match_def)
  then have "guard_holds eng (Expression (g # d_premise_tags st)) = Inr True" if "r_guard r = Some g" for g
    using inst that by (simp add: rule_instance_def)
  with got nv obtain x where x: "x \<in> set ys"
    by (cases "r_guard r") (auto simp: finish_state_def Let_def)
  have ix: "rule_instance eng alg r cs' x" using finish_state_instance [OF part got x] by blast
  from instance_account [OF ix inst eq r] ix x show ?thesis by blast
qed

lemma derive_chain:
  assumes got: "derive_rule_steps eng alg space r ask b = Inr out" and inst: "rule_instance eng alg r cs a"
    and m: "list_all2 (fits m) (r_premises r) (map answer_value cs)" "answer_value a = subst_rec m (r_head r)"
      "dom m \<subseteq> names_of (r_premises r) - {''_''}"
    and b: "ground_bindings b" "agrees m b" "dom (assigned b) \<subseteq> names_of (r_premises r)"
    and rows: "\<And>p c b rows. p \<in> set (r_premises r) \<Longrightarrow> c \<in> set cs \<Longrightarrow> fits m p (answer_value c) \<Longrightarrow> ground_bindings b \<Longrightarrow>
      agrees m b \<Longrightarrow> ask (substitute p b) = Inr rows \<Longrightarrow> \<exists>c' \<in> set rows. account c' = account c \<and> c' \<in> pool"
    and ground: "\<And>c. c \<in> pool \<Longrightarrow> is_ground (answer_value c)"
    and r: "\<not> labelled r" "variable_op alg = None"
  shows "\<exists>x \<in> set out. account x = account a"
proof -
  from got obtain states where
    s: "premises_loop eng alg r ask (r_premises r) [initial_state alg r b] = Inr states"
      "concatE (finish_state eng alg space r) states = Inr out"
    by (auto simp: derive_rule_steps_def)
  have "state_covers m [] (initial_state alg r b)"
    using b by (simp add: state_covers_def initial_state_def names_of_def)
  note start = this initial_partial [OF b(1,3), of eng alg pool]
  have "\<exists>st' \<in> set states. \<exists>cs'. state_covers m ([] @ r_premises r) st' \<and>
      partial_match eng alg r pool ([] @ r_premises r) ([] @ cs') st' \<and> map account cs' = map account cs"
  proof (rule premises_loop_chain [OF s(1) _ start m(1)])
    fix p c b rows
    assume "p \<in> set (r_premises r)" "c \<in> set cs" "fits m p (answer_value c)" "ground_bindings b" "agrees m b"
      "ask (substitute p b) = Inr rows"
    then show "\<exists>c' \<in> set rows. account c' = account c \<and> c' \<in> pool" by (rule rows)
  qed (use ground in simp_all)
  then obtain st cs' where
    st: "st \<in> set states" "state_covers m (r_premises r) st" "partial_match eng alg r pool (r_premises r) cs' st"
      "map account cs' = map account cs" by auto
  from concatE_Inr_all [OF s(2) st(1)] obtain ys where ys: "finish_state eng alg space r st = Inr ys" "set ys \<subseteq> set out"
    by blast
  from finish_chain [OF ys(1) st(2-4) inst m(2,3) r] ys(2) show ?thesis by blast
qed

lemma instance_match:
  assumes "rule_instance eng alg r cs a"
  obtains m where "list_all2 (fits (assigned m)) (r_premises r) (map answer_value cs)"
    "answer_value a = subst_rec (assigned m) (r_head r)" "dom (assigned m) \<subseteq> names_of (r_premises r) - {''_''}"
    "is_ground (subst_rec (assigned m) (r_head r))"
proof -
  from assms obtain m where m: "ground_bindings m" "dom (assigned m) \<subseteq> names_of (r_premises r)"
      "list_all2 (fits (assigned m)) (r_premises r) (map answer_value cs)" "answer_value a = subst_rec (assigned m) (r_head r)"
      "is_ground (answer_value a)"
    unfolding rule_instance_def by blast
  have "dom (assigned m) \<subseteq> names_of (r_premises r) - {''_''}" using m(1,2) unfolding ground_bindings_def by blast
  with m show ?thesis by (intro that [of m]) simp_all
qed

section \<open>The round loop\<close>

lemma saturate_proves:
  assumes sat: "saturate h eng alg space None rules n facts (map (signature h) facts) = Inr out"
    and num: "numbered facts rules" and plain: "\<forall>r \<in> set rules. \<not> labelled r" "variable_op alg = None"
    and ground: "\<And>f. f \<in> set facts \<Longrightarrow> is_ground (answer_value f)"
  shows "c \<in> set out \<Longrightarrow> proved eng alg facts rules c"
    and "proved eng alg facts rules a \<Longrightarrow> \<exists>c \<in> set out. account c = account a"
proof -
  let ?P = "proved eng alg facts rules"
  have groundP: "?P c \<Longrightarrow> is_ground (answer_value c)" for c by (rule proved_ground [OF ground])
  have sound: "?P c" if "c \<in> set out" for c
    by (rule saturate_induct [OF sat _ _ groundP _ that])
      (auto intro: proved.intros)
  then show "c \<in> set out \<Longrightarrow> ?P c" .
  show "?P a \<Longrightarrow> \<exists>c \<in> set out. account c = account a"
  proof (induction rule: proved.induct)
    case (proved_fact f)
    show ?case
    proof (cases "rules = []")
      case True
      with sat proved_fact show ?thesis by (cases n) auto
    next
      case False
      then obtain r where "r \<in> set rules" by (cases rules) auto
      from saturate_closed [OF sat this] proved_fact show ?thesis by blast
    qed
  next
    case (proved_rule r cs a)
    from saturate_closed [OF sat proved_rule.hyps(1)] obtain answers where
      an: "derive_rule eng alg space r out None = Inr answers" "signature h ` set answers \<subseteq> signature h ` set out" by blast
    from an(1) have steps: "derive_rule_steps eng alg space r (\<lambda>_. Inr out) [] = Inr answers" by (simp add: derive_rule_def)
    from instance_match [OF proved_rule.hyps(2)] obtain m where
      m: "list_all2 (fits (assigned m)) (r_premises r) (map answer_value cs)"
        "answer_value a = subst_rec (assigned m) (r_head r)" "dom (assigned m) \<subseteq> names_of (r_premises r) - {''_''}" .
    have "\<exists>x \<in> set answers. account x = account a"
    proof (rule derive_chain [OF steps proved_rule.hyps(2) m, where pool = "set out"])
      show "ground_bindings []" "agrees (assigned m) []" "dom (assigned []) \<subseteq> names_of (r_premises r)"
        by (simp_all add: ground_bindings_def agrees_def)
    qed (use proved_rule.IH groundP sound plain proved_rule.hyps(1) in auto)
    then obtain x where x: "x \<in> set answers" "account x = account a" by blast
    have "\<exists>cs. set cs \<subseteq> set out \<and> rule_instance eng alg r cs x"
      by (rule derive_rule_instance [OF an(1) x(1)]) (use sound groundP in auto)
    then have px: "?P x" using proved.proved_rule [OF proved_rule.hyps(1)] sound by blast
    from an(2) x(1) obtain y where y: "y \<in> set out" "signature h y = signature h x" by (metis imageE imageI subsetD)
    from signed_account [OF num plain sound [OF y(1)] px y(2)] x(2) y(1) show ?case by auto
  qed
qed

section \<open>The demand route\<close>

lemma solve_proves:
  assumes cert: "certified digits facts rules fr rr level n0"
    and num: "numbered facts rules" and plain: "\<forall>r \<in> set rules. \<not> labelled r" "variable_op alg = None"
    and ground: "\<And>f. f \<in> set facts \<Longrightarrow> is_ground (answer_value f)"
  shows "solve h eng alg space digits fr rr n d = Inr out \<Longrightarrow> demand_ok d \<Longrightarrow> in_depth digits rules level n d \<Longrightarrow>
    proved eng alg facts rules a \<Longrightarrow> meets d (answer_value a) \<Longrightarrow> \<exists>c \<in> set out. account c = account a"
proof (induction n arbitrary: d out a)
  case (Suc n)
  let ?P = "proved eng alg facts rules"
  have groundP: "?P c \<Longrightarrow> is_ground (answer_value c)" for c by (rule proved_ground [OF ground])
  have stepP: "?P x" if "r \<in> set rules" "\<And>c. c \<in> set cs \<Longrightarrow> ?P c" "rule_instance eng alg r cs x" for r cs x
    using that by (blast intro: proved.proved_rule)
  from solve_Inr [OF Suc.prems(1)] obtain answers derived where
    a: "demanded_facts digits fr d = Inr answers"
      "concatE (rule_answers h eng alg space digits fr rr n d) (rows_of rr (dm_relation d)) = Inr derived"
      "out = sort_answers (unique_answers h (answers @ derived))" by (metis nat.inject)
  have askP: "?P c" if "ask_for h eng alg space digits fr rr n pat = Inr rows" "c \<in> set rows" for pat rows c
  proof -
    from that obtain d' where d': "from_pattern digits pat = Inr d'" "solve h eng alg space digits fr rr n d' = Inr rows"
      by (auto simp: ask_for_def)
    show ?thesis
      by (rule solve_induct [where Q = ?P, OF cert proved_fact groundP stepP d'(2) from_pattern_ok [OF d'(1)] that(2)])
  qed
  have all: "?P c" if "c \<in> set (answers @ derived)" for c
    by (rule solve_step [where Q = ?P, OF cert Suc.prems(2) proved_fact groundP stepP askP a(1,2) that])
  have "\<exists>y \<in> set (answers @ derived). account y = account a"
    using Suc.prems(4)
  proof cases
    case proved_fact
    with cert obtain k ps where s: "shape digits (answer_value a) = Some (k, ps)" by (auto simp: certified_def facts_flat_def)
    with Suc.prems(5) loose_shape [OF s] have k: "k = dm_relation d" by (auto simp: meets_def)
    have "a \<in> set (rows_of fr (dm_relation d))"
      using cert proved_fact shape_parts [OF s] k by (simp add: certified_def)
    from demanded_facts_complete [OF a(1) this] s k Suc.prems(5) show ?thesis by auto
  next
    case (proved_rule r cs)
    from instance_match [OF proved_rule(2)] obtain m where
      m: "list_all2 (fits (assigned m)) (r_premises r) (map answer_value cs)"
        "answer_value a = subst_rec (assigned m) (r_head r)" "dom (assigned m) \<subseteq> names_of (r_premises r) - {''_''}" .
    have flat: "rule_flat digits r" using cert proved_rule(1) by (simp add: certified_def)
    then obtain k ps where s: "shape digits (r_head r) = Some (k, ps)" by (auto simp: rule_flat_def)
    from Suc.prems(5) obtain bs where bs: "loose (subst_rec (assigned m) (r_head r)) = Some (dm_relation d, bs)"
      "\<forall>(i, v) \<in> set (dm_bindings d). i < length bs \<and> atom_eq (bs ! i) v" unfolding m(2) meets_def by blast
    with loose_subst [OF s] have k: "k = dm_relation d" "bs = map (subst_rec (assigned m)) ps" by auto
    have key: "key_of digits (r_head r) = Some (dm_relation d)" using shape_parts [OF s] k by simp
    have r: "r \<in> set (rows_of rr (dm_relation d))" using cert proved_rule(1) key by (simp add: certified_def)
    from concatE_Inr_all [OF a(2) r] obtain ys where
      ys: "rule_answers h eng alg space digits fr rr n d r = Inr ys" "set ys \<subseteq> set derived" by blast
    have "list_all (plain_argument digits) ps" using s by (rule shape_cases) auto
    moreover have "i < length ps \<and> is_ground v \<and> atom_eq (subst_rec (assigned m) (ps ! i)) v" if "(i, v) \<in> set (dm_bindings d)" for i v
      using bs(2) k(2) that Suc.prems(2) by (auto simp: demand_ok_def)
    ultimately obtain b where b: "bind_head ps (dm_bindings d) [] = Some b" "agrees (assigned m) b"
      using bind_head_covers [of "dm_bindings d" ps "assigned m" digits "[]"] by (auto simp: agrees_def)
    have hb: "head_bindings digits r d = Inr (Some b)" using s b(1) by (simp add: head_bindings_def certified_shape_def)
    note gb = head_bindings_ok [OF flat key Suc.prems(2) hb]
    from ys(1) hb have steps: "derive_rule_steps eng alg space r (ask_for h eng alg space digits fr rr n) b = Inr ys"
      by (simp add: rule_answers_def)
    have "\<exists>x \<in> set ys. account x = account a"
    proof (rule derive_chain [OF steps proved_rule(2) m conjunct1 [OF gb] b(2) conjunct2 [OF gb], where pool = "Collect ?P"])
      fix p c bb rows
      assume p: "p \<in> set (r_premises r)" "c \<in> set cs" "fits (assigned m) p (answer_value c)" "ground_bindings bb" "agrees (assigned m) bb"
        and rows: "ask_for h eng alg space digits fr rr n (substitute p bb) = Inr rows"
      from rows obtain d' where d': "from_pattern digits (substitute p bb) = Inr d'"
          "solve h eng alg space digits fr rr n d' = Inr rows" by (auto simp: ask_for_def)
      from flat p(1) obtain kp qs where sp: "shape digits p = Some (kp, qs)" by (auto simp: rule_flat_def)
      note met = premise_met [OF sp p(4,5,3) d'(1)]
      have "in_depth digits rules level n d'"
        by (rule in_depth_premise [OF cert Suc.prems(3) proved_rule(1) key p(1)]) (use met shape_parts [OF sp] in simp)
      from Suc.IH [OF d'(2) from_pattern_ok [OF d'(1)] this proved_rule(3) [OF p(2)] conjunct2 [OF met]]
      obtain c' where "c' \<in> set rows" "account c' = account c" by blast
      with askP [OF rows] show "\<exists>c' \<in> set rows. account c' = account c \<and> c' \<in> Collect ?P" by blast
    qed (use groundP plain proved_rule(1) in auto)
    with ys(2) show ?thesis by auto
  qed
  then obtain y where y: "y \<in> set (answers @ derived)" "account y = account a" by blast
  from unique_answers_signature [OF y(1), of h] obtain c where
    c: "c \<in> set (unique_answers h (answers @ derived))" "signature h c = signature h y" by blast
  then have "c \<in> set (answers @ derived)" using unique_answers_set by blast
  from signed_account [OF num plain all [OF this] all [OF y(1)] c(2)] y(2) c(1) show ?case by (auto simp: a(3))
qed simp

section \<open>Each proof once\<close>

text \<open>Distinct signatures are distinct proofs where equal conclusions print alike: certified conclusions do, if every
  NaN does.\<close>

definition one_nan :: "host \<Rightarrow> bool" where
  "one_nan h = (\<forall>j k. float_text h (NaN j) = float_text h (NaN k))"

lemma value_text:
  assumes "one_nan h" "vcore v = vcore w"
  shows "str_value h v = str_value h w"
proof (cases "\<exists>j. v = VFloat (NaN j)")
  case True
  then obtain j where v: "v = VFloat (NaN j)" by blast
  with assms(2) obtain k where "w = VFloat (NaN k)" by (cases w rule: vcore.cases) auto
  with v assms(1) show ?thesis by (simp add: one_nan_def)
next
  case False
  have plain: "vcore u = u \<or> (\<exists>j. u = VFloat (NaN j) \<and> vcore u = VFloat (NaN 0))" for u
    by (cases u rule: vcore.cases) simp_all
  from plain [of v] False have "vcore v = v" by blast
  moreover from plain [of w] False assms(2) this have "vcore w = w" by metis
  ultimately have "v = w" using assms(2) by metis
  then show ?thesis by (rule arg_cong)
qed

lemma core_shapes:
  "core b = Grounded v None \<Longrightarrow> \<exists>w f. b = Grounded w f \<and> vcore w = v"
  "core b = Symbol s \<Longrightarrow> b = Symbol s \<or> b = Space s"
  "core b = Variable s \<Longrightarrow> b = Variable s"
  by (cases b, simp_all)+

lemma plain_text:
  assumes nan: "one_nan h" and eq: "core b = core a" and "plain_argument digits (core a)"
  shows "print_atom h a = print_atom h b"
proof (cases a)
  case (Grounded v e)
  from eq have "core b = Grounded (vcore v) None" unfolding Grounded by simp
  from core_shapes(1) [OF this] obtain w f where b: "b = Grounded w f" "vcore w = vcore v" by blast
  show ?thesis unfolding Grounded b(1) using value_text [OF nan b(2)] by simp
next
  case (Symbol s)
  from eq have "core b = Symbol s" unfolding Symbol by simp
  from core_shapes(2) [OF this] show ?thesis unfolding Symbol by (elim disjE) simp_all
next
  case (Variable s)
  from eq have "core b = Variable s" unfolding Variable by simp
  from core_shapes(3) [OF this] show ?thesis unfolding Variable by simp
next
  case (Space s)
  from eq have "core b = Symbol s" unfolding Space by simp
  from core_shapes(2) [OF this] show ?thesis unfolding Space by (elim disjE) simp_all
next
  case (NativeRational q)
  from assms(3) show ?thesis unfolding NativeRational by simp
next
  case (NativeHandle i s)
  from assms(3) show ?thesis unfolding NativeHandle by simp
next
  case (CarriedTerm i k ns s)
  from assms(3) show ?thesis unfolding CarriedTerm by simp
next
  case (Expression as)
  from assms(3) show ?thesis unfolding Expression by simp
qed

lemma texts_eq:
  assumes nan: "one_nan h"
  shows "map core xs = map core ys \<Longrightarrow> (\<And>x. x \<in> set xs \<Longrightarrow> plain_argument digits (core x)) \<Longrightarrow>
    map (print_atom h) xs = map (print_atom h) ys"
proof (induction xs ys rule: list_induct2')
  case (4 x xs y ys)
  from 4(2) have heads: "core y = core x" and tails: "map core xs = map core ys" by simp_all
  have "print_atom h x = print_atom h y" by (rule plain_text [OF nan heads]) (rule 4(3), simp)
  moreover have "map (print_atom h) xs = map (print_atom h) ys" by (rule 4(1) [OF tails]) (rule 4(3), simp)
  ultimately show ?case by (simp only: list.map)
qed simp_all

lemma shape_text:
  assumes nan: "one_nan h" and eq: "core a = core b" and s: "shape digits (core a) \<noteq> None"
  shows "str_atom h a = str_atom h b"
proof (cases "is_expression a")
  case False
  with s obtain t where "core a = Symbol t" by (cases "(digits, core a)" rule: shape.cases) (auto simp: core_expression [of a, symmetric])
  then show ?thesis using plain_text [OF nan eq [symmetric], of digits] by (simp add: str_atom_print)
next
  case True
  with eq have b: "is_expression b" by (metis core_expression)
  have kids: "map core (kids a) = map core (kids b)" using core_kids [OF True b] eq by simp
  have "plain_argument digits (core x)" if "x \<in> set (kids a)" for x
  proof -
    have "core a = Expression (map core (kids a))" using expression_kids [OF True] core.simps(5) by metis
    with s that show ?thesis by (cases "map core (kids a)"; cases "hd (map core (kids a))") (auto simp: list_all_iff split: if_splits)
  qed
  then have "map (print_atom h) (kids a) = map (print_atom h) (kids b)"
    using texts_eq [OF nan kids] by blast
  then show ?thesis
    using expression_kids [OF True] expression_kids [OF b] print_atom.simps(1) by (metis str_atom_print)
qed

lemma plain_core: "plain_argument digits a \<Longrightarrow> plain_argument digits (core a)"
proof (cases a)
  case (Grounded v e)
  moreover assume "plain_argument digits a"
  ultimately show ?thesis by (cases v rule: vcore.cases) auto
qed simp_all

lemma core_flat:
  assumes "shape digits (core a) = Some (k, qs)" "x \<in> set (tl (kids a))" "is_expression a"
  shows "plain_argument digits (core x)"
proof -
  have "core a = Expression (map core (kids a))" using expression_kids [OF assms(3)] core.simps(5) by metis
  with assms(1,2) show ?thesis
    by (cases "kids a"; cases "core (hd (kids a))") (auto simp: list_all_iff split: if_splits)
qed

lemma fits_plain:
  assumes s: "shape digits q = Some (k, qs)" and c: "shape digits (core c) \<noteq> None" and fit: "fits m q c"
    and x: "x \<in> set (argument_names qs)" "x \<noteq> ''_''"
  shows "\<exists>v. m x = Some v \<and> plain_argument digits (core v)"
  using s
proof (cases rule: shape_cases)
  case 1
  with x show ?thesis by (simp add: argument_names_def)
next
  case (2 f)
  with fit have ex: "is_expression c" and l: "list_all2 (fits m) qs (tl (kids c))" by (auto simp: list_all2_Cons1)
  from x(1) have "Variable x \<in> set qs" by (auto simp: argument_names_def split: atom.splits)
  then obtain i where i: "i < length qs" "qs ! i = Variable x" by (metis in_set_conv_nth)
  have "fits m (Variable x) (tl (kids c) ! i)" using list_all2_nthD [OF l i(1)] i(2) by simp
  with x(2) obtain v where v: "m x = Some v" "core v = core (tl (kids c) ! i)" by (auto simp: atom_eq_core split: option.splits)
  have "tl (kids c) ! i \<in> set (tl (kids c))" using i(1) list_all2_lengthD [OF l] by simp
  with c core_flat [OF _ this ex] v show ?thesis by auto
qed

lemma proved_shaped:
  assumes cert: "certified digits facts rules fr rr level n"
  shows "proved eng alg facts rules a \<Longrightarrow> shape digits (core (answer_value a)) \<noteq> None"
proof (induction rule: proved.induct)
  case (proved_fact f)
  with cert obtain k ps where "shape digits (answer_value f) = Some (k, ps)" by (auto simp: certified_def facts_flat_def)
  then show ?case by (rule shape_cases) (auto simp: list_all_iff plain_core)
next
  case (proved_rule r cs a)
  from proved_rule.hyps(2) obtain b where b: "list_all2 (fits (assigned b)) (r_premises r) (map answer_value cs)"
      "answer_value a = subst_rec (assigned b) (r_head r)" by (auto simp: rule_instance_def)
  have flat: "rule_flat digits r" using cert proved_rule.hyps(1) by (simp add: certified_def)
  then obtain k ps where s: "shape digits (r_head r) = Some (k, ps)" by (auto simp: rule_flat_def)
  have bound: "\<exists>v. assigned b x = Some v \<and> plain_argument digits (core v)" if x: "x \<in> set (argument_names ps)" for x
  proof -
    from flat x s obtain p where p: "p \<in> set (r_premises r)" "x \<in> set (argument_names (params_of digits p))" "x \<noteq> ''_''"
      by (auto simp: rule_flat_def params_of_def)
    from flat p(1) obtain kp qs where sp: "shape digits p = Some (kp, qs)" by (auto simp: rule_flat_def)
    from p(1) obtain i where i: "i < length (r_premises r)" "r_premises r ! i = p" by (metis in_set_conv_nth)
    with b(1) have c: "cs ! i \<in> set cs" "fits (assigned b) p (answer_value (cs ! i))" by (auto simp: list_all2_conv_all_nth)
    show ?thesis
      by (rule fits_plain [OF sp proved_rule.IH [OF c(1)] c(2)]) (use p(2,3) shape_parts [OF sp] in simp_all)
  qed
  have plain: "plain_argument digits (core (subst_rec (assigned b) p))" if "p \<in> set ps" "plain_argument digits p" for p
  proof (cases "\<exists>x. p = Variable x")
    case True
    then obtain x where x: "p = Variable x" by blast
    with that(1) have "x \<in> set (argument_names ps)" by (force simp: argument_names_def)
    from bound [OF this] obtain v where "assigned b x = Some v" "plain_argument digits (core v)" by blast
    with x show ?thesis by simp
  next
    case False
    with that(2) have "subst_rec (assigned b) p = p" by (cases p) auto
    with plain_core [OF that(2)] show ?thesis by simp
  qed
  from s show ?case unfolding b(2) by (rule shape_cases) (use plain in \<open>auto simp: list_all_iff\<close>)
qed

lemma distinct_accounts:
  assumes cert: "certified digits facts rules fr rr level n" and nan: "one_nan h"
    and "\<And>a. a \<in> set rows \<Longrightarrow> proved eng alg facts rules a" "distinct (map (signature h) rows)"
  shows "distinct (map account rows)"
proof -
  have "inj_on account (set rows)"
  proof (rule inj_onI)
    fix a b assume ab: "a \<in> set rows" "b \<in> set rows" "account a = account b"
    have "core (answer_value a) = core (answer_value b)" "tag a = tag b" "tokens_used a = tokens_used b" "proof_of a = proof_of b"
      using ab(3) by (simp_all add: account_def)
    with shape_text [OF nan this(1) proved_shaped [OF cert assms(3) [OF ab(1)]]] have "signature h a = signature h b"
      by (simp add: signature_def)
    with assms(4) ab(1,2) show "a = b" by (auto simp: distinct_map dest: inj_onD)
  qed
  with assms(4) show ?thesis by (simp add: distinct_map)
qed

lemma keep_new_distinct: "keep_new h as seen = (added, seen') \<Longrightarrow> distinct seen \<Longrightarrow> distinct seen'"
  by (induction as arbitrary: seen added) (auto simp: Let_def split: if_splits prod.splits)

lemma one_round_distinct:
  "one_round h eng alg space available sources rules seen = Inr (added, seen') \<Longrightarrow> distinct seen \<Longrightarrow> distinct seen'"
proof (induction rules arbitrary: seen added)
  case (Cons r rs)
  then obtain answers where d: "derive_rule eng alg space r available sources = Inr answers" by auto
  obtain ad1 seen1 where k: "keep_new h answers seen = (ad1, seen1)" by force
  from Cons.prems(1) d k obtain ad2 where "one_round h eng alg space available sources rs seen1 = Inr (ad2, seen')" by auto
  from Cons.IH [OF this keep_new_distinct [OF k Cons.prems(2)]] show ?case .
qed simp

lemma saturate_distinct:
  "saturate h eng alg space sources rules n available (map (signature h) available) = Inr out \<Longrightarrow>
   distinct (map (signature h) available) \<Longrightarrow> distinct (map (signature h) out)"
proof (induction n arbitrary: available)
  case (Suc n)
  from Suc.prems(1) obtain added seen' where
    o: "one_round h eng alg space available sources rules (map (signature h) available) = Inr (added, seen')"
    and rest: "(if added = [] then Inr available else saturate h eng alg space sources rules n (available @ added) seen') = Inr out"
    by auto
  have seen: "seen' = map (signature h) (available @ added)" using one_round_spec [OF o] by simp
  show ?case
  proof (cases "added = []")
    case True
    with rest Suc.prems(2) show ?thesis by simp
  next
    case False
    show ?thesis
      by (rule Suc.IH [of "available @ added"]) (use False rest seen one_round_distinct [OF o Suc.prems(2)] in simp_all)
  qed
qed simp

lemma sort_answers_mset: "mset (sort_answers as) = mset as"
proof -
  have one: "mset (insert_answer precedes a as) = add_mset a (mset as)" for precedes a as
    by (induction as) auto
  have "mset (foldr (insert_answer precedes) as []) = mset as" for precedes by (induction as) (auto simp: one)
  then show ?thesis by (simp add: sort_answers_def)
qed

lemma distinct_keys: "distinct (map fst d) \<Longrightarrow> distinct (map fst (fold (\<lambda>a d. dict_set (=) (f a) a d) as d))"
  by (induction as arbitrary: d) (simp_all add: keys_dict_set)

lemma unique_answers_distinct: "distinct (map (signature h) (unique_answers h as))"
proof -
  let ?d = "fold (\<lambda>a d. dict_set (=) (signature h a) a d) as []"
  have "map (signature h) (map snd ?d) = map fst ?d"
    using unique_fold [of "[]" "signature h" as] by (auto simp: map_eq_conv)
  with distinct_keys [of "[]" "signature h" as] show ?thesis by (simp add: unique_answers_def del: map_map)
qed

lemma solve_distinct: "solve h eng alg space digits fr rr n d = Inr out \<Longrightarrow> distinct (map (signature h) out)"
proof (cases n)
  case (Suc k)
  assume "solve h eng alg space digits fr rr n d = Inr out"
  from solve_Inr [OF this [unfolded Suc]] obtain as where "out = sort_answers (unique_answers h as)" by metis
  then have "mset (map (signature h) out) = mset (map (signature h) (unique_answers h as))" by (simp add: sort_answers_mset)
  with unique_answers_distinct [of h as] show ?thesis using mset_eq_imp_distinct_iff by blast
qed simp

section \<open>A stored program numbers its proofs\<close>

lemma program_numbered:
  "program_from n atoms = Inr (facts, rules) \<Longrightarrow>
     (\<forall>f \<in> set facts. proof_of f = [hd (proof_of f)] \<and> n \<le> hd (proof_of f)) \<and> (\<forall>r \<in> set rules. n \<le> r_order r) \<and>
     distinct (map (\<lambda>f. hd (proof_of f)) facts @ map r_order rules)"
proof (induction atoms arbitrary: n facts rules)
  case (Cons a as)
  from Cons.prems consider (skip) "program_from (n + 1) as = Inr (facts, rules)"
    | (fact) fs where "program_from (n + 1) as = Inr (fs, rules)" "facts = read_fact n a # fs"
    | (rule) q rs where "read_rule n a = Inr q" "program_from (n + 1) as = Inr (facts, rs)" "rules = q # rs"
    by (auto split: if_splits)
  then show ?case
  proof cases
    case skip
    from Cons.IH [OF this] show ?thesis by auto
  next
    case fact
    have "proof_of (read_fact n a) = [n]" by (simp add: read_fact_def)
    with Cons.IH [OF fact(1)] fact(2) show ?thesis by force
  next
    case rule
    from Cons.IH [OF rule(2)] read_rule_order [OF rule(1)] rule(3) show ?thesis by force
  qed
qed simp

lemma program_proofs: "program atoms = Inr (facts, rules) \<Longrightarrow> numbered facts rules"
  using program_numbered [of 0 atoms] by (simp add: program_def numbered_def)

lemma numbered_distinct: "numbered facts rules \<Longrightarrow> distinct (map (signature h) facts)"
proof -
  assume "numbered facts rules"
  then have d: "distinct (map (\<lambda>f. hd (proof_of f)) facts)" by (simp add: numbered_def)
  have "map (\<lambda>f. hd (proof_of f)) facts = map (\<lambda>(v, t, u, p). hd p) (map (signature h) facts)"
    by (simp add: signature_def)
  with d show ?thesis using distinct_map [of "\<lambda>(v, t, u, p). hd p" "map (signature h) facts"] by metis
qed

section \<open>Both routes, compared\<close>

lemma same_accounts:
  assumes "\<And>a. a \<in> set (matching goal as) \<Longrightarrow> \<exists>c \<in> set bs. account c = account a"
    and "\<And>a. a \<in> set (matching goal bs) \<Longrightarrow> \<exists>c \<in> set as. account c = account a"
  shows "account ` set (matching goal as) = account ` set (matching goal bs)"
proof -
  have across: "account a \<in> account ` set (matching goal bs)"
    if a: "a \<in> set (matching goal as)" and c: "c \<in> set bs" "account c = account a" for a c as bs
  proof -
    have "match goal (answer_value c) \<noteq> None"
      by (rule match_cong [of "answer_value a"]) (use a account_parts [OF c(2)] in \<open>simp_all add: matching_def atom_eq_core\<close>)
    with c have "c \<in> set (matching goal bs)" by (simp add: matching_def)
    with c(2) show ?thesis by (metis imageI)
  qed
  show ?thesis using across assms by (intro set_eqI iffI) (force elim!: imageE)+
qed

lemma integer_tag: "fits_bits n t \<Longrightarrow> \<not> headed_tag t s"
  by (auto simp: fits_bits_def headed_tag_def head_is_def)

lemma distinct_same_mset: "f ` set xs = f ` set ys \<Longrightarrow> distinct (map f xs) \<Longrightarrow> distinct (map f ys) \<Longrightarrow> mset (map f xs) = mset (map f ys)"
  using set_eq_iff_mset_eq_distinct [of "map f xs" "map f ys"] by simp

lemma certified_run:
  assumes orders: "distinct (map r_order rules)"
    and got: "evaluate_demand h eng alg space digits facts rules goal n = Inr (Some out)"
  obtains fr rr level d where "certified digits facts rules fr rr level n" "from_pattern digits goal = Inr d"
    "solve h eng alg space digits fr rr (Suc n) d = Inr out" "\<forall>r \<in> set rules. \<not> labelled r"
proof -
  from evaluate_demand_Inr [OF got orders] obtain fr rr level d where
    c: "certified digits facts rules fr rr level n" "from_pattern digits goal = Inr d"
      "solve h eng alg space digits fr rr (Suc n) d = Inr out" .
  from got obtain fr' rr' where "certify digits alg facts rules goal n = Inr (Some (fr', rr'))"
    by (auto simp: evaluate_demand_def split: option.splits)
  from certify_widths [OF orders this] obtain wide where "wide_enough digits alg facts rules wide" by blast
  then have "\<forall>r \<in> set rules. \<not> labelled r" by (auto simp: wide_enough_def labelled_def dest: integer_tag)
  with c that show ?thesis by blast
qed

end
