(* ===== verification/Routes.thy ===== *)
theory Routes
  imports Accounts
begin

text \<open>
  The demand route against the round loop: the same answers, within the certificate's limits, with no refusal
  of its own; and the error of the round loop that it conceals.
\<close>

section \<open>A program the certificate accepts\<close>

definition sample_demand :: "alg_error + tagged list option" where
  "sample_demand = evaluate_demand sample_host sample_engine (sample_algebra []) ''&self'' 0
     (fst sample_program) (snd sample_program) reach 4"

definition sample_rounds :: "alg_error + tagged list" where
  "sample_rounds = saturate sample_host sample_engine (sample_algebra []) ''&self'' None (snd sample_program) 4
     (fst sample_program) (map (signature sample_host) (fst sample_program))"

definition sample_reached :: "int \<Rightarrow> int \<Rightarrow> tagged" where
  "sample_reached n i = \<lparr>answer_value = reach, tag = gnd (VInt (3 * i)), tokens_used = {n}, proof_of = [2, n],
     derivations = [Trace 2 (gnd (VInt 3)) [Trace n (gnd (VInt i)) [] False None None] True (Some reach) None]\<rparr>"

lemma sample_demand_runs: "sample_demand = Inr (Some [sample_reached 0 2, sample_reached 1 5])"
  by code_simp

lemma sample_rounds_run: "sample_rounds = Inr (fst sample_program @ [sample_reached 0 2, sample_reached 1 5])"
  by code_simp

lemma sample_unlabelled: "variable_op (sample_algebra []) = None"
  by (simp add: sample_algebra_def)

lemma sample_nan: "one_nan sample_host"
  by (simp add: one_nan_def sample_host_def)

lemma sample_engine_plain: "engine_plain sample_engine"
  by (simp add: engine_plain_def sample_engine_def)

section \<open>The two routes agree\<close>

text \<open>C20. Where the demand route accepts a program, it answers the goal exactly as the round loop does, proof for proof: the
  answers that match the goal are the same multiset on both routes, each with its conclusion (up to the equality of
  atoms), its tag, its evidence tokens, its proof and its retained derivation, and none more than once. Guards are
  allowed. Assumed: ground facts, an algebra that does not mint its inputs from the variables, and a host that prints
  every NaN alike, as Python does. The order of the answers is not compared.\<close>

theorem demand_agrees_with_rounds:
  assumes "program atoms = Inr (facts, rules)"
    and "evaluate_demand h eng alg space digits facts rules goal n = Inr (Some rows)"
    and "saturate h eng alg space None rules m facts (map (signature h) facts) = Inr out"
    and "\<forall>f \<in> set facts. is_ground (answer_value f)" "variable_op alg = None" "one_nan h"
  shows "mset (map account (matching goal rows)) = mset (map account (matching goal out)) \<and>
    distinct (map account (matching goal rows))"
proof -
  let ?P = "proved eng alg facts rules"
  note num = program_proofs [OF assms(1)] and orders = program_orders [OF assms(1)]
  have ground: "is_ground (answer_value f)" if "f \<in> set facts" for f using assms(4) that by blast
  from certified_run [OF orders assms(2)] obtain fr rr level d where
    cert: "certified digits facts rules fr rr level n" and d: "from_pattern digits goal = Inr d"
    and sol: "solve h eng alg space digits fr rr (Suc n) d = Inr rows" and plain: "\<forall>r \<in> set rules. \<not> labelled r" .
  have groundP: "?P c \<Longrightarrow> is_ground (answer_value c)" for c by (rule proved_ground [OF ground])
  have stepP: "?P x" if "r \<in> set rules" "\<And>c. c \<in> set cs \<Longrightarrow> ?P c" "rule_instance eng alg r cs x" for r cs x
    using that by (blast intro: proved_rule)
  have rounds: "?P c" if "c \<in> set out" for c by (rule saturate_proves(1) [OF assms(3) num plain assms(5) ground that])
  have derives: "\<exists>c \<in> set out. account c = account a" if "?P a" for a
    by (rule saturate_proves(2) [OF assms(3) num plain assms(5) ground that])
  have proves: "?P c" if "c \<in> set rows" for c
    by (rule solve_induct [where Q = ?P, OF cert proved_fact groundP stepP sol from_pattern_ok [OF d] that])
  have "account ` set (matching goal rows) = account ` set (matching goal out)"
  proof (rule same_accounts)
    show "\<exists>c \<in> set out. account c = account a" if "a \<in> set (matching goal rows)" for a
      using derives [OF proves] that by (simp add: matching_def)
    show "\<exists>c \<in> set rows. account c = account a" if "a \<in> set (matching goal out)" for a
    proof -
      from that have a: "a \<in> set out" "match goal (answer_value a) \<noteq> None" by (simp_all add: matching_def)
      from a(2) obtain m where "fits m goal (answer_value a)" using match_sound by blast
      from solve_proves [OF cert num plain assms(5) ground sol from_pattern_ok [OF d] goal_in_depth [OF cert]
        rounds [OF a(1)] goal_meets [OF d this]] show ?thesis .
    qed
  qed
  moreover have "distinct (map account rows)"
    by (rule distinct_accounts [OF cert assms(6) _ solve_distinct [OF sol]]) (rule proves)
  moreover have "distinct (map account out)"
    by (rule distinct_accounts [OF cert assms(6) _ saturate_distinct [OF assms(3) numbered_distinct [OF num]]]) (rule rounds)
  ultimately show ?thesis using distinct_same_mset [of account] by (simp add: matching_def distinct_map_filter del: mset_map)
qed

theorem demand_agrees_with_rounds_witness:
  "mset (map account (matching reach [sample_reached 0 2, sample_reached 1 5])) =
     mset (map account (matching reach (fst sample_program @ [sample_reached 0 2, sample_reached 1 5])))"
  using demand_agrees_with_rounds [OF sample_program sample_demand_runs [unfolded sample_demand_def]
    sample_rounds_run [unfolded sample_rounds_def] sample_ground sample_unlabelled sample_nan] by simp

section \<open>Within the limits of the certificate\<close>

lemma fold_max_less: "(\<And>x. x \<in> set hs \<Longrightarrow> x < n) \<Longrightarrow> k < n \<Longrightarrow> fold max hs k < (n :: nat)"
  by (induction hs arbitrary: k) auto

lemma rank_of_rule:
  assumes "0 < n" "\<And>c. c \<in> set cs \<Longrightarrow> \<exists>t. derivations c = [t] \<and> rank_height (rank_of t) < n"
  shows "rank_height (rank_of (Trace source raw (concat (map derivations cs)) True key guard)) \<le> n"
proof -
  have "rank_height (rank_of t) < n" if "t \<in> set (concat (map derivations cs))" for t
    using assms(2) that by force
  then have "fold max (map rank_height (map rank_of (concat (map derivations cs)))) 0 < n"
    by (intro fold_max_less assms(1)) auto
  then show ?thesis by simp
qed

definition measured :: "nat \<Rightarrow> nat \<Rightarrow> (relkey \<Rightarrow> nat) \<Rightarrow> (relkey \<Rightarrow> nat) \<Rightarrow> tagged \<Rightarrow> bool" where
  "measured digits n level wide a = (is_ground (answer_value a) \<and> (\<exists>t. derivations a = [t] \<and>
     (\<exists>k ps. loose (answer_value a) = Some (k, ps) \<and> rank_height (rank_of t) \<le> level k \<and>
        rank_height (rank_of t) < n \<and> fits_bits (wide k) (tag a) \<and> printable_bits digits (wide k))))"

lemma premises_measured:
  assumes r: "rule_flat digits r" and fit: "list_all2 (fits m) (r_premises r) (map answer_value cs)"
    and cs: "\<And>c. c \<in> set cs \<Longrightarrow> measured digits n0 level wide c"
    and low: "\<And>p. p \<in> set (r_premises r) \<Longrightarrow> level (rel_of digits p) < n"
  shows "list_all2 fits_bits (map wide (premise_rels digits r)) (map tag cs)"
    and "c \<in> set cs \<Longrightarrow> \<exists>t. derivations c = [t] \<and> rank_height (rank_of t) < n"
proof -
  have len: "length (r_premises r) = length cs" using list_all2_lengthD [OF fit] by simp
  have each: "fits_bits (wide (rel_of digits (r_premises r ! i))) (tag (cs ! i)) \<and>
      (\<exists>t. derivations (cs ! i) = [t] \<and> rank_height (rank_of t) < n)" if i: "i < length cs" for i
  proof -
    have p: "r_premises r ! i \<in> set (r_premises r)" using i len by simp
    with r obtain k ps where s: "shape digits (r_premises r ! i) = Some (k, ps)" by (auto simp: rule_flat_def)
    have "fits m (r_premises r ! i) (answer_value (cs ! i))" using list_all2_nthD2 [OF fit, of i] i by simp
    from loose_fits [OF s this] cs [of "cs ! i"] i low [OF p] shape_parts [OF s] show ?thesis
      by (fastforce simp: measured_def)
  qed
  show "list_all2 fits_bits (map wide (premise_rels digits r)) (map tag cs)"
    using each len by (simp add: list_all2_conv_all_nth premise_rels_def)
  show "c \<in> set cs \<Longrightarrow> \<exists>t. derivations c = [t] \<and> rank_height (rank_of t) < n"
    using each by (metis in_set_conv_nth)
qed

lemma instance_measured:
  assumes cert: "certified digits facts rules fr rr level n" and wide: "wide_enough digits alg facts rules wide"
    and op: "extend_op alg \<in> set direct_names" "variable_op alg = None"
    and r: "r \<in> set rules" and cs: "\<And>c. c \<in> set cs \<Longrightarrow> measured digits n level wide c" and inst: "rule_instance eng alg r cs a"
  shows "measured digits n level wide a"
proof -
  have flat: "rule_flat digits r" using cert r by (simp add: certified_def)
  then obtain k ps where s: "shape digits (r_head r) = Some (k, ps)" by (auto simp: rule_flat_def)
  have k: "rel_of digits (r_head r) = k" using shape_parts [OF s] by simp
  have low: "0 < level k" "level k < n" "\<And>p. p \<in> set (r_premises r) \<Longrightarrow> level (rel_of digits p) < level k"
    using cert r k by (auto simp: certified_def)
  from inst obtain b where b: "list_all2 (fits (assigned b)) (r_premises r) (map answer_value cs)"
      "answer_value a = subst_rec (assigned b) (r_head r)" by (auto simp: rule_instance_def)
  from inst obtain g where d: "derivations a =
      [Trace (r_order r) (r_tag r) (concat (map derivations cs)) True (Some (answer_value a)) g]"
    by (auto simp: rule_instance_def)
  note pm = premises_measured [OF flat b(1) cs low(3)]
  from wide r k obtain bits where w: "fits_bits bits (r_tag r)" "rule_width (extend_op alg) digits wide bits r \<le> wide k"
      "printable_bits digits (wide k)"
    by (auto simp: wide_enough_def)
  have "\<not> labelled r" using integer_tag [OF w(1)] by (simp add: labelled_def)
  then have "foldE (extend_values eng alg) (r_tag r) (map tag cs) = Inr (tag a)"
    using inst op(2) by (simp add: rule_instance_def)
  from fold_fits [OF op(1) pm(1) w(1) this] w(2) have "fits_bits (wide k) (tag a)"
    by (auto simp: rule_width_def intro: fits_bits_mono)
  moreover have "rank_height (rank_of (Trace (r_order r) (r_tag r) (concat (map derivations cs)) True
      (Some (answer_value a)) g)) \<le> level k"
    by (rule rank_of_rule [OF low(1) pm(2)])
  ultimately show ?thesis
    using d loose_subst [OF s, of "assigned b"] b(2) inst low(2) w(3) by (simp add: measured_def rule_instance_def del: rank_of.simps)
qed

text \<open>C21. What the certificate promises of the answers: every tag is an integer that the interpreter's digit limit
  can print, and every proof is lower than the round limit (so the round loop would have reached it). The
  carrier must not mint its inputs by an operation of its own, which the certificate does not look at.\<close>

theorem demand_within_limits:
  assumes "evaluate_demand h eng alg space digits facts rules goal n = Inr (Some rows)"
    and "program atoms = Inr (facts, rules)" "\<forall>f \<in> set facts. is_ground (answer_value f)" "variable_op alg = None"
    and "a \<in> set rows"
  shows "integer_bits digits (tag a) \<noteq> None \<and> rank_height (answer_rank a) < n"
proof -
  note orders = program_orders [OF assms(2)]
  from evaluate_demand_Inr [OF assms(1) orders] obtain fr rr level d where
    cert: "certified digits facts rules fr rr level n" by blast
  from assms(1) obtain fr' rr' where c: "certify digits alg facts rules goal n = Inr (Some (fr', rr'))"
    by (auto simp: evaluate_demand_def split: option.splits)
  from certify_widths [OF orders c] obtain wide where op: "extend_op alg \<in> set direct_names"
    and wide: "wide_enough digits alg facts rules wide" by blast
  have "0 < n"
  proof -
    from c obtain r where "r \<in> set rules" by (cases rules) (auto simp: certify_def)
    with cert show ?thesis by (auto simp: certified_def)
  qed
  have "measured digits n level wide a"
  proof (rule demand_induct [OF assms(1) orders _ _ _ assms(5)])
    fix f assume f: "f \<in> set facts"
    then obtain k ps where s: "shape digits (answer_value f) = Some (k, ps)" using cert by (auto simp: certified_def facts_flat_def)
    from program_facts [OF assms(2) [unfolded program_def] f] obtain i raw where
      dv: "derivations f = [Trace i raw [] False None None]" by (metis tagged.select_convs(5))
    show "measured digits n level wide f"
      using f assms(3) wide dv loose_shape [OF s] shape_parts [OF s] \<open>0 < n\<close>
      by (auto simp: measured_def wide_enough_def)
  next
    fix r cs x assume r: "r \<in> set rules" "rule_instance eng alg r cs x" and "\<And>c. c \<in> set cs \<Longrightarrow> measured digits n level wide c"
    then show "measured digits n level wide x" by (intro instance_measured [OF cert wide op assms(4) r(1) _ r(2)])
  qed (simp add: measured_def)
  then obtain t k where m: "derivations a = [t]" "rank_height (rank_of t) < n" "fits_bits (wide k) (tag a)"
      "printable_bits digits (wide k)" by (auto simp: measured_def)
  from m(3) obtain i e where i: "tag a = Grounded (VInt i) e" "max 1 (bit_length i) \<le> wide k" by (auto simp: fits_bits_def)
  with printable_mono [OF m(4) i(2)] m(1,2) show ?thesis by (simp add: integer_bits_def Let_def answer_rank_def)
qed

theorem demand_within_limits_witness:
  "integer_bits 0 (tag (sample_reached 0 2)) \<noteq> None \<and> rank_height (answer_rank (sample_reached 0 2)) < 4"
proof -
  have "variable_op (sample_algebra []) = None" by (simp add: sample_algebra_def)
  from demand_within_limits [OF sample_demand_runs [unfolded sample_demand_def] sample_program sample_ground this, of "sample_reached 0 2"]
  show ?thesis by simp
qed

text \<open>C22. On a certified program the evaluator raises no error of its own: the readers the certificate makes total
  never meet an atom without a shape, no table misses a key, and the recursion through demands, bounded by the
  round limit, always ends first. Only an operation of the engine can still refuse.\<close>

theorem demand_refuses_nothing:
  assumes "program atoms = Inr (facts, rules)" "\<forall>f \<in> set facts. is_ground (answer_value f)" "engine_plain eng"
  shows "evaluate_demand h eng alg space digits facts rules goal n \<noteq> Inl (EvaluationError msg)"
proof
  assume err: "evaluate_demand h eng alg space digits facts rules goal n = Inl (EvaluationError msg)"
  note orders = program_orders [OF assms(1)]
  from certify_ok [OF orders, of digits alg facts goal n] obtain res where
    c: "certify digits alg facts rules goal n = Inr res"
      "\<And>fr rr. res = Some (fr, rr) \<Longrightarrow> shape digits goal \<noteq> None \<and> (\<exists>level. certified digits facts rules fr rr level n)"
    by blast
  from err c(1) obtain fr rr where res: "res = Some (fr, rr)" by (cases res) (auto simp: evaluate_demand_def)
  from c(2) [OF res] obtain level where goal: "shape digits goal \<noteq> None" and cert: "certified digits facts rules fr rr level n"
    by blast
  from goal obtain d where d: "from_pattern digits goal = Inr d" by (auto simp: from_pattern_def certified_shape_def)
  have "solve h eng alg space digits fr rr (Suc n) d \<noteq> Inl (EvaluationError msg)"
    by (rule solve_total [OF cert assms(3) _ _ from_pattern_ok [OF d] from_pattern_plain [OF d] goal_in_depth [OF cert]])
      (use assms(2) in simp_all)
  moreover from err c(1) res d have "solve h eng alg space digits fr rr (Suc n) d = Inl (EvaluationError msg)"
    by (auto simp: evaluate_demand_def bindE_Inl)
  ultimately show False by blast
qed

theorem demand_refuses_nothing_witness:
  "evaluate_demand sample_host sample_engine (sample_algebra []) ''&self'' 0 (fst sample_program) (snd sample_program) reach 4
     \<noteq> Inl (EvaluationError ''fuel'')"
  by (rule demand_refuses_nothing [OF sample_program sample_ground sample_engine_plain])

section \<open>What the certificate does not look at\<close>

text \<open>A rule beside the goal's own, whose guard has no truth value.\<close>

definition guarded_atoms :: "atom list" where
  "guarded_atoms = sample_atoms @ [Expression [Symbol ''rule'', gnd (VInt 1), Expression [Symbol ''other''],
     Expression [Symbol ''premises'', Expression [Symbol ''edge'', Variable ''x'']],
     Expression [Symbol ''where'', Symbol ''undecided'']]]"

definition guarded_run :: "atom \<Rightarrow> alg_error + evaluation_result" where
  "guarded_run goal = evaluate sample_host sample_engine (sample_algebra []) ''&self'' int_less None (\<lambda>_. Inr [])
     (evaluate_demand sample_host sample_engine (sample_algebra []) ''&self'' 0) guarded_atoms goal 4 (Some True)"

text \<open>The whole program is certified so that pruning cannot hide a failure of the full closure, but guards are
  not looked at: a goal that leads away from a rule with a broken guard is answered, where the same program
  asked for everything (a goal the certificate declines) fails on it.\<close>

lemma demand_conceals_guard:
  "(\<exists>res. guarded_run reach = Inr res) \<and> guarded_run (Variable ''g'') = Inl (OperationError ''algebra_guard_not_boolean'')"
proof (intro conjI)
  show "\<exists>res. guarded_run reach = Inr res" by (rule exI [of _ "projr (guarded_run reach)"]) code_simp
  show "guarded_run (Variable ''g'') = Inl (OperationError ''algebra_guard_not_boolean'')" by code_simp
qed

end
