(* ===== verification/Saga.thy ===== *)
theory Saga
  imports Structures
begin

text \<open>
  The saga runner, \<open>metta/_history/saga.py\<close>: forward steps whose effects leave receipts, and the reverse
  pass that compensates them. A call answers a result and the runner's state after it, since a raise
  leaves the state it was reached in.

  The engine and the providers are parameters (\<open>env\<close>), read at a turn that each crossing advances, so a
  retried call may answer differently. The receipt space is the list of its atoms, the space the steps
  and handlers write is the abstract \<open>world\<close>. A call holds the runner's lock, so calls do not interleave.
\<close>

section \<open>State\<close>

datatype obligation = Obligation (owed: atom) (journalled: bool)

datatype captured = Captured (receipt_atom: atom) (enlisted: bool)

record 'w saga =
  committed :: "obligation list"
  foreign :: "atom list"
  awaiting :: "atom list"
  subscribed :: bool
  entered :: bool
  running :: bool
  recovering :: bool
  recovery_failed :: bool
  store :: "atom list"
  world :: 'w
  turn :: nat

datatype saga_error =
    Refused string
  | NotAReceipt atom
  | NonGroundRemoval atom
  | StepRaised
  | MixedOutcome "string list"
  | MissingReceipts nat atom
  | NoCompensation atom
  | StaleCompensation atom string
  | ReceiptVanished atom
  | CompensationFailed atom
  | OrderChanged atom
  | TransactionRaised
  | CancelFailed
  | Together "saga_error list"

section \<open>What the engine answers\<close>

text \<open>
  How a transaction whose body succeeded is settled: whether the durable outcome was announced as
  committed, whether the receipt space holds the body's writes, and whether the call raised (a provider
  may refuse after the announcement, a post-commit publisher may raise).
\<close>

datatype verdict = Verdict (decided: bool) (durable: bool) (raises: bool)

record 'w step =
  captures :: "captured list"
  answers :: "atom list"
  raised :: bool
  after :: 'w
  undone :: "nat \<Rightarrow> 'w"

text \<open>\<open>undone\<close>: the world when the step stops after that many captures and the transaction rolls back.\<close>

record 'w env =
  in_transaction :: "nat \<Rightarrow> bool"
  speculative :: "nat \<Rightarrow> bool"
  batches :: "nat \<Rightarrow> string list"
  evaluate_step :: "nat \<Rightarrow> 'w \<Rightarrow> atom \<Rightarrow> 'w step"
  verdict_at :: "nat \<Rightarrow> verdict"
  lost_at :: "nat \<Rightarrow> string list"
  compensation_of :: "nat \<Rightarrow> string \<Rightarrow> string option"
  callable_at :: "nat \<Rightarrow> string \<Rightarrow> bool"
  eval_status :: "nat \<Rightarrow> 'w \<Rightarrow> atom \<Rightarrow> (string \<times> atom option) list \<times> 'w"
  removes_at :: "atom \<Rightarrow> atom list \<Rightarrow> nat option"
  cancel_fails :: "nat \<Rightarrow> bool"
  operation_text :: "atom \<Rightarrow> string"

section \<open>Construction\<close>

record receipt_space =
  same_runtime :: bool
  missing_capabilities :: "string list"
  foreign_space :: bool
  atomicity :: string
  delivery :: string
  delivery_order :: string

definition saga_init :: "receipt_space \<Rightarrow> atom list \<Rightarrow> 'w \<Rightarrow> saga_error + 'w saga" where
  "saga_init rs atoms w =
     (if \<not> same_runtime rs then Inl (Refused ''same engine runtime'')
      else if missing_capabilities rs \<noteq> [] then Inl (Refused ''saga-receipt-store'')
      else if foreign_space rs \<and> atomicity rs \<noteq> ''transactional'' then Inl (Refused ''transactional-writes'')
      else if (delivery rs, delivery_order rs) \<noteq> (''per-write-exactly'', ''ordered'')
      then Inl (Refused ''per-write-exactly-ordered-events'')
      else Inr \<lparr>committed = [], foreign = [], awaiting = [], subscribed = False, entered = False, running = False,
        recovering = False, recovery_failed = False, store = atoms, world = w, turn = 0\<rparr>)"

section \<open>Guards\<close>

definition require_boundary :: "'w env \<Rightarrow> 'w saga \<Rightarrow> saga_error option" where
  "require_boundary env s =
     (if in_transaction env (turn s) then Some (Refused ''already inside a user transaction'')
      else if speculative env (turn s) then Some (Refused ''speculative scope'')
      else if batches env (turn s) \<noteq> [] then Some (Refused ''batch is active'')
      else None)"

definition require_own_receipts :: "'w saga \<Rightarrow> saga_error option" where
  "require_own_receipts s = (if foreign s = [] then None else Some (Refused ''cannot trust its journal''))"

definition is_receipt :: "atom \<Rightarrow> bool" where
  "is_receipt a = (length (kids a) = 4 \<and> atom_eq (kids a ! 0) (Symbol ''did''))"

definition observe_receipt :: "atom \<Rightarrow> 'w saga \<Rightarrow> 'w saga" where
  "observe_receipt a s =
     (if \<exists>ob \<in> set (committed s). atom_eq a (owed ob) then s else s\<lparr>foreign := foreign s @ [a]\<rparr>)"

text \<open>The subscription delivers each added atom of the receipt pattern, in order.\<close>

definition deliver :: "atom list \<Rightarrow> 'w saga \<Rightarrow> 'w saga" where
  "deliver added s = (if subscribed s then fold observe_receipt (filter is_receipt added) s else s)"

section \<open>Transactions\<close>

text \<open>
  \<open>_transaction\<close> with its two notifications. \<open>undo\<close> is what the engine's rollback makes of the body's
  state; the receipt space keeps what it held unless the verdict says the writes are there.
\<close>

definition transaction ::
  "'w env \<Rightarrow> ('w saga \<Rightarrow> saga_error option \<times> 'w saga) \<Rightarrow> ('w saga \<Rightarrow> saga_error option \<times> 'w saga) \<Rightarrow>
     ('w saga \<Rightarrow> 'w saga) \<Rightarrow> ('w saga \<Rightarrow> 'w saga) \<Rightarrow> 'w saga \<Rightarrow> saga_error option \<times> 'w saga" where
  "transaction env body on_commit on_rollback undo s =
     (case body s of
        (Some e, s1) \<Rightarrow> (Some e, on_rollback ((undo s1)\<lparr>store := store s, turn := Suc (turn s)\<rparr>))
      | (None, s1) \<Rightarrow>
          let v = verdict_at env (turn s);
              kept = (if durable v then store s1 else store s);
              settled = (if decided v then s1 else undo s1)\<lparr>store := kept, turn := Suc (turn s)\<rparr>;
              (failure, announced) = (if decided v then on_commit settled else (None, on_rollback settled));
              seen = (if durable v then deliver (drop (length (store s)) kept) announced else announced)
          in (case failure of
                Some e \<Rightarrow> (Some e, seen)
              | None \<Rightarrow> (if decided v \<and> \<not> raises v then None else Some TransactionRaised, seen)))"

section \<open>The reverse pass\<close>

text \<open>The stored receipts grouped by canonical form; \<open>pop\<close> takes the last of a group.\<close>

type_synonym shelf = "(atom, atom list) dict"

definition shelve :: "atom list \<Rightarrow> shelf" where
  "shelve atoms = fold (\<lambda>a d. if is_expression a
      then dict_set atom_eq (canonical a)
        ((case dict_get atom_eq (canonical a) d of None \<Rightarrow> [] | Some xs \<Rightarrow> xs) @ [a]) d else d) atoms []"

definition claim :: "atom \<Rightarrow> shelf \<Rightarrow> atom option \<times> shelf" where
  "claim a d = (case dict_get atom_eq (canonical a) d of
      None \<Rightarrow> (None, d)
    | Some xs \<Rightarrow> if xs = [] then (None, d) else (Some (last xs), dict_set atom_eq (canonical a) (butlast xs) d))"

fun claim_journalled :: "obligation list \<Rightarrow> shelf \<Rightarrow> atom option list \<times> atom list \<times> shelf" where
  "claim_journalled [] d = ([], [], d)"
| "claim_journalled (ob # obs) d =
     (if \<not> journalled ob then let (rs, missing, d') = claim_journalled obs d in (None # rs, missing, d')
      else case claim (owed ob) d of
          (Some a, d1) \<Rightarrow> let (rs, missing, d') = claim_journalled obs d1 in (Some a # rs, missing, d')
        | (None, d1) \<Rightarrow> let (rs, missing, d') = claim_journalled obs d1 in (None # rs, owed ob # missing, d'))"

fun claim_rest :: "obligation list \<Rightarrow> atom option list \<Rightarrow> shelf \<Rightarrow> atom option list" where
  "claim_rest (ob # obs) (r # rs) d =
     (if journalled ob then r # claim_rest obs rs d
      else let (a, d') = claim (owed ob) d in a # claim_rest obs rs d')"
| "claim_rest _ _ d = []"

text \<open>The count reported for the first missing receipt, as the \<open>Counter\<close> holds it.\<close>

definition missing_error :: "atom list \<Rightarrow> saga_error" where
  "missing_error missing = MissingReceipts
     (length (filter (\<lambda>a. atom_eq (canonical a) (canonical (hd missing))) missing)) (hd missing)"

definition compensation_for :: "'w env \<Rightarrow> nat \<Rightarrow> atom \<Rightarrow> saga_error + string" where
  "compensation_for env t receipt =
     (case compensation_of env t (operation_text env (kids receipt ! 1)) of
        None \<Rightarrow> Inl (NoCompensation receipt)
      | Some name \<Rightarrow> if callable_at env t name then Inr name else Inl (StaleCompensation receipt name))"

datatype plan_entry = Plan (snapshot: atom) (stored_receipt: "atom option") (record_of: atom) (handler: string)

fun record_for :: "obligation \<Rightarrow> atom option \<Rightarrow> atom" where
  "record_for ob None = owed ob"
| "record_for ob (Some a) = a"

fun make_plan :: "'w env \<Rightarrow> nat \<Rightarrow> (obligation \<times> atom option) list \<Rightarrow> saga_error + plan_entry list" where
  "make_plan env t [] = Inr []"
| "make_plan env t ((ob, r) # rest) =
     bindE (compensation_for env t (record_for ob r)) (\<lambda>h.
     bindE (make_plan env t rest) (\<lambda>ps. Inr (Plan (owed ob) r (record_for ob r) h # ps)))"

definition handler_call :: "plan_entry \<Rightarrow> atom" where
  "handler_call p = Expression [Symbol ''once'',
     Expression [Symbol (handler p), Expression [Symbol ''quote'', record_of p]]]"

text \<open>A missing or undefined answer is \<open>None\<close> here.\<close>

definition is_error_answer :: "atom \<Rightarrow> bool" where
  "is_error_answer a = (case kids a of h # _ \<Rightarrow> atom_eq h (Symbol ''Error'') | [] \<Rightarrow> False)"

definition handler_failed :: "(string \<times> atom option) list \<Rightarrow> bool" where
  "handler_failed outcomes = (outcomes = [] \<or>
     list_ex (\<lambda>(status, a). status \<noteq> ''value'' \<or> (case a of None \<Rightarrow> True | Some x \<Rightarrow> is_error_answer x)) outcomes)"

definition remove_nth :: "nat \<Rightarrow> 'a list \<Rightarrow> 'a list" where
  "remove_nth i xs = take i xs @ drop (Suc i) xs"

definition recover_body :: "'w env \<Rightarrow> plan_entry \<Rightarrow> 'w saga \<Rightarrow> saga_error option \<times> 'w saga" where
  "recover_body env p s =
     (case (case stored_receipt p of
              None \<Rightarrow> Some (store s)
            | Some a \<Rightarrow> map_option (\<lambda>i. remove_nth i (store s)) (removes_at env a (store s))) of
        None \<Rightarrow> (Some (ReceiptVanished (record_of p)), s)
      | Some kept \<Rightarrow>
          let (outcomes, w) = eval_status env (turn s) (world s) (handler_call p) in
          if handler_failed outcomes then (Some (CompensationFailed (record_of p)), s\<lparr>store := kept, world := w\<rparr>)
          else (None, s\<lparr>store := kept, world := w\<rparr>))"

definition pop_recovered :: "atom \<Rightarrow> 'w saga \<Rightarrow> saga_error option \<times> 'w saga" where
  "pop_recovered a s =
     (if committed s = [] \<or> \<not> atom_eq (canonical (owed (last (committed s)))) (canonical a)
      then (Some (OrderChanged a), s)
      else (None, s\<lparr>committed := butlast (committed s)\<rparr>))"

text \<open>Each compensation runs in a transaction of its own. One that fails is undone there: the receipt is back, and the world
  is taken to be as it was before the handler, which is what the engine's rollback gives for effects inside the engine;
  what a failed handler did outside it is not modelled.\<close>

fun execute_plan :: "'w env \<Rightarrow> plan_entry list \<Rightarrow> 'w saga \<Rightarrow> saga_error option \<times> 'w saga" where
  "execute_plan env [] s = (None, s)"
| "execute_plan env (p # ps) s =
     (case transaction env (recover_body env p) (pop_recovered (snapshot p)) id (\<lambda>s1. s1\<lparr>world := world s\<rparr>) s of
        (Some e, s1) \<Rightarrow> (Some e, s1)
      | (None, s1) \<Rightarrow> execute_plan env ps s1)"

definition rollback_committed :: "'w env \<Rightarrow> nat \<Rightarrow> 'w saga \<Rightarrow> saga_error option \<times> 'w saga" where
  "rollback_committed env start s =
     (let obs = drop start (committed s);
          (stored, missing, d) = claim_journalled obs (shelve (store s)) in
      if missing \<noteq> [] then (Some (missing_error missing), s)
      else case make_plan env (turn s) (rev (zip obs (claim_rest obs stored d))) of
          Inl e \<Rightarrow> (Some e, s)
        | Inr plan \<Rightarrow> execute_plan env plan s)"

definition rollback :: "'w env \<Rightarrow> 'w saga \<Rightarrow> saga_error option \<times> 'w saga" where
  "rollback env s =
     (case require_own_receipts s of
        Some e \<Rightarrow> (Some e, s)
      | None \<Rightarrow>
          if \<not> entered s \<and> committed s = [] then (Some (Refused ''requires an active scope''), s)
          else if running s then (Some (Refused ''inside a forward saga step''), s)
          else if recovering s then (Some (Refused ''cannot re-enter recovery''), s)
          else (case require_boundary env s of
                  Some e \<Rightarrow> (Some e, s)
                | None \<Rightarrow>
                    let (r, s1) = rollback_committed env 0 (s\<lparr>recovering := True\<rparr>) in
                    (r, s1\<lparr>recovery_failed := (r \<noteq> None \<and> committed s1 \<noteq> []), recovering := False\<rparr>)))"

section \<open>Failed steps\<close>

definition unenlisted :: "captured list \<Rightarrow> atom list" where
  "unenlisted caught = map receipt_atom (filter (\<lambda>c. \<not> enlisted c) caught)"

definition unjournalled :: "atom list \<Rightarrow> obligation list" where
  "unjournalled atoms = map (\<lambda>a. Obligation a False) atoms"

definition owe :: "atom list \<Rightarrow> 'w saga \<Rightarrow> 'w saga" where
  "owe atoms s = s\<lparr>committed := committed s @ map (\<lambda>a. Obligation a True) atoms, awaiting := []\<rparr>"

text \<open>A step's receipts are written in its own transaction, and awaited until it is settled.\<close>

definition write_receipts :: "atom list \<Rightarrow> 'w saga \<Rightarrow> 'w saga" where
  "write_receipts atoms s = s\<lparr>awaiting := awaiting s @ atoms, store := store s @ atoms\<rparr>"

definition recover_survivors :: "'w env \<Rightarrow> atom list \<Rightarrow> 'w saga \<Rightarrow> saga_error option \<times> 'w saga" where
  "recover_survivors env survivors s =
     (if survivors = [] then (None, s)
      else
        let start = length (committed s);
            (persistence, s1) = transaction env (\<lambda>s. (None, write_receipts survivors s)) (\<lambda>s. (None, owe survivors s))
              (\<lambda>s. s\<lparr>awaiting := []\<rparr>) id s;
            s2 = (if persistence = None then s1
                  else s1\<lparr>committed := take start (committed s1) @ unjournalled survivors\<rparr>)
        in (case rollback_committed env start s2 of
              (Some e, s3) \<Rightarrow> (Some e, s3\<lparr>recovery_failed := (drop start (committed s3) \<noteq> [])\<rparr>)
            | (None, s3) \<Rightarrow> (persistence, s3)))"

definition retain_in_doubt :: "nat \<Rightarrow> captured list \<Rightarrow> 'w saga \<Rightarrow> 'w saga" where
  "retain_in_doubt start caught s = s\<lparr>committed := take start (committed s) @ unjournalled (map receipt_atom caught),
     recovery_failed := True\<rparr>"

text \<open>\<open>_undurable\<close>: earlier obligations claim first; the positions of the step's receipts not in the space.\<close>

type_synonym tally = "(atom, nat) dict"

definition tally_receipts :: "atom list \<Rightarrow> tally" where
  "tally_receipts atoms = fold (\<lambda>a d. if is_expression a
      then dict_set atom_eq (canonical a)
        (Suc (case dict_get atom_eq (canonical a) d of None \<Rightarrow> 0 | Some n \<Rightarrow> n)) d else d) atoms []"

definition take_one :: "atom \<Rightarrow> tally \<Rightarrow> tally option" where
  "take_one a d = (case dict_get atom_eq (canonical a) d of
      None \<Rightarrow> None
    | Some n \<Rightarrow> if n = 0 then None else Some (dict_set atom_eq (canonical a) (n - 1) d))"

fun take_all :: "obligation list \<Rightarrow> tally \<Rightarrow> tally" where
  "take_all [] d = d"
| "take_all (ob # obs) d = take_all obs (case take_one (owed ob) d of None \<Rightarrow> d | Some d' \<Rightarrow> d')"

fun absent_from :: "nat \<Rightarrow> obligation list \<Rightarrow> tally \<Rightarrow> nat list" where
  "absent_from i [] d = []"
| "absent_from i (ob # obs) d =
     (case take_one (owed ob) d of
        Some d' \<Rightarrow> absent_from (Suc i) obs d'
      | None \<Rightarrow> i # absent_from (Suc i) obs d)"

definition undurable :: "nat \<Rightarrow> 'w saga \<Rightarrow> nat list" where
  "undurable start s =
     absent_from start (drop start (committed s)) (take_all (take start (committed s)) (tally_receipts (store s)))"

definition after_failed_step ::
  "'w env \<Rightarrow> saga_error \<Rightarrow> nat \<Rightarrow> captured list \<Rightarrow> 'w saga \<Rightarrow> saga_error \<times> 'w saga" where
  "after_failed_step env step_error start caught s =
     (let lost = lost_at env (turn s);
          (recovery, s') =
            (if lost \<noteq> [] then (Some (MixedOutcome lost), retain_in_doubt start caught s)
             else if length (committed s) = start then recover_survivors env (unenlisted caught) s
             else let positions = undurable start s in
               if positions = [] then (None, s)
               else recover_survivors env (map (\<lambda>i. owed (committed s ! i)) positions)
                 (s\<lparr>committed := map snd (filter (\<lambda>(i, ob). i \<notin> set positions) (List.enumerate 0 (committed s)))\<rparr>))
      in (case recovery of None \<Rightarrow> (step_error, s') | Some e \<Rightarrow> (Together [step_error, e], s')))"

section \<open>Forward steps\<close>

text \<open>\<open>_native_receipt\<close>: an engine-side receipt of a non-ground removal is refused.\<close>

definition native_refusal :: "atom \<Rightarrow> saga_error option" where
  "native_refusal r =
     (if \<not> is_expression r \<or> length (kids r) < 2 then Some (NotAReceipt r)
      else if atom_eq (kids r ! 1) (Symbol ''remove-atom'') \<and> length (kids r) \<ge> 3 \<and> is_expression (kids r ! 2) \<and>
        length (kids (kids r ! 2)) \<ge> 2 \<and> \<not> is_ground (kids (kids r ! 2) ! 1)
      then Some (NonGroundRemoval r)
      else None)"

fun capture :: "captured list \<Rightarrow> captured list \<times> saga_error option" where
  "capture [] = ([], None)"
| "capture (c # cs) =
     (case (if enlisted c then native_refusal (receipt_atom c) else None) of
        Some e \<Rightarrow> ([], Some e)
      | None \<Rightarrow> (let (caught, e) = capture cs in (c # caught, e)))"

definition run :: "'w env \<Rightarrow> atom \<Rightarrow> 'w saga \<Rightarrow> (saga_error + atom list) \<times> 'w saga" where
  "run env target s =
     (if \<not> entered s then (Inl (Refused ''requires an active scope''), s)
      else if running s then (Inl (Refused ''cannot re-enter the same runner''), s)
      else if recovering s then (Inl (Refused ''while this runner is recovering''), s)
      else if recovery_failed s then (Inl (Refused ''while a failed recovery is pending''), s)
      else case require_boundary env s of
          Some e \<Rightarrow> (Inl e, s)
        | None \<Rightarrow>
            let st = evaluate_step env (turn s) (world s) target;
                (caught, refusal) = capture (captures st);
                atoms = map receipt_atom caught;
                start = length (committed s);
                undo = (\<lambda>s1. s1\<lparr>world := undone st (length caught)\<rparr>);
                empty = (refusal = None \<and> \<not> raised st \<and> answers st = []);
                body = (\<lambda>s0. case refusal of
                    Some e \<Rightarrow> (Some e, s0)
                  | None \<Rightarrow> if raised st \<or> answers st = [] then (Some StepRaised, s0)
                      else (None, write_receipts atoms (s0\<lparr>world := after st\<rparr>)));
                (r, s1) = transaction env body (\<lambda>s. (None, owe atoms s)) (\<lambda>s. s\<lparr>awaiting := []\<rparr>) undo
                  (s\<lparr>running := True\<rparr>);
                (answer, s2) =
                  (case r of
                     None \<Rightarrow> (Inr (answers st), s1)
                   | Some e \<Rightarrow>
                       if empty then (case recover_survivors env (unenlisted caught) s1 of
                           (None, s2) \<Rightarrow> (Inr [], s2) | (Some e, s2) \<Rightarrow> (Inl e, s2))
                       else (case after_failed_step env e start caught s1 of (e', s2) \<Rightarrow> (Inl e', s2)))
            in (answer, s2\<lparr>awaiting := [], running := False\<rparr>))"

section \<open>The scope\<close>

definition enter :: "'w env \<Rightarrow> 'w saga \<Rightarrow> saga_error option \<times> 'w saga" where
  "enter env s =
     (if entered s then (Some (Refused ''cannot be entered twice''), s)
      else if committed s \<noteq> [] \<or> recovery_failed s then (Some (Refused ''pending recovery''), s)
      else if subscribed s then (Some (Refused ''still owns a subscription''), s)
      else case require_boundary env s of
          Some e \<Rightarrow> (Some e, s)
        | None \<Rightarrow> (None, s\<lparr>subscribed := True, entered := True\<rparr>))"

definition close :: "'w env \<Rightarrow> 'w saga \<Rightarrow> saga_error option \<times> 'w saga" where
  "close env s =
     (if \<not> subscribed s then (None, s)
      else if cancel_fails env (turn s) then (Some CancelFailed, s\<lparr>turn := Suc (turn s)\<rparr>)
      else (None, s\<lparr>subscribed := False, turn := Suc (turn s)\<rparr>))"

text \<open>\<open>__exit__\<close> with the body's error; the failures are grouped behind it, and an error alone passes on.\<close>

definition leave :: "'w env \<Rightarrow> saga_error option \<Rightarrow> 'w saga \<Rightarrow> saga_error option \<times> 'w saga" where
  "leave env error s =
     (let s0 = s\<lparr>entered := False\<rparr>;
          (failures, s1) =
            (if error \<noteq> None \<and> \<not> recovery_failed s0 \<and> committed s0 \<noteq> []
             then (case rollback env s0 of (None, s1) \<Rightarrow> ([], s1) | (Some e, s1) \<Rightarrow> ([e], s1))
             else if error = None \<and> recovery_failed s0 then ([Refused ''still has a failed recovery''], s0)
             else ([], s0));
          s2 = (if error = None \<and> \<not> recovery_failed s1 then s1\<lparr>committed := []\<rparr> else s1);
          (cancelled, s3) = close env s2;
          failures' = failures @ (case cancelled of None \<Rightarrow> [] | Some e \<Rightarrow> [e])
      in (if failures' \<noteq> [] then Some (Together (case error of None \<Rightarrow> failures' | Some e \<Rightarrow> e # failures')) else error, s3))"

text \<open>Somebody else's write to the receipt space.\<close>

definition stranger_adds :: "atom \<Rightarrow> 'w saga \<Rightarrow> 'w saga" where
  "stranger_adds a s = deliver [a] (s\<lparr>store := store s @ [a]\<rparr>)"

end
