(* ===== verification/Recovery.thy ===== *)
theory Recovery
  imports Saga PatternMaps
begin

text \<open>
  What the saga runner promises: the reverse pass stops at the first failure and keeps a prefix, its
  preflight comes before the first handler, a committed step owes exactly its receipts and a failed one
  loses none of the effects the engine could not undo.
\<close>

section \<open>One transaction\<close>

lemma deliver_Nil [simp]: "deliver [] s = s"
  by (simp add: deliver_def)

lemma length_remove_nth: "length (remove_nth i xs) \<le> length xs"
  by (simp add: remove_nth_def)

lemma recover_body_store:
  "recover_body env p s = (r, s1) \<Longrightarrow> length (store s1) \<le> length (store s) \<and> s1 = s\<lparr>store := store s1, world := world s1\<rparr>"
  by (auto simp: recover_body_def Let_def length_remove_nth split: option.splits prod.splits if_splits)

lemma recover_body_world:
  "recover_body env p s = (None, s1) \<Longrightarrow> world s1 = snd (eval_status env (turn s) (world s) (handler_call p))"
  by (auto simp: recover_body_def Let_def split: option.splits prod.splits if_splits)

text \<open>One entry of the plan: it retires the last obligation and keeps the handler's work, or neither.\<close>

lemma recover_transaction:
  assumes t: "transaction env (recover_body env p) (pop_recovered (snapshot p)) id (\<lambda>s1. s1\<lparr>world := world s\<rparr>) s = (r, s')"
    and last: "committed s = obs @ [ob]" "owed ob = snapshot p"
  shows "(s' = s\<lparr>store := store s', turn := Suc (turn s)\<rparr> \<and> r \<noteq> None) \<or>
    s' = s\<lparr>store := store s', turn := Suc (turn s), committed := obs,
      world := snd (eval_status env (turn s) (world s) (handler_call p))\<rparr>"
proof -
  obtain q s1 where b: "recover_body env p s = (q, s1)" by force
  note st = recover_body_store [OF b]
  show ?thesis
  proof (cases q)
    case (Some e)
    with t b st show ?thesis by (simp add: transaction_def) (cases s, cases s1, auto)
  next
    case None
    note w = recover_body_world [OF b [unfolded None]]
    have c: "committed s1 = obs @ [ob]" using st last(1) by (metis saga.select_convs(1) saga.surjective saga.update_convs(9,10))
    show ?thesis
    proof (cases "decided (verdict_at env (turn s))")
      case True
      then show ?thesis using t b None st w c last
        by (cases s, cases s1) (auto simp: transaction_def Let_def pop_recovered_def atom_eq_core split: if_splits)
    next
      case False
      then show ?thesis using t b None st w c last
        by (cases s, cases s1) (auto simp: transaction_def Let_def split: if_splits)
    qed
  qed
qed

section \<open>A journal\<close>

text \<open>Two charges stand committed; the handler of the older one fails when \<open>stubborn\<close>.\<close>

definition charge :: "string \<Rightarrow> atom" where
  "charge x = Expression [Symbol ''did'', Symbol ''charge'', Expression [Symbol x], Symbol ''ok'']"

definition refund_log :: "string list env" where
  "refund_log = \<lparr>in_transaction = (\<lambda>_. False), speculative = (\<lambda>_. False), batches = (\<lambda>_. []),
     evaluate_step = (\<lambda>_ w a. \<lparr>captures = [Captured (charge ''c'') False], answers = (if a = Symbol ''go'' then [Symbol ''ok''] else []),
       raised = False, after = w @ [''c''], undone = (\<lambda>_. w @ [''c''])\<rparr>),
     verdict_at = (\<lambda>_. Verdict True True False), lost_at = (\<lambda>_. []), compensation_of = (\<lambda>_ _. Some ''refund''),
     callable_at = (\<lambda>_ _. True), eval_status = (\<lambda>_ w a. ([(''value'', Some (Symbol ''done''))], w @ [''refund''])),
     removes_at = (\<lambda>_ xs. if xs = [] then None else Some (length xs - 1)), cancel_fails = (\<lambda>_. False),
     operation_text = (\<lambda>_. ''charge'')\<rparr>"

definition two_charges :: "string list saga" where
  "two_charges = \<lparr>committed = [Obligation (charge ''a'') True, Obligation (charge ''b'') True], foreign = [], awaiting = [],
     subscribed = True, entered = True, running = False, recovering = False, recovery_failed = False,
     store = [charge ''a'', charge ''b''], world = [''a'', ''b''], turn = 0\<rparr>"

section \<open>The reverse pass\<close>

text \<open>The world after the handlers of these entries, in order, each at its own turn.\<close>

fun handled :: "'w env \<Rightarrow> nat \<Rightarrow> 'w \<Rightarrow> plan_entry list \<Rightarrow> 'w" where
  "handled env t w [] = w"
| "handled env t w (p # ps) = handled env (Suc t) (snd (eval_status env t w (handler_call p))) ps"

text \<open>The runner's fields the reverse pass leaves alone.\<close>

definition same_scope :: "'w saga \<Rightarrow> 'w saga \<Rightarrow> bool" where
  "same_scope s s' = (foreign s' = foreign s \<and> awaiting s' = awaiting s \<and> subscribed s' = subscribed s \<and>
     entered s' = entered s \<and> running s' = running s \<and> recovering s' = recovering s \<and>
     recovery_failed s' = recovery_failed s)"

lemma execute_plan_spec:
  "execute_plan env ps s = (r, s') \<Longrightarrow> committed s = base @ obs \<Longrightarrow> map snapshot ps = rev (map owed obs) \<Longrightarrow>
     \<exists>k \<le> length obs. committed s' = base @ take k obs \<and> (r = None \<longrightarrow> k = 0) \<and> same_scope s s' \<and>
       world s' = handled env (turn s) (world s) (take (length obs - k) ps)"
proof (induction ps arbitrary: s obs)
  case Nil
  then show ?case by (auto simp: same_scope_def)
next
  case (Cons p ps)
  from Cons.prems(3) obtain ob obs' where obs: "obs = obs' @ [ob]" "owed ob = snapshot p" "map snapshot ps = rev (map owed obs')"
    by (cases obs rule: rev_cases) auto
  obtain q s1 where t: "transaction env (recover_body env p) (pop_recovered (snapshot p)) id (\<lambda>s1. s1\<lparr>world := world s\<rparr>) s = (q, s1)"
    by force
  have c: "committed s = (base @ obs') @ [ob]" using Cons.prems(2) obs(1) by simp
  from recover_transaction [OF t c obs(2)] show ?case
  proof
    assume kept: "s1 = s\<lparr>store := store s1, turn := Suc (turn s)\<rparr> \<and> q \<noteq> None"
    then obtain e where "q = Some e" by blast
    with Cons.prems(1) t have s': "s' = s1" "r = Some e" by auto
    have "committed s1 = committed s" "same_scope s s1" "world s1 = world s" by (subst kept, simp add: same_scope_def)+
    with s' Cons.prems(2) show ?thesis by (intro exI [of _ "length obs"]) simp
  next
    assume gone: "s1 = s\<lparr>store := store s1, turn := Suc (turn s), committed := base @ obs',
      world := snd (eval_status env (turn s) (world s) (handler_call p))\<rparr>"
    have g: "committed s1 = base @ obs'" "same_scope s s1" "turn s1 = Suc (turn s)"
      "world s1 = snd (eval_status env (turn s) (world s) (handler_call p))" by (subst gone, simp add: same_scope_def)+
    show ?thesis
    proof (cases q)
      case (Some e)
      with Cons.prems(1) t have "s' = s1" "r = Some e" by auto
      with g obs(1) show ?thesis by (intro exI [of _ "length obs'"]) simp
    next
      case None
      with Cons.prems(1) t have "execute_plan env ps s1 = (r, s')" by simp
      from Cons.IH [OF this g(1) obs(3)] obtain k where k: "k \<le> length obs'" "committed s' = base @ take k obs'"
          "r = None \<longrightarrow> k = 0" "same_scope s1 s'"
          "world s' = handled env (turn s1) (world s1) (take (length obs' - k) ps)" by blast
      with g obs(1) show ?thesis by (intro exI [of _ k]) (simp add: same_scope_def Suc_diff_le)
    qed
  qed
qed

definition plans :: "'w env \<Rightarrow> nat \<Rightarrow> obligation \<times> atom option \<Rightarrow> plan_entry \<Rightarrow> bool" where
  "plans env t pair p = (p = Plan (owed (fst pair)) (snd pair) (record_for (fst pair) (snd pair)) (handler p) \<and>
     compensation_for env t (record_of p) = Inr (handler p))"

lemma make_plan_spec: "make_plan env t pairs = Inr plan \<Longrightarrow> list_all2 (plans env t) pairs plan"
  by (induction env t pairs arbitrary: plan rule: make_plan.induct) (auto simp: plans_def)

lemma plans_snapshots: "list_all2 (plans env t) pairs plan \<Longrightarrow> map snapshot plan = map (owed \<circ> fst) pairs"
  by (induction rule: list_all2_induct) (auto simp: plans_def, metis plan_entry.sel(1))

text \<open>A shelf holds each stored receipt under its canonical form.\<close>

definition shelf_ok :: "atom set \<Rightarrow> shelf \<Rightarrow> bool" where
  "shelf_ok pool d = (\<forall>k xs a. dict_get atom_eq k d = Some xs \<longrightarrow> a \<in> set xs \<longrightarrow> atom_eq (canonical a) k \<and> a \<in> pool)"

lemma shelf_set:
  "shelf_ok pool d \<Longrightarrow> (\<And>a. a \<in> set xs \<Longrightarrow> atom_eq (canonical a) k \<and> a \<in> pool) \<Longrightarrow> shelf_ok pool (dict_set atom_eq k xs d)"
  unfolding shelf_ok_def by (auto simp: atom_eq_core split: if_splits)

lemma shelve_ok: "shelf_ok (set atoms) (shelve atoms)"
proof -
  have step: "shelf_ok pool d \<Longrightarrow> set as \<subseteq> pool \<Longrightarrow> shelf_ok pool (fold (\<lambda>a d. if is_expression a
      then dict_set atom_eq (canonical a)
        ((case dict_get atom_eq (canonical a) d of None \<Rightarrow> [] | Some xs \<Rightarrow> xs) @ [a]) d else d) as d)" for pool d as
  proof (induction as arbitrary: d)
    case (Cons a as)
    have "shelf_ok pool (dict_set atom_eq (canonical a)
        ((case dict_get atom_eq (canonical a) d of None \<Rightarrow> [] | Some xs \<Rightarrow> xs) @ [a]) d)"
    proof (rule shelf_set [OF Cons.prems(1)])
      fix b
      assume "b \<in> set ((case dict_get atom_eq (canonical a) d of None \<Rightarrow> [] | Some xs \<Rightarrow> xs) @ [a])"
      then show "atom_eq (canonical b) (canonical a) \<and> b \<in> pool"
        using Cons.prems unfolding shelf_ok_def
        by (cases "dict_get atom_eq (canonical a) d") (auto simp: atom_eq_core)
    qed
    with Cons show ?case by simp
  qed simp
  show ?thesis unfolding shelve_def by (rule step) (simp_all add: shelf_ok_def)
qed

lemma claim_ok:
  assumes "shelf_ok pool d" "claim a d = (r, d')"
  shows "shelf_ok pool d' \<and> (\<forall>b. r = Some b \<longrightarrow> alpha_eq b a \<and> b \<in> pool)"
proof (cases "dict_get atom_eq (canonical a) d")
  case None
  with assms show ?thesis by (simp add: claim_def)
next
  case (Some xs)
  show ?thesis
  proof (cases "xs = []")
    case True
    with Some assms show ?thesis by (simp add: claim_def)
  next
    case False
    have ok: "atom_eq (canonical b) (canonical a) \<and> b \<in> pool" if "b \<in> set xs" for b
      using assms(1) Some that unfolding shelf_ok_def by blast
    have "shelf_ok pool (dict_set atom_eq (canonical a) (butlast xs) d)"
      by (rule shelf_set [OF assms(1)]) (use ok in_set_butlastD in fast)
    with Some False assms(2) ok [of "last xs"] show ?thesis by (auto simp: claim_def canonical_alpha)
  qed
qed

definition claimed :: "atom set \<Rightarrow> obligation \<Rightarrow> atom option \<Rightarrow> bool" where
  "claimed pool ob r = (\<forall>b. r = Some b \<longrightarrow> alpha_eq b (owed ob) \<and> b \<in> pool)"

lemma claim_journalled_ok:
  "claim_journalled obs d = (rs, missing, d') \<Longrightarrow> shelf_ok pool d \<Longrightarrow>
     list_all2 (claimed pool) obs rs \<and> shelf_ok pool d'"
proof (induction obs d arbitrary: rs missing d' rule: claim_journalled.induct)
  case (2 ob obs d)
  show ?case
  proof (cases "journalled ob")
    case False
    with 2 show ?thesis by (auto simp: claimed_def Let_def split: prod.splits)
  next
    case True
    obtain r d1 where c: "claim (owed ob) d = (r, d1)" by force
    from claim_ok [OF 2(5) c] True c 2 show ?thesis
      by (auto simp: claimed_def Let_def split: prod.splits option.splits)
  qed
qed auto

lemma claim_rest_ok:
  "list_all2 (claimed pool) obs rs \<Longrightarrow> shelf_ok pool d \<Longrightarrow> list_all2 (claimed pool) obs (claim_rest obs rs d)"
proof (induction obs rs d rule: claim_rest.induct)
  case (1 ob obs r rs d)
  obtain a d' where c: "claim (owed ob) d = (a, d')" by force
  from claim_ok [OF "1.prems"(2) c] 1 c show ?case by (auto simp: claimed_def)
qed auto

lemma claim_journalled_present:
  "claim_journalled obs d = (rs, [], d') \<Longrightarrow> list_all2 (\<lambda>ob r. journalled ob \<longrightarrow> r \<noteq> None) obs rs"
proof (induction obs d arbitrary: rs d' rule: claim_journalled.induct)
  case (2 ob obs d)
  then show ?case by (cases "claim (owed ob) d") (auto simp: Let_def split: prod.splits option.splits if_splits)
qed auto

lemma claim_rest_present:
  "list_all2 (\<lambda>ob r. journalled ob \<longrightarrow> r \<noteq> None) obs rs \<Longrightarrow>
     list_all2 (\<lambda>ob r. journalled ob \<longrightarrow> r \<noteq> None) obs (claim_rest obs rs d)"
  by (induction obs rs d rule: claim_rest.induct) (auto split: prod.splits)

text \<open>
  An executed entry recovers its obligation: the handler declared for the receipt is called with a
  receipt equal to the owed one up to variable names, a stored one where the obligation was journalled.
\<close>

definition recovers :: "'w env \<Rightarrow> 'w saga \<Rightarrow> obligation \<Rightarrow> plan_entry \<Rightarrow> bool" where
  "recovers env s ob p = (snapshot p = owed ob \<and> alpha_eq (record_of p) (owed ob) \<and>
     (journalled ob \<longrightarrow> record_of p \<in> set (store s)) \<and>
     compensation_for env (turn s) (record_of p) = Inr (handler p) \<and>
     (\<forall>a. stored_receipt p = Some a \<longrightarrow> a = record_of p \<and> a \<in> set (store s)))"

lemma plan_recovers:
  assumes c: "claim_journalled obs (shelve (store s)) = (rs, [], d)"
    and p: "make_plan env (turn s) (rev (zip obs (claim_rest obs rs d))) = Inr plan"
  shows "list_all2 (recovers env s) (rev obs) plan"
proof -
  let ?rs = "claim_rest obs rs d"
  note ok = claim_journalled_ok [OF c shelve_ok]
  have claimed: "list_all2 (claimed (set (store s))) obs ?rs" using claim_rest_ok ok by blast
  have present: "list_all2 (\<lambda>ob r. journalled ob \<longrightarrow> r \<noteq> None) obs ?rs"
    by (rule claim_rest_present [OF claim_journalled_present [OF c]])
  have len: "length ?rs = length obs" using claimed by (simp add: list_all2_lengthD)
  have pl: "list_all2 (plans env (turn s)) (rev (zip obs ?rs)) plan" by (rule make_plan_spec [OF p])
  have one: "recovers env s ob e" if "plans env (turn s) (ob, r) e" "claimed (set (store s)) ob r" "journalled ob \<longrightarrow> r \<noteq> None"
    for ob r e
  proof (cases r)
    case None
    with that have e: "e = Plan (owed ob) None (owed ob) (handler e)" by (simp add: plans_def)
    have "snapshot e = owed ob" "record_of e = owed ob" "stored_receipt e = None" by (subst e, simp)+
    with that None show ?thesis by (simp add: recovers_def plans_def)
  next
    case (Some b)
    with that have e: "e = Plan (owed ob) (Some b) b (handler e)" by (simp add: plans_def)
    have "snapshot e = owed ob" "record_of e = b" "stored_receipt e = Some b" by (subst e, simp)+
    with that Some show ?thesis by (simp add: recovers_def plans_def claimed_def)
  qed
  show ?thesis
  proof (rule list_all2_all_nthI)
    show "length (rev obs) = length plan" using list_all2_lengthD [OF pl] len by simp
  next
    fix i
    assume i: "i < length (rev obs)"
    let ?j = "length obs - Suc i"
    have j: "?j < length obs" using i by simp
    have "rev (zip obs ?rs) ! i = (obs ! ?j, ?rs ! ?j)" using i len by (simp add: rev_nth)
    with list_all2_nthD [OF pl, of i] i len have "plans env (turn s) (obs ! ?j, ?rs ! ?j) (plan ! i)" by simp
    with one list_all2_nthD [OF claimed j] list_all2_nthD [OF present j] i
    show "recovers env s (rev obs ! i) (plan ! i)" by (simp add: rev_nth)
  qed
qed

lemma rollback_committed_spec:
  assumes "rollback_committed env start s = (r, s')"
  defines "obs \<equiv> drop start (committed s)"
  shows "\<exists>k \<le> length obs. \<exists>finished. committed s' = take start (committed s) @ take k obs \<and> (r = None \<longrightarrow> k = 0) \<and>
    same_scope s s' \<and> list_all2 (recovers env s) (rev (drop k obs)) finished \<and>
    world s' = handled env (turn s) (world s) finished"
proof -
  have c: "committed s = take start (committed s) @ obs" by (simp add: obs_def)
  obtain rs missing d where cj: "claim_journalled obs (shelve (store s)) = (rs, missing, d)" by (cases "claim_journalled obs (shelve (store s))")
  have stop: ?thesis if "r \<noteq> None" "s' = s"
    using that c by (intro exI [of _ "length obs"] conjI exI [of _ "[]"]) (auto simp: same_scope_def)
  show ?thesis
  proof (cases "missing = []")
    case False
    with assms(1) cj have "r \<noteq> None" "s' = s" by (auto simp: rollback_committed_def obs_def)
    then show ?thesis by (rule stop)
  next
    case m: True
    show ?thesis
    proof (cases "make_plan env (turn s) (rev (zip obs (claim_rest obs rs d)))")
      case (Inl e)
      with assms(1) cj m have "r \<noteq> None" "s' = s" by (auto simp: rollback_committed_def obs_def)
      then show ?thesis by (rule stop)
    next
      case (Inr plan)
      with assms(1) cj m have ex: "execute_plan env plan s = (r, s')" by (auto simp: rollback_committed_def obs_def)
      have rec: "list_all2 (recovers env s) (rev obs) plan" by (rule plan_recovers [OF cj [unfolded m] Inr])
      have len: "length plan = length obs" using list_all2_lengthD [OF rec] by simp
      have "map snapshot plan = map owed (rev obs)"
        using rec by (intro nth_equalityI) (auto simp: list_all2_conv_all_nth recovers_def)
      then have "map snapshot plan = rev (map owed obs)" by (simp add: rev_map)
      from execute_plan_spec [OF ex c this] obtain k where k: "k \<le> length obs" "committed s' = take start (committed s) @ take k obs"
          "r = None \<longrightarrow> k = 0" "same_scope s s'"
          "world s' = handled env (turn s) (world s) (take (length obs - k) plan)" by blast
      have "list_all2 (recovers env s) (take (length obs - k) (rev obs)) (take (length obs - k) plan)"
        by (rule list_all2_takeI [OF rec])
      moreover have "take (length obs - k) (rev obs) = rev (drop k obs)" by (simp add: rev_drop)
      ultimately show ?thesis using k by auto
    qed
  qed
qed

text \<open>C10. Recovery runs backwards and stops at the first failure: what it leaves owed is a prefix of what was
  owed, the handlers whose work stands are exactly those of the rest, newest first, each called with its
  own receipt, and it succeeds only with nothing left owed.\<close>

theorem rollback_reverse_suffix:
  assumes "rollback env s = (r, s')"
  shows "\<exists>k \<le> length (committed s). \<exists>finished. committed s' = take k (committed s) \<and>
    list_all2 (recovers env s) (rev (drop k (committed s))) finished \<and>
    world s' = handled env (turn s) (world s) finished \<and>
    (r = None \<longrightarrow> committed s' = [] \<and> \<not> recovery_failed s')"
proof -
  have stop: ?thesis if "r \<noteq> None" "s' = s"
    using that by (intro exI [of _ "length (committed s)"] conjI exI [of _ "[]"]) auto
  show ?thesis
  proof (cases "require_own_receipts s = None \<and> (entered s \<or> committed s \<noteq> []) \<and> \<not> running s \<and> \<not> recovering s \<and>
      require_boundary env s = None")
    case False
    with assms show ?thesis by (intro stop) (auto simp: rollback_def dest: sym split: option.splits if_splits)
  next
    case True
    obtain q s1 where q: "rollback_committed env 0 (s\<lparr>recovering := True\<rparr>) = (q, s1)" by force
    with assms True have s': "r = q" "s' = s1\<lparr>recovery_failed := (q \<noteq> None \<and> committed s1 \<noteq> []), recovering := False\<rparr>"
      by (auto simp: rollback_def)
    have same: "recovers env (s\<lparr>recovering := True\<rparr>) = recovers env s" by (intro ext) (simp add: recovers_def)
    from rollback_committed_spec [OF q] obtain k finished where k: "k \<le> length (committed s)"
        "committed s1 = take k (committed s)" "q = None \<longrightarrow> k = 0" "list_all2 (recovers env s) (rev (drop k (committed s))) finished"
        "world s1 = handled env (turn s) (world s) finished" by (auto simp: same)
    show ?thesis by (rule exI [of _ k], intro conjI k(1) exI [of _ finished]) (use k s' in auto)
  qed
qed

theorem rollback_reverse_suffix_witness:
  "committed (snd (rollback refund_log two_charges)) = [] \<and> world (snd (rollback refund_log two_charges)) =
     [''a'', ''b'', ''refund'', ''refund'']"
proof -
  have "fst (rollback refund_log two_charges) = None" "world (snd (rollback refund_log two_charges)) =
     [''a'', ''b'', ''refund'', ''refund'']" by code_simp+
  with rollback_reverse_suffix [where env = refund_log and s = two_charges, OF prod.collapse [symmetric]] show ?thesis by blast
qed

section \<open>Preflight\<close>

definition may_recover :: "'w env \<Rightarrow> 'w saga \<Rightarrow> bool" where
  "may_recover env s = (foreign s = [] \<and> \<not> running s \<and> \<not> recovering s \<and> require_boundary env s = None)"

text \<open>No stored receipt answers for it, or no receipt of its form has a callable handler.\<close>

definition unrecoverable :: "'w env \<Rightarrow> 'w saga \<Rightarrow> obligation \<Rightarrow> bool" where
  "unrecoverable env s ob =
     ((journalled ob \<and> (\<forall>a \<in> set (store s). \<not> alpha_eq a (owed ob))) \<or>
      (\<forall>a. alpha_eq a (owed ob) \<longrightarrow> (\<exists>e. compensation_for env (turn s) a = Inl e)))"

text \<open>Every declaration and receipt is checked before the first handler runs: if one owed effect cannot be
  recovered, rollback fails with the world, the receipts and the obligations as they were.\<close>

theorem rollback_preflight:
  assumes "may_recover env s" "ob \<in> set (committed s)" "unrecoverable env s ob"
  shows "\<exists>e. rollback env s = (Some e, s\<lparr>recovery_failed := True, recovering := False\<rparr>)"
proof -
  let ?s = "s\<lparr>recovering := True\<rparr>"
  obtain q s1 where q: "rollback_committed env 0 ?s = (q, s1)" by force
  have ne: "committed s \<noteq> []" using assms(2) by auto
  obtain rs missing d where cj: "claim_journalled (committed s) (shelve (store s)) = (rs, missing, d)"
    by (cases "claim_journalled (committed s) (shelve (store s))")
  have "q \<noteq> None \<and> s1 = ?s"
  proof (cases "missing = []")
    case False
    with q cj show ?thesis by (auto simp: rollback_committed_def)
  next
    case m: True
    show ?thesis
    proof (cases "make_plan env (turn s) (rev (zip (committed s) (claim_rest (committed s) rs d)))")
      case (Inl e)
      with q cj m show ?thesis by (auto simp: rollback_committed_def)
    next
      case (Inr plan)
      from plan_recovers [OF cj [unfolded m] Inr] assms(2) obtain p where "recovers env s ob p"
        by (auto simp: list_all2_conv_all_nth in_set_conv_nth) (metis in_set_conv_nth length_rev set_rev assms(2))
      with assms(3) show ?thesis by (auto simp: recovers_def unrecoverable_def)
    qed
  qed
  then show ?thesis using q assms(1) ne
    by (auto simp: rollback_def may_recover_def require_own_receipts_def)
qed

theorem rollback_preflight_witness:
  "\<exists>e. rollback refund_log (two_charges\<lparr>store := [charge ''a'']\<rparr>) =
     (Some e, two_charges\<lparr>store := [charge ''a''], recovery_failed := True, recovering := False\<rparr>)"
proof -
  let ?s = "two_charges\<lparr>store := [charge ''a'']\<rparr>"
  have "may_recover refund_log ?s"
    by (simp add: may_recover_def require_boundary_def refund_log_def two_charges_def)
  moreover have "unrecoverable refund_log ?s (Obligation (charge ''b'') True)"
  proof -
    have "\<not> alpha_eq (charge ''a'') (charge ''b'')" by code_simp
    then show ?thesis by (simp add: unrecoverable_def two_charges_def)
  qed
  moreover have "Obligation (charge ''b'') True \<in> set (committed ?s)" by (simp add: two_charges_def)
  ultimately show ?thesis using rollback_preflight by fastforce
qed

section \<open>Forward steps\<close>

lemma deliver_own:
  "(\<And>a. a \<in> set added \<Longrightarrow> \<exists>ob \<in> set (committed s). atom_eq a (owed ob)) \<Longrightarrow> deliver added s = s"
proof -
  have own: "(\<And>a. a \<in> set xs \<Longrightarrow> \<exists>ob \<in> set (committed s). atom_eq a (owed ob)) \<Longrightarrow> fold observe_receipt xs s = s" for xs
    by (induction xs) (auto simp: observe_receipt_def)
  assume "\<And>a. a \<in> set added \<Longrightarrow> \<exists>ob \<in> set (committed s). atom_eq a (owed ob)"
  then show "deliver added s = s" by (auto simp: deliver_def intro: own)
qed

lemma owe_own: "deliver atoms (owe atoms s) = owe atoms s"
  by (rule deliver_own) (auto simp: owe_def atom_eq_core intro: bexI [of _ "Obligation _ True"])

definition idle :: "'w saga \<Rightarrow> bool" where
  "idle s = (\<not> running s \<and> \<not> recovering s \<and> awaiting s = [])"

definition ready :: "'w env \<Rightarrow> 'w saga \<Rightarrow> bool" where
  "ready env s = (idle s \<and> entered s \<and> \<not> recovery_failed s \<and> require_boundary env s = None)"

text \<open>A step that commits owes exactly its captured receipts, in order, and has written exactly them to the
  receipt space; none of them is taken for somebody else's.\<close>

theorem run_commits:
  assumes "ready env s"
    and st: "st = evaluate_step env (turn s) (world s) target" "capture (captures st) = (caught, None)"
      "\<not> raised st" "answers st \<noteq> []"
    and v: "verdict_at env (turn s) = Verdict True True False"
  shows "run env target s = (Inr (answers st), s\<lparr>
      committed := committed s @ map (\<lambda>c. Obligation (receipt_atom c) True) caught,
      store := store s @ map receipt_atom caught, world := after st, turn := Suc (turn s)\<rparr>)"
proof -
  let ?atoms = "map receipt_atom caught"
  define settled where "settled = s\<lparr>running := True, world := after st, awaiting := awaiting s @ ?atoms,
    store := store s @ ?atoms, turn := Suc (turn s)\<rparr>"
  have "run env target s = (Inr (answers st), (deliver ?atoms (owe ?atoms settled))\<lparr>awaiting := [], running := False\<rparr>)"
    using assms by (simp add: run_def ready_def idle_def transaction_def write_receipts_def settled_def Let_def)
  also have "\<dots> = (Inr (answers st), s\<lparr>
      committed := committed s @ map (\<lambda>c. Obligation (receipt_atom c) True) caught,
      store := store s @ map receipt_atom caught, world := after st, turn := Suc (turn s)\<rparr>)"
    using assms(1) unfolding owe_own by (cases s) (simp add: settled_def owe_def ready_def idle_def)
  finally show ?thesis .
qed

theorem run_commits_witness:
  "committed (snd (run refund_log (Symbol ''go'') two_charges)) =
     [Obligation (charge ''a'') True, Obligation (charge ''b'') True, Obligation (charge ''c'') True]"
proof -
  let ?st = "evaluate_step refund_log (turn two_charges) (world two_charges) (Symbol ''go'')"
  have "ready refund_log two_charges"
    by (simp add: ready_def idle_def require_boundary_def refund_log_def two_charges_def)
  moreover have "capture (captures ?st) = ([Captured (charge ''c'') False], None)" "\<not> raised ?st" "answers ?st \<noteq> []"
    "verdict_at refund_log (turn two_charges) = Verdict True True False" by code_simp+
  ultimately show ?thesis using run_commits [OF _ refl, of refund_log two_charges "Symbol ''go''"]
    by (simp add: two_charges_def)
qed

section \<open>Steps that do not commit\<close>

lemma observe_frame: "observe_receipt a s = s\<lparr>foreign := foreign (observe_receipt a s)\<rparr>"
  by (simp add: observe_receipt_def)

lemma deliver_frame: "deliver added s = s\<lparr>foreign := foreign (deliver added s)\<rparr>"
proof -
  have "fold observe_receipt xs s = s\<lparr>foreign := foreign (fold observe_receipt xs s)\<rparr>" for xs
  proof (induction xs arbitrary: s)
    case (Cons a xs)
    show ?case using Cons.IH [of "observe_receipt a s"] observe_frame [of a s] by (metis (no_types) fold_simps(2) saga.select_convs(2) saga.surjective saga.update_convs(2))
  qed simp
  then show ?thesis by (simp add: deliver_def)
qed

lemma deliver_fields [simp]:
  "committed (deliver added s) = committed s" "awaiting (deliver added s) = awaiting s"
  "subscribed (deliver added s) = subscribed s" "entered (deliver added s) = entered s"
  "running (deliver added s) = running s" "recovering (deliver added s) = recovering s"
  "recovery_failed (deliver added s) = recovery_failed s" "store (deliver added s) = store s"
  "world (deliver added s) = world s" "turn (deliver added s) = turn s"
  by (subst deliver_frame, simp)+

text \<open>Recording the survivors of a failed step, whatever becomes of the write.\<close>

definition persisted :: "'w env \<Rightarrow> atom list \<Rightarrow> 'w saga \<Rightarrow> saga_error option \<times> 'w saga" where
  "persisted env survivors s =
     (let (persistence, s1) = transaction env (\<lambda>s. (None, write_receipts survivors s)) (\<lambda>s. (None, owe survivors s))
              (\<lambda>s. s\<lparr>awaiting := []\<rparr>) id s
      in (persistence, if persistence = None then s1
         else s1\<lparr>committed := take (length (committed s)) (committed s1) @ unjournalled survivors\<rparr>))"

lemma recover_survivors_persisted:
  "recover_survivors env survivors s =
     (if survivors = [] then (None, s)
      else let (persistence, s2) = persisted env survivors s in
        (case rollback_committed env (length (committed s)) s2 of
           (Some e, s3) \<Rightarrow> (Some e, s3\<lparr>recovery_failed := (drop (length (committed s)) (committed s3) \<noteq> [])\<rparr>)
         | (None, s3) \<Rightarrow> (persistence, s3)))"
  by (simp add: recover_survivors_def persisted_def Let_def split: prod.splits)

lemma persisted_spec:
  assumes "persisted env survivors s = (r, s')"
  shows "\<exists>flag. committed s' = committed s @ map (\<lambda>a. Obligation a flag) survivors \<and> (flag \<longleftrightarrow> r = None)"
    "world s' = world s" "awaiting s' = []" "running s' = running s" "recovering s' = recovering s"
    "recovery_failed s' = recovery_failed s" "entered s' = entered s" "subscribed s' = subscribed s"
  using assms
  by (auto simp: persisted_def transaction_def write_receipts_def owe_def unjournalled_def Let_def
      split: if_splits prod.splits)



text \<open>The transaction of a step, and what the runner does with its outcome.\<close>

definition step_transaction :: "'w env \<Rightarrow> 'w step \<Rightarrow> captured list \<Rightarrow> saga_error option \<Rightarrow> 'w saga \<Rightarrow> saga_error option \<times> 'w saga" where
  "step_transaction env st caught refusal s =
     transaction env
       (\<lambda>s0. case refusal of
           Some e \<Rightarrow> (Some e, s0)
         | None \<Rightarrow> if raised st \<or> answers st = [] then (Some StepRaised, s0)
             else (None, write_receipts (map receipt_atom caught) (s0\<lparr>world := after st\<rparr>)))
       (\<lambda>s. (None, owe (map receipt_atom caught) s)) (\<lambda>s. s\<lparr>awaiting := []\<rparr>)
       (\<lambda>s1. s1\<lparr>world := undone st (length caught)\<rparr>) (s\<lparr>running := True\<rparr>)"

lemma run_unfold:
  assumes "ready env s" "st = evaluate_step env (turn s) (world s) target" "capture (captures st) = (caught, refusal)"
    "step_transaction env st caught refusal s = (r, s1)"
  shows "run env target s =
    (let (answer, s2) =
           (case r of
              None \<Rightarrow> (Inr (answers st), s1)
            | Some e \<Rightarrow>
                if refusal = None \<and> \<not> raised st \<and> answers st = []
                then (case recover_survivors env (unenlisted caught) s1 of
                    (None, s2) \<Rightarrow> (Inr [], s2) | (Some e, s2) \<Rightarrow> (Inl e, s2))
                else (case after_failed_step env e (length (committed s)) caught s1 of (e', s2) \<Rightarrow> (Inl e', s2)))
     in (answer, s2\<lparr>awaiting := [], running := False\<rparr>))"
  using assms(1,3,4) by (simp add: run_def ready_def idle_def step_transaction_def Let_def assms(2) [symmetric])





section \<open>The runner as a state machine\<close>

inductive saga_step :: "'w env \<Rightarrow> 'w saga \<Rightarrow> 'w saga \<Rightarrow> bool" for env where
  entering: "saga_step env s (snd (enter env s))"
| running: "saga_step env s (snd (run env target s))"
| recovering: "saga_step env s (snd (rollback env s))"
| leaving: "saga_step env s (snd (leave env e s))"
| closing: "saga_step env s (snd (close env s))"
| stranger_writes: "saga_step env s (stranger_adds a s)"
| stranger_takes: "saga_step env s (s\<lparr>store := remove_nth i (store s)\<rparr>)"
| world_moves: "saga_step env s (s\<lparr>world := w, turn := Suc (turn s)\<rparr>)"

definition journal_ok :: "'w saga \<Rightarrow> bool" where
  "journal_ok s = (recovery_failed s \<or> (\<forall>ob \<in> set (committed s). journalled ob))"

definition sound :: "'w saga \<Rightarrow> bool" where
  "sound s = (idle s \<and> journal_ok s)"

lemma rollback_committed_same:
  "rollback_committed env start s = (r, s') \<Longrightarrow> same_scope s s' \<and> set (committed s') \<subseteq> set (committed s)"
proof -
  assume "rollback_committed env start s = (r, s')"
  from rollback_committed_spec [OF this] obtain k where
    k: "committed s' = take start (committed s) @ take k (drop start (committed s))" "same_scope s s'" by blast
  have "set (take k (drop start (committed s))) \<subseteq> set (committed s)"
    by (rule subset_trans [OF set_take_subset set_drop_subset])
  with k set_take_subset [of start "committed s"] show ?thesis by simp
qed

lemma rollback_sound: "sound s \<Longrightarrow> sound (snd (rollback env s))"
proof -
  assume s: "sound s"
  obtain q s1 where q: "rollback_committed env 0 (s\<lparr>recovering := True\<rparr>) = (q, s1)" by force
  have "q = None \<longrightarrow> committed s1 = []" using rollback_committed_spec [OF q] by auto
  with rollback_committed_same [OF q] s q show ?thesis
    by (auto simp: rollback_def sound_def idle_def journal_ok_def same_scope_def split: option.splits)
qed

lemma recover_survivors_sound:
  assumes "recover_survivors env survivors s = (r, s')" "journal_ok s" "\<not> recovery_failed s"
  shows "journal_ok s'" "awaiting s' = [] \<or> s' = s" "running s' = running s" "recovering s' = recovering s"
proof -
  show "journal_ok s'"
  proof (cases "survivors = []")
    case True
    with assms show ?thesis by (simp add: recover_survivors_persisted)
  next
    case False
    obtain p s2 where p: "persisted env survivors s = (p, s2)" by force
    obtain q s3 where q: "rollback_committed env (length (committed s)) s2 = (q, s3)" by force
    from persisted_spec(1) [OF p] obtain flag where c: "committed s2 = committed s @ map (\<lambda>a. Obligation a flag) survivors"
      by blast
    from rollback_committed_spec [OF q] c obtain k where k: "q = None \<longrightarrow> k = 0"
      "committed s3 = committed s @ take k (map (\<lambda>a. Obligation a flag) survivors)" by auto
    have res: "(r, s') = (case q of Some e \<Rightarrow> (Some e, s3\<lparr>recovery_failed := (drop (length (committed s)) (committed s3) \<noteq> [])\<rparr>)
        | None \<Rightarrow> (p, s3))"
      using assms(1) False p q by (simp add: recover_survivors_persisted split: option.splits)
    show ?thesis
    proof (cases q)
      case None
      with res k assms(2,3) show ?thesis by (simp add: journal_ok_def)
    next
      case (Some e)
      with res k assms(2,3) show ?thesis by (cases "k = 0") (auto simp: journal_ok_def)
    qed
  qed
  show "awaiting s' = [] \<or> s' = s" "running s' = running s" "recovering s' = recovering s"
  proof -
    have "(awaiting s' = [] \<or> s' = s) \<and> running s' = running s \<and> recovering s' = recovering s"
    proof (cases "survivors = []")
      case True
      with assms show ?thesis by (simp add: recover_survivors_persisted)
    next
      case False
      obtain p s2 where p: "persisted env survivors s = (p, s2)" by force
      obtain q s3 where q: "rollback_committed env (length (committed s)) s2 = (q, s3)" by force
      from assms(1) False p q persisted_spec [OF p] rollback_committed_same [OF q] show ?thesis
        by (auto simp: recover_survivors_persisted same_scope_def split: option.splits)
    qed
    then show "awaiting s' = [] \<or> s' = s" "running s' = running s" "recovering s' = recovering s" by auto
  qed
qed

lemma step_settled:
  assumes "step_transaction env st caught refusal s = (r, s1)" "sound s" "\<not> recovery_failed s"
  shows "journal_ok s1" "\<not> recovery_failed s1" "recovering s1 = recovering s"
    "committed s1 = committed s \<or> committed s1 = committed s @ map (\<lambda>c. Obligation (receipt_atom c) True) caught"
  using assms
  by (auto simp: step_transaction_def transaction_def sound_def idle_def journal_ok_def write_receipts_def owe_def Let_def
      split: option.splits if_splits prod.splits)

lemma after_failed_sound:
  assumes "after_failed_step env e start caught s1 = (e', s2)" "journal_ok s1" "\<not> recovery_failed s1" "running s1"
  shows "journal_ok s2" "recovering s2 = recovering s1"
proof -
  have "journal_ok s2 \<and> recovering s2 = recovering s1"
  proof (cases "lost_at env (turn s1) = []")
    case False
    with assms(1) show ?thesis
      by (auto simp: after_failed_step_def retain_in_doubt_def journal_ok_def)
  next
    case lost: True
    show ?thesis
    proof (cases "length (committed s1) = start")
      case True
      obtain q s3 where q: "recover_survivors env (unenlisted caught) s1 = (q, s3)" by force
      from assms(1) lost True q have "s2 = s3" by (auto simp: after_failed_step_def Let_def split: option.splits)
      with recover_survivors_sound [OF q assms(2,3)] show ?thesis by simp
    next
      case False
      let ?ps = "undurable start s1"
      let ?s = "s1\<lparr>committed := map snd (filter (\<lambda>(i, ob). i \<notin> set ?ps) (List.enumerate 0 (committed s1)))\<rparr>"
      obtain q s3 where q: "recover_survivors env (map (\<lambda>i. owed (committed s1 ! i)) ?ps) ?s = (q, s3)" by force
      have "set (map snd (filter (\<lambda>(i, ob). i \<notin> set ?ps) (List.enumerate 0 (committed s1)))) \<subseteq> set (committed s1)"
        by (auto simp: in_set_enumerate_eq)
      then have "journal_ok ?s" using assms(2,3) by (auto simp: journal_ok_def)
      with recover_survivors_sound [OF q] assms(3) have "journal_ok s3 \<and> recovering s3 = recovering s1" by simp
      moreover have "s2 = (if ?ps = [] then s1 else s3)"
        using assms(1) lost False q by (auto simp: after_failed_step_def Let_def split: option.splits if_splits)
      ultimately show ?thesis using assms(2) by simp
    qed
  qed
  then show "journal_ok s2" "recovering s2 = recovering s1" by auto
qed

lemma sound_closing: "sound (x\<lparr>awaiting := [], running := False\<rparr>) = (journal_ok x \<and> \<not> recovering x)"
  by (auto simp: sound_def idle_def journal_ok_def)

lemma close_sound: "sound s \<Longrightarrow> sound (snd (close env s))"
  by (auto simp: close_def sound_def idle_def journal_ok_def)

lemma leave_sound: "sound s \<Longrightarrow> sound (snd (leave env error s))"
proof -
  assume s: "sound s"
  define s0 where "s0 = s\<lparr>entered := False\<rparr>"
  have s0: "sound s0" using s by (simp add: s0_def sound_def idle_def journal_ok_def)
  obtain failures s1 where f: "(if error \<noteq> None \<and> \<not> recovery_failed s0 \<and> committed s0 \<noteq> []
             then (case rollback env s0 of (None, s1) \<Rightarrow> ([], s1) | (Some e, s1) \<Rightarrow> ([e], s1))
             else if error = None \<and> recovery_failed s0 then ([Refused ''still has a failed recovery''], s0)
             else ([], s0)) = (failures, s1)" by force
  have "s1 = s0 \<or> s1 = snd (rollback env s0)" using f by (cases "rollback env s0") (auto split: if_splits option.splits)
  then have s1: "sound s1" using s0 rollback_sound [OF s0] by auto
  define s2 where "s2 = (if error = None \<and> \<not> recovery_failed s1 then s1\<lparr>committed := []\<rparr> else s1)"
  have "sound s2" using s1 by (simp add: s2_def sound_def idle_def journal_ok_def)
  moreover have "snd (leave env error s) = snd (close env s2)"
    unfolding leave_def Let_def s0_def [symmetric] f by (simp add: s2_def split: prod.split)
  ultimately show ?thesis using close_sound by simp
qed

lemma run_sound: "sound s \<Longrightarrow> sound (snd (run env target s))"
proof (cases "ready env s")
  case False
  assume "sound s"
  with False show ?thesis by (auto simp: run_def ready_def sound_def split: option.splits)
next
  case True
  assume sound: "sound s"
  define st where "st = evaluate_step env (turn s) (world s) target"
  obtain caught refusal where c: "capture (captures st) = (caught, refusal)" by force
  obtain r s1 where t: "step_transaction env st caught refusal s = (r, s1)" by force
  have nr: "\<not> recovery_failed s" using True by (simp add: ready_def)
  note ss = step_settled [OF t sound nr]
  have run1: "running s1" using t
    by (auto simp: step_transaction_def transaction_def write_receipts_def owe_def Let_def split: option.splits if_splits prod.splits)
  obtain q s2 where q: "recover_survivors env (unenlisted caught) s1 = (q, s2)" by force
  note rs = recover_survivors_sound [OF q ss(1,2)]
  show ?thesis
  proof (cases r)
    case None
    with run_unfold [OF True st_def c t] have "snd (run env target s) = s1\<lparr>awaiting := [], running := False\<rparr>" by simp
    with ss sound show ?thesis by (simp add: sound_closing) (simp add: sound_def idle_def)
  next
    case (Some e)
    obtain e' s3 where a: "after_failed_step env e (length (committed s)) caught s1 = (e', s3)" by force
    note af = after_failed_sound [OF a ss(1,2) run1]
    have "snd (run env target s) = s2\<lparr>awaiting := [], running := False\<rparr> \<or>
        snd (run env target s) = s3\<lparr>awaiting := [], running := False\<rparr>"
      using run_unfold [OF True st_def c t] Some q a by (simp add: Let_def split: option.split if_split)
    moreover have "\<not> recovering s1" using ss sound by (simp add: sound_def idle_def)
    moreover from this have "sound (s2\<lparr>awaiting := [], running := False\<rparr>)" "sound (s3\<lparr>awaiting := [], running := False\<rparr>)"
      using rs(1,4) af unfolding sound_closing by simp_all
    ultimately show ?thesis by auto
  qed
qed

lemma saga_step_sound: "saga_step env s s' \<Longrightarrow> sound s \<Longrightarrow> sound s'"
proof (induction rule: saga_step.induct)
  case (entering s)
  then show ?case by (auto simp: enter_def sound_def idle_def journal_ok_def split: option.splits)
next
  case (running s target)
  then show ?case by (rule run_sound)
next
  case (recovering s)
  then show ?case by (rule rollback_sound)
next
  case (leaving s e)
  then show ?case by (rule leave_sound)
next
  case (closing s)
  then show ?case by (rule close_sound)
qed (auto simp: sound_def idle_def journal_ok_def stranger_adds_def)

text \<open>C12. In every state a saga can reach between calls, whatever the engine and other writers did, no call is
  marked as under way, no receipt is awaited, and an obligation without a durable receipt exists only
  while the runner knows a recovery is outstanding.\<close>

theorem saga_reachable_sound:
  assumes "saga_init rs atoms w = Inr s0" "(saga_step env)\<^sup>*\<^sup>* s0 s"
  shows "\<not> running s \<and> \<not> recovering s \<and> awaiting s = [] \<and>
    (recovery_failed s \<or> (\<forall>ob \<in> set (committed s). journalled ob))"
proof -
  have "sound s0" using assms(1) by (auto simp: saga_init_def sound_def idle_def journal_ok_def split: if_splits)
  with assms(2) have "sound s" by (induction rule: rtranclp_induct) (auto intro: saga_step_sound)
  then show ?thesis by (simp add: sound_def idle_def journal_ok_def)
qed

section \<open>A runner that cannot go on\<close>

definition quiet_env :: "string list \<Rightarrow> unit env" where
  "quiet_env lost = \<lparr>in_transaction = (\<lambda>_. False), speculative = (\<lambda>_. False), batches = (\<lambda>_. []),
     evaluate_step = (\<lambda>_ _ _. \<lparr>captures = [], answers = [Symbol ''ok''], raised = False, after = (), undone = (\<lambda>_. ())\<rparr>),
     verdict_at = (\<lambda>_. Verdict True True (lost \<noteq> [])), lost_at = (\<lambda>_. lost), compensation_of = (\<lambda>_ _. Some ''undo''),
     callable_at = (\<lambda>_ _. True), eval_status = (\<lambda>_ _ _. ([(''value'', Some (Symbol ''done''))], ())),
     removes_at = (\<lambda>_ xs. if xs = [] then None else Some 0), cancel_fails = (\<lambda>_. False), operation_text = (\<lambda>_. ''op'')\<rparr>"

definition plain_receipts :: receipt_space where
  "plain_receipts = \<lparr>same_runtime = True, missing_capabilities = [], foreign_space = False, atomicity = ''transactional'',
     delivery = ''per-write-exactly'', delivery_order = ''ordered''\<rparr>"

definition fresh_saga :: "unit saga" where
  "fresh_saga = projr (saga_init plain_receipts [] ())"

text \<open>A scope whose only step wrote nothing receipted but lost a provider's commit, left by its error.\<close>

definition lost_scope :: "unit saga" where
  "lost_scope =
     (let env = quiet_env [''&log'']; s1 = snd (enter env fresh_saga); (r, s2) = run env (Symbol ''go'') s1
      in snd (leave env (Some StepRaised) s2))"

lemma fresh_saga: "saga_init plain_receipts [] () = Inr fresh_saga"
  by code_simp

lemma lost_scope_fields:
  "entered lost_scope = False" "committed lost_scope = []" "recovery_failed lost_scope = True"
  "foreign lost_scope = []" "subscribed lost_scope = False"
  by code_simp+

lemma three_steps: "R a b \<Longrightarrow> R b c \<Longrightarrow> R c d \<Longrightarrow> R\<^sup>*\<^sup>* a d"
  by (meson converse_rtranclp_into_rtranclp r_into_rtranclp)

lemma lost_scope_reached: "(saga_step (quiet_env [''&log'']))\<^sup>*\<^sup>* fresh_saga lost_scope"
proof -
  let ?env = "quiet_env [''&log'']"
  let ?s1 = "snd (enter ?env fresh_saga)"
  let ?s2 = "snd (run ?env (Symbol ''go'') ?s1)"
  have lost: "lost_scope = snd (leave ?env (Some StepRaised) ?s2)"
    by (simp add: lost_scope_def Let_def split: prod.split)
  show ?thesis
    unfolding lost by (rule three_steps [where b = ?s1 and c = ?s2]) (rule saga_step.intros)+
qed

theorem saga_reachable_sound_witness: "\<not> running lost_scope \<and> \<not> recovering lost_scope \<and> awaiting lost_scope = []"
  using saga_reachable_sound [OF fresh_saga lost_scope_reached] by simp

text \<open>C13. A step with nothing to compensate that loses a participant leaves a runner no call can revive: once its
  scope is left, \<open>rollback\<close> asks for an active scope and entering one asks for a successful \<open>rollback\<close>,
  whatever the engine answers.\<close>

theorem saga_stuck:
  "(saga_step (quiet_env [''&log'']))\<^sup>*\<^sup>* fresh_saga lost_scope \<and>
   (\<forall>env. (\<exists>e. rollback env lost_scope = (Some e, lost_scope)) \<and> (\<exists>e. enter env lost_scope = (Some e, lost_scope)) \<and>
     (\<exists>e. run env target lost_scope = (Inl e, lost_scope)))"
  using lost_scope_reached
  by (simp add: rollback_def enter_def run_def require_own_receipts_def lost_scope_fields)

end
