(* ===== verification/Spaces.thy ===== *)
theory Spaces
  imports Structures Annotated
begin

text \<open>
  Space views and combinators, \<open>metta/spaces.py\<close>, with the provider interface's capability questions
  from \<open>metta/foreign/__init__.py\<close>. A composed space is a tree over leaves: the providers and engine
  handles a caller supplies are parameters (\<open>backend\<close>, \<open>handle\<close>) acting on a store of leaf states.

  A generator is a \<open>stream\<close>: what a consumer that drains it receives, then the error it stops with, if
  any. An operation that may raise after changing state answers the error beside the state.
\<close>

section \<open>Requests, refusals and leaves\<close>

text \<open>The keyword arguments of a capability question.\<close>

datatype request = NoRequest | PatternRequest atom | AtomRequest atom | EdgeRequest string

datatype sentence = Stated string | Detail string

datatype space_error =
    Declined (operation_name: string) (asked_space: string) (capability: string) (provider_class: string)
      (says: sentence)
  | OutsideShape atom atom
  | NotASnapshotter string string
  | NoSpaces
  | NotADeclaration atom
  | NoMethod string string

text \<open>
  What a provider yields: a plain atom, or the explicit answer with its value or bindings, its residue
  and its annotation.
\<close>

datatype item =
    Plain atom
  | Answer (answer_theta: bindings) (answered: "atom option") (residue: "atom option") (annotation: "atom option")

type_synonym 'a stream = "'a list \<times> space_error option"

text \<open>
  A provider class: the methods it has, what it overrides (a missing \<open>can_run\<close> override is the base
  class's), whether it declares change events, and what its methods do to its own state.
\<close>

record 's backend =
  class_name :: string
  methods :: "string list"
  emits_events :: bool
  can_run_override :: "(string \<Rightarrow> request \<Rightarrow> bool) option"
  should_run :: "string \<Rightarrow> request \<Rightarrow> bool"
  refusal_override :: "string \<Rightarrow> request \<Rightarrow> string option"
  do_atoms :: "'s \<Rightarrow> atom list"
  do_match :: "'s \<Rightarrow> atom \<Rightarrow> item list"
  do_add :: "atom \<Rightarrow> 's \<Rightarrow> 's"
  do_remove :: "atom \<Rightarrow> 's \<Rightarrow> bool \<times> 's"
  do_clear :: "'s \<Rightarrow> 's"
  do_snapshot :: "'s \<Rightarrow> atom list"

text \<open>A MeTTa handle: its own name, and the engine's answers, which may read any leaf.\<close>

record 's handle =
  handle_name :: string
  handle_atoms :: "(nat \<Rightarrow> 's) \<Rightarrow> atom list"
  handle_rows :: "(nat \<Rightarrow> 's) \<Rightarrow> atom \<Rightarrow> bindings list"
  handle_add :: "atom list \<Rightarrow> (nat \<Rightarrow> 's) \<Rightarrow> nat \<Rightarrow> 's"
  handle_remove :: "atom \<Rightarrow> (nat \<Rightarrow> 's) \<Rightarrow> bool \<times> (nat \<Rightarrow> 's)"
  handle_clear :: "(nat \<Rightarrow> 's) \<Rightarrow> nat \<Rightarrow> 's"

text \<open>\<open>weighing\<close> is whether the evaluation in progress runs under an algebra.\<close>

record 's spaces_env =
  backend_of :: "nat \<Rightarrow> 's backend"
  handle_of :: "nat \<Rightarrow> 's handle"
  weighing :: bool

text \<open>
  The target of a \<open>_Member\<close>: a provider, a handle with the provider attached to it, or a combinator
  over members.
\<close>

datatype space =
    Backend nat
  | Handle nat "space option"
  | Union "space list"
  | ReadOnly space
  | Mapped space atom atom
  | Overlay space space

abbreviation is_space_handle :: "space \<Rightarrow> bool" where
  "is_space_handle t \<equiv> (case t of Handle _ _ \<Rightarrow> True | _ \<Rightarrow> False)"

section \<open>Capabilities\<close>

text \<open>\<open>SpaceProvider._PROTOCOLS\<close>: each protocol is the presence of one method.\<close>

definition protocols :: "string \<Rightarrow> string list option" where
  "protocols cap = map_of
     [(''match'', [''match'', ''atoms'']), (''enumerate'', [''atoms'']), (''tokens'', [''tokens'']),
      (''add-token'', [''add_token'']), (''remove-token'', [''remove_token'']), (''add'', [''add'']),
      (''add-many'', [''add_many'']), (''plan'', [''plan'']), (''remove'', [''remove'']), (''clear'', [''clear''])] cap"

definition can_subscribe :: "string list \<Rightarrow> bool \<Rightarrow> string \<Rightarrow> bool" where
  "can_subscribe ms promises on =
     (if \<not> promises then False
      else if on = ''add'' then ''add'' \<in> set ms
      else if on = ''remove'' then ''remove'' \<in> set ms
      else ''add'' \<in> set ms \<and> ''remove'' \<in> set ms)"

definition base_can_run :: "string list \<Rightarrow> bool \<Rightarrow> string \<Rightarrow> request \<Rightarrow> bool" where
  "base_can_run ms promises cap req =
     (case protocols cap of
        Some ps \<Rightarrow> list_ex (\<lambda>p. p \<in> set ms) ps
      | None \<Rightarrow>
          if cap = ''subscribe'' then can_subscribe ms promises (case req of EdgeRequest on \<Rightarrow> on | _ \<Rightarrow> ''both'')
          else False)"

text \<open>The methods each class defines and its name; a combinator declares no events.\<close>

definition methods_of :: "'s spaces_env \<Rightarrow> space \<Rightarrow> string list" where
  "methods_of E t =
     (case t of
        Backend n \<Rightarrow> methods (backend_of E n)
      | Union _ \<Rightarrow> [''atoms'', ''match'', ''snapshot'']
      | ReadOnly _ \<Rightarrow> [''atoms'', ''match'', ''snapshot'']
      | Mapped _ _ _ \<Rightarrow> [''atoms'', ''match'', ''snapshot'', ''add'', ''remove'']
      | Overlay _ _ \<Rightarrow> [''atoms'', ''match'', ''snapshot'', ''add'', ''remove'', ''clear'']
      | Handle _ _ \<Rightarrow> [])"

definition promises_of :: "'s spaces_env \<Rightarrow> space \<Rightarrow> bool" where
  "promises_of E t = (case t of Backend n \<Rightarrow> emits_events (backend_of E n) | _ \<Rightarrow> False)"

definition class_of :: "'s spaces_env \<Rightarrow> space \<Rightarrow> string" where
  "class_of E t =
     (case t of
        Backend n \<Rightarrow> class_name (backend_of E n)
      | Handle _ _ \<Rightarrow> ''Space''
      | Union _ \<Rightarrow> ''_Union''
      | ReadOnly _ \<Rightarrow> ''_ReadOnly''
      | Mapped _ _ _ \<Rightarrow> ''_Mapped''
      | Overlay _ _ \<Rightarrow> ''_Overlay'')"

definition describe :: "'s spaces_env \<Rightarrow> space \<Rightarrow> string" where
  "describe E t = (case t of Handle n _ \<Rightarrow> handle_name (handle_of E n) | _ \<Rightarrow> class_of E t)"

definition refusal_detail :: "'s spaces_env \<Rightarrow> space \<Rightarrow> string \<Rightarrow> request \<Rightarrow> string" where
  "refusal_detail E t cap req =
     (if base_can_run (methods_of E t) (promises_of E t) cap req then ''declines this '' @ cap @ '' request''
      else if cap = ''enumerate'' then ''cannot enumerate atoms''
      else if cap = ''subscribe''
      then (if \<not> promises_of E t
            then ''declares no event capability: override delivers() to return one of the catalog's delivery promises, or leave it None and poll the space instead''
            else ''offers no event source for this subscription'')
      else ''does not implement '' @ cap)"

section \<open>The mapped shape\<close>

definition inward :: "atom \<Rightarrow> atom \<Rightarrow> atom \<Rightarrow> atom option" where
  "inward outer inner a = (case match outer a of None \<Rightarrow> None | Some b \<Rightarrow> Some (substitute inner b))"

definition outward :: "atom \<Rightarrow> atom \<Rightarrow> atom \<Rightarrow> atom option" where
  "outward outer inner a = (case match inner a of None \<Rightarrow> None | Some b \<Rightarrow> Some (substitute outer b))"

definition outward_answer :: "atom \<Rightarrow> atom \<Rightarrow> atom \<Rightarrow> item \<Rightarrow> item option" where
  "outward_answer outer inner inner_pattern it =
     (case it of
        Plain a \<Rightarrow> map_option Plain (outward outer inner a)
      | Answer theta v r k \<Rightarrow>
          (let inner_atom = (case v of Some a \<Rightarrow> a | None \<Rightarrow> substitute inner_pattern theta) in
           map_option (\<lambda>a. Answer [] (Some a) r k) (outward outer inner inner_atom)))"

function repeats_loop :: "atom list \<Rightarrow> string list \<Rightarrow> bool" where
  "repeats_loop [] seen = False"
| "repeats_loop (a # st) seen =
     (case a of
        Variable x \<Rightarrow> if x \<noteq> ''_'' \<and> x \<in> set seen then True else repeats_loop st (x # seen)
      | Expression xs \<Rightarrow> repeats_loop (rev xs @ st) seen
      | _ \<Rightarrow> repeats_loop st seen)"
  by pat_completeness auto
termination
  by (relation "measure (\<lambda>(st, seen). sum_list (map asize st))") (auto simp: sum_list_map_rev)

definition repeats_a_variable :: "atom \<Rightarrow> bool" where
  "repeats_a_variable a = repeats_loop [a] []"

section \<open>Routes\<close>

definition pattern_in :: "request \<Rightarrow> atom option" where
  "pattern_in req = (case req of PatternRequest p \<Rightarrow> Some p | _ \<Rightarrow> None)"

definition mapped_serving :: "space \<Rightarrow> atom \<Rightarrow> atom \<Rightarrow> string \<Rightarrow> request \<Rightarrow> (space \<times> string \<times> request) list" where
  "mapped_serving m outer inner cap req =
     (if cap \<in> {''enumerate'', ''add'', ''remove''} then [(m, cap, req)]
      else if cap \<noteq> ''match'' then []
      else case pattern_in req of
        None \<Rightarrow> [(m, ''match'', NoRequest), (m, ''enumerate'', NoRequest)]
      | Some p \<Rightarrow>
          (case inward outer inner p of
             Some q \<Rightarrow>
               if is_ground p \<or> \<not> repeats_a_variable p then [(m, ''match'', PatternRequest q)]
               else [(m, ''enumerate'', NoRequest)]
           | None \<Rightarrow> if \<not> is_ground p then [(m, ''enumerate'', NoRequest)] else []))"

definition union_serving :: "space list \<Rightarrow> string \<Rightarrow> request \<Rightarrow> (space \<times> string \<times> request) list" where
  [simp]: "union_serving ms cap req =
     (if cap \<notin> {''enumerate'', ''match''} then [] else map (\<lambda>m. (m, cap, req)) ms)"

definition readonly_serving :: "space \<Rightarrow> string \<Rightarrow> request \<Rightarrow> (space \<times> string \<times> request) list" where
  [simp]: "readonly_serving m cap req = (if cap \<notin> {''enumerate'', ''match''} then [] else [(m, cap, req)])"

definition overlay_serving :: "space \<Rightarrow> space \<Rightarrow> string \<Rightarrow> request \<Rightarrow> (space \<times> string \<times> request) list" where
  [simp]: "overlay_serving front back cap req =
     (if cap \<in> {''enumerate'', ''match''} then [(front, cap, req), (back, cap, req)]
      else if cap \<in> {''add'', ''remove'', ''clear''} then [(front, cap, req)]
      else [])"

definition serving :: "space \<Rightarrow> string \<Rightarrow> request \<Rightarrow> (space \<times> string \<times> request) list" where
  "serving t cap req =
     (case t of
        Union ms \<Rightarrow> union_serving ms cap req
      | ReadOnly m \<Rightarrow> readonly_serving m cap req
      | Mapped m outer inner \<Rightarrow> mapped_serving m outer inner cap req
      | Overlay front back \<Rightarrow> overlay_serving front back cap req
      | _ \<Rightarrow> [])"

lemma mapped_serving_member: "(c, w, r) \<in> set (mapped_serving m outer inner cap req) \<Longrightarrow> c = m"
  by (auto simp: mapped_serving_def split: option.splits if_splits)

lemma serving_smaller: "(c, w, r) \<in> set (serving t cap req) \<Longrightarrow> size c < size t"
  by (cases t) (auto simp: serving_def less_Suc_eq_le size_list_estimation' dest!: mapped_serving_member split: if_splits)

definition backend_can_run :: "'s backend \<Rightarrow> string \<Rightarrow> request \<Rightarrow> bool" where
  "backend_can_run p cap req =
     (case can_run_override p of
        Some f \<Rightarrow> f cap req
      | None \<Rightarrow> base_can_run (methods p) (emits_events p) cap req)"

text \<open>\<open>can_run\<close> of a member: a handle says yes, a provider is asked, a combinator asks its routes.\<close>

function claims :: "'s spaces_env \<Rightarrow> space \<Rightarrow> string \<Rightarrow> request \<Rightarrow> bool" where
  "claims E t cap req =
     (case t of
        Handle _ _ \<Rightarrow> True
      | Backend n \<Rightarrow> backend_can_run (backend_of E n) cap req
      | _ \<Rightarrow>
          base_can_run (methods_of E t) (promises_of E t) cap req \<and>
          list_all (\<lambda>(m, wanted, asked). claims E m wanted asked) (serving t cap req))"
  by pat_completeness auto
termination
  by (relation "measure (\<lambda>(E, t, cap, req). size t)") (auto dest: serving_smaller)

declare claims.simps [simp del]

definition lacking :: "'s spaces_env \<Rightarrow> space \<Rightarrow> string \<Rightarrow> request \<Rightarrow> (space \<times> string \<times> request) list" where
  "lacking E t cap req = filter (\<lambda>(m, wanted, asked). \<not> claims E m wanted asked) (serving t cap req)"

definition refusal :: "'s spaces_env \<Rightarrow> space \<Rightarrow> string \<Rightarrow> request \<Rightarrow> string option" where
  "refusal E t cap req =
     (if lacking E t cap req = [] then None
      else Some (join '' and '' (map (\<lambda>(m, wanted, asked).
        ''its member '' @ describe E m @ '' '' @ refusal_detail E m wanted asked) (lacking E t cap req))))"

text \<open>\<open>_stated_refusal\<close>: the provider's own sentence, when it wrote a non-empty one.\<close>

definition stated_refusal :: "'s spaces_env \<Rightarrow> space \<Rightarrow> string \<Rightarrow> request \<Rightarrow> string option" where
  "stated_refusal E t cap req =
     (case (case t of Backend n \<Rightarrow> refusal_override (backend_of E n) cap req | _ \<Rightarrow> refusal E t cap req) of
        Some text \<Rightarrow> if text \<noteq> [] then Some text else None
      | None \<Rightarrow> None)"

text \<open>A combinator inherits the base class's \<open>should_run\<close>, which never declines.\<close>

definition willing :: "'s spaces_env \<Rightarrow> space \<Rightarrow> string \<Rightarrow> request \<Rightarrow> bool" where
  "willing E t cap req = (case t of Backend n \<Rightarrow> should_run (backend_of E n) cap req | _ \<Rightarrow> True)"

definition require_provider ::
  "'s spaces_env \<Rightarrow> space \<Rightarrow> string \<Rightarrow> string \<Rightarrow> string \<Rightarrow> request \<Rightarrow> space_error option" where
  "require_provider E asked name cap op req =
     (if claims E asked cap req \<and> willing E asked cap req then None
      else Some (Declined op name cap (class_of E asked)
        (case stated_refusal E asked cap req of
           Some text \<Rightarrow> Stated text
         | None \<Rightarrow> Detail (refusal_detail E asked cap req))))"

text \<open>\<open>_Member._require\<close> with no provider named: only a provider is asked.\<close>

definition require_member :: "'s spaces_env \<Rightarrow> space \<Rightarrow> string \<Rightarrow> string \<Rightarrow> request \<Rightarrow> space_error option" where
  "require_member E t cap op req =
     (if is_space_handle t then None else require_provider E t (describe E t) cap op req)"

text \<open>\<open>_annotating_provider\<close>: the provider behind a handle, while answers are weighed.\<close>

definition annotating_provider :: "'s spaces_env \<Rightarrow> space \<Rightarrow> space option" where
  "annotating_provider E t =
     (case t of Handle _ backing \<Rightarrow> if weighing E then backing else None | _ \<Rightarrow> None)"

lemma annotating_smaller: "annotating_provider E t = Some q \<Longrightarrow> size q < size t"
  by (cases t) (auto simp: annotating_provider_def split: if_splits)

section \<open>Reading\<close>

fun then_stream :: "'a stream \<Rightarrow> 'a stream \<Rightarrow> 'a stream" where
  "then_stream (xs, Some e) ys = (xs, Some e)"
| "then_stream (xs, None) (ys, e) = (xs @ ys, e)"

definition chain :: "'a stream list \<Rightarrow> 'a stream" where
  "chain ss = foldr then_stream ss ([], None)"

definition unless :: "space_error option \<Rightarrow> 'a stream \<Rightarrow> 'a stream" where
  "unless refused s = (case refused of Some e \<Rightarrow> ([], Some e) | None \<Rightarrow> s)"

definition keep_mapped :: "('a \<Rightarrow> 'b option) \<Rightarrow> 'a stream \<Rightarrow> 'b stream" where
  "keep_mapped f s = (List.map_filter f (fst s), snd s)"

definition mapped_atoms :: "atom \<Rightarrow> atom \<Rightarrow> atom stream \<Rightarrow> atom stream" where
  [simp]: "mapped_atoms outer inner s = keep_mapped (outward outer inner) s"

text \<open>
  \<open>member_atoms\<close> is \<open>_Member.atoms\<close>, \<open>provider_atoms\<close> the \<open>atoms\<close> of what it holds; a handle is never
  itself a provider.
\<close>

function member_atoms :: "'s spaces_env \<Rightarrow> (nat \<Rightarrow> 's) \<Rightarrow> space \<Rightarrow> atom stream"
  and provider_atoms :: "'s spaces_env \<Rightarrow> (nat \<Rightarrow> 's) \<Rightarrow> space \<Rightarrow> atom stream" where
  "member_atoms E s t =
     unless (require_member E t ''enumerate'' ''atoms'' NoRequest) (provider_atoms E s t)"
| "provider_atoms E s (Handle n _) = (handle_atoms (handle_of E n) s, None)"
| "provider_atoms E s (Backend n) = (do_atoms (backend_of E n) (s n), None)"
| "provider_atoms E s (Union ms) = chain (map (member_atoms E s) ms)"
| "provider_atoms E s (ReadOnly m) = member_atoms E s m"
| "provider_atoms E s (Mapped m outer inner) = mapped_atoms outer inner (member_atoms E s m)"
| "provider_atoms E s (Overlay front back) = then_stream (member_atoms E s front) (member_atoms E s back)"
  by pat_completeness auto
termination
  by (relation "measure (case_sum (\<lambda>(E, s, t). 2 * size t + 1) (\<lambda>(E, s, t). 2 * size t))")
    (auto simp: less_Suc_eq_le size_list_estimation')

definition plain :: "atom stream \<Rightarrow> item stream" where
  "plain s = (map Plain (fst s), snd s)"

text \<open>
  \<open>_Mapped.match\<close>, given the member's answers to a pattern and what the view enumerates: a pattern is
  translated only where one-way and two-way matching agree.
\<close>

definition mapped_match :: "atom \<Rightarrow> atom \<Rightarrow> (atom \<Rightarrow> item stream) \<Rightarrow> atom stream \<Rightarrow> atom \<Rightarrow> item stream" where
  [simp]: "mapped_match outer inner ask everything p =
     (case inward outer inner p of
        Some q \<Rightarrow>
          if is_ground p \<or> \<not> repeats_a_variable p
          then keep_mapped (outward_answer outer inner q) (ask q)
          else if \<not> is_ground p then plain everything else ([], None)
      | None \<Rightarrow> if \<not> is_ground p then plain everything else ([], None))"

text \<open>
  \<open>_Member.match\<close>: a handle's rows are bindings put into the pattern; a provider answers with its own
  \<open>match\<close>, or with everything it holds when it has none.
\<close>

function member_match :: "'s spaces_env \<Rightarrow> (nat \<Rightarrow> 's) \<Rightarrow> space \<Rightarrow> atom \<Rightarrow> item stream"
  and asked_match :: "'s spaces_env \<Rightarrow> (nat \<Rightarrow> 's) \<Rightarrow> space \<Rightarrow> string \<Rightarrow> atom \<Rightarrow> item stream"
  and provider_match :: "'s spaces_env \<Rightarrow> (nat \<Rightarrow> 's) \<Rightarrow> space \<Rightarrow> atom \<Rightarrow> item stream" where
  "member_match E s t p =
     (case annotating_provider E t of
        Some q \<Rightarrow> asked_match E s q (describe E t) p
      | None \<Rightarrow>
          (case t of
             Handle n _ \<Rightarrow> (map (\<lambda>row. Plain (substitute p row)) (handle_rows (handle_of E n) s p), None)
           | _ \<Rightarrow> asked_match E s t (describe E t) p))"
| "asked_match E s q name p =
     unless (require_provider E q name ''match'' ''match'' (PatternRequest p))
       (if ''match'' \<in> set (methods_of E q) then provider_match E s q p
        else unless (require_provider E q name ''enumerate'' ''match'' (PatternRequest p))
          (plain (provider_atoms E s q)))"
| "provider_match E s (Handle n _) p = ([], None)"
| "provider_match E s (Backend n) p = (do_match (backend_of E n) (s n) p, None)"
| "provider_match E s (Union ms) p = chain (map (\<lambda>m. member_match E s m p) ms)"
| "provider_match E s (ReadOnly m) p = member_match E s m p"
| "provider_match E s (Mapped m outer inner) p =
     mapped_match outer inner (member_match E s m) (provider_atoms E s (Mapped m outer inner)) p"
| "provider_match E s (Overlay front back) p = then_stream (member_match E s front p) (member_match E s back p)"
  by pat_completeness auto
termination
  by (relation "measure (case_sum (\<lambda>(E, s, t, p). 3 * size t + 2)
        (case_sum (\<lambda>(E, s, t, name, p). 3 * size t + 1) (\<lambda>(E, s, t, p). 3 * size t)))")
    (auto simp: less_Suc_eq_le size_list_estimation' dest!: annotating_smaller)

declare member_match.simps [simp del] asked_match.simps [simp del]

section \<open>Snapshots\<close>

definition mapped_snapshot :: "atom \<Rightarrow> atom \<Rightarrow> space_error + atom list \<Rightarrow> space_error + atom list" where
  [simp]: "mapped_snapshot outer inner inside =
     bindE inside (\<lambda>xs. Inr (List.map_filter (outward outer inner) xs))"

text \<open>\<open>_Member.snapshot\<close>: a native handle is read, an attached one asks its provider, and a provider
  without the method refuses.\<close>

function member_snapshot :: "'s spaces_env \<Rightarrow> (nat \<Rightarrow> 's) \<Rightarrow> space \<Rightarrow> space_error + atom list"
  and source_snapshot :: "'s spaces_env \<Rightarrow> (nat \<Rightarrow> 's) \<Rightarrow> string \<Rightarrow> space \<Rightarrow> space_error + atom list"
  and provider_snapshot :: "'s spaces_env \<Rightarrow> (nat \<Rightarrow> 's) \<Rightarrow> space \<Rightarrow> space_error + atom list" where
  "member_snapshot E s t =
     (case t of
        Handle n None \<Rightarrow> Inr (handle_atoms (handle_of E n) s)
      | Handle n (Some q) \<Rightarrow> source_snapshot E s (describe E t) q
      | _ \<Rightarrow> source_snapshot E s (describe E t) t)"
| "source_snapshot E s name q =
     (if ''snapshot'' \<in> set (methods_of E q) then provider_snapshot E s q
      else Inl (NotASnapshotter name (class_of E q)))"
| "provider_snapshot E s (Handle n _) = Inr (handle_atoms (handle_of E n) s)"
| "provider_snapshot E s (Backend n) = Inr (do_snapshot (backend_of E n) (s n))"
| "provider_snapshot E s (Union ms) = concatE (member_snapshot E s) ms"
| "provider_snapshot E s (ReadOnly m) = member_snapshot E s m"
| "provider_snapshot E s (Mapped m outer inner) =
     mapped_snapshot outer inner (member_snapshot E s m)"
| "provider_snapshot E s (Overlay front back) =
     bindE (member_snapshot E s front) (\<lambda>xs. bindE (member_snapshot E s back) (\<lambda>ys. Inr (xs @ ys)))"
  by pat_completeness auto
termination
  by (relation "measure (case_sum (\<lambda>(E, s, t). 3 * size t + 2)
        (case_sum (\<lambda>(E, s, name, t). 3 * size t + 1) (\<lambda>(E, s, t). 3 * size t)))")
    (auto simp: less_Suc_eq_le size_list_estimation')

section \<open>Writing\<close>

text \<open>Every call answers the error it raises, if any, and the store it leaves.\<close>

type_synonym 's written = "space_error option \<times> (nat \<Rightarrow> 's)"

fun first_error :: "('a \<Rightarrow> space_error option) \<Rightarrow> 'a list \<Rightarrow> space_error option" where
  "first_error f [] = None"
| "first_error f (x # xs) = (case f x of Some e \<Rightarrow> Some e | None \<Rightarrow> first_error f xs)"

fun write_all :: "('a \<Rightarrow> (nat \<Rightarrow> 's) \<Rightarrow> 's written) \<Rightarrow> 'a list \<Rightarrow> (nat \<Rightarrow> 's) \<Rightarrow> 's written" where
  "write_all f [] s = (None, s)"
| "write_all f (x # xs) s =
     (case f x s of (Some e, s') \<Rightarrow> (Some e, s') | (None, s') \<Rightarrow> write_all f xs s')"

definition mapped_add ::
  "atom \<Rightarrow> atom \<Rightarrow> (atom list \<Rightarrow> (nat \<Rightarrow> 's) \<Rightarrow> 's written) \<Rightarrow> atom \<Rightarrow> (nat \<Rightarrow> 's) \<Rightarrow> 's written" where
  [simp]: "mapped_add outer inner add_under a s =
     (case inward outer inner a of
        None \<Rightarrow> (Some (OutsideShape a outer), s)
      | Some b \<Rightarrow> add_under [b] s)"

definition mapped_remove ::
  "atom \<Rightarrow> atom \<Rightarrow> (atom \<Rightarrow> (nat \<Rightarrow> 's) \<Rightarrow> (space_error + bool) \<times> (nat \<Rightarrow> 's)) \<Rightarrow>
     atom \<Rightarrow> (nat \<Rightarrow> 's) \<Rightarrow> (space_error + bool) \<times> (nat \<Rightarrow> 's)" where
  [simp]: "mapped_remove outer inner remove_under p s =
     (case inward outer inner p of
        None \<Rightarrow> (Inr False, s)
      | Some q \<Rightarrow> remove_under q s)"

text \<open>\<open>_Member.add\<close> asks for every atom before it adds the first; a class without the method has no
  attribute to call.\<close>

function member_add :: "'s spaces_env \<Rightarrow> space \<Rightarrow> atom list \<Rightarrow> (nat \<Rightarrow> 's) \<Rightarrow> 's written"
  and provider_add :: "'s spaces_env \<Rightarrow> space \<Rightarrow> atom \<Rightarrow> (nat \<Rightarrow> 's) \<Rightarrow> 's written" where
  "provider_add E (Handle n _) a s = (None, handle_add (handle_of E n) [a] s)"
| "provider_add E (Backend n) a s =
     (if ''add'' \<in> set (methods (backend_of E n)) then (None, s(n := do_add (backend_of E n) a (s n)))
      else (Some (NoMethod (class_name (backend_of E n)) ''add''), s))"
| "provider_add E (Union ms) a s = (Some (NoMethod ''_Union'' ''add''), s)"
| "provider_add E (ReadOnly m) a s = (Some (NoMethod ''_ReadOnly'' ''add''), s)"
| "provider_add E (Mapped m outer inner) a s = mapped_add outer inner (member_add E m) a s"
| "provider_add E (Overlay front back) a s = member_add E front [a] s"
| "member_add E t atoms s =
     (case t of
        Handle n _ \<Rightarrow> (None, handle_add (handle_of E n) atoms s)
      | _ \<Rightarrow>
          (case first_error (\<lambda>a. require_member E t ''add'' ''add'' (AtomRequest a)) atoms of
             Some e \<Rightarrow> (Some e, s)
           | None \<Rightarrow> write_all (provider_add E t) atoms s))"
  by pat_completeness auto
termination
  by (relation "measure (case_sum (\<lambda>(E, t, atoms, s). 2 * size t + 1) (\<lambda>(E, t, a, s). 2 * size t))") auto

text \<open>\<open>remove\<close> answers whether anything went; a view that does not admit the pattern answers \<open>False\<close>.\<close>

function member_remove :: "'s spaces_env \<Rightarrow> space \<Rightarrow> atom \<Rightarrow> (nat \<Rightarrow> 's) \<Rightarrow> (space_error + bool) \<times> (nat \<Rightarrow> 's)"
  and provider_remove :: "'s spaces_env \<Rightarrow> space \<Rightarrow> atom \<Rightarrow> (nat \<Rightarrow> 's) \<Rightarrow> (space_error + bool) \<times> (nat \<Rightarrow> 's)" where
  "provider_remove E (Handle n _) p s = apfst Inr (handle_remove (handle_of E n) p s)"
| "provider_remove E (Backend n) p s =
     (if ''remove'' \<in> set (methods (backend_of E n))
      then (let (gone, c) = do_remove (backend_of E n) p (s n) in (Inr gone, s(n := c)))
      else (Inl (NoMethod (class_name (backend_of E n)) ''remove''), s))"
| "provider_remove E (Union ms) p s = (Inl (NoMethod ''_Union'' ''remove''), s)"
| "provider_remove E (ReadOnly m) p s = (Inl (NoMethod ''_ReadOnly'' ''remove''), s)"
| "provider_remove E (Mapped m outer inner) p s = mapped_remove outer inner (member_remove E m) p s"
| "provider_remove E (Overlay front back) p s = member_remove E front p s"
| "member_remove E t p s =
     (case require_member E t ''remove'' ''remove'' (AtomRequest p) of
        Some e \<Rightarrow> (Inl e, s)
      | None \<Rightarrow> provider_remove E t p s)"
  by pat_completeness auto
termination
  by (relation "measure (case_sum (\<lambda>(E, t, p, s). 2 * size t + 1) (\<lambda>(E, t, p, s). 2 * size t))") auto

function member_clear :: "'s spaces_env \<Rightarrow> space \<Rightarrow> (nat \<Rightarrow> 's) \<Rightarrow> 's written"
  and provider_clear :: "'s spaces_env \<Rightarrow> space \<Rightarrow> (nat \<Rightarrow> 's) \<Rightarrow> 's written" where
  "provider_clear E (Handle n _) s = (None, handle_clear (handle_of E n) s)"
| "provider_clear E (Backend n) s =
     (if ''clear'' \<in> set (methods (backend_of E n)) then (None, s(n := do_clear (backend_of E n) (s n)))
      else (Some (NoMethod (class_name (backend_of E n)) ''clear''), s))"
| "provider_clear E (Union ms) s = (Some (NoMethod ''_Union'' ''clear''), s)"
| "provider_clear E (ReadOnly m) s = (Some (NoMethod ''_ReadOnly'' ''clear''), s)"
| "provider_clear E (Mapped m outer inner) s = (Some (NoMethod ''_Mapped'' ''clear''), s)"
| "provider_clear E (Overlay front back) s = member_clear E front s"
| "member_clear E t s =
     (case require_member E t ''clear'' ''clear'' NoRequest of
        Some e \<Rightarrow> (Some e, s)
      | None \<Rightarrow> provider_clear E t s)"
  by pat_completeness auto
termination
  by (relation "measure (case_sum (\<lambda>(E, t, s). 2 * size t + 1) (\<lambda>(E, t, s). 2 * size t))") auto

section \<open>Constructors\<close>

definition union :: "space list \<Rightarrow> space_error + space" where
  "union ms = (if ms = [] then Inl NoSpaces else Inr (Union ms))"

definition readonly :: "space \<Rightarrow> space" where
  "readonly t = ReadOnly t"

definition overlay :: "space \<Rightarrow> space \<Rightarrow> space" where
  "overlay front back = Overlay front back"

definition mapped :: "host \<Rightarrow> space \<Rightarrow> atom \<Rightarrow> space_error + space" where
  "mapped h t declaration =
     (case declaration of
        Expression [keyword, outer, inner] \<Rightarrow>
          if str_atom h keyword = ''bridge'' \<and> is_expression outer \<and> is_expression inner
          then Inr (Mapped t outer inner)
          else Inl (NotADeclaration declaration)
      | _ \<Rightarrow> Inl (NotADeclaration declaration))"

section \<open>Differences\<close>

definition diff_key :: "host \<Rightarrow> atom \<Rightarrow> string" where
  "diff_key h a = str_atom h (canonical a)"

definition counted :: "(string, nat) dict \<Rightarrow> string \<Rightarrow> nat" where
  "counted d k = (case dict_get (=) k d of None \<Rightarrow> 0 | Some n \<Rightarrow> n)"

definition counter :: "string list \<Rightarrow> (string, nat) dict" where
  "counter ks = fold (\<lambda>k d. dict_set (=) k (Suc (counted d k)) d) ks []"

fun surplus_loop :: "host \<Rightarrow> atom list \<Rightarrow> (string, nat) dict \<Rightarrow> atom list \<Rightarrow> atom list" where
  "surplus_loop h [] remaining extras = extras"
| "surplus_loop h (a # mine) remaining extras =
     (let key = diff_key h a in
      if counted remaining key \<noteq> 0
      then surplus_loop h mine (dict_set (=) key (counted remaining key - 1) remaining) extras
      else surplus_loop h mine remaining (extras @ [a]))"

definition surplus :: "host \<Rightarrow> atom list \<Rightarrow> atom list \<Rightarrow> atom list" where
  "surplus h mine theirs = surplus_loop h mine (counter (map (diff_key h) theirs)) []"

definition diff :: "'s spaces_env \<Rightarrow> host \<Rightarrow> (nat \<Rightarrow> 's) \<Rightarrow> space \<Rightarrow> space \<Rightarrow> space_error + atom list \<times> atom list" where
  "diff E h s a b =
     (case member_atoms E s a of
        (xs, Some e) \<Rightarrow> Inl e
      | (xs, None) \<Rightarrow>
          (case member_atoms E s b of
             (ys, Some e) \<Rightarrow> Inl e
           | (ys, None) \<Rightarrow> Inr (surplus h xs ys, surplus h ys xs)))"

end
