(* ===== verification/Shapes.thy ===== *)
theory Shapes
  imports Spaces
begin

text \<open>
  The two directions of a mapped view: how matching a shape and filling the other one relate the atoms
  a view shows to the atoms underneath, and the view's writes to its reads.
\<close>

section \<open>Filling a shape\<close>

text \<open>Neither shape uses the anonymous variable; and, for a view that is written through, both have the same variables.\<close>

definition named_shapes :: "atom \<Rightarrow> atom \<Rightarrow> bool" where
  "named_shapes outer inner = (''_'' \<notin> set (variables outer) \<and> ''_'' \<notin> set (variables inner))"

definition shape_ok :: "atom \<Rightarrow> atom \<Rightarrow> bool" where
  "shape_ok outer inner =
     (set (variables outer) = set (variables inner) \<and> ''_'' \<notin> set (variables outer))"

lemma named_shapesD:
  assumes "named_shapes outer inner"
  shows "''_'' \<notin> set (var_occs outer)" "''_'' \<notin> set (var_occs inner)"
  using assms by (auto simp: named_shapes_def set_variables)

lemma shape_ok_named: "shape_ok outer inner \<Longrightarrow> named_shapes outer inner"
  by (auto simp: shape_ok_def named_shapes_def)

lemma shape_okD:
  assumes "shape_ok outer inner"
  shows "set (var_occs outer) = set (var_occs inner)" "''_'' \<notin> set (var_occs outer)" "''_'' \<notin> set (var_occs inner)"
  using assms by (auto simp: shape_ok_def set_variables)

lemma fits_cong_ground: "is_ground p \<Longrightarrow> fits m p a \<Longrightarrow> atom_eq p p' \<Longrightarrow> fits m p' a"
  using is_ground_cong [of p p'] by (simp add: fits_ground atom_eq_core)

lemma fits_cong_pattern: "fits m p a \<Longrightarrow> atom_eq p p' \<Longrightarrow> fits m p' a"
proof (induction p arbitrary: p' a)
  case (Expression ps)
  have "is_expression p'"
    using Expression.prems(2) core_expression [of p'] core_expression [of "Expression ps"] by (simp add: atom_eq_core)
  then have p': "p' = Expression (kids p')" by (rule expression_kids)
  have "list_all2 atom_eq ps (kids p')"
    using Expression.prems(2) atom_eq_Expression [of ps "kids p'"] unfolding p' [symmetric] by simp
  then have "list_all2 (fits m) (kids p') (kids a)"
    using Expression.prems(1) Expression.IH [OF nth_mem] by (auto simp: list_all2_conv_all_nth)
  with Expression.prems(1) show ?case by (subst p') simp
next
  case (Variable x)
  then show ?case by (cases p') (auto simp: atom_eq_core)
qed (erule (1) fits_cong_ground [rotated], simp)+

lemma fits_filled:
  "fits m (subst_rec \<beta> q) (subst_rec \<theta> q) \<longleftrightarrow>
     (\<forall>x \<in> set (var_occs q). fits m (subst_rec \<beta> (Variable x)) (subst_rec \<theta> (Variable x)))"
proof (induction q)
  case (Expression qs)
  then show ?case by (auto simp: list_all2_conv_all_nth in_set_conv_nth simp del: subst_rec.simps(1)) (metis nth_mem)+
qed (simp_all add: atom_eq_core)

lemma filled_cong:
  "(\<And>x. x \<in> set (var_occs q) \<Longrightarrow> atom_eq (subst_rec \<beta> (Variable x)) (subst_rec \<theta> (Variable x))) \<Longrightarrow>
     atom_eq (subst_rec \<beta> q) (subst_rec \<theta> q)"
proof (induction q)
  case (Expression qs)
  have "atom_eq (subst_rec \<beta> q) (subst_rec \<theta> q)" if "q \<in> set qs" for q
    by (rule Expression.IH [OF that], rule Expression.prems) (use that in auto)
  then show ?case by (simp add: atom_eq_Expression list_all2_conv_all_nth)
next
  case (Variable x)
  then show ?case by (metis list.set_intros(1) var_occs.simps(1))
qed (auto simp: atom_eq_core)

lemma fits_depends: "(\<And>x. x \<in> set (var_occs p) \<Longrightarrow> m x = m' x) \<Longrightarrow> fits m p a \<longleftrightarrow> fits m' p a"
proof (induction p arbitrary: a)
  case (Expression ps)
  have "fits m q b \<longleftrightarrow> fits m' q b" if "q \<in> set ps" for q b
    by (rule Expression.IH [OF that], rule Expression.prems) (use that in auto)
  then show ?case by (auto simp: list_all2_conv_all_nth)
qed auto

text \<open>A match binds the variables of its pattern and no other.\<close>

lemma match_binds:
  assumes "match q a = Some b" "x \<notin> set (var_occs q)"
  shows "assigned b x = None"
proof (rule ccontr)
  assume "assigned b x \<noteq> None"
  then obtain v where v: "assigned b x = Some v" by blast
  have "fits ((assigned b)(x := None)) q a"
    by (rule fits_depends [THEN iffD1, OF _ match_sound [OF assms(1)]]) (use assms(2) in auto)
  from match_complete_agrees [OF this assms(1)] v show False by (force simp: agrees_def)
qed

lemma substitute_match: "match q a = Some b \<Longrightarrow> substitute r b = subst_rec (assigned b) r"
  using match_loop_ok [of "[(q, a)]" "[]" b]
  by (simp only: match_def substitute_rec dict_ok.simps assigned_def [abs_def])

lemma matched_dom:
  "match q a = Some b \<Longrightarrow> ''_'' \<notin> set (var_occs q) \<Longrightarrow> x \<in> set (var_occs q) \<Longrightarrow> \<exists>v. assigned b x = Some v"
  using fits_dom [OF match_sound, of q a b x] by (cases "x = ''_''") auto

lemma matched_fill: "match q a = Some b \<Longrightarrow> ''_'' \<notin> set (var_occs q) \<Longrightarrow> atom_eq (subst_rec (assigned b) q) a"
  by (rule fits_subst [OF match_sound])

text \<open>An assignment that fits its own filled shape.\<close>

lemma fits_own_fill: "fits (\<lambda>x. Some (subst_rec \<beta> (Variable x))) q (subst_rec \<beta> q)"
proof (induction q)
  case (Expression qs)
  then show ?case by (simp add: list_all2_conv_all_nth)
qed (auto simp: atom_eq_core)

section \<open>The view and the store underneath\<close>

lemma inward_Some: "inward outer inner p = Some q \<longleftrightarrow> (\<exists>b. match outer p = Some b \<and> q = subst_rec (assigned b) inner)"
  by (auto simp: inward_def substitute_match split: option.splits)

lemma outward_Some: "outward outer inner a = Some d \<longleftrightarrow> (\<exists>t. match inner a = Some t \<and> d = subst_rec (assigned t) outer)"
  by (auto simp: outward_def substitute_match split: option.splits)

lemma outward_cong:
  assumes "named_shapes outer inner" "atom_eq c a" "outward outer inner a = Some d"
  shows "\<exists>e. outward outer inner c = Some e \<and> atom_eq e d"
proof -
  note ok = named_shapesD [OF assms(1)]
  from assms(3) obtain b where b: "match inner a = Some b" "d = subst_rec (assigned b) outer" by (auto simp: outward_Some)
  have "fits (assigned b) inner c"
    using fits_cong [OF match_sound [OF b(1)], of c] assms(2) by (simp add: atom_eq_core)
  from match_complete [OF this] obtain b' where b': "match inner c = Some b'" "agrees (assigned b) b'" by blast
  have "atom_eq (subst_rec (assigned b') outer) (subst_rec (assigned b) outer)"
  proof (rule filled_cong)
    fix x assume "x \<in> set (var_occs outer)"
    show "atom_eq (subst_rec (assigned b') (Variable x)) (subst_rec (assigned b) (Variable x))"
    proof (cases "x \<in> set (var_occs inner)")
      case True
      then obtain v where v: "assigned b' x = Some v" using matched_dom [OF b'(1) ok(2)] by blast
      with b'(2) obtain w where "assigned b x = Some w" "atom_eq w v" unfolding agrees_def by blast
      with v show ?thesis by (simp add: atom_eq_core)
    next
      case False
      then show ?thesis using match_binds [OF b'(1)] match_binds [OF b(1)] by (simp add: atom_eq_core)
    qed
  qed
  with b b' show ?thesis by (auto simp: outward_Some)
qed

text \<open>A pattern that uses no variable the inner shape alone has.\<close>

definition captures :: "atom \<Rightarrow> atom \<Rightarrow> atom \<Rightarrow> bool" where
  "captures outer inner p =
     list_ex (\<lambda>x. x \<notin> set (variables outer) \<and> x \<in> set (variables p)) (variables inner)"

text \<open>What fits the pattern in the view fits its translation underneath, with the hidden variables bound as the
  store has them.\<close>

lemma inward_fits:
  assumes ok: "named_shapes outer inner" and p: "inward outer inner p = Some q" and free: "\<not> captures outer inner p"
    and a: "outward outer inner a = Some d" and fit: "fits m p d"
  shows "\<exists>m'. fits m' q a"
proof -
  note sh = named_shapesD [OF ok]
  from p obtain b where b: "match outer p = Some b" "q = subst_rec (assigned b) inner" by (auto simp: inward_Some)
  from a obtain t where t: "match inner a = Some t" "d = subst_rec (assigned t) outer" by (auto simp: outward_Some)
  let ?hidden = "set (var_occs inner) - set (var_occs outer)"
  define m' where "m' x = (if x \<in> ?hidden then assigned t x else m x)" for x
  have apart: "x \<notin> set (var_occs p)" if "x \<in> ?hidden" for x
    using free that by (auto simp: captures_def list_ex_iff set_variables)
  have filled: "atom_eq (subst_rec (assigned b) outer) p" by (rule matched_fill [OF b(1) sh(1)])
  then have vars: "set (var_occs (subst_rec (assigned b) outer)) = set (var_occs p)"
    using var_occs_core by (metis atom_eq_core)
  have "fits m (subst_rec (assigned b) outer) (subst_rec (assigned t) outer)"
    using fits_cong_pattern [OF fit] filled t(2) by (auto simp: atom_eq_core)
  then have "fits m' (subst_rec (assigned b) outer) (subst_rec (assigned t) outer)"
    by (rule fits_depends [THEN iffD1, rotated]) (use vars apart in \<open>auto simp: m'_def\<close>)
  then have shared: "fits m' (subst_rec (assigned b) (Variable x)) (subst_rec (assigned t) (Variable x))"
    if "x \<in> set (var_occs outer)" for x
    using that fits_filled [of m' "assigned b" outer "assigned t"] by blast
  have "fits m' (subst_rec (assigned b) inner) (subst_rec (assigned t) inner)"
  proof (rule fits_filled [THEN iffD2], intro ballI)
    fix x assume x: "x \<in> set (var_occs inner)"
    show "fits m' (subst_rec (assigned b) (Variable x)) (subst_rec (assigned t) (Variable x))"
    proof (cases "x \<in> set (var_occs outer)")
      case False
      with x obtain v where "assigned t x = Some v" using matched_dom [OF t(1) sh(2)] by blast
      with x False match_binds [OF b(1)] show ?thesis by (simp add: m'_def atom_eq_core)
    qed (rule shared)
  qed
  then have "fits m' q a" unfolding b(2) by (rule fits_cong) (rule matched_fill [OF t(1) sh(2)])
  then show ?thesis by blast
qed

text \<open>And back, when the inner shape has every variable of the outer one.\<close>

lemma outward_fits:
  assumes ok: "named_shapes outer inner" and all: "set (variables outer) \<subseteq> set (variables inner)"
    and p: "inward outer inner p = Some q" and a: "outward outer inner a = Some d" and fit: "fits m q a"
  shows "fits m p d"
proof -
  note sh = named_shapesD [OF ok]
  from p obtain b where b: "match outer p = Some b" "q = subst_rec (assigned b) inner" by (auto simp: inward_Some)
  from a obtain t where t: "match inner a = Some t" "d = subst_rec (assigned t) outer" by (auto simp: outward_Some)
  have "fits m (subst_rec (assigned b) inner) (subst_rec (assigned t) inner)"
    using fit unfolding b(2) by (rule fits_cong) (use matched_fill [OF t(1) sh(2)] in \<open>simp add: atom_eq_core\<close>)
  note each = this [THEN fits_filled [THEN iffD1], THEN bspec]
  have "fits m (subst_rec (assigned b) outer) (subst_rec (assigned t) outer)"
    by (rule fits_filled [THEN iffD2], rule ballI, rule each) (use all in \<open>auto simp: set_variables\<close>)
  then show ?thesis unfolding t(2) by (rule fits_cong_pattern) (rule matched_fill [OF b(1) sh(1)])
qed

text \<open>Whatever the view shows fits its outer shape, so a pattern it cannot translate is not ground equal to it.\<close>

lemma outward_admitted:
  assumes a: "outward outer inner a = Some d" and p: "atom_eq p d"
  shows "\<exists>q. inward outer inner p = Some q"
proof -
  from a obtain t where t: "match inner a = Some t" "d = subst_rec (assigned t) outer" by (auto simp: outward_Some)
  have "fits (\<lambda>x. Some (subst_rec (assigned t) (Variable x))) outer p"
    by (rule fits_cong [OF fits_own_fill [of "assigned t" outer]]) (use t(2) p in \<open>simp add: atom_eq_core\<close>)
  from match_complete [OF this] show ?thesis by (auto simp: inward_def)
qed

lemma inward_outward:
  assumes ok: "shape_ok outer inner" and p: "inward outer inner a = Some b"
  shows "\<exists>c. outward outer inner b = Some c \<and> atom_eq c a"
proof -
  note sh = shape_okD [OF ok]
  from p obtain t where t: "match outer a = Some t" "b = subst_rec (assigned t) inner" by (auto simp: inward_Some)
  have "fits (\<lambda>x. Some (subst_rec (assigned t) (Variable x))) inner b" unfolding t(2) by (rule fits_own_fill)
  from match_complete [OF this] obtain u where
    u: "match inner b = Some u" "agrees (\<lambda>x. Some (subst_rec (assigned t) (Variable x))) u" by blast
  have "atom_eq (subst_rec (assigned u) outer) (subst_rec (assigned t) outer)"
  proof (rule filled_cong)
    fix x assume "x \<in> set (var_occs outer)"
    then obtain v where v: "assigned u x = Some v" using matched_dom [OF u(1) sh(3)] sh(1) by blast
    with u(2) have "atom_eq (subst_rec (assigned t) (Variable x)) v" unfolding agrees_def by blast
    with v show "atom_eq (subst_rec (assigned u) (Variable x)) (subst_rec (assigned t) (Variable x))"
      by (simp add: atom_eq_core)
  qed
  with matched_fill [OF t(1) sh(2)] u show ?thesis by (auto simp: outward_Some atom_eq_core)
qed

lemma var_occs_fill:
  "set (var_occs (subst_rec m q)) = (\<Union>x \<in> set (var_occs q). case m x of Some v \<Rightarrow> set (var_occs v) | None \<Rightarrow> {x})"
  by (induction q rule: var_occs.induct) (auto split: option.splits)

lemma inward_named:
  assumes ok: "named_shapes outer inner" and q: "inward outer inner p = Some q" and p: "''_'' \<notin> set (variables p)"
  shows "''_'' \<notin> set (variables q)"
proof -
  note sh = named_shapesD [OF ok]
  from q obtain b where b: "match outer p = Some b" "q = subst_rec (assigned b) inner" by (auto simp: inward_Some)
  have "var_occs (subst_rec (assigned b) outer) = var_occs p"
    using matched_fill [OF b(1) sh(1)] var_occs_core by (metis atom_eq_core)
  with p have out: "''_'' \<notin> set (var_occs (subst_rec (assigned b) outer))" by (simp add: set_variables)
  have "''_'' \<notin> (case assigned b x of Some v \<Rightarrow> set (var_occs v) | None \<Rightarrow> {x})" if x: "x \<in> set (var_occs inner)" for x
  proof (cases "x \<in> set (var_occs outer)")
    case True
    with out show ?thesis unfolding var_occs_fill by blast
  next
    case False
    with match_binds [OF b(1) False] x sh(2) show ?thesis by auto
  qed
  then show ?thesis by (simp add: b(2) set_variables var_occs_fill)
qed

end
