(* ===== verification/Compositions.thy ===== *)
theory Compositions
  imports Shapes Consequences "HOL-Library.Multiset" "HOL-Library.Sublist"
begin

text \<open>
  What a tree of combinators promises: it serves what it claims, a view answers every stored atom a
  pattern can match, writes reach the front leaf alone, and a difference is a multiset difference.
\<close>

section \<open>The claims of each combinator\<close>

lemmas capability_defs = base_can_run_def protocols_def methods_of_def promises_of_def serving_def mapped_serving_def

lemma list_all_routes: "list_all (\<lambda>(m, w, r). P m w r) (map (\<lambda>m. (m, c, q)) ms) = list_all (\<lambda>m. P m c q) ms"
  by (induction ms) auto

lemma claims_leaf [simp]:
  "claims E (Handle n b) cap req"
  "claims E (Backend n) cap req = backend_can_run (backend_of E n) cap req"
  by (subst claims.simps; simp)+

lemma claims_union [simp]:
  "claims E (Union ms) ''enumerate'' req = list_all (\<lambda>m. claims E m ''enumerate'' req) ms"
  "claims E (Union ms) ''match'' req = list_all (\<lambda>m. claims E m ''match'' req) ms"
  "\<not> claims E (Union ms) ''add'' req" "\<not> claims E (Union ms) ''remove'' req" "\<not> claims E (Union ms) ''clear'' req"
  by (subst claims.simps; simp add: capability_defs list_all_routes)+

lemma claims_readonly [simp]:
  "claims E (ReadOnly m) ''enumerate'' req = claims E m ''enumerate'' req"
  "claims E (ReadOnly m) ''match'' req = claims E m ''match'' req"
  "\<not> claims E (ReadOnly m) ''add'' req" "\<not> claims E (ReadOnly m) ''remove'' req"
  "\<not> claims E (ReadOnly m) ''clear'' req"
  by (subst claims.simps; simp add: capability_defs)+

lemma claims_mapped [simp]:
  "claims E (Mapped m outer inner) ''enumerate'' req = claims E m ''enumerate'' req"
  "claims E (Mapped m outer inner) ''match'' req =
     list_all (\<lambda>(m, w, r). claims E m w r) (mapped_serving m outer inner ''match'' req)"
  "claims E (Mapped m outer inner) ''add'' req = claims E m ''add'' req"
  "claims E (Mapped m outer inner) ''remove'' req = claims E m ''remove'' req"
  "\<not> claims E (Mapped m outer inner) ''clear'' req"
  by (subst claims.simps; simp add: capability_defs)+

lemma claims_overlay [simp]:
  "claims E (Overlay f b) ''enumerate'' req = (claims E f ''enumerate'' req \<and> claims E b ''enumerate'' req)"
  "claims E (Overlay f b) ''match'' req = (claims E f ''match'' req \<and> claims E b ''match'' req)"
  "claims E (Overlay f b) ''add'' req = claims E f ''add'' req"
  "claims E (Overlay f b) ''remove'' req = claims E f ''remove'' req"
  "claims E (Overlay f b) ''clear'' req = claims E f ''clear'' req"
  by (subst claims.simps; simp add: capability_defs)+

lemma base_can_run_simps [simp]:
  "base_can_run ms pr ''enumerate'' req = (''atoms'' \<in> set ms)"
  "base_can_run ms pr ''match'' req = (''match'' \<in> set ms \<or> ''atoms'' \<in> set ms)"
  "base_can_run ms pr ''add'' req = (''add'' \<in> set ms)"
  "base_can_run ms pr ''remove'' req = (''remove'' \<in> set ms)"
  "base_can_run ms pr ''clear'' req = (''clear'' \<in> set ms)"
  by (auto simp: base_can_run_def protocols_def)

section \<open>What is claimed is served\<close>

text \<open>
  Providers whose overrides claim no more than their methods, claim enumeration when they serve a match
  with it, do not let a write depend on the atom, and whose policy declines nothing.
\<close>

definition honest_claims :: "'s backend \<Rightarrow> bool" where
  "honest_claims p =
     ((\<forall>c r. should_run p c r) \<and>
      (\<forall>c r. backend_can_run p c r \<longrightarrow> base_can_run (methods p) (emits_events p) c r) \<and>
      (\<forall>r. backend_can_run p ''match'' r \<longrightarrow> ''match'' \<notin> set (methods p) \<longrightarrow> backend_can_run p ''enumerate'' r) \<and>
      (\<forall>c r r'. c \<in> {''add'', ''remove''} \<longrightarrow> backend_can_run p c r = backend_can_run p c r'))"

definition honest :: "'s spaces_env \<Rightarrow> bool" where
  "honest E = (\<not> weighing E \<and> (\<forall>n. honest_claims (backend_of E n)))"

lemma honest_willing: "honest E \<Longrightarrow> willing E t cap req"
  by (auto simp: honest_def honest_claims_def willing_def split: space.splits)

lemma require_provider_None: "honest E \<Longrightarrow> require_provider E q name cap op req = None \<longleftrightarrow> claims E q cap req"
  by (simp add: require_provider_def honest_willing)

lemma require_member_None: "honest E \<Longrightarrow> require_member E t cap op req = None \<longleftrightarrow> claims E t cap req"
  by (cases t) (simp_all add: require_member_def require_provider_None)

lemma require_served: "honest E \<Longrightarrow> claims E t cap req \<Longrightarrow> require_member E t cap op req = None"
  by (simp add: require_member_None)

lemma annotating_off [simp]: "honest E \<Longrightarrow> annotating_provider E t = None"
  by (cases t) (auto simp: annotating_provider_def honest_def)

lemma unless_stops [simp]: "snd (unless e s) = None \<longleftrightarrow> e = None \<and> snd s = None"
  by (cases e) (auto simp: unless_def)

lemma then_stream_stops [simp]: "snd (then_stream s u) = None \<longleftrightarrow> snd s = None \<and> snd u = None"
  by (cases s; cases u; cases "snd s") auto

lemma chain_stops [simp]: "snd (chain ss) = None \<longleftrightarrow> list_all (\<lambda>s. snd s = None) ss"
  by (induction ss) (auto simp: chain_def)

lemma keep_mapped_stops [simp]: "snd (keep_mapped f s) = snd s"
  by (simp add: keep_mapped_def)

lemma plain_stops [simp]: "snd (plain s) = snd s"
  by (simp add: plain_def)

lemma list_all_iff_cong: "(\<And>x. x \<in> set xs \<Longrightarrow> P x = Q x) \<Longrightarrow> list_all P xs = list_all Q xs"
  by (auto simp: list_all_iff)

lemma member_atoms_stops:
  "honest E \<Longrightarrow> snd (member_atoms E s t) = None \<longleftrightarrow> claims E t ''enumerate'' NoRequest"
  by (induction t) (auto simp: require_member_None list_all_iff simp del: claims.simps)

lemma member_match_member:
  "honest E \<Longrightarrow> \<not> is_space_handle t \<Longrightarrow> member_match E s t p = asked_match E s t (describe E t) p"
  by (subst member_match.simps) (cases t; simp)

lemma member_match_handle:
  "honest E \<Longrightarrow> member_match E s (Handle n b) p =
     (map (\<lambda>row. Plain (substitute p row)) (handle_rows (handle_of E n) s p), None)"
  by (subst member_match.simps) simp

lemma asked_match_method:
  "honest E \<Longrightarrow> ''match'' \<in> set (methods_of E t) \<Longrightarrow>
     snd (asked_match E s t name p) = None \<longleftrightarrow>
       claims E t ''match'' (PatternRequest p) \<and> snd (provider_match E s t p) = None"
  by (subst asked_match.simps) (simp add: require_provider_None)

lemma methods_of_simps [simp]:
  "methods_of E (Union ms) = [''atoms'', ''match'', ''snapshot'']"
  "methods_of E (ReadOnly m) = [''atoms'', ''match'', ''snapshot'']"
  "methods_of E (Mapped m ou inn) = [''atoms'', ''match'', ''snapshot'', ''add'', ''remove'']"
  "methods_of E (Overlay f b) = [''atoms'', ''match'', ''snapshot'', ''add'', ''remove'', ''clear'']"
  "methods_of E (Backend n) = methods (backend_of E n)"
  by (simp_all add: methods_of_def)

lemma member_match_stops:
  assumes "honest E"
  shows "snd (member_match E s t p) = None \<longleftrightarrow> claims E t ''match'' (PatternRequest p)"
proof (induction t arbitrary: p)
  case (Backend n)
  have "honest_claims (backend_of E n)" using assms by (simp add: honest_def)
  then show ?case
    using assms by (simp add: member_match_member asked_match.simps [of E s "Backend n"] require_provider_None)
      (auto simp: honest_claims_def)
next
  case (Handle n b)
  then show ?case using assms by (simp add: member_match_handle)
next
  case (Mapped m outer inner)
  then show ?case
    using assms member_atoms_stops [OF assms, of s m]
    by (simp add: member_match_member asked_match_method)
      (auto simp: mapped_serving_def pattern_in_def split: option.splits if_splits)
qed (use assms in \<open>auto simp: member_match_member asked_match_method list_all_iff\<close>)

definition admits :: "space_error option \<Rightarrow> bool" where
  "admits r = (case r of None \<Rightarrow> True | Some (OutsideShape _ _) \<Rightarrow> True | _ \<Rightarrow> False)"

lemma admits_simps [simp]: "admits None" "admits (Some (OutsideShape a b))" "\<not> admits (Some (NoMethod c d))"
  by (simp_all add: admits_def)

lemma require_member_admits: "honest E \<Longrightarrow> admits (require_member E t cap op req) = claims E t cap req"
  by (simp add: require_member_def require_provider_def honest_willing admits_def split: space.splits)

lemma honest_backend_claims: "honest E \<Longrightarrow> honest_claims (backend_of E n)"
  by (simp add: honest_def)

lemma honest_claims_method:
  "honest_claims p \<Longrightarrow> backend_can_run p c r \<Longrightarrow> base_can_run (methods p) (emits_events p) c r"
  unfolding honest_claims_def by blast

lemma honest_claims_request:
  "honest_claims p \<Longrightarrow> c \<in> {''add'', ''remove''} \<Longrightarrow> backend_can_run p c r = backend_can_run p c r'"
  unfolding honest_claims_def by blast

lemma claims_write_request:
  "honest E \<Longrightarrow> claims E t ''add'' r = claims E t ''add'' r'"
  "honest E \<Longrightarrow> claims E t ''remove'' r = claims E t ''remove'' r'"
proof (induction t)
  case (Backend n)
  { case 1
    from honest_claims_request [OF honest_backend_claims [OF this]] show ?case by simp
  next
    case 2
    from honest_claims_request [OF honest_backend_claims [OF this]] show ?case by simp }
qed auto

lemma honest_backend:
  assumes "honest E"
  shows "backend_can_run (backend_of E n) ''add'' r \<Longrightarrow> ''add'' \<in> set (methods (backend_of E n))"
    "backend_can_run (backend_of E n) ''remove'' r \<Longrightarrow> ''remove'' \<in> set (methods (backend_of E n))"
    "backend_can_run (backend_of E n) ''clear'' r \<Longrightarrow> ''clear'' \<in> set (methods (backend_of E n))"
  using honest_claims_method [OF honest_backend_claims [OF assms], of n _ r] by fastforce+

lemma member_add_one:
  "\<not> is_space_handle t \<Longrightarrow> member_add E t [a] s =
     (case require_member E t ''add'' ''add'' (AtomRequest a) of
        Some e \<Rightarrow> (Some e, s) | None \<Rightarrow> provider_add E t a s)"
  by (cases t) (auto split: option.splits prod.splits)

lemma member_add_handle: "member_add E (Handle n b) as s = (None, handle_add (handle_of E n) as s)"
  by simp

declare member_add.simps [simp del] member_remove.simps [simp del] member_clear.simps [simp del]

lemma member_add_refused:
  assumes "honest E" "\<not> is_space_handle t" "\<not> claims E t ''add'' (AtomRequest a)"
  shows "\<not> admits (fst (member_add E t [a] s)) \<and> snd (member_add E t [a] s) = s"
  using assms require_member_admits [OF assms(1), of t "''add''" "''add''" "AtomRequest a"]
    require_member_None [OF assms(1), of t "''add''" "''add''" "AtomRequest a"]
  by (auto simp: member_add_one split: option.splits)

lemma member_add_admits:
  assumes "honest E"
  shows "admits (fst (member_add E t [a] s)) \<longleftrightarrow> claims E t ''add'' (AtomRequest a)"
proof (cases "is_space_handle t \<or> claims E t ''add'' (AtomRequest a)")
  case False
  then show ?thesis using member_add_refused [OF assms] by blast
next
  case True
  have "claims E t ''add'' (AtomRequest a) \<Longrightarrow> admits (fst (member_add E t [a] s))"
  proof (induction t arbitrary: a)
    case (Handle n b)
    then show ?case by (simp add: member_add_handle)
  next
    case (Mapped m outer inner)
    then have "claims E m ''add'' (AtomRequest b)" for b
      using claims_write_request(1) [OF assms, of m "AtomRequest b" "AtomRequest a"] by simp
    with Mapped show ?case using assms by (simp add: member_add_one require_served split: option.split)
  qed (use assms in \<open>simp_all add: member_add_one require_served honest_backend\<close>)
  with True show ?thesis by (cases t) auto
qed

lemma provider_remove_ok:
  assumes "honest E"
  shows "claims E t ''remove'' (AtomRequest p) \<Longrightarrow> \<exists>g. fst (member_remove E t p s) = Inr g"
proof (induction t arbitrary: p)
  case (Handle n b)
  then show ?case by (simp add: member_remove.simps require_member_def)
next
  case (Backend n)
  then show ?case
    using assms by (auto simp: member_remove.simps require_member_None split: option.splits prod.splits dest: honest_backend)
next
  case (Mapped m outer inner)
  then have "claims E m ''remove'' (AtomRequest b)" for b
    using claims_write_request(2) [OF assms, of m "AtomRequest b" "AtomRequest p"] by simp
  with Mapped show ?case
    using assms by (auto simp: member_remove.simps [of E "Mapped m outer inner"] require_member_None split: option.splits)
next
  case (Overlay f b)
  then show ?case
    using assms by (auto simp: member_remove.simps [of E "Overlay f b"] require_member_None split: option.splits)
qed auto

lemma member_remove_ok:
  assumes "honest E"
  shows "(\<exists>g. fst (member_remove E t p s) = Inr g) \<longleftrightarrow> claims E t ''remove'' (AtomRequest p)"
proof (cases "claims E t ''remove'' (AtomRequest p)")
  case True
  then show ?thesis using provider_remove_ok [OF assms] by blast
next
  case False
  then show ?thesis
    using require_member_None [OF assms, of t] by (auto simp: member_remove.simps split: option.splits)
qed

lemma member_clear_ok:
  assumes "honest E"
  shows "fst (member_clear E t s) = None \<longleftrightarrow> claims E t ''clear'' NoRequest"
proof (induction t)
  case (Handle n b)
  then show ?case by (simp add: member_clear.simps require_member_def)
next
  case (Overlay f b)
  then show ?case
    using assms require_member_None [OF assms, of "Overlay f b" "''clear''" "''clear''" NoRequest]
    by (cases "require_member E (Overlay f b) ''clear'' ''clear'' NoRequest")
      (simp_all add: member_clear.simps [of E "Overlay f b"])
next
  case (Backend n)
  then show ?case
    using assms require_member_None [OF assms, of "Backend n" "''clear''" "''clear''" NoRequest]
    by (cases "require_member E (Backend n) ''clear'' ''clear'' NoRequest")
      (simp_all add: member_clear.simps honest_backend)
qed (use assms in \<open>auto simp: member_clear.simps require_member_None split: option.splits\<close>)

text \<open>C17. A composed space serves exactly what it claims: over honest providers, for every tree of
  combinators, an enumeration, a match, a removal or a clear succeeds if and only if \<open>can_run\<close> said so,
  and an addition is either admitted or refused by a view's shape alone if and only if \<open>can_run\<close> said so.\<close>

theorem claims_are_served:
  assumes "honest E"
  shows "(claims E t ''enumerate'' NoRequest \<longleftrightarrow> snd (member_atoms E s t) = None) \<and>
    (claims E t ''match'' (PatternRequest p) \<longleftrightarrow> snd (member_match E s t p) = None) \<and>
    (claims E t ''add'' (AtomRequest a) \<longleftrightarrow> admits (fst (member_add E t [a] s))) \<and>
    (claims E t ''remove'' (AtomRequest p) \<longleftrightarrow> (\<exists>gone. fst (member_remove E t p s) = Inr gone)) \<and>
    (claims E t ''clear'' NoRequest \<longleftrightarrow> fst (member_clear E t s) = None)"
  by (simp only: member_atoms_stops [OF assms] member_match_stops [OF assms] member_add_admits [OF assms]
      member_remove_ok [OF assms] member_clear_ok [OF assms] simp_thms)

section \<open>Candidates\<close>

text \<open>The atom an answer stands for, as the engine reads it back under the pattern.\<close>

fun stands_for :: "atom \<Rightarrow> item \<Rightarrow> atom" where
  "stands_for p (Plain a) = a"
| "stands_for p (Answer theta v r k) = (case v of Some a \<Rightarrow> a | None \<Rightarrow> substitute p theta)"

text \<open>Atoms as a multiset, up to the equality of atoms, and the ones a pattern matches.\<close>

definition cores :: "atom list \<Rightarrow> atom multiset" where
  "cores as = mset (map core as)"

definition matched :: "atom \<Rightarrow> atom list \<Rightarrow> atom list" where
  "matched p as = filter (\<lambda>a. match p a \<noteq> None) as"

text \<open>Answers that stand, one for one, for atoms of a store, and leave out none that the pattern matches.\<close>

definition exact_for :: "atom \<Rightarrow> item list \<Rightarrow> atom list \<Rightarrow> bool" where
  "exact_for p its as =
     (\<exists>kept rest. mset as = mset (kept @ rest) \<and> list_all2 atom_eq (map (stands_for p) its) kept \<and>
        (\<forall>a \<in> set rest. match p a = None))"

text \<open>
  The contract of a provider's \<open>match\<close>, for a pattern whose variables are all named: its answers stand for
  stored atoms, none oftener than it is stored, and it may answer too much but never too little.
\<close>

locale matcher =
  fixes held :: "'s \<Rightarrow> atom list"
    and answers :: "'s \<Rightarrow> atom \<Rightarrow> item list"
  assumes exact: "''_'' \<notin> set (variables p) \<Longrightarrow> exact_for p (answers s p) (held s)"
begin

lemma no_match:
  "''_'' \<notin> set (variables p) \<Longrightarrow> answers s p = [] \<Longrightarrow> a \<in> set (held s) \<Longrightarrow> match p a = None"
  using exact [of p s] by (auto simp: exact_for_def dest: mset_eq_setD)

lemma foreign_free:
  assumes "''_'' \<notin> set (variables p)" "it \<in> set (answers s p)"
  shows "\<exists>a \<in> set (held s). atom_eq (stands_for p it) a"
proof -
  from exact [OF assms(1), of s] obtain kept rest where
    k: "mset (held s) = mset (kept @ rest)" "list_all2 atom_eq (map (stands_for p) (answers s p)) kept"
    unfolding exact_for_def by blast
  from assms(2) obtain i where "i < length (answers s p)" "answers s p ! i = it" by (metis in_set_conv_nth)
  with list_all2_lengthD [OF k(2)] list_all2_nthD [OF k(2), of i] have "kept ! i \<in> set kept" "atom_eq (stands_for p it) (kept ! i)"
    by simp_all
  then obtain a where "a \<in> set kept" "atom_eq (stands_for p it) a" by blast
  with mset_eq_setD [OF k(1)] show ?thesis by auto
qed

end

text \<open>A provider that also answers nothing too much.\<close>

locale precise_matcher = matcher +
  assumes precise: "''_'' \<notin> set (variables p) \<Longrightarrow> it \<in> set (answers s p) \<Longrightarrow> match p (stands_for p it) \<noteq> None"
begin

lemma ground_probe:
  assumes "is_ground p"
  shows "answers s p = [] \<longleftrightarrow> \<not> (\<exists>a \<in> set (held s). atom_eq a p)"
proof -
  have named: "''_'' \<notin> set (variables p)" using assms by (simp add: is_ground_def)
  have same: "match p a \<noteq> None \<longleftrightarrow> atom_eq a p" for a
    using assms by (simp add: match_None_iff fits_ground del: not_None_eq) (metis atom_eq_core)
  have "\<exists>a \<in> set (held s). atom_eq a p" if it: "it \<in> set (answers s p)" for it
  proof -
    from foreign_free [OF named it] obtain a where "a \<in> set (held s)" "core (stands_for p it) = core a"
      unfolding atom_eq_core by blast
    moreover from precise [OF named it] have "core (stands_for p it) = core p" unfolding same atom_eq_core .
    ultimately show ?thesis unfolding atom_eq_core by metis
  qed
  with no_match [OF named, of s] same show ?thesis by (cases "answers s p") (auto simp del: not_None_eq)
qed

end

definition handle_answers :: "'s handle \<Rightarrow> (nat \<Rightarrow> 's) \<Rightarrow> atom \<Rightarrow> item list" where
  "handle_answers h s p = map (\<lambda>row. Plain (substitute p row)) (handle_rows h s p)"

text \<open>Every leaf keeps the contract.\<close>

definition lawful :: "'s spaces_env \<Rightarrow> bool" where
  "lawful E =
     ((\<forall>n. matcher (do_atoms (backend_of E n)) (do_match (backend_of E n))) \<and>
      (\<forall>n. matcher (handle_atoms (handle_of E n)) (handle_answers (handle_of E n))))"

text \<open>A tree whose views may be written through: every shape is a one-to-one translation.\<close>

fun shapes_ok :: "space \<Rightarrow> bool" where
  "shapes_ok (Union ms) = list_all shapes_ok ms"
| "shapes_ok (ReadOnly m) = shapes_ok m"
| "shapes_ok (Mapped m outer inner) = (shape_ok outer inner \<and> shapes_ok m)"
| "shapes_ok (Overlay f b) = (shapes_ok f \<and> shapes_ok b)"
| "shapes_ok _ = True"

text \<open>
  A tree that can be asked for a pattern: no shape uses the anonymous variable, and where a view translates the
  pattern, the pattern uses no variable that the inner shape alone has (\<open>mapped_view_captures\<close> is what happens
  otherwise). The shapes may differ in their variables, so a view may leave columns out.
\<close>

fun views_fit :: "space \<Rightarrow> atom \<Rightarrow> bool" where
  "views_fit (Union ms) p = list_all (\<lambda>m. views_fit m p) ms"
| "views_fit (ReadOnly m) p = views_fit m p"
| "views_fit (Mapped m outer inner) p =
     (named_shapes outer inner \<and>
      (case inward outer inner p of
         None \<Rightarrow> True
       | Some q \<Rightarrow> (is_ground p \<or> \<not> repeats_a_variable p) \<longrightarrow> \<not> captures outer inner p \<and> views_fit m q))"
| "views_fit (Overlay f b) p = (views_fit f p \<and> views_fit b p)"
| "views_fit _ p = True"

text \<open>
  A tree that narrows a pattern: it reaches precise leaves only, by their own \<open>match\<close>, and no view on the way falls
  back to enumerating (an untranslatable ground pattern asks nobody).
\<close>

fun narrows :: "'s spaces_env \<Rightarrow> space \<Rightarrow> atom \<Rightarrow> bool" where
  "narrows E (Union ms) p = list_all (\<lambda>m. narrows E m p) ms"
| "narrows E (ReadOnly m) p = narrows E m p"
| "narrows E (Mapped m outer inner) p =
     (case inward outer inner p of
        None \<Rightarrow> is_ground p
      | Some q \<Rightarrow> (is_ground p \<or> \<not> repeats_a_variable p) \<and>
          set (variables outer) \<subseteq> set (variables inner) \<and> narrows E m q)"
| "narrows E (Overlay f b) p = (narrows E f p \<and> narrows E b p)"
| "narrows E (Backend n) p =
     (''match'' \<in> set (methods (backend_of E n)) \<and>
      precise_matcher (do_atoms (backend_of E n)) (do_match (backend_of E n)))"
| "narrows E (Handle n _) p = precise_matcher (handle_atoms (handle_of E n)) (handle_answers (handle_of E n))"

text \<open>What a tree holds, whichever of its capabilities are there to read it.\<close>

fun contents :: "'s spaces_env \<Rightarrow> (nat \<Rightarrow> 's) \<Rightarrow> space \<Rightarrow> atom list" where
  "contents E s (Backend n) = do_atoms (backend_of E n) (s n)"
| "contents E s (Handle n _) = handle_atoms (handle_of E n) s"
| "contents E s (Union ms) = concat (map (contents E s) ms)"
| "contents E s (ReadOnly m) = contents E s m"
| "contents E s (Mapped m outer inner) = List.map_filter (outward outer inner) (contents E s m)"
| "contents E s (Overlay f b) = contents E s f @ contents E s b"

lemma unless_served [simp]: "unless None s = s"
  by (simp add: unless_def)

lemma then_stream_fst: "snd s = None \<Longrightarrow> fst (then_stream s u) = fst s @ fst u"
  by (cases s; cases u; cases "snd s") auto

lemma chain_fst: "list_all (\<lambda>s. snd s = None) ss \<Longrightarrow> fst (chain ss) = concat (map fst ss)"
  by (induction ss) (auto simp: chain_def then_stream_fst)

lemma member_atoms_contents:
  assumes "honest E"
  shows "claims E t ''enumerate'' NoRequest \<Longrightarrow> member_atoms E s t = (contents E s t, None)"
proof (induction t)
  case (Union ms)
  then have each: "m \<in> set ms \<Longrightarrow> member_atoms E s m = (contents E s m, None)" for m by (auto simp: list_all_iff)
  then have "fst (chain (map (member_atoms E s) ms)) = concat (map (contents E s) ms)"
    by (subst chain_fst) (auto simp: list_all_iff intro: arg_cong [where f = concat])
  moreover have "snd (chain (map (member_atoms E s) ms)) = None" using each by (auto simp: list_all_iff)
  ultimately show ?case using Union(2) assms by (simp add: require_served prod_eq_iff del: claims_union)
qed (use assms in \<open>simp_all add: require_served keep_mapped_def\<close>)

lemma exact_for_Nil [simp]: "exact_for p [] []"
  by (simp add: exact_for_def)

lemma exact_for_append: "exact_for p xs as \<Longrightarrow> exact_for p ys bs \<Longrightarrow> exact_for p (xs @ ys) (as @ bs)"
proof -
  assume "exact_for p xs as" "exact_for p ys bs"
  then obtain k r l u where
    "mset as = mset (k @ r)" "list_all2 atom_eq (map (stands_for p) xs) k" "\<forall>a \<in> set r. match p a = None"
    "mset bs = mset (l @ u)" "list_all2 atom_eq (map (stands_for p) ys) l" "\<forall>a \<in> set u. match p a = None"
    unfolding exact_for_def by blast
  then show ?thesis
    unfolding exact_for_def
    by (intro exI [of _ "k @ l"] exI [of _ "r @ u"]) (auto intro!: list_all2_appendI)
qed

lemma exact_for_concat:
  "(\<And>m. m \<in> set ms \<Longrightarrow> exact_for p (f m) (g m)) \<Longrightarrow> exact_for p (concat (map f ms)) (concat (map g ms))"
  by (induction ms) (auto intro: exact_for_append)

lemma exact_for_plain [simp]: "exact_for p (map Plain as) as"
proof -
  have "list_all2 atom_eq as as" by (simp add: list_all2_same atom_eq_core)
  then show ?thesis unfolding exact_for_def by (intro exI [of _ as] exI [of _ "[]"]) (simp add: comp_def)
qed

lemma lawful_backend: "lawful E \<Longrightarrow> ''_'' \<notin> set (variables p) \<Longrightarrow> exact_for p (do_match (backend_of E n) c p) (do_atoms (backend_of E n) c)"
  by (rule matcher.exact) (simp_all add: lawful_def)

lemma lawful_handle: "lawful E \<Longrightarrow> ''_'' \<notin> set (variables p) \<Longrightarrow> exact_for p (handle_answers (handle_of E n) s p) (handle_atoms (handle_of E n) s)"
  by (rule matcher.exact [of "handle_atoms (handle_of E n)"]) (simp_all add: lawful_def)

text \<open>Read as multisets: the answers that match are the stored atoms that match, as often as they are stored.\<close>

lemma matched_cores: "list_all2 atom_eq xs ys \<Longrightarrow> cores (matched p xs) = cores (matched p ys)"
proof (induction rule: list_all2_induct)
  case (Cons x xs y ys)
  have "match p x = None \<longleftrightarrow> match p y = None"
    using match_cong [of x y p] match_cong [of y x p] Cons.hyps(1) by (auto simp: atom_eq_core simp del: not_None_eq)
  with Cons show ?case by (simp add: cores_def matched_def atom_eq_core del: not_None_eq)
qed simp

lemma list_all2_cores: "list_all2 atom_eq xs ys \<Longrightarrow> cores xs = cores ys"
  by (induction rule: list_all2_induct) (simp_all add: cores_def atom_eq_core)

lemma matched_mset: "mset xs = mset ys \<Longrightarrow> cores (matched p xs) = cores (matched p ys)"
  by (simp add: cores_def matched_def)

lemma exact_for_cores:
  assumes "exact_for p its as"
  shows "cores (matched p (map (stands_for p) its)) = cores (matched p as)" "cores (map (stands_for p) its) \<subseteq># cores as"
proof -
  from assms obtain kept rest where
    k: "mset as = mset (kept @ rest)" "list_all2 atom_eq (map (stands_for p) its) kept" "\<forall>a \<in> set rest. match p a = None"
    unfolding exact_for_def by blast
  have "matched p rest = []" using k(3) by (simp add: matched_def)
  then have "matched p (kept @ rest) = matched p kept" by (simp add: matched_def)
  with matched_mset [OF k(1)] matched_cores [OF k(2)]
  show "cores (matched p (map (stands_for p) its)) = cores (matched p as)" by simp
  have "cores as = cores kept + cores rest" using k(1) by (simp add: cores_def)
  with list_all2_cores [OF k(2)] show "cores (map (stands_for p) its) \<subseteq># cores as" by simp
qed

lemma outward_answer_stands:
  "outward_answer outer inner q it = Some it' \<longleftrightarrow>
     (\<exists>d. outward outer inner (stands_for q it) = Some d \<and>
        it' = (case it of Plain _ \<Rightarrow> Plain d | Answer _ _ r k \<Rightarrow> Answer [] (Some d) r k))"
  by (cases it) (auto simp: outward_answer_def split: option.splits)

lemma outward_answer_atom:
  "outward_answer outer inner q it = Some it' \<Longrightarrow> outward outer inner (stands_for q it) = Some (stands_for p it')"
  by (cases it) (auto simp: outward_answer_def split: option.splits)

lemma mem_map_filter: "y \<in> set (List.map_filter f xs) \<longleftrightarrow> (\<exists>x \<in> set xs. f x = Some y)"
  by (force simp: map_filter_def)

lemma map_filter_mset: "mset xs = mset ys \<Longrightarrow> mset (List.map_filter f xs) = mset (List.map_filter f ys)"
  by (simp add: map_filter_def)

lemma map_filter_append: "List.map_filter f (xs @ ys) = List.map_filter f xs @ List.map_filter f ys"
  by (simp add: map_filter_def)

text \<open>What a view makes of equal answers is equal.\<close>

lemma outward_both:
  assumes "named_shapes outer inner" "atom_eq a b"
  shows "rel_option atom_eq (outward outer inner a) (outward outer inner b)"
proof -
  have "outward outer inner c = None" if "outward outer inner e = None" "atom_eq c e" for c e
    using outward_cong [OF assms(1), of e c] that by (cases "outward outer inner c") (auto simp: atom_eq_core)
  then show ?thesis
    using outward_cong [OF assms] assms(2) by (cases "outward outer inner b") (auto simp: atom_eq_core)
qed

lemma outward_answers:
  assumes ok: "named_shapes outer inner"
  shows "list_all2 atom_eq (map (stands_for q) its) kept \<Longrightarrow>
    list_all2 atom_eq (map (stands_for p) (List.map_filter (outward_answer outer inner q) its))
      (List.map_filter (outward outer inner) kept)"
proof (induction its arbitrary: kept)
  case (Cons it its)
  from Cons.prems obtain a as where
    k: "kept = a # as" "atom_eq (stands_for q it) a" "list_all2 atom_eq (map (stands_for q) its) as"
    by (auto simp: list_all2_Cons1)
  note IH = Cons.IH [OF k(3)] and both = outward_both [OF ok k(2)]
  show ?case
  proof (cases "outward_answer outer inner q it")
    case None
    then have "outward outer inner (stands_for q it) = None"
      using outward_answer_stands [of outer inner q it] by (cases "outward outer inner (stands_for q it)") auto
    with both IH None k(1) show ?thesis by (simp add: map_filter_simps)
  next
    case (Some it')
    from outward_answer_atom [OF this, of p] both obtain d where
      "outward outer inner a = Some d" "atom_eq (stands_for p it') d" by (cases "outward outer inner a") auto
    with IH Some k(1) show ?thesis by (simp add: map_filter_simps)
  qed
qed (simp add: map_filter_simps)

lemma exact_for_mapped:
  assumes ok: "named_shapes outer inner" and q: "inward outer inner p = Some q" and free: "\<not> captures outer inner p"
    and ex: "exact_for q its as"
  shows "exact_for p (List.map_filter (outward_answer outer inner q) its) (List.map_filter (outward outer inner) as)"
proof -
  from ex obtain kept rest where
    k: "mset as = mset (kept @ rest)" "list_all2 atom_eq (map (stands_for q) its) kept" "\<forall>a \<in> set rest. match q a = None"
    unfolding exact_for_def by blast
  let ?out = "List.map_filter (outward outer inner)"
  have "match p d = None" if "d \<in> set (?out rest)" for d
  proof -
    from that obtain a where a: "a \<in> set rest" "outward outer inner a = Some d" by (auto simp: mem_map_filter)
    with k(3) have "\<not> fits m q a" for m by (simp add: match_None_iff)
    with inward_fits [OF ok q free a(2)] show ?thesis by (auto simp: match_None_iff)
  qed
  with map_filter_mset [OF k(1), of "outward outer inner"] outward_answers [OF ok k(2), of p] show ?thesis
    unfolding exact_for_def map_filter_append by (intro exI [of _ "?out kept"] exI [of _ "?out rest"]) simp
qed

lemma precise_mapped:
  assumes ok: "named_shapes outer inner" "set (variables outer) \<subseteq> set (variables inner)" and q: "inward outer inner p = Some q"
    and all: "\<And>it. it \<in> set its \<Longrightarrow> match q (stands_for q it) \<noteq> None"
    and it: "it \<in> set (List.map_filter (outward_answer outer inner q) its)"
  shows "match p (stands_for p it) \<noteq> None"
proof -
  from it obtain c where c: "c \<in> set its" "outward_answer outer inner q c = Some it" by (auto simp: mem_map_filter)
  from all [OF c(1)] obtain m where "fits m q (stands_for q c)" using match_sound by blast
  from outward_fits [OF ok q outward_answer_atom [OF c(2), of p] this] show ?thesis by (auto simp: match_None_iff)
qed

text \<open>A ground pattern the view cannot translate is equal to nothing the view shows.\<close>

lemma exact_for_untranslated:
  assumes "inward outer inner p = None" "is_ground p"
  shows "exact_for p [] (List.map_filter (outward outer inner) as)"
proof -
  let ?ds = "List.map_filter (outward outer inner) as"
  have "match p d = None" if "d \<in> set ?ds" for d
    using that outward_admitted [of outer inner _ d p] assms by (auto simp: mem_map_filter match_None_iff fits_ground)
  then show ?thesis unfolding exact_for_def by (intro exI [of _ "[]"] exI [of _ ?ds]) simp
qed

lemma precise_leaf:
  "narrows E (Backend n) p \<Longrightarrow> ''_'' \<notin> set (variables p) \<Longrightarrow> it \<in> set (do_match (backend_of E n) c p) \<Longrightarrow> match p (stands_for p it) \<noteq> None"
  "narrows E (Handle n b) p \<Longrightarrow> ''_'' \<notin> set (variables p) \<Longrightarrow> it \<in> set (handle_answers (handle_of E n) s p) \<Longrightarrow> match p (stands_for p it) \<noteq> None"
  by (auto dest: precise_matcher.precise simp del: not_None_eq)

definition served_exactly :: "'s spaces_env \<Rightarrow> space \<Rightarrow> atom \<Rightarrow> item list \<Rightarrow> atom list \<Rightarrow> bool" where
  "served_exactly E t p its as =
     (exact_for p its as \<and> (narrows E t p \<longrightarrow> (\<forall>it \<in> set its. match p (stands_for p it) \<noteq> None)))"

lemma member_match_exact:
  assumes honest: "honest E" and lawful: "lawful E"
  shows "views_fit t p \<Longrightarrow> ''_'' \<notin> set (variables p) \<Longrightarrow> claims E t ''match'' (PatternRequest p) \<Longrightarrow>
    served_exactly E t p (fst (member_match E s t p)) (contents E s t)"
proof (induction t arbitrary: p)
  case (Handle n b)
  then show ?case
    using lawful_handle [OF lawful Handle.prems(2), of n s] precise_leaf(2) [of E n b p _ s]
    unfolding served_exactly_def by (simp add: member_match_handle honest handle_answers_def del: narrows.simps)
next
  case (Backend n)
  then show ?case
    using honest lawful_backend [OF lawful Backend.prems(2), of n "s n"] precise_leaf(1) [of E n p _ "s n"]
      honest_claims_method [OF honest_backend_claims [OF honest]] member_match_stops [OF honest, of s "Backend n" p]
    unfolding served_exactly_def
    by (auto simp: member_match_member asked_match.simps [of E s "Backend n"] unless_def plain_def split: option.splits)
next
  case (Union ms)
  let ?f = "\<lambda>m. member_match E s m p"
  have each: "served_exactly E m p (fst (?f m)) (contents E s m)" if "m \<in> set ms" for m
    by (rule Union.IH) (use Union.prems that in \<open>auto simp: list_all_iff\<close>)
  have "exact_for p (concat (map (\<lambda>m. fst (?f m)) ms)) (concat (map (contents E s) ms))"
    by (rule exact_for_concat) (use each in \<open>simp add: served_exactly_def\<close>)
  moreover have "match p (stands_for p it) \<noteq> None"
    if "list_all (\<lambda>m. narrows E m p) ms" "it \<in> set (concat (map (\<lambda>m. fst (?f m)) ms))" for it
    using that each unfolding served_exactly_def list_all_iff by auto
  moreover have "fst (chain (map ?f ms)) = concat (map (\<lambda>m. fst (?f m)) ms)"
    using Union.prems(3) member_match_stops [OF honest, of s _ p] by (subst chain_fst) (auto simp: list_all_iff comp_def)
  moreover have "require_provider E (Union ms) (describe E (Union ms)) ''match'' ''match'' (PatternRequest p) = None"
    using Union.prems(3) honest by (simp only: require_provider_None)
  ultimately show ?case
    unfolding served_exactly_def
    by (simp add: member_match_member asked_match.simps [of E s "Union ms"] honest del: set_concat not_None_eq)
next
  case (ReadOnly m)
  then show ?case
    using honest unfolding served_exactly_def
    by (simp add: member_match_member asked_match.simps [of E s "ReadOnly m"] require_provider_def honest_willing)
next
  case (Overlay f b)
  then show ?case
    using honest member_match_stops [OF honest, of s f p]
    by (auto simp: served_exactly_def member_match_member asked_match.simps [of E s "Overlay f b"] require_provider_def honest_willing
        then_stream_fst exact_for_append)
next
  case (Mapped m outer inner)
  let ?t = "Mapped m outer inner"
  have reach: "member_match E s ?t p = provider_match E s ?t p"
    using Mapped.prems(3) honest
    by (simp add: member_match_member asked_match.simps [of E s ?t] require_provider_def honest_willing del: claims_mapped)
  from Mapped.prems have ok: "named_shapes outer inner" by simp
  have all: "exact_for p (fst (plain (provider_atoms E s ?t))) (contents E s ?t)"
    if "claims E m ''enumerate'' NoRequest"
    using that honest by (simp add: member_atoms_contents keep_mapped_def plain_def del: member_atoms.simps)
  show ?case
  proof (cases "inward outer inner p")
    case None
    then show ?thesis
      using Mapped.prems(3) all exact_for_untranslated [OF None] unfolding reach served_exactly_def
      by (cases "is_ground p") (auto simp: mapped_serving_def pattern_in_def)
  next
    case (Some q)
    show ?thesis
    proof (cases "is_ground p \<or> \<not> repeats_a_variable p")
      case True
      then have "claims E m ''match'' (PatternRequest q)"
        using Mapped.prems(3) Some by (simp add: mapped_serving_def pattern_in_def)
      moreover from Mapped.prems(1) True Some have fit: "\<not> captures outer inner p" "views_fit m q" by auto
      ultimately have under: "served_exactly E m q (fst (member_match E s m q)) (contents E s m)"
        using Mapped.IH inward_named [OF ok Some Mapped.prems(2)] by blast
      then have "exact_for q (fst (member_match E s m q)) (contents E s m)" by (simp add: served_exactly_def)
      note exact = exact_for_mapped [OF ok Some fit(1) this]
      have "match p (stands_for p it) \<noteq> None"
        if "narrows E ?t p" "it \<in> set (List.map_filter (outward_answer outer inner q) (fst (member_match E s m q)))" for it
        by (rule precise_mapped [OF ok _ Some _ that(2)]) (use that(1) under Some in \<open>auto simp: served_exactly_def\<close>)
      with exact True Some show ?thesis
        unfolding reach served_exactly_def by (simp add: keep_mapped_def del: narrows.simps not_None_eq)
    next
      case False
      then show ?thesis
        using Mapped.prems(3) all Some unfolding reach served_exactly_def by (simp add: mapped_serving_def pattern_in_def)
    qed
  qed
qed

text \<open>C18. Matching through a tree of combinators is exact, outside an algebra, for leaves that keep the provider contract
  and a pattern of named variables that the tree claims and no view on the way captures (\<open>views_fit\<close>). The answers that match the pattern (what is left once the engine unifies each candidate
  again) are the atoms of the tree that match, each exactly as often as the tree holds it; no answer is an atom the tree
  does not hold, or comes oftener than it is held; and where the tree narrows the pattern, every answer matches, so the
  answers are the matching atoms and nothing else. Atoms are compared up to their equality, and the order is left open.\<close>

theorem composition_match_exact:
  assumes "honest E" "lawful E" "views_fit t p" "''_'' \<notin> set (variables p)" "claims E t ''match'' (PatternRequest p)"
  shows "cores (matched p (map (stands_for p) (fst (member_match E s t p)))) = cores (matched p (contents E s t)) \<and>
    cores (map (stands_for p) (fst (member_match E s t p))) \<subseteq># cores (contents E s t) \<and>
    (narrows E t p \<longrightarrow> cores (map (stands_for p) (fst (member_match E s t p))) = cores (matched p (contents E s t)))"
proof -
  let ?its = "fst (member_match E s t p)"
  note served = member_match_exact [OF assms, of s, unfolded served_exactly_def]
  note exact = exact_for_cores [OF served [THEN conjunct1]]
  have "matched p (map (stands_for p) ?its) = map (stands_for p) ?its" if "narrows E t p"
    unfolding matched_def by (rule filter_True) (use served that in auto)
  with exact show ?thesis by (intro conjI impI) simp_all
qed

section \<open>Writes\<close>

text \<open>The leaf a write reaches, and the atom it reaches it with.\<close>

fun route :: "space \<Rightarrow> atom \<Rightarrow> (space \<times> atom) option" where
  "route (Union ms) a = None"
| "route (ReadOnly m) a = None"
| "route (Mapped m outer inner) a = (case inward outer inner a of None \<Rightarrow> None | Some b \<Rightarrow> route m b)"
| "route (Overlay f b) a = route f a"
| "route t a = Some (t, a)"

fun leaf_add :: "'s spaces_env \<Rightarrow> space \<Rightarrow> atom \<Rightarrow> (nat \<Rightarrow> 's) \<Rightarrow> nat \<Rightarrow> 's" where
  "leaf_add E (Backend n) a s = s(n := do_add (backend_of E n) a (s n))"
| "leaf_add E (Handle n _) a s = handle_add (handle_of E n) [a] s"
| "leaf_add E t a s = s"

text \<open>How an accepted addition ends, from where its route leads.\<close>

fun lands :: "'s spaces_env \<Rightarrow> (space \<times> atom) option \<Rightarrow> (nat \<Rightarrow> 's) \<Rightarrow> 's written \<Rightarrow> bool" where
  "lands E (Some (leaf, b)) s r = (r = (None, leaf_add E leaf b s))"
| "lands E None s r = (\<exists>b shape. r = (Some (OutsideShape b shape), s))"

lemma add_reaches:
  assumes "honest E"
  shows "claims E t ''add'' (AtomRequest a) \<Longrightarrow> lands E (route t a) s (member_add E t [a] s)"
proof (induction t arbitrary: a)
  case (Handle n b)
  then show ?case by (simp add: member_add_handle)
next
  case (Mapped m outer inner)
  then have "claims E m ''add'' (AtomRequest b)" for b
    using claims_write_request(1) [OF assms, of m "AtomRequest b" "AtomRequest a"] by simp
  with Mapped show ?case using assms by (simp add: member_add_one require_served split: option.split)
qed (use assms in \<open>simp_all add: member_add_one require_served honest_backend\<close>)




lemma route_contents:
  assumes "\<And>c. do_atoms (backend_of E n) (do_add (backend_of E n) b c) = do_atoms (backend_of E n) c @ [b]"
  shows "shapes_ok t \<Longrightarrow> route t a = Some (Backend n, b) \<Longrightarrow>
    \<exists>c \<in> set (contents E (leaf_add E (Backend n) b s) t). atom_eq c a"
proof (induction t arbitrary: a)
  case (Mapped m outer inner)
  then obtain q where q: "inward outer inner a = Some q" "route m q = Some (Backend n, b)"
    by (auto split: option.splits)
  from Mapped.prems have ok: "shape_ok outer inner" "shapes_ok m" by auto
  from Mapped.IH [OF ok(2) q(2)] obtain c where
    c: "c \<in> set (contents E (leaf_add E (Backend n) b s) m)" "atom_eq c q" by blast
  from inward_outward [OF ok(1) q(1)] obtain d where d: "outward outer inner q = Some d" "atom_eq d a" by blast
  from outward_cong [OF shape_ok_named [OF ok(1)] c(2) d(1)] obtain e where "outward outer inner c = Some e" "atom_eq e d" by blast
  with c(1) d(2) show ?case 
    by (intro bexI [of _ e]) (auto simp: mem_map_filter atom_eq_core simp del: leaf_add.simps)
next
  case (Overlay f g)
  then have "\<exists>c \<in> set (contents E (leaf_add E (Backend n) b s) f). atom_eq c a" by (simp del: leaf_add.simps)
  then show ?case by (auto simp del: leaf_add.simps)
qed (use assms in \<open>auto simp: atom_eq_core\<close>)

text \<open>What is added can be read back: when a tree accepts an addition and the leaf it reaches appends
  what it is given, the tree then holds an atom equal to the one added, through every view in between.\<close>

theorem added_is_read:
  assumes "honest E" "shapes_ok t" "claims E t ''add'' (AtomRequest a)" "route t a = Some (Backend n, b)"
    and "\<And>c. do_atoms (backend_of E n) (do_add (backend_of E n) b c) = do_atoms (backend_of E n) c @ [b]"
  shows "\<exists>c \<in> set (contents E (snd (member_add E t [a] s)) t). atom_eq c a"
  using route_contents [OF assms(5,2,4), of s] add_reaches [OF assms(1,3), of s] assms(4) by simp

section \<open>Differences\<close>

lemma counted_set [simp]: "counted (dict_set (=) k n d) j = (if j = k then n else counted d j)"
  by (simp add: counted_def)

lemma counted_counter: "counted (counter ks) = count (mset ks)"
proof -
  have "counted (fold (\<lambda>k d. dict_set (=) k (Suc (counted d k)) d) ks d) j = counted d j + count (mset ks) j" for j d
    by (induction ks arbitrary: d) auto
  then show ?thesis by (simp add: counter_def counted_def [of "[]"] fun_eq_iff)
qed

lemma surplus_loop_spec:
  "counted d = count M \<Longrightarrow> \<exists>r. surplus_loop h xs d out = out @ r \<and> subseq r xs \<and>
     image_mset (diff_key h) (mset r) = image_mset (diff_key h) (mset xs) - M"
proof (induction xs arbitrary: d M out)
  case (Cons x xs)
  let ?k = "diff_key h x"
  show ?case
  proof (cases "counted d ?k = 0")
    case True
    then have "?k \<notin># M" using Cons.prems by (simp add: not_in_iff)
    moreover from Cons.IH [OF Cons.prems, of "out @ [x]"] obtain r where
      "surplus_loop h xs d (out @ [x]) = (out @ [x]) @ r" "subseq r xs"
      "image_mset (diff_key h) (mset r) = image_mset (diff_key h) (mset xs) - M" by blast
    ultimately show ?thesis using True by (intro exI [of _ "x # r"]) auto
  next
    case False
    then have "?k \<in># M" using Cons.prems by (simp add: count_greater_zero_iff [symmetric] del: count_greater_zero_iff)
    have "counted (dict_set (=) ?k (counted d ?k - 1) d) = count (M - {#?k#})"
      using Cons.prems by (auto simp: fun_eq_iff)
    from Cons.IH [OF this, of out] obtain r where
      "surplus_loop h xs (dict_set (=) ?k (counted d ?k - 1) d) out = out @ r" "subseq r xs"
      "image_mset (diff_key h) (mset r) = image_mset (diff_key h) (mset xs) - (M - {#?k#})" by blast
    moreover have "add_mset ?k (image_mset (diff_key h) (mset xs)) - M = image_mset (diff_key h) (mset xs) - (M - {#?k#})"
      using \<open>?k \<in># M\<close> by (simp add: diff_add_mset_swap multiset_eq_iff)
    ultimately show ?thesis using False by (intro exI [of _ r]) (auto simp: Let_def)
  qed
qed (auto intro: exI [of _ "[]"])

lemma surplus_spec:
  "subseq (surplus h xs ys) xs \<and>
   image_mset (diff_key h) (mset (surplus h xs ys)) = image_mset (diff_key h) (mset xs) - image_mset (diff_key h) (mset ys)"
  using surplus_loop_spec [of "counter (map (diff_key h) ys)" "image_mset (diff_key h) (mset ys)" h xs "[]"]
  by (auto simp: surplus_def counted_counter)

text \<open>\<open>diff\<close> is the multiset difference of two enumerations, counted by canonical text: each side's
  extras are a subsequence of its enumeration, their keys are its keys with the other side's taken away,
  and nothing is reported on both sides.\<close>

theorem diff_multiset:
  assumes "diff E h s a b = Inr (only_a, only_b)"
  shows "\<exists>xs ys. member_atoms E s a = (xs, None) \<and> member_atoms E s b = (ys, None) \<and>
    subseq only_a xs \<and> subseq only_b ys \<and>
    image_mset (diff_key h) (mset only_a) = image_mset (diff_key h) (mset xs) - image_mset (diff_key h) (mset ys) \<and>
    image_mset (diff_key h) (mset only_b) = image_mset (diff_key h) (mset ys) - image_mset (diff_key h) (mset xs) \<and>
    diff_key h ` set only_a \<inter> diff_key h ` set only_b = {}"
proof -
  obtain xs ys where en: "member_atoms E s a = (xs, None)" "member_atoms E s b = (ys, None)"
      and only: "only_a = surplus h xs ys" "only_b = surplus h ys xs"
    using assms by (auto simp: diff_def split: prod.splits option.splits)
  let ?m = "\<lambda>zs. image_mset (diff_key h) (mset zs)"
  note spec = surplus_spec [of h xs ys, folded only] surplus_spec [of h ys xs, folded only]
  have "k \<notin># ?m xs - ?m ys \<or> k \<notin># ?m ys - ?m xs" for k
    by (simp add: not_in_iff linear)
  then have "k \<notin># ?m only_a \<or> k \<notin># ?m only_b" for k using spec by (simp only: simp_thms)
  moreover have "set_mset (?m zs) = diff_key h ` set zs" for zs by simp
  ultimately have "diff_key h ` set only_a \<inter> diff_key h ` set only_b = {}" by (metis disjoint_iff)
  with en spec show ?thesis by (intro exI [of _ xs] exI [of _ ys]) (simp only: simp_thms)
qed

section \<open>A sample of spaces\<close>

text \<open>A provider that keeps a list of atoms, with the given methods.\<close>

definition list_answers :: "atom list \<Rightarrow> atom \<Rightarrow> item list" where
  "list_answers c p = map Plain (filter (\<lambda>a. match p a \<noteq> None) c)"

definition list_backend :: "string \<Rightarrow> string list \<Rightarrow> atom list backend" where
  "list_backend name ms =
     \<lparr>class_name = name, methods = ms, emits_events = False, can_run_override = None,
      should_run = (\<lambda>c r. True), refusal_override = (\<lambda>c r. None), do_atoms = (\<lambda>c. c),
      do_match = list_answers, do_add = (\<lambda>a c. c @ [a]),
      do_remove = (\<lambda>p c. (list_ex (\<lambda>a. atom_eq a p) c, filter (\<lambda>a. \<not> atom_eq a p) c)),
      do_clear = (\<lambda>c. []), do_snapshot = (\<lambda>c. c)\<rparr>"

definition list_handle :: "nat \<Rightarrow> atom list handle" where
  "list_handle n =
     \<lparr>handle_name = ''&kb'', handle_atoms = (\<lambda>s. s n),
      handle_rows = (\<lambda>s p. List.map_filter (match p) (s n)), handle_add = (\<lambda>as s. s(n := s n @ as)),
      handle_remove = (\<lambda>p s. (list_ex (\<lambda>a. atom_eq a p) (s n), s(n := filter (\<lambda>a. \<not> atom_eq a p) (s n)))),
      handle_clear = (\<lambda>s. s(n := []))\<rparr>"

definition sample_spaces :: "atom list spaces_env" where
  "sample_spaces =
     \<lparr>backend_of = (\<lambda>n. if n = 0 then list_backend ''Rows'' [''atoms'', ''match'', ''add'', ''remove'', ''clear'']
                        else list_backend ''Log'' [''atoms'']),
      handle_of = list_handle, weighing = False\<rparr>"

abbreviation pair_of :: "string \<Rightarrow> atom \<Rightarrow> atom \<Rightarrow> atom" where
  "pair_of f a b \<equiv> Expression [Symbol f, a, b]"

definition sample_view :: space where
  "sample_view = Overlay
     (Mapped (Backend 0) (pair_of ''edge'' (Variable ''a'') (Variable ''b''))
       (Expression [Symbol ''triple'', Variable ''a'', Symbol ''to'', Variable ''b'']))
     (Union [Handle 2 None, ReadOnly (Backend 1)])"

definition sample_cells :: "nat \<Rightarrow> atom list" where
  "sample_cells n =
     (if n = 0 then [Expression [Symbol ''triple'', Symbol ''u'', Symbol ''to'', Symbol ''v''], Symbol ''other'']
      else if n = 1 then [pair_of ''edge'' (Symbol ''v'') (Symbol ''w'')]
      else [pair_of ''edge'' (Symbol ''w'') (Symbol ''u'')])"

lemma match_partition: "exact_for p (map Plain (filter (\<lambda>a. match p a \<noteq> None) as)) as"
proof -
  let ?kept = "filter (\<lambda>a. match p a \<noteq> None) as"
  have "list_all2 atom_eq ?kept ?kept" by (simp add: list_all2_same atom_eq_core)
  moreover have "mset as = mset (?kept @ filter (\<lambda>a. match p a = None) as)"
    using multiset_partition [of "mset as" "\<lambda>a. match p a \<noteq> None"] by simp
  ultimately show ?thesis
    unfolding exact_for_def by (intro exI [of _ ?kept] exI [of _ "filter (\<lambda>a. match p a = None) as"]) (simp add: comp_def)
qed

lemma list_matcher: "precise_matcher (\<lambda>c. c) list_answers"
  by unfold_locales (auto simp: list_answers_def match_partition simp del: not_None_eq)

interpretation list_store: precise_matcher "\<lambda>c. c" list_answers
  by (rule list_matcher)

lemma filled_row: "''_'' \<notin> set (variables p) \<Longrightarrow> match p a = Some b \<Longrightarrow> atom_eq (substitute p b) a"
  by (simp add: substitute_match matched_fill set_variables)

lemma list_handle_matcher: "precise_matcher (handle_atoms (list_handle n)) (handle_answers (list_handle n))"
proof unfold_locales
  fix p and s :: "nat \<Rightarrow> atom list"
  assume p: "''_'' \<notin> set (variables p)"
  let ?rows = "\<lambda>as. map (\<lambda>row. Plain (substitute p row)) (List.map_filter (match p) as)"
  have "list_all2 atom_eq (map (stands_for p) (?rows as)) (filter (\<lambda>a. match p a \<noteq> None) as)" for as
    by (induction as) (auto simp: map_filter_simps filled_row [OF p] split: option.splits)
  moreover have "mset as = mset (filter (\<lambda>a. match p a \<noteq> None) as @ filter (\<lambda>a. match p a = None) as)" for as
    using multiset_partition [of "mset as" "\<lambda>a. match p a \<noteq> None"] by simp
  ultimately have "exact_for p (?rows as) as" for as
    unfolding exact_for_def
    by (intro exI [of _ "filter (\<lambda>a. match p a \<noteq> None) as"] exI [of _ "filter (\<lambda>a. match p a = None) as"] conjI) auto
  then show "exact_for p (handle_answers (list_handle n) s p) (handle_atoms (list_handle n) s)"
    by (simp add: handle_answers_def list_handle_def)
next
  fix p it and s :: "nat \<Rightarrow> atom list"
  assume p: "''_'' \<notin> set (variables p)" and it: "it \<in> set (handle_answers (list_handle n) s p)"
  then obtain a b where ab: "match p a = Some b" "it = Plain (substitute p b)"
    by (auto simp: handle_answers_def list_handle_def mem_map_filter)
  have "match p (substitute p b) \<noteq> None"
    by (rule match_cong [of a]) (use filled_row [OF p ab(1)] ab(1) in \<open>simp_all add: atom_eq_core\<close>)
  with ab(2) show "match p (stands_for p it) \<noteq> None" by simp
qed

interpretation handle_store: precise_matcher "handle_atoms (list_handle n)" "handle_answers (list_handle n)" for n
  by (rule list_handle_matcher)

lemma sample_lawful: "lawful sample_spaces"
  using list_store.matcher_axioms handle_store.matcher_axioms by (simp add: lawful_def sample_spaces_def list_backend_def)

lemma sample_honest: "honest sample_spaces"
  by (auto simp: honest_def honest_claims_def sample_spaces_def list_backend_def backend_can_run_def)


lemma sample_shapes: "shapes_ok sample_view"
  by (simp add: sample_view_def) code_simp

text \<open>The view of the sample shows \<open>(edge u v)\<close>, then the handle's and the log's own edges.\<close>

lemma sample_contents:
  "contents sample_spaces sample_cells sample_view =
     [pair_of ''edge'' (Symbol ''u'') (Symbol ''v''), pair_of ''edge'' (Symbol ''w'') (Symbol ''u''),
      pair_of ''edge'' (Symbol ''v'') (Symbol ''w'')]"
  by code_simp

lemma sample_claims:
  "claims sample_spaces sample_view ''enumerate'' NoRequest"
  "claims sample_spaces sample_view ''match'' (PatternRequest (pair_of ''edge'' (Variable ''x'') (Symbol ''v'')))"
  "claims sample_spaces sample_view ''add'' (AtomRequest (pair_of ''edge'' (Symbol ''p'') (Symbol ''q'')))"
  "\<not> claims sample_spaces sample_view ''clear'' NoRequest"
  "\<not> claims sample_spaces (Backend 1) ''add'' (AtomRequest (Symbol ''p''))"
  by code_simp+

theorem claims_are_served_witness:
  "snd (member_atoms sample_spaces sample_cells sample_view) = None \<and>
   fst (member_clear sample_spaces sample_view sample_cells) \<noteq> None"
  using claims_are_served [OF sample_honest, of sample_view sample_cells] sample_claims by blast

text \<open>The log has no \<open>match\<close> of its own, so asked through the view it answers all it holds; the part in front of it
  narrows.\<close>

abbreviation sample_front :: space where
  "sample_front \<equiv> Overlay
     (Mapped (Backend 0) (pair_of ''edge'' (Variable ''a'') (Variable ''b''))
       (Expression [Symbol ''triple'', Variable ''a'', Symbol ''to'', Variable ''b''])) (Handle 2 None)"

abbreviation sample_pattern :: atom where
  "sample_pattern \<equiv> pair_of ''edge'' (Variable ''x'') (Symbol ''v'')"

lemma sample_asked:
  "views_fit sample_view sample_pattern" "views_fit sample_front sample_pattern" "''_'' \<notin> set (variables sample_pattern)"
  "claims sample_spaces sample_front ''match'' (PatternRequest sample_pattern)"
  "inward (pair_of ''edge'' (Variable ''a'') (Variable ''b''))
     (Expression [Symbol ''triple'', Variable ''a'', Symbol ''to'', Variable ''b'']) sample_pattern =
   Some (Expression [Symbol ''triple'', Variable ''x'', Symbol ''to'', Symbol ''v''])"
  "repeats_a_variable sample_pattern = False" "variables (pair_of ''edge'' (Variable ''a'') (Variable ''b'')) = [''a'', ''b'']"
  "variables (Expression [Symbol ''triple'', Variable ''a'', Symbol ''to'', Variable ''b'']) = [''a'', ''b'']"
  by code_simp+

lemma sample_narrows: "narrows sample_spaces sample_front sample_pattern"
proof -
  have "precise_matcher (do_atoms (backend_of sample_spaces 0)) (do_match (backend_of sample_spaces 0))"
    using list_matcher by (simp add: sample_spaces_def list_backend_def)
  moreover have "precise_matcher (handle_atoms (handle_of sample_spaces 2)) (handle_answers (handle_of sample_spaces 2))"
    using list_handle_matcher by (simp add: sample_spaces_def)
  ultimately show ?thesis using sample_asked(5-8) by (simp add: sample_spaces_def list_backend_def)
qed

theorem composition_match_exact_witness:
  "cores (map (stands_for sample_pattern) (fst (member_match sample_spaces sample_cells sample_front sample_pattern))) =
     {# pair_of ''edge'' (Symbol ''u'') (Symbol ''v'') #} \<and>
   cores (map (stands_for sample_pattern) (fst (member_match sample_spaces sample_cells sample_view sample_pattern))) \<subseteq>#
     cores (contents sample_spaces sample_cells sample_view)"
proof -
  have "map core (matched sample_pattern (contents sample_spaces sample_cells sample_front)) =
      [pair_of ''edge'' (Symbol ''u'') (Symbol ''v'')]" by code_simp
  then have "cores (matched sample_pattern (contents sample_spaces sample_cells sample_front)) =
      {# pair_of ''edge'' (Symbol ''u'') (Symbol ''v'') #}" unfolding cores_def by simp
  with composition_match_exact [OF sample_honest sample_lawful sample_asked(2-4), of sample_cells] sample_narrows
    composition_match_exact [OF sample_honest sample_lawful sample_asked(1,3) sample_claims(2), of sample_cells]
  show ?thesis by simp
qed


theorem added_is_read_witness:
  "\<exists>c \<in> set (contents sample_spaces
       (snd (member_add sample_spaces sample_view [pair_of ''edge'' (Symbol ''p'') (Symbol ''q'')] sample_cells)) sample_view).
     atom_eq c (pair_of ''edge'' (Symbol ''p'') (Symbol ''q''))"
proof (rule added_is_read [OF sample_honest sample_shapes sample_claims(3)])
  show "route sample_view (pair_of ''edge'' (Symbol ''p'') (Symbol ''q'')) =
      Some (Backend 0, Expression [Symbol ''triple'', Symbol ''p'', Symbol ''to'', Symbol ''q''])" by code_simp
qed (simp add: sample_spaces_def list_backend_def)

lemma sample_diff:
  "diff sample_spaces sample_host sample_cells sample_view (Backend 1) =
     Inr ([pair_of ''edge'' (Symbol ''u'') (Symbol ''v''), pair_of ''edge'' (Symbol ''w'') (Symbol ''u'')], [])"
  by code_simp

theorem diff_multiset_witness:
  "diff_key sample_host ` set [pair_of ''edge'' (Symbol ''u'') (Symbol ''v''), pair_of ''edge'' (Symbol ''w'') (Symbol ''u'')] \<inter>
     diff_key sample_host ` set [] = {}"
  using diff_multiset [OF sample_diff] by blast

section \<open>Where the code does not do what it says\<close>

text \<open>A variable the inner shape alone names is captured by a pattern that uses the same name: the view
  \<open>(edge $a $b)\<close> of \<open>(triple $a $c $b)\<close> holds \<open>(edge u v)\<close>, which \<open>(edge $c $d)\<close> matches, yet \<open>match\<close> asks
  underneath for \<open>(triple $c $c $d)\<close> and answers nothing. \<open>(edge $x $y)\<close> does find it.\<close>

theorem mapped_view_captures:
  "let view = Mapped (Backend 0) (pair_of ''edge'' (Variable ''a'') (Variable ''b''))
        (Expression [Symbol ''triple'', Variable ''a'', Variable ''c'', Variable ''b'']);
       pattern = pair_of ''edge'' (Variable ''c'') (Variable ''d'') in
   contents sample_spaces sample_cells view = [pair_of ''edge'' (Symbol ''u'') (Symbol ''v'')] \<and>
   match pattern (pair_of ''edge'' (Symbol ''u'') (Symbol ''v'')) \<noteq> None \<and>
   member_match sample_spaces sample_cells view pattern = ([], None) \<and>
   member_match sample_spaces sample_cells view (pair_of ''edge'' (Variable ''x'') (Variable ''y'')) =
     ([Plain (pair_of ''edge'' (Symbol ''u'') (Symbol ''v''))], None)"
  by code_simp

text \<open>A provider that takes triples only.\<close>

definition picky_spaces :: "atom list spaces_env" where
  "picky_spaces = sample_spaces\<lparr>backend_of := (\<lambda>n. (list_backend ''Triples'' [''atoms'', ''add''])
     \<lparr>can_run_override := Some (\<lambda>cap req. case req of
        AtomRequest (Expression (Symbol f # _)) \<Rightarrow> f = ''triple'' | _ \<Rightarrow> cap = ''enumerate'')\<rparr>)\<rparr>"

text \<open>A view asks whether it can add with the atom it was given, not with the one it will write: over a
  provider that takes only triples the view says it cannot add \<open>(edge p q)\<close>, though the provider says it
  can add the triple the view would send it.\<close>

theorem mapped_add_misasked:
  "let outer = pair_of ''edge'' (Variable ''a'') (Variable ''b'');
       inner = Expression [Symbol ''triple'', Variable ''a'', Symbol ''to'', Variable ''b''];
       atom = pair_of ''edge'' (Symbol ''p'') (Symbol ''q'') in
   inward outer inner atom = Some (Expression [Symbol ''triple'', Symbol ''p'', Symbol ''to'', Symbol ''q'']) \<and>
   claims picky_spaces (Backend 0) ''add'' (AtomRequest (Expression [Symbol ''triple'', Symbol ''p'', Symbol ''to'', Symbol ''q''])) \<and>
   \<not> claims picky_spaces (Mapped (Backend 0) outer inner) ''add'' (AtomRequest atom)"
  by code_simp

end
