(* ===== verification/Folds.thy ===== *)
theory Folds
  imports MatchIndex
begin

text \<open>
  The event stream of \<open>metta/events.py\<close>: the registry of folds with its discrimination trees, delivery, and
  the clock of committed segments. A call answers a result and the state after it, since a raise leaves the
  state it was reached in. A fold is an object and so an identity; its slots are its cell. State values are
  object references, so \<open>is\<close> is equality on them.

  The engine answers each crossing from a script read at a turn: a crossing that raises may or may not have
  taken effect. The registry's lock makes a call one step. A step function, a guard and a segment callback are
  the caller's: they may change the whole state, this registry included, while they run. A control signal
  (\<open>BaseException\<close>) is not modelled.
\<close>

section \<open>State\<close>

datatype change = Added | Removed

datatype edge_kind = OnAdd | OnRemove | OnBoth

text \<open>The last two are transport metadata outside the public fields: the clock (0 when nothing listens) and the
  engine's sequence number.\<close>

record event =
  ev_action :: change
  ev_space :: string
  ev_atom :: atom
  ev_bindings :: bindings
  ev_generation :: nat
  ev_sequence :: "int option"

record 'v fold =
  fo_space :: string
  fo_pattern :: atom
  fo_on :: edge_kind
  fo_stateless :: bool
  fo_state :: 'v
  fo_initial :: 'v
  fo_active :: bool
  fo_version :: nat
  fo_consumed :: nat
  fo_fact :: "atom option"

record ('v, 'w) registry =
  rg_next :: nat
  rg_cell :: "nat \<Rightarrow> 'v fold"
  rg_folds :: "nat list"
  rg_indexes :: "(string, nat match_index) dict"
  rg_deliveries :: "(nat, (int, nat) dict) dict"
  rg_runtime :: "nat option"
  rg_published :: "string list"
  rg_facts :: "atom list"
  rg_abandoned :: "nat list"
  rg_generation :: nat
  rg_watches :: "nat list"
  rg_clock_runtime :: "nat option"
  rg_announced :: bool
  rg_turn :: nat
  rg_world :: 'w

datatype fold_error =
    Misuse string
  | EngineRaised nat
  | StepFailed nat
  | Reentered
  | QueueFull
  | NotRetained
  | NotRemoved
  | Both "fold_error list"
  | Watchers "fold_error list"

text \<open>A crossing is accepted, or raises with or without its effect.\<close>

datatype crossing = Accepted | Raised bool

type_synonym engine_script = "nat \<Rightarrow> crossing"

type_synonym ('v, 'w, 'a) call = "(fold_error + 'a) \<times> ('v, 'w) registry"

definition thenR :: "('v, 'w, 'a) call \<Rightarrow> ('a \<Rightarrow> ('v, 'w) registry \<Rightarrow> ('v, 'w, 'b) call) \<Rightarrow> ('v, 'w, 'b) call" where
  "thenR m f = (case m of (Inl e, s) \<Rightarrow> (Inl e, s) | (Inr a, s) \<Rightarrow> f a s)"

lemma thenR_simps [simp]: "thenR (Inl e, s) f = (Inl e, s)" "thenR (Inr a, s) f = f a s"
  by (simp_all add: thenR_def)

definition cross ::
  "engine_script \<Rightarrow> (('v, 'w) registry \<Rightarrow> ('v, 'w) registry) \<Rightarrow> ('v, 'w) registry \<Rightarrow> ('v, 'w, unit) call" where
  "cross eng change s =
     (let s1 = s\<lparr>rg_turn := Suc (rg_turn s)\<rparr> in
      case eng (rg_turn s) of
        Accepted \<Rightarrow> (Inr (), change s1)
      | Raised done \<Rightarrow> (Inl (EngineRaised (rg_turn s)), if done then change s1 else s1))"

section \<open>The registry\<close>

definition set_cell :: "nat \<Rightarrow> ('v fold \<Rightarrow> 'v fold) \<Rightarrow> ('v, 'w) registry \<Rightarrow> ('v, 'w) registry" where
  "set_cell f u s = s\<lparr>rg_cell := (rg_cell s)(f := u (rg_cell s f))\<rparr>"

text \<open>\<open>Fold.__init__\<close>.\<close>

definition new_fold ::
  "string \<Rightarrow> atom \<Rightarrow> edge_kind \<Rightarrow> bool \<Rightarrow> 'v \<Rightarrow> ('v, 'w) registry \<Rightarrow> nat \<times> ('v, 'w) registry" where
  "new_fold space pattern on stateless state s =
     (rg_next s, s\<lparr>rg_next := Suc (rg_next s), rg_cell := (rg_cell s)(rg_next s :=
        \<lparr>fo_space = space, fo_pattern = pattern, fo_on = on, fo_stateless = stateless, fo_state = state,
         fo_initial = state, fo_active = True, fo_version = 0, fo_consumed = 0, fo_fact = None\<rparr>)\<rparr>)"

definition spaces_of :: "('v, 'w) registry \<Rightarrow> nat list \<Rightarrow> string list" where
  "spaces_of s folds = sort (remdups (map (\<lambda>f. fo_space (rg_cell s f)) folds))"

definition publish_spaces :: "engine_script \<Rightarrow> string list \<Rightarrow> ('v, 'w) registry \<Rightarrow> ('v, 'w, unit) call" where
  "publish_spaces eng spaces s = cross eng (\<lambda>s. s\<lparr>rg_published := spaces\<rparr>) s"

definition publish_locked :: "engine_script \<Rightarrow> nat list \<Rightarrow> ('v, 'w) registry \<Rightarrow> ('v, 'w, unit) call" where
  "publish_locked eng folds s =
     (let current = spaces_of s (rg_folds s); candidate = spaces_of s folds in
      if current = candidate then (Inr (), s)
      else case publish_spaces eng candidate s of
        (Inr _, s1) \<Rightarrow> (Inr (), s1)
      | (Inl e, s1) \<Rightarrow>
          (case publish_spaces eng current s1 of
             (Inr _, s2) \<Rightarrow> (Inl e, s2)
           | (Inl e2, s2) \<Rightarrow> (Inl (Both [e, e2]), s2)))"

definition index_of :: "('v, 'w) registry \<Rightarrow> string \<Rightarrow> nat match_index" where
  "index_of s space = (case dict_get (=) space (rg_indexes s) of Some ix \<Rightarrow> ix | None \<Rightarrow> mi_empty)"

definition registry_add ::
  "engine_script \<Rightarrow> (nat \<Rightarrow> nat) \<Rightarrow> nat \<Rightarrow> nat \<Rightarrow> ('v, 'w) registry \<Rightarrow> ('v, 'w, unit) call" where
  "registry_add eng okey runtime f s =
     (if rg_runtime s \<noteq> None \<and> rg_runtime s \<noteq> Some runtime then (Inl (Misuse ''distinct engine runtimes''), s)
      else if f \<in> set (rg_folds s) then (Inl (Misuse ''already registered''), s)
      else thenR (publish_locked eng (rg_folds s @ [f]) s) (\<lambda>_ s1.
        let c = rg_cell s1 f in
        (Inr (), s1\<lparr>rg_runtime := Some runtime, rg_folds := rg_folds s1 @ [f],
           rg_indexes := dict_set (=) (fo_space c) (mi_add okey (index_of s1 (fo_space c)) (fo_pattern c) f)
             (rg_indexes s1)\<rparr>)))"

text \<open>What \<open>EventStream.fold\<close> does once its step is resolved.\<close>

definition open_fold ::
  "engine_script \<Rightarrow> (nat \<Rightarrow> nat) \<Rightarrow> nat \<Rightarrow> string \<Rightarrow> atom \<Rightarrow> edge_kind \<Rightarrow> bool \<Rightarrow> 'v
     \<Rightarrow> ('v, 'w) registry \<Rightarrow> ('v, 'w, nat) call" where
  "open_fold eng okey runtime space pattern on stateless state s =
     (case new_fold space pattern on stateless state s of
        (f, s1) \<Rightarrow> thenR (registry_add eng okey runtime f s1) (\<lambda>_ s2. (Inr f, s2)))"

record cancellation =
  cn_runtime :: nat
  cn_order :: "nat list"
  cn_index :: nat
  cn_active :: bool

fun position :: "nat \<Rightarrow> nat list \<Rightarrow> nat option" where
  "position f [] = None"
| "position f (x # xs) = (if x = f then Some 0 else map_option Suc (position f xs))"

definition registry_cancel ::
  "engine_script \<Rightarrow> (nat \<Rightarrow> nat) \<Rightarrow> nat \<Rightarrow> ('v, 'w) registry \<Rightarrow> ('v, 'w, cancellation option) call" where
  "registry_cancel eng okey f s =
     (case position f (rg_folds s) of
        None \<Rightarrow> if fo_active (rg_cell s f) then (Inl (Misuse ''an active subscription is missing''), s) else (Inr None, s)
      | Some i \<Rightarrow>
          (case rg_runtime s of
             None \<Rightarrow> (Inl (Misuse ''no engine runtime''), s)
           | Some runtime \<Rightarrow>
               (let order = rg_folds s; candidate = take i order @ drop (Suc i) order in
                thenR (publish_locked eng candidate s) (\<lambda>_ s1.
                  let c = rg_cell s1 f; space = fo_space c;
                      s2 = set_cell f (\<lambda>c. c\<lparr>fo_active := False\<rparr>) (s1\<lparr>rg_folds := candidate,
                        rg_indexes := (case dict_get (=) space (rg_indexes s1) of
                            None \<Rightarrow> rg_indexes s1
                          | Some ix \<Rightarrow> dict_set (=) space (snd (mi_remove okey (=) ix (fo_pattern c) f)) (rg_indexes s1))\<rparr>)
                  in (Inr (Some \<lparr>cn_runtime = runtime, cn_order = order, cn_index = i, cn_active = fo_active c\<rparr>), s2)))))"

fun first_position :: "nat list \<Rightarrow> nat list \<Rightarrow> nat option" where
  "first_position [] current = None"
| "first_position (g # gs) current =
     (case position g current of Some i \<Rightarrow> Some i | None \<Rightarrow> first_position gs current)"

definition restoration_index :: "cancellation \<Rightarrow> nat list \<Rightarrow> nat" where
  "restoration_index c current =
     (case first_position (drop (Suc (cn_index c)) (cn_order c)) current of
        Some i \<Rightarrow> i
      | None \<Rightarrow>
          (case first_position (rev (take (cn_index c) (cn_order c))) current of
             Some i \<Rightarrow> Suc i
           | None \<Rightarrow> min (cn_index c) (length current)))"

definition rebuild :: "(nat \<Rightarrow> nat) \<Rightarrow> string \<Rightarrow> ('v, 'w) registry \<Rightarrow> ('v, 'w) registry" where
  "rebuild okey space s =
     s\<lparr>rg_indexes := dict_set (=) space
        (fold (\<lambda>f ix. mi_add okey ix (fo_pattern (rg_cell s f)) f)
          (filter (\<lambda>f. fo_active (rg_cell s f) \<and> fo_space (rg_cell s f) = space) (rg_folds s)) mi_empty)
        (rg_indexes s)\<rparr>"

definition registry_restore ::
  "engine_script \<Rightarrow> (nat \<Rightarrow> nat) \<Rightarrow> cancellation \<Rightarrow> nat \<Rightarrow> ('v, 'w) registry \<Rightarrow> ('v, 'w, unit) call" where
  "registry_restore eng okey c f s =
     (if fo_active (rg_cell s f) \<or> f \<in> set (rg_folds s) then (Inl (Misuse ''cannot restore an active subscription''), s)
      else if rg_runtime s \<noteq> Some (cn_runtime c) then (Inl (Misuse ''cannot restore on another runtime''), s)
      else let i = restoration_index c (rg_folds s); candidate = take i (rg_folds s) @ [f] @ drop i (rg_folds s) in
        thenR (publish_locked eng candidate s) (\<lambda>_ s1.
          (Inr (), rebuild okey (fo_space (rg_cell s1 f))
             (set_cell f (\<lambda>x. x\<lparr>fo_active := cn_active c\<rparr>) (s1\<lparr>rg_folds := candidate\<rparr>)))))"

section \<open>Reading a fold\<close>

text \<open>\<open>take\<close>; the stateless sentinel is \<open>None\<close>.\<close>

definition registry_take :: "nat \<Rightarrow> ('v, 'w) registry \<Rightarrow> 'v option \<times> ('v, 'w) registry" where
  "registry_take f s =
     (let c = rg_cell s f in
      if fo_stateless c then (None, s)
      else (Some (fo_state c), set_cell f (\<lambda>c. c\<lparr>fo_state := fo_initial c, fo_consumed := fo_version c\<rparr>) s))"

text \<open>Whether \<open>wait\<close> goes to sleep on what it sees, and what it answers when it wakes.\<close>

definition wait_blocks :: "nat \<Rightarrow> bool \<Rightarrow> ('v, 'w) registry \<Rightarrow> bool" where
  "wait_blocks f expired s =
     (let c = rg_cell s f in
      \<not> fo_stateless c \<and> fo_active c \<and> fo_version c = fo_consumed c \<and> \<not> expired)"

definition registry_wait :: "nat \<Rightarrow> bool \<Rightarrow> ('v, 'w) registry \<Rightarrow> ('v option \<times> ('v, 'w) registry) option" where
  "registry_wait f expired s = (if wait_blocks f expired s then None else Some (registry_take f s))"

definition live :: "('v, 'w) registry \<Rightarrow> nat list" where
  "live s = filter (\<lambda>f. fo_active (rg_cell s f)) (rg_folds s)"

definition for_space :: "('v, 'w) registry \<Rightarrow> string \<Rightarrow> nat list" where
  "for_space s space = filter (\<lambda>f. fo_active (rg_cell s f) \<and> fo_space (rg_cell s f) = space) (rg_folds s)"

definition candidates_for :: "(nat \<Rightarrow> nat) \<Rightarrow> ('v, 'w) registry \<Rightarrow> string \<Rightarrow> atom \<Rightarrow> nat list" where
  "candidates_for okey s space a =
     (if \<not> is_ground a then for_space s space
      else case dict_get (=) space (rg_indexes s) of
        None \<Rightarrow> []
      | Some ix \<Rightarrow> map snd (mi_matches okey ix a))"

section \<open>Delivery\<close>

definition deliveries_of :: "nat \<Rightarrow> ('v, 'w) registry \<Rightarrow> (int, nat) dict" where
  "deliveries_of f s = (case dict_get (=) f (rg_deliveries s) of Some d \<Rightarrow> d | None \<Rightarrow> [])"

definition count_of :: "int \<Rightarrow> (int, nat) dict \<Rightarrow> nat" where
  "count_of th d = (case dict_get (=) th d of Some n \<Rightarrow> n | None \<Rightarrow> 0)"

definition begin_delivery :: "int \<Rightarrow> nat \<Rightarrow> ('v, 'w) registry \<Rightarrow> bool \<times> ('v, 'w) registry" where
  "begin_delivery th f s =
     (if \<not> fo_active (rg_cell s f) then (False, s)
      else let counts = deliveries_of f s in
        (True, s\<lparr>rg_deliveries := dict_set (=) f (dict_set (=) th (Suc (count_of th counts)) counts) (rg_deliveries s)\<rparr>))"

definition end_delivery :: "int \<Rightarrow> nat \<Rightarrow> ('v, 'w) registry \<Rightarrow> ('v, 'w, unit) call" where
  "end_delivery th f s =
     (let counts = deliveries_of f s in
      if count_of th counts = 0 then (Inl (Misuse ''delivery accounting is unbalanced''), s)
      else let left = (if count_of th counts = 1 then dict_del (=) th counts else dict_set (=) th (count_of th counts - 1) counts) in
        (Inr (), s\<lparr>rg_deliveries := (if left = [] then dict_del (=) f (rg_deliveries s)
                                     else dict_set (=) f left (rg_deliveries s))\<rparr>))"

text \<open>\<open>cancel\<close> waits until no other thread is inside a step of the fold.\<close>

definition deliveries_done :: "int \<Rightarrow> nat \<Rightarrow> ('v, 'w) registry \<Rightarrow> bool" where
  "deliveries_done th f s = (\<forall>(owner, n) \<in> set (deliveries_of f s). owner = th \<or> n = 0)"

type_synonym ('v, 'w) step = "nat \<Rightarrow> event \<Rightarrow> 'v \<Rightarrow> ('v, 'w) registry \<Rightarrow> ('v, 'w, 'v) call"

type_synonym ('v, 'w) guard = "nat \<Rightarrow> event \<Rightarrow> ('v, 'w) registry \<Rightarrow> ('v, 'w, bool) call"

text \<open>\<open>Fold._run\<close>. Its \<open>finally\<close> ends the delivery on every path; what is raised there replaces the step's own
  failure. A fold without \<open>admits\<close> has the guard that admits everything.\<close>

definition finish_run :: "int \<Rightarrow> nat \<Rightarrow> ('v, 'w, unit) call \<Rightarrow> ('v, 'w, unit) call" where
  "finish_run th f m =
     (case m of (r, s) \<Rightarrow> (case end_delivery th f s of (Inl e, s1) \<Rightarrow> (Inl e, s1) | (Inr _, s1) \<Rightarrow> (r, s1)))"

definition keep_answer :: "nat \<Rightarrow> 'v \<Rightarrow> 'v \<Rightarrow> ('v, 'w) registry \<Rightarrow> ('v, 'w, unit) call" where
  "keep_answer f before after s =
     (if fo_state (rg_cell s f) \<noteq> before \<and> fo_state (rg_cell s f) \<noteq> after then (Inl Reentered, s)
      else (Inr (), set_cell f (\<lambda>c. c\<lparr>fo_state := after, fo_version := Suc (fo_version c)\<rparr>) s))"

definition run_body ::
  "('v, 'w) step \<Rightarrow> ('v, 'w) guard \<Rightarrow> event \<Rightarrow> nat \<Rightarrow> ('v, 'w) registry \<Rightarrow> ('v, 'w, unit) call" where
  "run_body step admits ev f s =
     thenR (admits f ev s) (\<lambda>admitted s1.
       if \<not> admitted then (Inr (), s1)
       else let before = fo_state (rg_cell s1 f) in
         thenR (step f ev before s1) (\<lambda>after s2.
           if fo_stateless (rg_cell s f) then (Inr (), s2) else keep_answer f before after s2))"

definition run_fold ::
  "('v, 'w) step \<Rightarrow> ('v, 'w) guard \<Rightarrow> int \<Rightarrow> event \<Rightarrow> nat \<Rightarrow> ('v, 'w) registry \<Rightarrow> ('v, 'w, unit) call" where
  "run_fold step admits th ev f s =
     (case begin_delivery th f s of
        (False, s1) \<Rightarrow> (Inr (), s1)
      | (True, s1) \<Rightarrow> finish_run th f (run_body step admits ev f s1))"

definition on_edge :: "edge_kind \<Rightarrow> change \<Rightarrow> bool" where
  "on_edge k a = (k = OnBoth \<or> (k = OnAdd \<and> a = Added) \<or> (k = OnRemove \<and> a = Removed))"

text \<open>The loop of \<open>_deliver\<close>: every matching watcher runs, whatever the earlier ones did. The bindings are left
  for each watcher to fill in.\<close>

fun deliver_loop ::
  "('v, 'w) step \<Rightarrow> ('v, 'w) guard \<Rightarrow> int \<Rightarrow> event \<Rightarrow> nat list \<Rightarrow> fold_error list
     \<Rightarrow> ('v, 'w) registry \<Rightarrow> fold_error list \<times> ('v, 'w) registry" where
  "deliver_loop step admits th ev [] failures s = (failures, s)"
| "deliver_loop step admits th ev (f # fs) failures s =
     (if \<not> on_edge (fo_on (rg_cell s f)) (ev_action ev) then deliver_loop step admits th ev fs failures s
      else case match (fo_pattern (rg_cell s f)) (ev_atom ev) of
        None \<Rightarrow> deliver_loop step admits th ev fs failures s
      | Some b \<Rightarrow>
          (case run_fold step admits th (ev\<lparr>ev_bindings := b\<rparr>) f s of
             (Inr _, s1) \<Rightarrow> deliver_loop step admits th ev fs failures s1
           | (Inl e, s1) \<Rightarrow> deliver_loop step admits th ev fs (failures @ [e]) s1))"

definition tick :: "('v, 'w) registry \<Rightarrow> nat \<times> ('v, 'w) registry" where
  "tick s =
     (if rg_watches s = [] then (0, s)
      else (Suc (rg_generation s), s\<lparr>rg_generation := Suc (rg_generation s)\<rparr>))"

definition report :: "fold_error list \<times> ('v, 'w) registry \<Rightarrow> ('v, 'w, unit) call" where
  "report m =
     (case m of
        ([], s) \<Rightarrow> (Inr (), s)
      | ([e], s) \<Rightarrow> (Inl e, s)
      | (es, s) \<Rightarrow> (Inl (Watchers es), s))"

definition deliver_change ::
  "(nat \<Rightarrow> nat) \<Rightarrow> ('v, 'w) step \<Rightarrow> ('v, 'w) guard \<Rightarrow> int \<Rightarrow> change \<Rightarrow> string \<Rightarrow> atom \<Rightarrow> int option
     \<Rightarrow> ('v, 'w) registry \<Rightarrow> ('v, 'w, unit) call" where
  "deliver_change okey step admits th action space a sequence s =
     (case tick s of (generation, s1) \<Rightarrow>
        report (deliver_loop step admits th \<lparr>ev_action = action, ev_space = space, ev_atom = a, ev_bindings = [],
          ev_generation = generation, ev_sequence = sequence\<rparr> (candidates_for okey s1 space a) [] s1))"

section \<open>The clock of committed segments\<close>

definition announce :: "engine_script \<Rightarrow> nat option \<Rightarrow> bool \<Rightarrow> ('v, 'w) registry \<Rightarrow> ('v, 'w, unit) call" where
  "announce eng runtime enabled s =
     (if runtime = None \<or> enabled = rg_announced s then (Inr (), s)
      else thenR (cross eng id s) (\<lambda>_ s1. (Inr (), s1\<lparr>rg_announced := enabled\<rparr>)))"

definition listen :: "engine_script \<Rightarrow> nat \<Rightarrow> ('v, 'w) registry \<Rightarrow> ('v, 'w, nat) call" where
  "listen eng runtime s =
     (let w = rg_next s; s0 = s\<lparr>rg_next := Suc (rg_next s)\<rparr> in
      if rg_clock_runtime s \<noteq> None \<and> rg_clock_runtime s \<noteq> Some runtime
      then (Inl (Misuse ''distinct engine runtimes''), s0)
      else thenR (announce eng (Some runtime) True s0) (\<lambda>_ s1.
        (Inr w, s1\<lparr>rg_clock_runtime := Some runtime, rg_watches := rg_watches s1 @ [w]\<rparr>)))"

definition forget :: "engine_script \<Rightarrow> nat \<Rightarrow> ('v, 'w) registry \<Rightarrow> ('v, 'w, unit) call" where
  "forget eng w s =
     (let remaining = filter (\<lambda>x. x \<noteq> w) (rg_watches s) in
      if length remaining = length (rg_watches s) then (Inr (), s)
      else thenR (if remaining = [] then announce eng (rg_clock_runtime s) False s else (Inr (), s)) (\<lambda>_ s1.
        (Inr (), s1\<lparr>rg_watches := remaining\<rparr>)))"

type_synonym ('v, 'w) callback = "nat \<Rightarrow> nat \<Rightarrow> ('v, 'w) registry \<Rightarrow> ('v, 'w, unit) call"

fun tell_watches :: "('v, 'w) callback \<Rightarrow> nat \<Rightarrow> nat list \<Rightarrow> ('v, 'w) registry \<Rightarrow> ('v, 'w, unit) call" where
  "tell_watches cb generation [] s = (Inr (), s)"
| "tell_watches cb generation (w # ws) s = thenR (cb w generation s) (\<lambda>_ s1. tell_watches cb generation ws s1)"

definition committed :: "('v, 'w) callback \<Rightarrow> ('v, 'w) registry \<Rightarrow> ('v, 'w, unit) call" where
  "committed cb s = tell_watches cb (rg_generation s) (rg_watches s) s"

text \<open>\<open>EventStream.publish\<close>: one announced change is one segment.\<close>

definition publish_change ::
  "(nat \<Rightarrow> nat) \<Rightarrow> ('v, 'w) step \<Rightarrow> ('v, 'w) guard \<Rightarrow> ('v, 'w) callback \<Rightarrow> int \<Rightarrow> change \<Rightarrow> string \<Rightarrow> atom
     \<Rightarrow> ('v, 'w) registry \<Rightarrow> ('v, 'w, unit) call" where
  "publish_change okey step admits cb th action space a s =
     thenR (deliver_change okey step admits th action space a None s) (\<lambda>_ s1. committed cb s1)"

end
