(* ===== verification/Subscribe.thy ===== *)
theory Subscribe
  imports Folds
begin

text \<open>
  Standing queries, \<open>metta/subscribe.py\<close>: a subscription is a fold that calls back or queues, published with a
  reflection atom in the library's own space; and bridges, the folds that write into another space. The
  transaction lock makes publication, cancellation and the withdrawal of abandoned subscriptions one step.
\<close>

section \<open>Reflection atoms\<close>

text \<open>What the engine answers about its reflection space: whether it holds an atom, and what is left after it
  removes one. Both are the engine's own unification (\<open>metta_py_contains\<close>, \<open>metta_py_remove\<close>), so they are arguments.
  A program may itself watch the reflection space; the deliveries that a write to it would start are not run here, so
  the definitions below are publication and withdrawal where nobody watches it.\<close>

record reflector =
  rf_holds :: "atom list \<Rightarrow> atom \<Rightarrow> bool"
  rf_drop :: "atom \<Rightarrow> atom list \<Rightarrow> atom list"

definition has_fact :: "('v, 'w) registry \<Rightarrow> atom \<Rightarrow> bool" where
  "has_fact s mark = list_ex (\<lambda>f. case fo_fact (rg_cell s f) of Some x \<Rightarrow> atom_eq x mark | None \<Rightarrow> False) (live s)"

definition reflection_contains :: "reflector \<Rightarrow> engine_script \<Rightarrow> atom \<Rightarrow> ('v, 'w) registry \<Rightarrow> ('v, 'w, bool) call" where
  "reflection_contains rf eng mark s = thenR (cross eng id s) (\<lambda>_ s1. (Inr (rf_holds rf (rg_facts s1) mark), s1))"

definition reflect_add :: "engine_script \<Rightarrow> atom \<Rightarrow> ('v, 'w) registry \<Rightarrow> ('v, 'w, unit) call" where
  "reflect_add eng mark s = cross eng (\<lambda>s. s\<lparr>rg_facts := rg_facts s @ [mark]\<rparr>) s"

definition reflect_remove :: "reflector \<Rightarrow> engine_script \<Rightarrow> atom \<Rightarrow> ('v, 'w) registry \<Rightarrow> ('v, 'w, unit) call" where
  "reflect_remove rf eng mark s = cross eng (\<lambda>s. s\<lparr>rg_facts := rf_drop rf mark (rg_facts s)\<rparr>) s"

definition ensure_present :: "reflector \<Rightarrow> engine_script \<Rightarrow> atom \<Rightarrow> ('v, 'w) registry \<Rightarrow> ('v, 'w, unit) call" where
  "ensure_present rf eng mark s =
     thenR (reflection_contains rf eng mark s) (\<lambda>held s1.
     thenR (if held then (Inr (), s1) else reflect_add eng mark s1) (\<lambda>_ s2.
     thenR (reflection_contains rf eng mark s2) (\<lambda>held s3.
       if held then (Inr (), s3) else (Inl NotRetained, s3))))"

definition ensure_absent :: "reflector \<Rightarrow> engine_script \<Rightarrow> atom \<Rightarrow> ('v, 'w) registry \<Rightarrow> ('v, 'w, unit) call" where
  "ensure_absent rf eng mark s =
     thenR (reflection_contains rf eng mark s) (\<lambda>held s1.
     thenR (if held then reflect_remove rf eng mark s1 else (Inr (), s1)) (\<lambda>_ s2.
     thenR (reflection_contains rf eng mark s2) (\<lambda>held s3.
       if held then (Inl NotRemoved, s3) else (Inr (), s3))))"

section \<open>Withdrawal\<close>

text \<open>\<open>Subscription._withdraw\<close>: unregister and take the reflection atom away, or restore both.\<close>

definition failures_of :: "(fold_error + unit) list \<Rightarrow> fold_error list" where
  "failures_of rs = concat (map (\<lambda>r. case r of Inl e \<Rightarrow> [e] | Inr _ \<Rightarrow> []) rs)"

definition put_back ::
  "reflector \<Rightarrow> engine_script \<Rightarrow> (nat \<Rightarrow> nat) \<Rightarrow> cancellation \<Rightarrow> atom \<Rightarrow> nat \<Rightarrow> fold_error
     \<Rightarrow> ('v, 'w) registry \<Rightarrow> ('v, 'w, unit) call" where
  "put_back rf eng okey c mark f e s =
     (case ensure_present rf eng mark s of (r1, s1) \<Rightarrow>
       (case registry_restore eng okey c f s1 of (r2, s2) \<Rightarrow>
         (Inl (if failures_of [r1, r2] = [] then e else Both (e # failures_of [r1, r2])), s2)))"

definition withdraw ::
  "reflector \<Rightarrow> engine_script \<Rightarrow> (nat \<Rightarrow> nat) \<Rightarrow> nat \<Rightarrow> ('v, 'w) registry \<Rightarrow> ('v, 'w, unit) call" where
  "withdraw rf eng okey f s =
     thenR (registry_cancel eng okey f s) (\<lambda>cancelled s1.
       case (cancelled, fo_fact (rg_cell s1 f)) of
         (Some c, Some mark) \<Rightarrow>
           if has_fact s1 mark then (Inr (), s1)
           else (case ensure_absent rf eng mark s1 of
                   (Inr _, s2) \<Rightarrow> (Inr (), s2)
                 | (Inl e, s2) \<Rightarrow> put_back rf eng okey c mark f e s2)
       | _ \<Rightarrow> (Inr (), s1))"

text \<open>\<open>_withdraw_abandoned\<close>, over the queue as it stands when the lock is taken.\<close>

fun withdraw_abandoned ::
  "reflector \<Rightarrow> engine_script \<Rightarrow> (nat \<Rightarrow> nat) \<Rightarrow> nat list \<Rightarrow> ('v, 'w) registry \<Rightarrow> ('v, 'w, unit) call" where
  "withdraw_abandoned rf eng okey [] s = (Inr (), s)"
| "withdraw_abandoned rf eng okey (f # fs) s =
     (case withdraw rf eng okey f (s\<lparr>rg_abandoned := fs\<rparr>) of
        (Inr _, s1) \<Rightarrow> withdraw_abandoned rf eng okey fs s1
      | (Inl e, s1) \<Rightarrow> (Inl e, s1\<lparr>rg_abandoned := f # rg_abandoned s1\<rparr>))"

definition abandon :: "nat \<Rightarrow> ('v, 'w) registry \<Rightarrow> ('v, 'w) registry" where
  "abandon f s = (set_cell f (\<lambda>c. c\<lparr>fo_active := False\<rparr>) s)\<lparr>rg_abandoned := rg_abandoned s @ [f]\<rparr>"

definition subscription_cancel ::
  "reflector \<Rightarrow> engine_script \<Rightarrow> (nat \<Rightarrow> nat) \<Rightarrow> bool \<Rightarrow> nat \<Rightarrow> ('v, 'w) registry \<Rightarrow> ('v, 'w, unit) call" where
  "subscription_cancel rf eng okey finaliser f s =
     (if finaliser then (Inr (), abandon f s)
      else thenR (withdraw_abandoned rf eng okey (rg_abandoned s) s) (\<lambda>_ s1. withdraw rf eng okey f s1))"

section \<open>Publication\<close>

definition edge_name :: "edge_kind \<Rightarrow> string" where
  "edge_name k = (case k of OnAdd \<Rightarrow> ''add'' | OnRemove \<Rightarrow> ''remove'' | OnBoth \<Rightarrow> ''both'')"

definition reflection :: "string \<Rightarrow> atom \<Rightarrow> edge_kind \<Rightarrow> atom" where
  "reflection space pattern on =
     Expression [Symbol ''subscription'', Symbol space, pattern, Symbol (edge_name on)]"

definition settle_fact ::
  "reflector \<Rightarrow> engine_script \<Rightarrow> atom \<Rightarrow> fold_error \<Rightarrow> ('v, 'w) registry \<Rightarrow> ('v, 'w, 'a) call" where
  "settle_fact rf eng mark e s =
     (case (if has_fact s mark then ensure_present rf eng mark s else ensure_absent rf eng mark s) of
        (Inr _, s1) \<Rightarrow> (Inl e, s1)
      | (Inl e2, s1) \<Rightarrow> (Inl (Both [e, e2]), s1))"

definition publish_subscription ::
  "reflector \<Rightarrow> engine_script \<Rightarrow> (nat \<Rightarrow> nat) \<Rightarrow> nat \<Rightarrow> atom \<Rightarrow> nat \<Rightarrow> ('v, 'w) registry \<Rightarrow> ('v, 'w, unit) call" where
  "publish_subscription rf eng okey runtime mark f s =
     (case thenR (ensure_present rf eng mark s) (\<lambda>_ s1. registry_add eng okey runtime f s1) of
        (Inr _, s2) \<Rightarrow> (Inr (), s2)
      | (Inl e, s2) \<Rightarrow> settle_fact rf eng mark e (set_cell f (\<lambda>c. c\<lparr>fo_active := False\<rparr>) s2))"

text \<open>The enrolment in the caller's scope, undone with the subscription when it fails. \<open>refused\<close> is what the space's
  provider says to a subscription.\<close>

definition enrol ::
  "reflector \<Rightarrow> engine_script \<Rightarrow> (nat \<Rightarrow> nat) \<Rightarrow> (nat \<Rightarrow> ('v, 'w) registry \<Rightarrow> ('v, 'w, unit) call)
     \<Rightarrow> nat \<Rightarrow> ('v, 'w) registry \<Rightarrow> ('v, 'w, nat) call" where
  "enrol rf eng okey own f s =
     (case own f s of
        (Inr _, s1) \<Rightarrow> (Inr f, s1)
      | (Inl e, s1) \<Rightarrow> thenR (subscription_cancel rf eng okey False f s1) (\<lambda>_ s2. (Inl e, s2)))"

definition subscribe ::
  "reflector \<Rightarrow> engine_script \<Rightarrow> (nat \<Rightarrow> nat) \<Rightarrow> nat \<Rightarrow> fold_error option
     \<Rightarrow> (nat \<Rightarrow> ('v, 'w) registry \<Rightarrow> ('v, 'w, unit) call) \<Rightarrow> string \<Rightarrow> atom \<Rightarrow> edge_kind \<Rightarrow> bool \<Rightarrow> 'v
     \<Rightarrow> ('v, 'w) registry \<Rightarrow> ('v, 'w, nat) call" where
  "subscribe rf eng okey runtime refused own space pattern on stateless queue s =
     (case refused of
        Some e \<Rightarrow> (Inl e, s)
      | None \<Rightarrow>
          (case new_fold space pattern on stateless queue s of
             (f, s1) \<Rightarrow>
               (let mark = reflection space pattern on; s2 = set_cell f (\<lambda>c. c\<lparr>fo_fact := Some mark\<rparr>) s1 in
                thenR (withdraw_abandoned rf eng okey (rg_abandoned s2) s2) (\<lambda>_ s3.
                thenR (publish_subscription rf eng okey runtime mark f s3) (\<lambda>_ s4.
                enrol rf eng okey own f s4)))))"

section \<open>The queue\<close>

text \<open>A queue is a list object: its identity and its events. Each queued event makes a new list.\<close>

type_synonym queue = "nat \<times> event list"

datatype 'a bound_error = BadType 'a | BadValue 'a

datatype bound_arg = Standing | Count int | Other

text \<open>\<open>_capacity\<close>: the standing bound, or a count, its type read before its value.\<close>

definition capacity :: "nat \<Rightarrow> bound_arg \<Rightarrow> bound_arg bound_error + nat" where
  "capacity standing q =
     (case q of
        Standing \<Rightarrow> Inr standing
      | Other \<Rightarrow> Inl (BadType q)
      | Count i \<Rightarrow> if i < 1 then Inl (BadValue q) else Inr (nat i))"

definition step_over ::
  "(event \<Rightarrow> (queue, 'w) registry \<Rightarrow> (queue, 'w, unit) call) option \<Rightarrow> nat
     \<Rightarrow> event \<Rightarrow> queue \<Rightarrow> (queue, 'w) registry \<Rightarrow> (queue, 'w, queue) call" where
  "step_over callback queue_max ev held s =
     (case callback of
        Some cb \<Rightarrow> thenR (cb ev s) (\<lambda>_ s1. (Inr held, s1))
      | None \<Rightarrow>
          if queue_max \<le> length (snd held) then (Inl QueueFull, s)
          else (Inr (rg_next s, snd held @ [ev]), s\<lparr>rg_next := Suc (rg_next s)\<rparr>))"

definition drain :: "nat \<Rightarrow> (queue, 'w) registry \<Rightarrow> event list \<times> (queue, 'w) registry" where
  "drain f s = (case registry_take f s of (held, s1) \<Rightarrow> (case held of None \<Rightarrow> [] | Some q \<Rightarrow> snd q, s1))"

text \<open>One turn of \<open>events\<close>: it sleeps (no answer), ends (no events), or yields what arrived.\<close>

definition events_turn ::
  "bool \<Rightarrow> nat \<Rightarrow> bool \<Rightarrow> (queue, 'w) registry \<Rightarrow> (fold_error + (event list \<times> (queue, 'w) registry) option)" where
  "events_turn callback f expired s =
     (if callback then Inl (Misuse ''events() consumes the no-callback queue'')
      else Inr (map_option (\<lambda>(held, s1). (case held of None \<Rightarrow> [] | Some q \<Rightarrow> snd q, s1)) (registry_wait f expired s)))"

section \<open>Guards and bridges\<close>

definition instantiate :: "atom \<Rightarrow> bindings \<Rightarrow> atom" where
  "instantiate template b =
     map_atoms (\<lambda>a. case a of Variable x \<Rightarrow> (case dict_get (=) x b of Some v \<Rightarrow> v | None \<Rightarrow> a) | _ \<Rightarrow> a) template"

definition guard_admits ::
  "atom \<Rightarrow> (atom \<Rightarrow> ('v, 'w) registry \<Rightarrow> ('v, 'w, atom list) call) \<Rightarrow> ('v, 'w) guard" where
  "guard_admits condition evaluate f ev s =
     thenR (evaluate (instantiate condition (ev_bindings ev)) s) (\<lambda>answers s1.
       (Inr (case answers of [a] \<Rightarrow> eq_raw a (PPrim (VBool True)) | _ \<Rightarrow> False), s1))"

definition bridge_step ::
  "(atom \<Rightarrow> ('v, 'w) registry \<Rightarrow> ('v, 'w, unit) call) \<Rightarrow> (atom \<Rightarrow> ('v, 'w) registry \<Rightarrow> ('v, 'w, unit) call)
     \<Rightarrow> atom \<Rightarrow> atom option \<Rightarrow> event \<Rightarrow> ('v, 'w) registry \<Rightarrow> ('v, 'w, unit) call" where
  "bridge_step add remove pattern template ev s =
     (let built = (case template of None \<Rightarrow> pattern | Some t \<Rightarrow> t) in
      case ev_action ev of
        Added \<Rightarrow> add (instantiate built (ev_bindings ev)) s
      | Removed \<Rightarrow> remove (instantiate built (ev_bindings ev)) s)"

end
