(* ===== verification/Registry.thy ===== *)
theory Registry
  imports Subscribe
begin

text \<open>
  What the registry of folds keeps: every space's discrimination tree holds the live folds of that space in
  registration order, through every operation of the stream and of its subscriptions, failures included.
\<close>

section \<open>The invariant\<close>

abbreviation cell_space :: "('v, 'w) registry \<Rightarrow> nat \<Rightarrow> string" where
  "cell_space s f \<equiv> fo_space (rg_cell s f)"

abbreviation cell_pattern :: "('v, 'w) registry \<Rightarrow> nat \<Rightarrow> atom" where
  "cell_pattern s f \<equiv> fo_pattern (rg_cell s f)"

abbreviation active :: "('v, 'w) registry \<Rightarrow> nat \<Rightarrow> bool" where
  "active s f \<equiv> fo_active (rg_cell s f)"

text \<open>The tree of a space files registered folds of that space, all the active ones among them. An abandoned fold
  is inactive and may still be filed.\<close>

definition filed :: "(nat \<Rightarrow> nat) \<Rightarrow> ('v, 'w) registry \<Rightarrow> string \<Rightarrow> bool" where
  "filed okey s space =
     (mi_ok okey (index_of s space) \<and>
      (\<exists>keep. (\<forall>f. active s f \<longrightarrow> keep f) \<and>
         map snd (mi_entries (index_of s space)) =
           map (\<lambda>f. (cell_pattern s f, f)) (filter (\<lambda>f. cell_space s f = space \<and> keep f) (rg_folds s))))"

definition sound :: "(nat \<Rightarrow> nat) \<Rightarrow> ('v, 'w) registry \<Rightarrow> bool" where
  "sound okey s =
     (distinct (rg_folds s) \<and> (\<forall>f \<in> set (rg_folds s). f < rg_next s) \<and> (rg_folds s \<noteq> [] \<longrightarrow> rg_runtime s \<noteq> None) \<and>
      (\<forall>space. filed okey s space))"

lemma filedE:
  assumes "filed okey s space"
  obtains keep where "mi_ok okey (index_of s space)" "\<forall>f. active s f \<longrightarrow> keep f"
    "map snd (mi_entries (index_of s space)) =
       map (\<lambda>f. (cell_pattern s f, f)) (filter (\<lambda>f. cell_space s f = space \<and> keep f) (rg_folds s))"
  using assms unfolding filed_def by blast

lemma filedI:
  assumes "mi_ok okey (index_of s space)" "\<forall>f. active s f \<longrightarrow> keep f"
    "map snd (mi_entries (index_of s space)) =
       map (\<lambda>f. (cell_pattern s f, f)) (filter (\<lambda>f. cell_space s f = space \<and> keep f) (rg_folds s))"
  shows "filed okey s space"
  using assms unfolding filed_def by blast

lemma sound_filed: "sound okey s \<Longrightarrow> filed okey s space"
  by (simp add: sound_def)

lemma sound_old: "sound okey s \<Longrightarrow> f \<in> set (rg_folds s) \<Longrightarrow> f < rg_next s"
  by (simp add: sound_def)

text \<open>A fold's identity is fixed once it exists, and an ended fold stays ended.\<close>

definition same_slots :: "'v fold \<Rightarrow> 'v fold \<Rightarrow> bool" where
  "same_slots c d =
     (fo_space c = fo_space d \<and> fo_pattern c = fo_pattern d \<and> fo_on c = fo_on d \<and> fo_stateless c = fo_stateless d \<and>
      fo_initial c = fo_initial d \<and> fo_fact c = fo_fact d)"

definition evolves :: "('v, 'w) registry \<Rightarrow> ('v, 'w) registry \<Rightarrow> bool" where
  "evolves s t =
     (rg_next s \<le> rg_next t \<and>
      (\<forall>f < rg_next s. same_slots (rg_cell s f) (rg_cell t f) \<and> (active t f \<longrightarrow> active s f)))"

definition keeps_sound :: "(nat \<Rightarrow> nat) \<Rightarrow> ('v, 'w) registry \<Rightarrow> ('v, 'w) registry \<Rightarrow> bool" where
  "keeps_sound okey s t = (sound okey s \<longrightarrow> sound okey t \<and> evolves s t)"

lemma same_slots_refl [simp]: "same_slots c c"
  by (simp add: same_slots_def)

lemma same_slots_trans: "same_slots c d \<Longrightarrow> same_slots d e \<Longrightarrow> same_slots c e"
  by (simp add: same_slots_def)

lemma evolves_refl [simp]: "evolves s s"
  by (simp add: evolves_def)

lemma evolves_trans: "evolves s t \<Longrightarrow> evolves t u \<Longrightarrow> evolves s u"
  unfolding evolves_def by (meson less_le_trans le_trans same_slots_trans)

lemma keeps_sound_refl [simp]: "keeps_sound okey s s"
  by (simp add: keeps_sound_def)

lemma keeps_sound_trans: "keeps_sound okey s t \<Longrightarrow> keeps_sound okey t u \<Longrightarrow> keeps_sound okey s u"
  using evolves_trans unfolding keeps_sound_def by blast

text \<open>Most operations leave the registered folds and their trees alone.\<close>

definition same_filing :: "('v, 'w) registry \<Rightarrow> ('v, 'w) registry \<Rightarrow> bool" where
  "same_filing s t =
     (rg_folds t = rg_folds s \<and> rg_indexes t = rg_indexes s \<and> rg_runtime t = rg_runtime s \<and> evolves s t)"

lemma same_filing_evolves: "same_filing s t \<Longrightarrow> evolves s t"
  by (simp add: same_filing_def)

lemma same_filing_sound: "same_filing s t \<Longrightarrow> keeps_sound okey s t"
  unfolding keeps_sound_def
proof (intro impI conjI)
  assume st: "same_filing s t" and s: "sound okey s"
  from st have ev: "evolves s t" by (rule same_filing_evolves)
  have "filed okey t space" for space
  proof -
    from sound_filed [OF s, of space] obtain keep where ok: "mi_ok okey (index_of s space)"
      and keep: "\<forall>f. active s f \<longrightarrow> keep f"
      and es: "map snd (mi_entries (index_of s space)) =
        map (\<lambda>f. (cell_pattern s f, f)) (filter (\<lambda>f. cell_space s f = space \<and> keep f) (rg_folds s))" by (rule filedE)
    have ix: "index_of t space = index_of s space" using st by (simp add: index_of_def same_filing_def)
    note old = sound_old [OF s]
    let ?keep = "\<lambda>f. keep f \<or> rg_next s \<le> f"
    have "\<forall>f. active t f \<longrightarrow> ?keep f" using ev keep by (auto simp: evolves_def)
    moreover have "map (\<lambda>f. (cell_pattern s f, f)) (filter (\<lambda>f. cell_space s f = space \<and> keep f) (rg_folds s)) =
        map (\<lambda>f. (cell_pattern t f, f)) (filter (\<lambda>f. cell_space t f = space \<and> ?keep f) (rg_folds s))"
      using old ev by (force simp: evolves_def same_slots_def intro!: map_cong filter_cong)
    ultimately show ?thesis using ok es ix st by (intro filedI [where keep = ?keep]) (auto simp: same_filing_def)
  qed
  with st s ev show "sound okey t" "evolves s t"
    by (auto simp: sound_def same_filing_def evolves_def dest: less_le_trans)
qed

lemma same_filing_refl [simp]: "same_filing s s"
  by (simp add: same_filing_def)

lemma same_filing_trans: "same_filing s t \<Longrightarrow> same_filing t u \<Longrightarrow> same_filing s u"
  using evolves_trans by (auto simp: same_filing_def)

section \<open>Sequencing\<close>

text \<open>A relation between the states before and after a call that sequencing composes.\<close>

locale call_effect =
  fixes R :: "('v, 'w) registry \<Rightarrow> ('v, 'w) registry \<Rightarrow> bool"
  assumes refl: "R s s" and trans: "R s t \<Longrightarrow> R t u \<Longrightarrow> R s u"
begin

lemma bind:
  assumes "R s (snd m)" "\<And>a t. m = (Inr a, t) \<Longrightarrow> R t (snd (k a t))"
  shows "R s (snd (thenR m k))"
proof (cases m)
  case (Pair r t)
  with assms show ?thesis by (cases r) (auto intro: trans)
qed

end

interpretation filing: call_effect same_filing
  by unfold_locales (auto intro: same_filing_trans)

interpretation sounding: call_effect "keeps_sound okey" for okey
  by unfold_locales (auto intro: keeps_sound_trans)

lemma thenR_Inr: "thenR m k = (Inr b, u) \<longleftrightarrow> (\<exists>a t. m = (Inr a, t) \<and> k a t = (Inr b, u))"
  by (auto simp: thenR_def split: prod.splits sum.splits)

lemma thenR_Inl: "thenR m k = (Inl e, u) \<longleftrightarrow> m = (Inl e, u) \<or> (\<exists>a t. m = (Inr a, t) \<and> k a t = (Inl e, u))"
  by (auto simp: thenR_def split: prod.splits sum.splits)

text \<open>A crossing changes its turn, and what it asks for.\<close>

definition uncrossed :: "('v, 'w) registry \<Rightarrow> ('v, 'w) registry" where
  "uncrossed s = s\<lparr>rg_turn := 0, rg_published := [], rg_facts := []\<rparr>"

definition crossed :: "('v, 'w) registry \<Rightarrow> ('v, 'w) registry \<Rightarrow> bool" where
  "crossed s t = (uncrossed t = uncrossed s)"

lemma crossed_refl [simp]: "crossed s s"
  by (simp add: crossed_def)

lemma crossed_trans: "crossed s t \<Longrightarrow> crossed t u \<Longrightarrow> crossed s u"
  by (simp add: crossed_def)

lemma crossed_fields:
  "crossed s t \<Longrightarrow> rg_folds t = rg_folds s \<and> rg_cell t = rg_cell s \<and> rg_next t = rg_next s \<and> rg_runtime t = rg_runtime s
     \<and> rg_indexes t = rg_indexes s \<and> rg_abandoned t = rg_abandoned s \<and> rg_deliveries t = rg_deliveries s"
  by (cases s; cases t) (simp add: crossed_def uncrossed_def)

lemma crossed_filing: "crossed s t \<Longrightarrow> same_filing s t"
  by (drule crossed_fields) (simp add: same_filing_def evolves_def)

lemma crossed_updates [simp]:
  "crossed s (t\<lparr>rg_turn := n\<rparr>) = crossed s t" "crossed s (t\<lparr>rg_published := spaces\<rparr>) = crossed s t"
  "crossed s (t\<lparr>rg_facts := facts\<rparr>) = crossed s t"
  by (cases t; simp add: crossed_def uncrossed_def)+

lemma cross_crossed: "(\<And>t. crossed s t \<Longrightarrow> crossed s (change t)) \<Longrightarrow> crossed s (snd (cross eng change s))"
  unfolding cross_def Let_def by (auto split: crossing.split)

interpretation crossing: call_effect crossed
  by unfold_locales (auto intro: crossed_trans)

lemma publish_spaces_crossed: "crossed s (snd (publish_spaces eng spaces s))"
  unfolding publish_spaces_def by (rule cross_crossed) simp

lemma publish_locked_crossed: "crossed s (snd (publish_locked eng folds s))"
proof -
  have "crossed s t" if "publish_spaces eng xs s = (r, t)" for r t xs
    using publish_spaces_crossed [of s eng xs] that by simp
  moreover have "crossed s u" if "publish_spaces eng xs s = (r, t)" "publish_spaces eng ys t = (q, u)" for r t q u xs ys
    using publish_spaces_crossed [of s eng xs] publish_spaces_crossed [of t eng ys] that by (metis crossed_trans snd_conv)
  ultimately show ?thesis by (auto simp: publish_locked_def Let_def split: prod.split sum.split)
qed

lemma contains_crossed: "crossed s (snd (reflection_contains rf eng mark s))"
  unfolding reflection_contains_def by (rule crossing.bind) (auto intro: cross_crossed)

lemma reflect_add_crossed: "crossed s (snd (reflect_add eng mark s))"
  unfolding reflect_add_def by (rule cross_crossed) simp

lemma reflect_remove_crossed: "crossed s (snd (reflect_remove rf eng mark s))"
  unfolding reflect_remove_def by (rule cross_crossed) simp

lemma ensure_present_crossed: "crossed s (snd (ensure_present rf eng mark s))"
  unfolding ensure_present_def
  by (intro crossing.bind contains_crossed) (auto intro: reflect_add_crossed)

lemma ensure_absent_crossed: "crossed s (snd (ensure_absent rf eng mark s))"
  unfolding ensure_absent_def
  by (intro crossing.bind contains_crossed) (auto intro: reflect_remove_crossed)

section \<open>Registration\<close>

lemma index_of_cong: "rg_indexes t = rg_indexes s \<Longrightarrow> index_of t space = index_of s space"
  by (simp add: index_of_def)

lemma index_of_set:
  "rg_indexes t = dict_set (=) space ix (rg_indexes s) \<Longrightarrow> index_of t sp = (if sp = space then ix else index_of s sp)"
  by (simp add: index_of_def)

lemma registry_add_result:
  assumes "registry_add eng okey rt f s = (Inr u, t)"
  obtains s1 where "crossed s s1" "publish_locked eng (rg_folds s @ [f]) s = (Inr (), s1)" "f \<notin> set (rg_folds s)"
    "t = s1\<lparr>rg_runtime := Some rt, rg_folds := rg_folds s @ [f],
       rg_indexes := dict_set (=) (cell_space s f) (mi_add okey (index_of s (cell_space s f)) (cell_pattern s f) f) (rg_indexes s)\<rparr>"
proof -
  from assms obtain s1 where p: "publish_locked eng (rg_folds s @ [f]) s = (Inr (), s1)" and f: "f \<notin> set (rg_folds s)"
    and t: "t = s1\<lparr>rg_runtime := Some rt, rg_folds := rg_folds s1 @ [f], rg_indexes := dict_set (=) (cell_space s1 f)
      (mi_add okey (index_of s1 (cell_space s1 f)) (cell_pattern s1 f) f) (rg_indexes s1)\<rparr>"
    by (auto simp: registry_add_def thenR_Inr Let_def split: if_splits)
  from publish_locked_crossed [of s eng "rg_folds s @ [f]"] p have c: "crossed s s1" by simp
  note same = crossed_fields [OF c]
  have "t = s1\<lparr>rg_runtime := Some rt, rg_folds := rg_folds s @ [f], rg_indexes := dict_set (=) (cell_space s f)
      (mi_add okey (index_of s (cell_space s f)) (cell_pattern s f) f) (rg_indexes s)\<rparr>"
    using t same index_of_cong [of s1 s "cell_space s f"] by simp
  with c p f show ?thesis by (rule that)
qed

lemma registry_add_failed:
  "registry_add eng okey rt f s = (Inl e, t) \<Longrightarrow> crossed s t"
  using publish_locked_crossed [of s eng "rg_folds s @ [f]"]
  by (auto simp: registry_add_def thenR_Inl Let_def split: if_splits)

lemma registry_add_sound:
  assumes f: "f < rg_next s"
  shows "keeps_sound okey s (snd (registry_add eng okey rt f s))"
proof (cases "registry_add eng okey rt f s")
  case (Pair r t)
  show ?thesis
  proof (cases r)
    case (Inl e)
    with Pair registry_add_failed [of eng okey rt f s e t] show ?thesis
      by (auto intro: same_filing_sound crossed_filing)
  next
    case (Inr u)
    with Pair obtain s1 where c: "crossed s s1" and new: "f \<notin> set (rg_folds s)"
      and t: "t = s1\<lparr>rg_runtime := Some rt, rg_folds := rg_folds s @ [f], rg_indexes := dict_set (=) (cell_space s f)
        (mi_add okey (index_of s (cell_space s f)) (cell_pattern s f) f) (rg_indexes s)\<rparr>"
      by (auto elim: registry_add_result)
    note same = crossed_fields [OF c]
    from t same have fields: "rg_folds t = rg_folds s @ [f]" "rg_cell t = rg_cell s" "rg_next t = rg_next s" "rg_runtime t = Some rt"
      by simp_all
    have ix: "index_of t sp = (if sp = cell_space s f then mi_add okey (index_of s sp) (cell_pattern s f) f else index_of s sp)"
      for sp using t index_of_set [of t "cell_space s f" _ s sp] by auto
    have "filed okey t sp" if s: "sound okey s" for sp
    proof -
      from sound_filed [OF s, of sp] obtain keep where ok: "mi_ok okey (index_of s sp)"
        and keep: "\<forall>f. active s f \<longrightarrow> keep f"
        and es: "map snd (mi_entries (index_of s sp)) =
          map (\<lambda>f. (cell_pattern s f, f)) (filter (\<lambda>f. cell_space s f = sp \<and> keep f) (rg_folds s))" by (rule filedE)
      have "filter (\<lambda>g. cell_space s g = sp \<and> (keep g \<or> g = f)) (rg_folds s) =
          filter (\<lambda>g. cell_space s g = sp \<and> keep g) (rg_folds s)"
        using new by (auto intro: filter_cong)
      then show ?thesis using ok keep es
        by (intro filedI [where keep = "\<lambda>g. keep g \<or> g = f"]) (auto simp: ix fields mi_add_ok mi_add_entries)
    qed
    then show ?thesis using Pair f new fields by (auto simp: keeps_sound_def sound_def evolves_def)
  qed
qed

section \<open>Cancellation\<close>

lemma position_None [simp]: "position f xs = None \<longleftrightarrow> f \<notin> set xs"
  by (induction xs) auto

lemma position_SomeD: "position f xs = Some i \<Longrightarrow> i < length xs \<and> xs ! i = f"
  by (induction xs arbitrary: i) (auto split: if_splits)

lemma position_nth: "distinct xs \<Longrightarrow> i < length xs \<Longrightarrow> position (xs ! i) xs = Some i"
proof (induction xs arbitrary: i)
  case (Cons x xs)
  then show ?case by (cases i) (auto simp: nth_mem)
qed simp

lemma remove_at: "distinct xs \<Longrightarrow> position f xs = Some i \<Longrightarrow> take i xs @ drop (Suc i) xs = filter (\<lambda>g. g \<noteq> f) xs"
proof (induction xs arbitrary: i)
  case (Cons x xs)
  then show ?case by (auto split: if_splits intro!: filter_True [symmetric])
qed simp

lemma mi_remove_identity:
  assumes ok: "mi_ok okey ix" and es: "map snd (mi_entries ix) = map (\<lambda>g. (pat g, g)) gs" and d: "distinct gs"
  shows "mi_ok okey (snd (mi_remove okey (=) ix (pat f) f)) \<and>
    map snd (mi_entries (snd (mi_remove okey (=) ix (pat f) f))) = map (\<lambda>g. (pat g, g)) (filter (\<lambda>g. g \<noteq> f) gs)"
proof -
  let ?P = "\<lambda>(i :: nat, (a, w)). atom_eq a (pat f) \<and> w = f"
  have pats: "a = pat g \<and> g \<in> set gs" if "(i, (a, g)) \<in> set (mi_entries ix)" for i a g
  proof -
    from that have "(a, g) \<in> set (map snd (mi_entries ix))" by force
    with es show ?thesis by auto
  qed
  have uniq: "i = j" if "(i, (a, g)) \<in> set (mi_entries ix)" "(j, (b, g)) \<in> set (mi_entries ix)" for i j a b g
  proof -
    have "map (snd \<circ> snd) (mi_entries ix) = gs" using arg_cong [OF es, of "map snd"] by (simp add: comp_def)
    with d have "inj_on (snd \<circ> snd) (set (mi_entries ix))" by (metis distinct_map)
    from inj_onD [OF this, of "(i, (a, g))" "(j, (b, g))"] that show ?thesis by simp
  qed
  have spec: "case find ?P (mi_entries ix) of
      None \<Rightarrow> mi_remove okey (=) ix (pat f) f = (False, ix)
    | Some (i, p) \<Rightarrow> \<exists>ix'. mi_remove okey (=) ix (pat f) f = (True, ix') \<and> mi_ok okey ix' \<and>
        mi_entries ix' = filter (\<lambda>e. fst e \<noteq> i) (mi_entries ix)"
    by (rule mi_remove_tokens [OF ok]) (auto dest: pats)
  have gone: "map (\<lambda>g. (pat g, g)) (filter (\<lambda>g. g \<noteq> f) gs) = map snd (filter (\<lambda>e. snd (snd e) \<noteq> f) (mi_entries ix))"
  proof -
    have "map (\<lambda>g. (pat g, g)) (filter (\<lambda>g. g \<noteq> f) gs) = filter (\<lambda>x. snd x \<noteq> f) (map (\<lambda>g. (pat g, g)) gs)"
      by (simp add: filter_map comp_def)
    also have "\<dots> = filter (\<lambda>x. snd x \<noteq> f) (map snd (mi_entries ix))" by (simp only: es)
    finally show ?thesis by (simp add: filter_map comp_def)
  qed
  show ?thesis
  proof (cases "find ?P (mi_entries ix)")
    case None
    have "g \<noteq> f" if m: "(i, (a, g)) \<in> set (mi_entries ix)" for i a g
    proof
      assume "g = f"
      with m pats [OF m] have "?P (i, (a, g))" by (simp add: atom_eq_core)
      with None m show False by (force simp: find_None_iff)
    qed
    then have "\<forall>e \<in> set (mi_entries ix). snd (snd e) \<noteq> f" by (metis prod.collapse)
    then show ?thesis using spec None ok gone by (simp add: filter_True)
  next
    case (Some e)
    obtain i a g where e: "e = (i, (a, g))" by (cases e) auto
    with find_SomeD [OF Some] have m: "(i, (a, f)) \<in> set (mi_entries ix)" by auto
    have "filter (\<lambda>e. fst e \<noteq> i) (mi_entries ix) = filter (\<lambda>e. snd (snd e) \<noteq> f) (mi_entries ix)"
      using m uniq by (intro filter_cong) (auto simp: mi_ok_dict [OF ok])
    with spec Some e gone show ?thesis by auto
  qed
qed

text \<open>What the registry asks of a tree: its registrations in order, where a fold is removed by its identity.\<close>

locale fold_index =
  fixes ok :: "'i \<Rightarrow> bool" and entries :: "'i \<Rightarrow> (atom \<times> nat) list" and empty :: 'i
    and add :: "'i \<Rightarrow> atom \<Rightarrow> nat \<Rightarrow> 'i" and remove :: "'i \<Rightarrow> atom \<Rightarrow> nat \<Rightarrow> 'i"
  assumes start: "ok empty \<and> entries empty = []"
    and add: "ok ix \<Longrightarrow> ok (add ix p f) \<and> entries (add ix p f) = entries ix @ [(p, f)]"
    and remove: "ok ix \<Longrightarrow> entries ix = map (\<lambda>g. (pat g, g)) gs \<Longrightarrow> distinct gs \<Longrightarrow>
      ok (remove ix (pat f) f) \<and> entries (remove ix (pat f) f) = map (\<lambda>g. (pat g, g)) (filter (\<lambda>g. g \<noteq> f) gs)"
begin

lemma build:
  "ok ix \<Longrightarrow> ok (fold (\<lambda>f ix. add ix (pat f) f) fs ix) \<and>
    entries (fold (\<lambda>f ix. add ix (pat f) f) fs ix) = entries ix @ map (\<lambda>f. (pat f, f)) fs"
proof (induction fs arbitrary: ix)
  case (Cons f fs)
  from Cons.IH [of "add ix (pat f) f"] add [OF Cons.prems, of "pat f" f] show ?case by simp
qed simp

end

interpretation tree: fold_index "mi_ok okey" "\<lambda>ix. map snd (mi_entries ix)" mi_empty "mi_add okey"
    "\<lambda>ix p f. snd (mi_remove okey (=) ix p f)" for okey
proof unfold_locales
  show "mi_ok okey mi_empty \<and> map snd (mi_entries mi_empty) = []" by (simp add: mi_empty_ok) (simp add: mi_empty_def)
qed (simp_all add: mi_add_ok mi_add_entries mi_remove_identity)

text \<open>A cancellation that goes through.\<close>

lemma registry_cancel_result:
  assumes "registry_cancel eng okey f s = (Inr (Some c), t)" "distinct (rg_folds s)"
  obtains s1 i rt where "crossed s s1" "publish_locked eng (filter (\<lambda>g. g \<noteq> f) (rg_folds s)) s = (Inr (), s1)"
    "f \<in> set (rg_folds s)" "position f (rg_folds s) = Some i" "rg_runtime s = Some rt"
    "c = \<lparr>cn_runtime = rt, cn_order = rg_folds s, cn_index = i, cn_active = active s f\<rparr>"
    "rg_folds t = filter (\<lambda>g. g \<noteq> f) (rg_folds s)" "rg_cell t = (rg_cell s)(f := (rg_cell s f)\<lparr>fo_active := False\<rparr>)"
    "rg_next t = rg_next s" "rg_runtime t = rg_runtime s" "rg_abandoned t = rg_abandoned s" "rg_facts t = rg_facts s1"
    "rg_published t = rg_published s1"
    "\<forall>sp. index_of t sp = (if sp = cell_space s f \<and> dict_get (=) sp (rg_indexes s) \<noteq> None
       then snd (mi_remove okey (=) (index_of s sp) (cell_pattern s f) f) else index_of s sp)"
proof -
  from assms(1) obtain i rt s1 where i: "position f (rg_folds s) = Some i" "rg_runtime s = Some rt"
    and p: "publish_locked eng (take i (rg_folds s) @ drop (Suc i) (rg_folds s)) s = (Inr (), s1)"
    and c: "c = \<lparr>cn_runtime = rt, cn_order = rg_folds s, cn_index = i, cn_active = active s1 f\<rparr>"
    and t: "t = set_cell f (\<lambda>c. c\<lparr>fo_active := False\<rparr>)
      (s1\<lparr>rg_folds := take i (rg_folds s) @ drop (Suc i) (rg_folds s),
        rg_indexes := (case dict_get (=) (cell_space s1 f) (rg_indexes s1) of
            None \<Rightarrow> rg_indexes s1
          | Some ix \<Rightarrow> dict_set (=) (cell_space s1 f) (snd (mi_remove okey (=) ix (cell_pattern s1 f) f)) (rg_indexes s1))\<rparr>)"
    by (auto simp: registry_cancel_def thenR_Inr Let_def split: option.splits if_splits)
  have at: "take i (rg_folds s) @ drop (Suc i) (rg_folds s) = filter (\<lambda>g. g \<noteq> f) (rg_folds s)"
    by (rule remove_at [OF assms(2) i(1)])
  from publish_locked_crossed [of s eng "filter (\<lambda>g. g \<noteq> f) (rg_folds s)"] p at have cr: "crossed s s1" by simp
  note same = crossed_fields [OF cr]
  have ix: "index_of t sp = (if sp = cell_space s f \<and> dict_get (=) sp (rg_indexes s) \<noteq> None
       then snd (mi_remove okey (=) (index_of s sp) (cell_pattern s f) f) else index_of s sp)" for sp
    using same by (auto simp: t index_of_def set_cell_def split: option.split)
  have mem: "f \<in> set (rg_folds s)" using i(1) by (metis option.distinct(1) position_None)
  have fields: "c = \<lparr>cn_runtime = rt, cn_order = rg_folds s, cn_index = i, cn_active = active s f\<rparr>"
    "rg_folds t = filter (\<lambda>g. g \<noteq> f) (rg_folds s)" "rg_cell t = (rg_cell s)(f := (rg_cell s f)\<lparr>fo_active := False\<rparr>)"
    "rg_next t = rg_next s" "rg_runtime t = rg_runtime s" "rg_abandoned t = rg_abandoned s" "rg_facts t = rg_facts s1"
    "rg_published t = rg_published s1"
    using same c t at by (simp_all add: set_cell_def)
  have "\<forall>sp. index_of t sp = (if sp = cell_space s f \<and> dict_get (=) sp (rg_indexes s) \<noteq> None
       then snd (mi_remove okey (=) (index_of s sp) (cell_pattern s f) f) else index_of s sp)" using ix by blast
  from cr p [unfolded at] mem i fields this show ?thesis by (rule that)
qed

lemma registry_cancel_others:
  "registry_cancel eng okey f s = (Inr None, t) \<Longrightarrow> t = s" "registry_cancel eng okey f s = (Inl e, t) \<Longrightarrow> crossed s t"
  using publish_locked_crossed [of s eng]
  by (auto simp: registry_cancel_def thenR_Inr thenR_Inl Let_def split: option.splits if_splits) (metis snd_conv)+

lemma registry_cancel_sound:
  assumes s: "sound okey s" and c: "registry_cancel eng okey f s = (Inr (Some c), t)"
  shows "sound okey t"
proof -
  have d: "distinct (rg_folds s)" using s by (simp add: sound_def)
  from c d obtain s1 i rt where folds: "rg_folds t = filter (\<lambda>g. g \<noteq> f) (rg_folds s)"
    and t: "rg_cell t = (rg_cell s)(f := (rg_cell s f)\<lparr>fo_active := False\<rparr>)" "rg_next t = rg_next s" "rg_runtime t = rg_runtime s"
    and ix: "\<forall>sp. index_of t sp = (if sp = cell_space s f \<and> dict_get (=) sp (rg_indexes s) \<noteq> None
       then snd (mi_remove okey (=) (index_of s sp) (cell_pattern s f) f) else index_of s sp)"
    by (rule registry_cancel_result) blast
  have "filed okey t sp" for sp
  proof -
    from sound_filed [OF s, of sp] obtain keep where ok: "mi_ok okey (index_of s sp)"
      and keep: "\<forall>f. active s f \<longrightarrow> keep f"
      and es: "map snd (mi_entries (index_of s sp)) =
        map (\<lambda>f. (cell_pattern s f, f)) (filter (\<lambda>f. cell_space s f = sp \<and> keep f) (rg_folds s))" by (rule filedE)
    let ?gs = "filter (\<lambda>f. cell_space s f = sp \<and> keep f) (rg_folds s)"
    have gone: "filter (\<lambda>g. cell_space t g = sp \<and> keep g) (rg_folds t) = filter (\<lambda>g. g \<noteq> f) ?gs"
      using t folds by (auto simp: filter_filter intro!: filter_cong)
    have pats: "map (\<lambda>g. (cell_pattern t g, g)) (filter (\<lambda>g. g \<noteq> f) ?gs) =
        map (\<lambda>g. (cell_pattern s g, g)) (filter (\<lambda>g. g \<noteq> f) ?gs)"
      using t by (auto intro!: map_cong)
    have filing: "mi_ok okey (index_of t sp) \<and> map snd (mi_entries (index_of t sp)) =
        map (\<lambda>g. (cell_pattern s g, g)) (filter (\<lambda>g. g \<noteq> f) ?gs)"
    proof (cases "sp = cell_space s f \<and> dict_get (=) sp (rg_indexes s) \<noteq> None")
      case True
      then have "index_of t sp = snd (mi_remove okey (=) (index_of s sp) (cell_pattern s f) f)"
        by (subst ix [rule_format]) (rule if_P [OF True])
      with tree.remove [OF ok es] d show ?thesis by simp
    next
      case False
      have same: "index_of t sp = index_of s sp" by (subst ix [rule_format]) (rule if_not_P [OF False])
      have "f \<notin> set ?gs"
      proof (cases "sp = cell_space s f")
        case True
        with False have "index_of s sp = mi_empty" by (simp add: index_of_def)
        with es have "?gs = []" by (simp add: mi_empty_def)
        then show ?thesis by simp
      qed simp
      then have "filter (\<lambda>g. g \<noteq> f) ?gs = ?gs" by (intro filter_True) auto
      with same ok es show ?thesis by simp
    qed
    then have "map snd (mi_entries (index_of t sp)) =
        map (\<lambda>g. (cell_pattern t g, g)) (filter (\<lambda>g. cell_space t g = sp \<and> keep g) (rg_folds t))"
      by (simp only: gone pats)
    moreover have "\<forall>g. active t g \<longrightarrow> keep g" using keep by (simp add: t)
    ultimately show ?thesis using filing by (intro filedI [where keep = keep]) simp_all
  qed
  with s folds t show ?thesis by (auto simp: sound_def)
qed

section \<open>Restoration\<close>

lemma registry_restore_result:
  assumes "registry_restore eng okey c f s = (Inr u, t)"
  obtains s1 where "crossed s s1" "f \<notin> set (rg_folds s)" "\<not> active s f" "rg_runtime s = Some (cn_runtime c)"
    "publish_locked eng (take (restoration_index c (rg_folds s)) (rg_folds s) @ [f] @ drop (restoration_index c (rg_folds s)) (rg_folds s)) s
       = (Inr (), s1)"
    "t = rebuild okey (cell_space s f) (set_cell f (\<lambda>x. x\<lparr>fo_active := cn_active c\<rparr>)
       (s1\<lparr>rg_folds := take (restoration_index c (rg_folds s)) (rg_folds s) @ [f] @ drop (restoration_index c (rg_folds s)) (rg_folds s)\<rparr>))"
proof -
  let ?folds = "take (restoration_index c (rg_folds s)) (rg_folds s) @ [f] @ drop (restoration_index c (rg_folds s)) (rg_folds s)"
  from assms obtain s1 where p: "publish_locked eng ?folds s = (Inr (), s1)" and pre: "f \<notin> set (rg_folds s)" "\<not> active s f"
      "rg_runtime s = Some (cn_runtime c)"
    and t: "t = rebuild okey (cell_space s1 f) (set_cell f (\<lambda>x. x\<lparr>fo_active := cn_active c\<rparr>) (s1\<lparr>rg_folds := ?folds\<rparr>))"
    by (auto simp: registry_restore_def thenR_Inr Let_def split: if_splits)
  from publish_locked_crossed [of s eng ?folds] p have cr: "crossed s s1" by simp
  with t have "t = rebuild okey (cell_space s f) (set_cell f (\<lambda>x. x\<lparr>fo_active := cn_active c\<rparr>) (s1\<lparr>rg_folds := ?folds\<rparr>))"
    by (simp add: crossed_fields)
  with cr pre p show ?thesis by (intro that)
qed

lemma registry_restore_failed: "registry_restore eng okey c f s = (Inl e, t) \<Longrightarrow> crossed s t"
  using publish_locked_crossed [of s eng]
  by (auto simp: registry_restore_def thenR_Inl Let_def split: if_splits) (metis snd_conv)+

lemma filter_insert_at: "\<not> P x \<Longrightarrow> filter P (take i xs @ [x] @ drop i xs) = filter P xs"
  using filter_append [of P "take i xs" "drop i xs"] by simp

lemma registry_restore_sound:
  assumes s: "sound okey s" and f: "f < rg_next s" and r: "registry_restore eng okey c f s = (Inr u, t)"
  shows "sound okey t"
proof -
  let ?i = "restoration_index c (rg_folds s)"
  let ?folds = "take ?i (rg_folds s) @ [f] @ drop ?i (rg_folds s)"
  from r obtain s1 where cr: "crossed s s1" and new: "f \<notin> set (rg_folds s)" "\<not> active s f" "rg_runtime s = Some (cn_runtime c)"
    and t: "t = rebuild okey (cell_space s f) (set_cell f (\<lambda>x. x\<lparr>fo_active := cn_active c\<rparr>) (s1\<lparr>rg_folds := ?folds\<rparr>))"
    by (rule registry_restore_result) blast
  note same = crossed_fields [OF cr]
  have fields: "rg_folds t = ?folds" "rg_cell t = (rg_cell s)(f := (rg_cell s f)\<lparr>fo_active := cn_active c\<rparr>)" "rg_next t = rg_next s"
    "rg_runtime t = rg_runtime s"
    using same by (simp_all add: t rebuild_def set_cell_def)
  have pats: "cell_pattern t g = cell_pattern s g" "cell_space t g = cell_space s g" for g using fields(2) by auto
  have folds: "distinct ?folds" "set ?folds = insert f (set (rg_folds s))"
    using s new(1) by (auto simp: sound_def distinct_take distinct_drop set_take_disj_set_drop_if_distinct dest: in_set_takeD in_set_dropD)
      (metis append_take_drop_id Un_iff set_append)
  have "filed okey t sp" for sp
  proof (cases "sp = cell_space s f")
    case True
    let ?fs = "filter (\<lambda>f. cell_space t f = sp \<and> active t f) (rg_folds t)"
    have ix: "index_of t sp = fold (\<lambda>f ix. mi_add okey ix (cell_pattern t f) f) ?fs mi_empty"
      using True same fields pats by (simp add: t rebuild_def index_of_def set_cell_def conj_commute)
    from tree.build [of okey mi_empty "cell_pattern t" ?fs] tree.start [of okey] show ?thesis
      unfolding ix [symmetric] by (intro filedI [where keep = "active t"]) (simp_all add: mi_empty_def)
  next
    case False
    from sound_filed [OF s, of sp] obtain keep where ok: "mi_ok okey (index_of s sp)"
      and keep: "\<forall>f. active s f \<longrightarrow> keep f"
      and es: "map snd (mi_entries (index_of s sp)) =
        map (\<lambda>f. (cell_pattern s f, f)) (filter (\<lambda>f. cell_space s f = sp \<and> keep f) (rg_folds s))" by (rule filedE)
    have ix: "index_of t sp = index_of s sp" using False same by (simp add: t rebuild_def index_of_def set_cell_def)
    let ?keep = "\<lambda>g. keep g \<or> g = f"
    have "filter (\<lambda>g. cell_space s g = sp \<and> ?keep g) ?folds = filter (\<lambda>g. cell_space s g = sp \<and> ?keep g) (rg_folds s)"
      by (rule filter_insert_at) (use False in simp)
    also have "\<dots> = filter (\<lambda>g. cell_space s g = sp \<and> keep g) (rg_folds s)" using new(1) by (auto intro: filter_cong)
    finally have "map (\<lambda>g. (cell_pattern t g, g)) (filter (\<lambda>g. cell_space t g = sp \<and> ?keep g) (rg_folds t)) =
        map snd (mi_entries (index_of t sp))"
      by (simp only: pats fields(1) ix es)
    moreover have "\<forall>g. active t g \<longrightarrow> ?keep g" using keep by (auto simp: fields(2))
    ultimately show ?thesis using ok ix by (intro filedI [where keep = ?keep]) simp_all
  qed
  with s f new folds fields show ?thesis by (auto simp: sound_def)
qed

section \<open>Withdrawal\<close>

lemma crossed_keeps: "crossed s t \<Longrightarrow> keeps_sound okey s t"
  by (intro same_filing_sound crossed_filing)

lemma registry_cancel_evolves:
  assumes "registry_cancel eng okey f s = (Inr (Some c), t)" "distinct (rg_folds s)"
  shows "evolves s t \<and> cn_active c = active s f \<and> f \<in> set (rg_folds s) \<and>
    rg_cell t = (rg_cell s)(f := (rg_cell s f)\<lparr>fo_active := False\<rparr>) \<and> rg_next t = rg_next s"
  by (rule registry_cancel_result [OF assms]) (simp add: evolves_def same_slots_def)

lemma put_back_keeps:
  assumes s: "sound okey s" and c: "registry_cancel eng okey f s = (Inr (Some c), t)" and u: "crossed t u"
  shows "sound okey (snd (put_back rf eng okey c mark f e u)) \<and> evolves s (snd (put_back rf eng okey c mark f e u))"
proof -
  have d: "distinct (rg_folds s)" using s by (simp add: sound_def)
  note cell = registry_cancel_evolves [OF c d]
  obtain r1 v where v: "ensure_present rf eng mark u = (r1, v)" by fastforce
  have tv: "crossed t v" using ensure_present_crossed [of u rf eng mark] v u crossed_trans by fastforce
  have st: "sound okey v" "evolves s v"
    using registry_cancel_sound [OF s c] crossed_keeps [OF tv, of okey] cell
    by (auto simp: keeps_sound_def intro: evolves_trans)
  obtain r2 w where w: "registry_restore eng okey c f v = (r2, w)" by fastforce
  have "sound okey w \<and> evolves s w"
  proof (cases r2)
    case (Inl e)
    with registry_restore_failed [of eng okey c f v e w] w have "keeps_sound okey v w" by (simp add: crossed_keeps)
    with st show ?thesis by (auto simp: keeps_sound_def intro: evolves_trans)
  next
    case (Inr x)
    have "f < rg_next s" using cell sound_old [OF s] by blast
    moreover have "rg_next s \<le> rg_next v" using st(2) by (simp add: evolves_def)
    ultimately have f: "f < rg_next v" by simp
    have "sound okey w" using registry_restore_sound [OF st(1) f] w Inr by blast
    moreover have "evolves s w"
    proof -
      from w Inr have "registry_restore eng okey c f v = (Inr x, w)" by simp
      then obtain v1 folds where v1: "crossed v v1"
        and "w = rebuild okey (cell_space v f) (set_cell f (\<lambda>x. x\<lparr>fo_active := cn_active c\<rparr>) (v1\<lparr>rg_folds := folds\<rparr>))"
        by (rule registry_restore_result) blast
      then have "rg_cell w = (rg_cell v1)(f := (rg_cell v1 f)\<lparr>fo_active := cn_active c\<rparr>)" "rg_next w = rg_next v1"
        by (simp_all add: rebuild_def set_cell_def)
      with crossed_fields [OF tv] crossed_fields [OF v1] cell show ?thesis by (simp add: evolves_def same_slots_def)
    qed
    ultimately show ?thesis by blast
  qed
  with v w show ?thesis by (simp add: put_back_def)
qed

lemma withdraw_keeps: "keeps_sound okey s (snd (withdraw rf eng okey f s))"
  unfolding keeps_sound_def
proof
  assume s: "sound okey s"
  then have d: "distinct (rg_folds s)" by (simp add: sound_def)
  obtain r t where c: "registry_cancel eng okey f s = (r, t)" by fastforce
  show "sound okey (snd (withdraw rf eng okey f s)) \<and> evolves s (snd (withdraw rf eng okey f s))"
  proof (cases r)
    case (Inl e)
    with c registry_cancel_others(2) [of eng okey f s e t] crossed_keeps [of s t okey] s show ?thesis
      by (simp add: withdraw_def keeps_sound_def)
  next
    case (Inr co)
    show ?thesis
    proof (cases co)
      case None
      with c Inr registry_cancel_others(1) [of eng okey f s t] s show ?thesis by (simp add: withdraw_def)
    next
      case (Some cn)
      with c Inr have c: "registry_cancel eng okey f s = (Inr (Some cn), t)" by simp
      have t: "sound okey t" "evolves s t" using registry_cancel_sound [OF s c] registry_cancel_evolves [OF c d] by simp_all
      have absent: "sound okey u \<and> evolves s u" if "ensure_absent rf eng mark t = (q, u)" for mark q u
        using ensure_absent_crossed [of t rf eng mark] that crossed_keeps [of t u okey] t
        by (auto simp: keeps_sound_def intro: evolves_trans)
      have restored: "sound okey (snd (put_back rf eng okey cn mark f e u)) \<and> evolves s (snd (put_back rf eng okey cn mark f e u))"
        if "ensure_absent rf eng mark t = (q, u)" for mark q u e
        by (rule put_back_keeps [OF s c]) (use ensure_absent_crossed [of t rf eng mark] that in simp)
      show ?thesis using c t absent restored
        by (auto simp: withdraw_def split: option.split prod.split sum.split)
    qed
  qed
qed

lemma keeps_bind:
  assumes m: "keeps_sound okey s (snd m)"
    and k: "\<And>a t. m = (Inr a, t) \<Longrightarrow> sound okey t \<Longrightarrow> evolves s t \<Longrightarrow> keeps_sound okey t (snd (k a t))"
  shows "keeps_sound okey s (snd (thenR m k))"
proof (cases m)
  case (Pair r t)
  show ?thesis
  proof (cases r)
    case (Inr a)
    with Pair m k [of a t] show ?thesis by (auto simp: keeps_sound_def intro: evolves_trans)
  qed (use Pair m in simp)
qed

lemma same_filing_updates:
  "same_filing s (s\<lparr>rg_abandoned := q\<rparr>)" "same_filing s (s\<lparr>rg_world := w\<rparr>)" "same_filing s (s\<lparr>rg_deliveries := ds\<rparr>)"
  "same_filing s (s\<lparr>rg_generation := n\<rparr>)" "same_filing s (s\<lparr>rg_watches := ws\<rparr>)" "same_filing s (s\<lparr>rg_announced := a\<rparr>)"
  "same_filing s (s\<lparr>rg_clock_runtime := r\<rparr>)" "same_filing s (s\<lparr>rg_next := rg_next s + k\<rparr>)"
  by (simp_all add: same_filing_def evolves_def)

lemma set_cell_filing:
  "(\<And>c. same_slots c (u c) \<and> (fo_active (u c) \<longrightarrow> fo_active c)) \<Longrightarrow> same_filing s (set_cell f u s)"
  by (simp add: same_filing_def evolves_def set_cell_def)

lemma withdraw_abandoned_keeps: "keeps_sound okey s (snd (withdraw_abandoned rf eng okey q s))"
proof (induction q arbitrary: s)
  case (Cons f q)
  obtain r t where w: "withdraw rf eng okey f (s\<lparr>rg_abandoned := q\<rparr>) = (r, t)" by fastforce
  have st: "keeps_sound okey s t"
    using withdraw_keeps [of okey "s\<lparr>rg_abandoned := q\<rparr>" rf eng f] w same_filing_sound [OF same_filing_updates(1)]
    by (metis keeps_sound_trans snd_conv)
  have "keeps_sound okey t (t\<lparr>rg_abandoned := f # rg_abandoned t\<rparr>)" by (intro same_filing_sound same_filing_updates)
  with st Cons.IH [of t] w show ?case by (auto split: sum.split intro: keeps_sound_trans)
qed simp

lemma abandon_keeps: "keeps_sound okey s (abandon f s)"
proof -
  have "same_filing s (set_cell f (\<lambda>c. c\<lparr>fo_active := False\<rparr>) s)" by (rule set_cell_filing) (simp add: same_slots_def)
  from same_filing_trans [OF this same_filing_updates(1)] show ?thesis
    unfolding abandon_def by (intro same_filing_sound) (simp add: set_cell_def)
qed

lemma subscription_cancel_keeps: "keeps_sound okey s (snd (subscription_cancel rf eng okey finaliser f s))"
  unfolding subscription_cancel_def
  by (auto intro: abandon_keeps keeps_bind withdraw_abandoned_keeps withdraw_keeps)

section \<open>Publication\<close>

lemma new_fold_parts:
  "new_fold space pattern on stateless state s = (f, t) \<Longrightarrow>
     same_filing s t \<and> f = rg_next s \<and> f < rg_next t \<and> rg_cell t f =
       \<lparr>fo_space = space, fo_pattern = pattern, fo_on = on, fo_stateless = stateless, fo_state = state,
        fo_initial = state, fo_active = True, fo_version = 0, fo_consumed = 0, fo_fact = None\<rparr>"
  by (auto simp: new_fold_def same_filing_def evolves_def)

lemma open_fold_keeps: "keeps_sound okey s (snd (open_fold eng okey rt space pattern on stateless state s))"
proof -
  obtain f t where n: "new_fold space pattern on stateless state s = (f, t)" by fastforce
  note p = new_fold_parts [OF n]
  have "keeps_sound okey s (snd (registry_add eng okey rt f t))"
    using p by (intro keeps_sound_trans [OF same_filing_sound registry_add_sound]) auto
  then show ?thesis unfolding open_fold_def n by (auto intro: keeps_bind)
qed

lemma settle_fact_crossed: "crossed s (snd (settle_fact rf eng mark e s))"
  using ensure_present_crossed [of s rf eng mark] ensure_absent_crossed [of s rf eng mark]
  by (auto simp: settle_fact_def split: prod.split sum.split)

lemma publish_subscription_keeps:
  assumes f: "f < rg_next s"
  shows "keeps_sound okey s (snd (publish_subscription rf eng okey rt mark f s))"
proof -
  let ?m = "thenR (ensure_present rf eng mark s) (\<lambda>_ s1. registry_add eng okey rt f s1)"
  obtain r t where m: "?m = (r, t)" by (cases ?m)
  have "keeps_sound okey s (snd ?m)"
  proof (rule keeps_bind [OF crossed_keeps [OF ensure_present_crossed]])
    fix t assume "evolves s t"
    with f show "keeps_sound okey t (snd (registry_add eng okey rt f t))"
      by (intro registry_add_sound) (simp add: evolves_def)
  qed
  with m have st: "keeps_sound okey s t" by simp
  have off: "keeps_sound okey t (set_cell f (\<lambda>c. c\<lparr>fo_active := False\<rparr>) t)" for t
    by (intro same_filing_sound set_cell_filing) (simp add: same_slots_def)
  have "keeps_sound okey s (snd (settle_fact rf eng mark e (set_cell f (\<lambda>c. c\<lparr>fo_active := False\<rparr>) t)))" for e
    by (rule keeps_sound_trans [OF st keeps_sound_trans [OF off crossed_keeps [OF settle_fact_crossed]]])
  with st show ?thesis unfolding publish_subscription_def m by (cases r) simp_all
qed

lemma enrol_keeps:
  assumes "\<And>t. snd (own f t) = t"
  shows "keeps_sound okey s (snd (enrol rf eng okey own f s))"
proof -
  obtain r t where o: "own f s = (r, t)" by fastforce
  with assms [of s] have "t = s" by simp
  with o show ?thesis by (auto simp: enrol_def split: sum.split intro!: keeps_bind subscription_cancel_keeps)
qed

lemma subscribe_keeps:
  assumes own: "\<And>f t. snd (own f t) = t"
  shows "keeps_sound okey s (snd (subscribe rf eng okey rt refused own space pattern on stateless queue s))"
proof (cases refused)
  case None
  obtain f t where n: "new_fold space pattern on stateless queue s = (f, t)" by fastforce
  note p = new_fold_parts [OF n]
  let ?u = "set_cell f (\<lambda>c. c\<lparr>fo_fact := Some (reflection space pattern on)\<rparr>) t"
  have u: "same_filing s ?u" "f < rg_next ?u"
    using p by (simp_all add: set_cell_def same_filing_def evolves_def)
  have "keeps_sound okey ?u (snd (thenR (withdraw_abandoned rf eng okey (rg_abandoned ?u) ?u) (\<lambda>_ s3.
      thenR (publish_subscription rf eng okey rt (reflection space pattern on) f s3) (\<lambda>_ s4. enrol rf eng okey own f s4))))"
  proof (intro keeps_bind withdraw_abandoned_keeps publish_subscription_keeps enrol_keeps own)
    fix t assume "evolves ?u t"
    with u(2) show "f < rg_next t" by (simp add: evolves_def)
  qed
  from keeps_sound_trans [OF same_filing_sound [OF u(1)] this] show ?thesis
    unfolding subscribe_def n by (simp add: None Let_def)
qed (simp add: subscribe_def)

section \<open>What the caller's code may do\<close>

text \<open>One call on the stream, its subscriptions or its clock, or anything that leaves them alone.\<close>

inductive move :: "reflector \<Rightarrow> engine_script \<Rightarrow> (nat \<Rightarrow> nat) \<Rightarrow> ('v, 'w) registry \<Rightarrow> ('v, 'w) registry \<Rightarrow> bool"
  for rf eng okey where
  opened: "move rf eng okey s (snd (open_fold eng okey rt space pattern on stateless state s))"
| cancelled: "move rf eng okey s (snd (registry_cancel eng okey f s))"
| subscribed: "(\<And>f t. snd (own f t) = t) \<Longrightarrow>
    move rf eng okey s (snd (subscribe rf eng okey rt refused own space pattern on stateless queue s))"
| unsubscribed: "move rf eng okey s (snd (subscription_cancel rf eng okey finaliser f s))"
| taken: "move rf eng okey s (snd (registry_take f s))"
| began: "move rf eng okey s (snd (begin_delivery th f s))"
| ended: "move rf eng okey s (snd (end_delivery th f s))"
| answered: "move rf eng okey s (snd (keep_answer f before after s))"
| ticked: "move rf eng okey s (snd (tick s))"
| listened: "move rf eng okey s (snd (listen eng rt s))"
| forgot: "move rf eng okey s (snd (forget eng w s))"
| outside: "move rf eng okey s (s\<lparr>rg_next := rg_next s + n, rg_world := w\<rparr>)"

abbreviation reaches ::
  "reflector \<Rightarrow> engine_script \<Rightarrow> (nat \<Rightarrow> nat) \<Rightarrow> ('v, 'w) registry \<Rightarrow> ('v, 'w) registry \<Rightarrow> bool" where
  "reaches rf eng okey \<equiv> (move rf eng okey)\<^sup>*\<^sup>*"

lemma registry_cancel_keeps: "keeps_sound okey s (snd (registry_cancel eng okey f s))"
  unfolding keeps_sound_def
proof
  assume s: "sound okey s"
  then have d: "distinct (rg_folds s)" by (simp add: sound_def)
  obtain r t where c: "registry_cancel eng okey f s = (r, t)" by (cases "registry_cancel eng okey f s")
  show "sound okey (snd (registry_cancel eng okey f s)) \<and> evolves s (snd (registry_cancel eng okey f s))"
  proof (cases r)
    case (Inl e)
    with c registry_cancel_others(2) [of eng okey f s e t] crossed_keeps [of s t okey] s show ?thesis by (simp add: keeps_sound_def)
  next
    case (Inr co)
    with c registry_cancel_others(1) [of eng okey f s t] registry_cancel_sound [OF s, of eng f _ t]
      registry_cancel_evolves [of eng okey f s _ t] s d show ?thesis by (cases co) simp_all
  qed
qed

lemma registry_take_filing: "same_filing s (snd (registry_take f s))"
  by (auto simp: registry_take_def Let_def same_slots_def intro!: set_cell_filing)

lemma begin_delivery_filing: "same_filing s (snd (begin_delivery th f s))"
  by (simp add: begin_delivery_def Let_def same_filing_updates)

lemma end_delivery_filing: "same_filing s (snd (end_delivery th f s))"
  by (simp add: end_delivery_def Let_def same_filing_updates)

lemma keep_answer_filing: "same_filing s (snd (keep_answer f before after s))"
  by (auto simp: keep_answer_def same_slots_def intro!: set_cell_filing)

lemma tick_filing: "same_filing s (snd (tick s))"
  by (simp add: tick_def same_filing_updates)

lemma announce_filing: "same_filing s (snd (announce eng rt enabled s))"
proof -
  have "same_filing s (snd (thenR (cross eng id s) (\<lambda>_ s1. (Inr (), s1\<lparr>rg_announced := enabled\<rparr>))))"
    by (rule filing.bind [OF crossed_filing [OF cross_crossed]]) (simp_all add: same_filing_updates)
  then show ?thesis unfolding announce_def
    by (cases "rt = None \<or> enabled = rg_announced s") (simp_all only: if_True if_False snd_conv same_filing_refl)
qed

lemma listen_filing: "same_filing s (snd (listen eng rt s))"
proof -
  have upd: "same_filing t (t\<lparr>rg_clock_runtime := r, rg_watches := ws\<rparr>)" for t :: "('a, 'b) registry" and r ws
    by (simp add: same_filing_def evolves_def)
  let ?s = "s\<lparr>rg_next := Suc (rg_next s)\<rparr>"
  have "same_filing s ?s" using same_filing_updates(8) [of s 1] by simp
  moreover have "same_filing ?s (snd (thenR (announce eng (Some rt) True ?s) (\<lambda>_ s1.
      (Inr (rg_next s), s1\<lparr>rg_clock_runtime := Some rt, rg_watches := rg_watches s1 @ [rg_next s]\<rparr>))))"
    by (rule filing.bind) (auto intro: announce_filing upd)
  ultimately show ?thesis by (simp add: listen_def Let_def same_filing_trans)
qed

lemma forget_filing: "same_filing s (snd (forget eng w s))"
  by (auto simp: forget_def Let_def same_filing_updates intro!: filing.bind announce_filing)

lemma move_keeps: "move rf eng okey s t \<Longrightarrow> keeps_sound okey s t"
proof (induction rule: move.induct)
  case (outside s w n)
  have "same_filing s (s\<lparr>rg_next := rg_next s + n, rg_world := w\<rparr>)" by (simp add: same_filing_def evolves_def)
  then show ?case by (rule same_filing_sound)
qed (auto intro: open_fold_keeps registry_cancel_keeps subscribe_keeps subscription_cancel_keeps same_filing_sound
    registry_take_filing begin_delivery_filing end_delivery_filing keep_answer_filing tick_filing listen_filing forget_filing)

lemma reaches_keeps: "reaches rf eng okey s t \<Longrightarrow> keeps_sound okey s t"
  by (induction rule: rtranclp_induct) (auto intro: keeps_sound_trans move_keeps)

definition empty_registry :: "'v fold \<Rightarrow> 'w \<Rightarrow> ('v, 'w) registry" where
  "empty_registry blank w =
     \<lparr>rg_next = 0, rg_cell = (\<lambda>_. blank), rg_folds = [], rg_indexes = [], rg_deliveries = [], rg_runtime = None,
      rg_published = [], rg_facts = [], rg_abandoned = [], rg_generation = 0, rg_watches = [], rg_clock_runtime = None,
      rg_announced = False, rg_turn = 0, rg_world = w\<rparr>"

lemma empty_sound: "sound okey (empty_registry blank w)"
  by (simp add: sound_def filed_def empty_registry_def index_of_def mi_empty_ok) (auto simp: mi_empty_def)

text \<open>C35. However folds and subscriptions are opened, ended, abandoned and delivered to, engine failures
  included, no fold is registered twice and the discrimination tree of every space holds that space's live
  folds, each under its own pattern, in registration order.\<close>

theorem registry_stays_filed:
  assumes "reaches rf eng okey (empty_registry blank w) s"
  shows "distinct (rg_folds s) \<and> mi_ok okey (index_of s space) \<and>
    filter (\<lambda>(p, f). active s f) (map snd (mi_entries (index_of s space))) =
      map (\<lambda>f. (cell_pattern s f, f)) (for_space s space)"
proof -
  from reaches_keeps [OF assms] empty_sound [of okey blank w] have s: "sound okey s" by (simp add: keeps_sound_def)
  obtain keep where ok: "mi_ok okey (index_of s space)" and keep: "\<forall>f. active s f \<longrightarrow> keep f"
    and es: "map snd (mi_entries (index_of s space)) =
      map (\<lambda>f. (cell_pattern s f, f)) (filter (\<lambda>f. cell_space s f = space \<and> keep f) (rg_folds s))"
    using filedE [OF sound_filed [OF s, of space]] by blast
  have "filter (\<lambda>(p, f). active s f) (map snd (mi_entries (index_of s space))) =
      map (\<lambda>f. (cell_pattern s f, f)) (filter (\<lambda>f. active s f) (filter (\<lambda>f. cell_space s f = space \<and> keep f) (rg_folds s)))"
    by (simp add: es filter_map comp_def)
  moreover have "filter (\<lambda>f. active s f) (filter (\<lambda>f. cell_space s f = space \<and> keep f) (rg_folds s)) = for_space s space"
    using keep by (auto simp: for_space_def filter_filter intro!: filter_cong)
  ultimately show ?thesis using s ok by (simp add: sound_def)
qed

end
