(* ===== verification/Deliveries.thy ===== *)
theory Deliveries
  imports Registry
begin

text \<open>
  What subscribers may rely on: delivery through the trees is delivery to every live fold of the space in
  registration order, a failed withdrawal changes nothing, the engine's write guards follow the registry, and a
  full queue refuses rather than drops.
\<close>

section \<open>Delivery goes to every live fold\<close>

text \<open>The caller's code works on the stream only through its calls.\<close>

definition tame_step ::
  "reflector \<Rightarrow> engine_script \<Rightarrow> (nat \<Rightarrow> nat) \<Rightarrow> ('v, 'w) step \<Rightarrow> bool" where
  "tame_step rf eng okey step = (\<forall>f ev v s. reaches rf eng okey s (snd (step f ev v s)))"

definition tame_guard :: "reflector \<Rightarrow> engine_script \<Rightarrow> (nat \<Rightarrow> nat) \<Rightarrow> ('v, 'w) guard \<Rightarrow> bool" where
  "tame_guard rf eng okey admits = (\<forall>f ev s. reaches rf eng okey s (snd (admits f ev s)))"

interpretation reaching: call_effect "reaches rf eng okey" for rf eng okey
  by unfold_locales (auto intro: rtranclp_trans)

lemma move_reaches: "move rf eng okey s t \<Longrightarrow> reaches rf eng okey s t"
  by (rule r_into_rtranclp)

lemma run_body_reaches:
  "tame_step rf eng okey step \<Longrightarrow> tame_guard rf eng okey admits \<Longrightarrow> reaches rf eng okey s (snd (run_body step admits ev f s))"
  unfolding run_body_def Let_def
  by (auto simp: tame_step_def tame_guard_def intro!: reaching.bind move_reaches [OF move.answered])

lemma run_fold_reaches:
  assumes "tame_step rf eng okey step" "tame_guard rf eng okey admits"
  shows "reaches rf eng okey s (snd (run_fold step admits th ev f s))"
proof -
  have finish: "reaches rf eng okey s (snd (finish_run th f m))" if "reaches rf eng okey s (snd m)"
    for m :: "('a, 'b, unit) call" and s
    using that move.ended [of rf eng okey "snd m" th f]
    by (cases m; cases "end_delivery th f (snd m)") (auto simp: finish_run_def split: sum.split)
  obtain go t where b: "begin_delivery th f s = (go, t)" by (cases "begin_delivery th f s")
  have "reaches rf eng okey s t" using move.began [of rf eng okey s th f] b by simp
  then have "reaches rf eng okey s (snd (finish_run th f (run_body step admits ev f t)))"
    using finish [OF rtranclp_trans] run_body_reaches [OF assms] by fastforce
  with \<open>reaches rf eng okey s t\<close> show ?thesis by (simp add: run_fold_def b split: bool.split)
qed

lemma run_fold_ended: "\<not> active s f \<Longrightarrow> run_fold step admits th ev f s = (Inr (), s)"
  by (simp add: run_fold_def begin_delivery_def)

text \<open>Watchers that are ended, or that the change does not match, may be left out from the start.\<close>

definition unmoved :: "change \<Rightarrow> atom \<Rightarrow> ('v, 'w) registry \<Rightarrow> nat \<Rightarrow> bool" where
  "unmoved action a s f =
     (f < rg_next s \<and> (\<not> active s f \<or> \<not> on_edge (fo_on (rg_cell s f)) action \<or> match (cell_pattern s f) a = None))"

lemma unmoved_evolves: "unmoved action a s f \<Longrightarrow> evolves s t \<Longrightarrow> unmoved action a t f"
  by (auto simp: unmoved_def evolves_def same_slots_def dest: less_le_trans)

lemma deliver_loop_unmoved:
  "unmoved (ev_action ev) (ev_atom ev) s f \<Longrightarrow>
     deliver_loop step admits th ev (f # fs) failures s = deliver_loop step admits th ev fs failures s"
  by (auto simp: unmoved_def run_fold_ended split: option.split)

lemma deliver_loop_filter:
  assumes tame: "tame_step rf eng okey step" "tame_guard rf eng okey admits"
  shows "sound okey s \<Longrightarrow> \<forall>f \<in> set fs. \<not> P f \<longrightarrow> unmoved (ev_action ev) (ev_atom ev) s f \<Longrightarrow>
    deliver_loop step admits th ev fs failures s = deliver_loop step admits th ev (filter P fs) failures s"
proof (induction fs arbitrary: s failures)
  case (Cons f fs)
  show ?case
  proof (cases "P f")
    case False
    with Cons deliver_loop_unmoved [of ev s f step admits th fs failures] show ?thesis by simp
  next
    case True
    have "deliver_loop step admits th ev fs xs t = deliver_loop step admits th ev (filter P fs) xs t"
      if "run_fold step admits th ev' f s = (r, t)" for ev' r t xs
    proof -
      from run_fold_reaches [OF tame, of s th ev' f] that have "reaches rf eng okey s t" by simp
      with Cons.prems(1) reaches_keeps have t: "sound okey t" "evolves s t" unfolding keeps_sound_def by blast+
      then show ?thesis using Cons.prems(2) unmoved_evolves [OF _ t(2)] by (intro Cons.IH) simp_all
    qed
    moreover have "deliver_loop step admits th ev fs xs s = deliver_loop step admits th ev (filter P fs) xs s" for xs
      by (rule Cons.IH) (use Cons.prems in auto)
    ultimately show ?thesis using True by (auto split: option.split prod.split sum.split)
  qed
qed simp

definition tokenable_folds :: "('v, 'w) registry \<Rightarrow> string \<Rightarrow> bool" where
  "tokenable_folds s space = (\<forall>f \<in> set (rg_folds s). cell_space s f = space \<longrightarrow> tokenable (cell_pattern s f))"

lemma candidates_filed:
  assumes s: "sound okey s" and a: "is_ground a" "tokenable a" and tok: "tokenable_folds s space"
  obtains keep where "\<forall>f. active s f \<longrightarrow> keep f" "candidates_for okey s space a =
    filter (\<lambda>f. cell_space s f = space \<and> keep f \<and> match (cell_pattern s f) a \<noteq> None) (rg_folds s)"
proof -
  from sound_filed [OF s, of space] obtain keep where ok: "mi_ok okey (index_of s space)"
    and keep: "\<forall>f. active s f \<longrightarrow> keep f"
    and es: "map snd (mi_entries (index_of s space)) =
      map (\<lambda>f. (cell_pattern s f, f)) (filter (\<lambda>f. cell_space s f = space \<and> keep f) (rg_folds s))" by (rule filedE)
  have "all_tokenable (index_of s space)"
    unfolding all_tokenable_def
  proof (clarify)
    fix i p g assume "(i, (p, g)) \<in> set (mi_entries (index_of s space))"
    then have "(p, g) \<in> set (map snd (mi_entries (index_of s space)))" by force
    with es tok show "tokenable p" by (auto simp: tokenable_folds_def)
  qed
  from mi_matches_exact [OF ok a this] have "map snd (mi_matches okey (index_of s space) a) =
      filter (\<lambda>f. match (cell_pattern s f) a \<noteq> None) (filter (\<lambda>f. cell_space s f = space \<and> keep f) (rg_folds s))"
    by (simp add: es filter_map comp_def)
  moreover have "candidates_for okey s space a = map snd (mi_matches okey (index_of s space) a)"
  proof (cases "dict_get (=) space (rg_indexes s)")
    case None
    then have "mi_entries (index_of s space) = []" by (simp add: index_of_def mi_empty_def)
    with None a mi_matches_exact [OF ok a \<open>all_tokenable (index_of s space)\<close>] show ?thesis by (simp add: candidates_for_def)
  next
    case (Some ix)
    with a show ?thesis by (simp add: candidates_for_def index_of_def)
  qed
  ultimately have "candidates_for okey s space a =
      filter (\<lambda>f. cell_space s f = space \<and> keep f \<and> match (cell_pattern s f) a \<noteq> None) (rg_folds s)"
    by (simp add: filter_filter conj_ac)
  with keep show ?thesis by (rule that)
qed

text \<open>The broadcast the trees replace: one attempt per live fold of the space.\<close>

definition broadcast ::
  "('v, 'w) step \<Rightarrow> ('v, 'w) guard \<Rightarrow> int \<Rightarrow> change \<Rightarrow> string \<Rightarrow> atom \<Rightarrow> int option \<Rightarrow> ('v, 'w) registry \<Rightarrow> ('v, 'w, unit) call" where
  "broadcast step admits th action space a sequence s =
     (case tick s of (generation, s1) \<Rightarrow>
        report (deliver_loop step admits th \<lparr>ev_action = action, ev_space = space, ev_atom = a, ev_bindings = [],
          ev_generation = generation, ev_sequence = sequence\<rparr> (for_space s1 space) [] s1))"

text \<open>C36. Delivering a change through the discrimination trees is delivering it to every live fold of its space, one
  by one in registration order: the same watchers run, on the same events, with the same failures. The steps
  and guards may themselves open, end and deliver to folds. Patterns and the atom hold no NaN and no space handle.\<close>

theorem delivery_is_broadcast:
  assumes "reaches rf eng okey (empty_registry blank w) s"
    and "tame_step rf eng okey step" "tame_guard rf eng okey admits" "tokenable a" "tokenable_folds s space"
  shows "deliver_change okey step admits th action space a sequence s = broadcast step admits th action space a sequence s"
proof -
  from reaches_keeps [OF assms(1)] empty_sound [of okey blank w] have s: "sound okey s" by (simp add: keeps_sound_def)
  obtain n t where t: "tick s = (n, t)" by (cases "tick s")
  have fields: "rg_folds t = rg_folds s \<and> rg_cell t = rg_cell s \<and> rg_next t = rg_next s" using t by (auto simp: tick_def split: if_splits)
  have st: "sound okey t" using same_filing_sound [OF tick_filing, of okey s] s t by (simp add: keeps_sound_def)
  have tok: "tokenable_folds t space" using assms(5) fields by (simp add: tokenable_folds_def)
  let ?ev = "\<lparr>ev_action = action, ev_space = space, ev_atom = a, ev_bindings = [], ev_generation = n, ev_sequence = sequence\<rparr>"
  have "deliver_loop step admits th ?ev (candidates_for okey t space a) [] t = deliver_loop step admits th ?ev (for_space t space) [] t"
  proof (cases "is_ground a")
    case True
    from candidates_filed [OF st True assms(4) tok] obtain keep where keep: "\<forall>f. active t f \<longrightarrow> keep f"
      and c: "candidates_for okey t space a =
        filter (\<lambda>f. cell_space t f = space \<and> keep f \<and> match (cell_pattern t f) a \<noteq> None) (rg_folds t)" by blast
    let ?P = "\<lambda>f. active t f \<and> match (cell_pattern t f) a \<noteq> None"
    have old: "f < rg_next t" if "f \<in> set (rg_folds t)" for f by (rule sound_old [OF st that])
    have "filter ?P (candidates_for okey t space a) = filter ?P (for_space t space)"
      using keep by (auto simp: c for_space_def filter_filter intro!: filter_cong)
    moreover have "deliver_loop step admits th ?ev (candidates_for okey t space a) [] t =
        deliver_loop step admits th ?ev (filter ?P (candidates_for okey t space a)) [] t"
      using old by (intro deliver_loop_filter [OF assms(2,3) st]) (auto simp: unmoved_def c)
    moreover have "deliver_loop step admits th ?ev (for_space t space) [] t =
        deliver_loop step admits th ?ev (filter ?P (for_space t space)) [] t"
      using old by (intro deliver_loop_filter [OF assms(2,3) st]) (auto simp: unmoved_def for_space_def)
    ultimately show ?thesis by simp
  qed (simp add: candidates_for_def)
  with t show ?thesis by (simp add: deliver_change_def broadcast_def)
qed

section \<open>A failed withdrawal changes nothing\<close>


definition published :: "('v, 'w) registry \<Rightarrow> bool" where
  "published s = (rg_published s = spaces_of s (rg_folds s))"

lemma spaces_of_cell: "rg_cell t = rg_cell s \<Longrightarrow> spaces_of t = spaces_of s"
  by (simp add: spaces_of_def [abs_def])

lemma publish_spaces_Inr: "publish_spaces eng xs s = (Inr u, t) \<Longrightarrow> rg_published t = xs"
  by (auto simp: publish_spaces_def cross_def Let_def split: crossing.splits)

text \<open>The engine's guards follow: after an accepted publication they are the candidate's, and after a refused one
  they are what they were, unless taking it back failed too.\<close>

lemma publish_locked_published:
  assumes "published s" "publish_locked eng folds s = (r, t)"
  shows "case r of Inr _ \<Rightarrow> rg_published t = spaces_of s folds
    | Inl e \<Rightarrow> (\<exists>es. e = Both es) \<or> rg_published t = rg_published s"
  using assms by (auto simp: publish_locked_def published_def Let_def publish_spaces_Inr split: if_splits prod.splits sum.splits
      dest: publish_spaces_Inr)

text \<open>Reading and writing reflection atoms leaves the guards alone, and a publication leaves the atoms alone.\<close>

definition same_guards :: "('v, 'w) registry \<Rightarrow> ('v, 'w) registry \<Rightarrow> bool" where
  "same_guards s t = (crossed s t \<and> rg_published t = rg_published s)"

definition same_marks :: "('v, 'w) registry \<Rightarrow> ('v, 'w) registry \<Rightarrow> bool" where
  "same_marks s t = (crossed s t \<and> rg_facts t = rg_facts s)"

lemma same_guards_refl [simp]: "same_guards s s" by (simp add: same_guards_def)
lemma same_marks_refl [simp]: "same_marks s s" by (simp add: same_marks_def)

lemma same_guards_trans: "same_guards s t \<Longrightarrow> same_guards t u \<Longrightarrow> same_guards s u"
  by (auto simp: same_guards_def intro: crossed_trans)

interpretation guarding: call_effect same_guards
  by unfold_locales (auto intro: same_guards_trans)

lemma cross_guards: "(\<And>t. same_guards s t \<Longrightarrow> same_guards s (change t)) \<Longrightarrow> same_guards s (snd (cross eng change s))"
  unfolding cross_def Let_def by (auto split: crossing.split simp: same_guards_def)

lemma contains_guards: "same_guards s (snd (reflection_contains rf eng mark s))"
  unfolding reflection_contains_def by (rule guarding.bind [OF cross_guards]) simp_all

lemma reflect_guards: "same_guards s (snd (reflect_add eng mark s))" "same_guards s (snd (reflect_remove rf eng mark s))"
  unfolding reflect_add_def reflect_remove_def by (rule cross_guards; simp add: same_guards_def)+

lemma ensure_present_guards: "same_guards s (snd (ensure_present rf eng mark s))"
  unfolding ensure_present_def
  by (rule guarding.bind [OF contains_guards], rule guarding.bind, simp add: reflect_guards, rule guarding.bind [OF contains_guards]) simp

lemma ensure_absent_guards: "same_guards s (snd (ensure_absent rf eng mark s))"
  unfolding ensure_absent_def
  by (rule guarding.bind [OF contains_guards], rule guarding.bind, simp add: reflect_guards, rule guarding.bind [OF contains_guards]) simp

lemma contains_Inr: "reflection_contains rf eng mark s = (Inr held, t) \<Longrightarrow> held = rf_holds rf (rg_facts t) mark"
  by (auto simp: reflection_contains_def thenR_Inr)

lemma ensure_present_Inr: "ensure_present rf eng mark s = (Inr u, t) \<Longrightarrow> rf_holds rf (rg_facts t) mark"
  by (auto simp: ensure_present_def thenR_Inr split: if_splits dest!: contains_Inr)

lemma ensure_absent_Inr: "ensure_absent rf eng mark s = (Inr u, t) \<Longrightarrow> \<not> rf_holds rf (rg_facts t) mark"
  by (auto simp: ensure_absent_def thenR_Inr split: if_splits dest!: contains_Inr)

lemma cross_Inl: "cross eng change s = (Inl e, t) \<Longrightarrow> \<exists>n. e = EngineRaised n"
  by (auto simp: cross_def Let_def split: crossing.splits)

lemma contains_Inl: "reflection_contains rf eng mark s = (Inl e, t) \<Longrightarrow> \<exists>n. e = EngineRaised n"
  by (auto simp: reflection_contains_def thenR_Inl dest: cross_Inl)

lemma ensure_Inl:
  "ensure_present rf eng mark s = (Inl e, t) \<Longrightarrow> e \<noteq> Both es" "ensure_absent rf eng mark s = (Inl e, t) \<Longrightarrow> e \<noteq> Both es"
  by (auto simp: ensure_present_def ensure_absent_def thenR_Inl reflect_add_def reflect_remove_def split: if_splits
      dest!: contains_Inl cross_Inl)

lemma same_marks_trans: "same_marks s t \<Longrightarrow> same_marks t u \<Longrightarrow> same_marks s u"
  by (auto simp: same_marks_def intro: crossed_trans)

lemma publish_locked_marks: "same_marks s (snd (publish_locked eng folds s))"
proof -
  have step: "same_marks s (snd (publish_spaces eng xs s))" for xs and s :: "('a, 'b) registry"
    by (auto simp: publish_spaces_def cross_def Let_def same_marks_def split: crossing.split)
  obtain r1 s1 where p1: "publish_spaces eng (spaces_of s folds) s = (r1, s1)" by (metis surj_pair)
  obtain r2 s2 where p2: "publish_spaces eng (spaces_of s (rg_folds s)) s1 = (r2, s2)" by (metis surj_pair)
  have "same_marks s s1" "same_marks s1 s2" using step [of s "spaces_of s folds"] step [of s1 "spaces_of s (rg_folds s)"] p1 p2 by simp_all
  then show ?thesis using same_marks_trans [of s s1 s2] by (simp add: publish_locked_def Let_def p1 p2 split: sum.split)
qed


lemma same_marks_snd: "same_marks s (snd m) \<Longrightarrow> m = (r, t) \<Longrightarrow> rg_facts t = rg_facts s"
  by (simp add: same_marks_def)

lemma publish_failed:
  "published s \<Longrightarrow> publish_locked eng folds s = (Inl e, t) \<Longrightarrow> \<forall>es. e \<noteq> Both es \<Longrightarrow>
     crossed s t \<and> published t \<and> rg_facts t = rg_facts s"
  using publish_locked_published [of s eng folds "Inl e" t] publish_locked_crossed [of s eng folds] publish_locked_marks [of s eng folds]
  by (auto simp: published_def same_marks_def spaces_of_def crossed_fields)


lemma registry_add_refused:
  "published s \<Longrightarrow> registry_add eng okey rt f s = (Inl e, t) \<Longrightarrow> \<forall>es. e \<noteq> Both es \<Longrightarrow>
     crossed s t \<and> published t \<and> rg_facts t = rg_facts s"
  by (auto simp: registry_add_def thenR_Inl Let_def split: if_splits dest: publish_failed)






section \<open>Publication\<close>

lemma registry_add_published:
  assumes "published s" "registry_add eng okey rt f s = (Inr u, t)"
  shows "published t \<and> rg_facts t = rg_facts s \<and> rg_folds t = rg_folds s @ [f] \<and> rg_cell t = rg_cell s"
proof -
  from assms(2) obtain s1 where c: "crossed s s1" and pub: "publish_locked eng (rg_folds s @ [f]) s = (Inr (), s1)"
    and t: "t = s1\<lparr>rg_runtime := Some rt, rg_folds := rg_folds s @ [f],
       rg_indexes := dict_set (=) (cell_space s f) (mi_add okey (index_of s (cell_space s f)) (cell_pattern s f) f) (rg_indexes s)\<rparr>"
    by (rule registry_add_result) blast
  have wf: "rg_folds t = rg_folds s @ [f]" "rg_cell t = rg_cell s" "rg_published t = rg_published s1" "rg_facts t = rg_facts s1"
    using crossed_fields [OF c] by (simp_all add: t)
  moreover have "rg_published s1 = spaces_of s (rg_folds s @ [f])" using publish_locked_published [OF assms(1) pub] by simp
  moreover have "rg_facts s1 = rg_facts s" using same_marks_snd [OF publish_locked_marks pub] .
  ultimately show ?thesis using spaces_of_cell [OF wf(2)] by (simp add: published_def)
qed

lemma guards_published: "same_guards s t \<Longrightarrow> published s \<Longrightarrow> published t"
  by (auto simp: same_guards_def published_def spaces_of_def crossed_fields)

lemma guards_fields: "same_guards s t \<Longrightarrow> rg_folds t = rg_folds s \<and> rg_cell t = rg_cell s"
  by (simp add: same_guards_def crossed_fields)

lemma has_fact_cong: "rg_folds t = rg_folds s \<Longrightarrow> rg_cell t = rg_cell s \<Longrightarrow> has_fact t mark = has_fact s mark"
  by (simp add: has_fact_def live_def)

lemma settle_fact_result:
  assumes p: "published s" and r: "settle_fact rf eng mark e s = (r, t)"
  shows "\<exists>x. r = Inl x \<and> ((\<exists>es. x = Both es) \<or>
    x = e \<and> rg_folds t = rg_folds s \<and> rg_cell t = rg_cell s \<and> published t \<and> rf_holds rf (rg_facts t) mark = has_fact t mark)"
proof -
  let ?m = "if has_fact s mark then ensure_present rf eng mark s else ensure_absent rf eng mark s"
  obtain q u where m: "?m = (q, u)" by (cases ?m)
  have g: "same_guards s u" using m ensure_present_guards [of s rf eng mark] ensure_absent_guards [of s rf eng mark]
    by (auto split: if_splits)
  note same = guards_fields [OF g] guards_published [OF g p]
  have "has_fact u mark = has_fact s mark" using same by (intro has_fact_cong) simp_all
  then have "rf_holds rf (rg_facts u) mark = has_fact u mark" if "q = Inr v" for v
    using m that ensure_present_Inr [of rf eng mark s v u] ensure_absent_Inr [of rf eng mark s v u] by (auto split: if_splits)
  with r m same show ?thesis by (cases q) (auto simp: settle_fact_def)
qed

text \<open>The reflection space once a fold has seen to its atom, as the engine's answers have it.\<close>

definition with_mark :: "reflector \<Rightarrow> atom \<Rightarrow> atom list \<Rightarrow> atom list" where
  "with_mark rf mark xs = (if rf_holds rf xs mark then xs else xs @ [mark])"

definition without_mark :: "reflector \<Rightarrow> atom \<Rightarrow> atom list \<Rightarrow> atom list" where
  "without_mark rf mark xs = (if rf_holds rf xs mark then rf_drop rf mark xs else xs)"

definition other_marks :: "atom \<Rightarrow> atom list \<Rightarrow> atom list" where
  "other_marks mark xs = filter (\<lambda>x. \<not> atom_eq x mark) xs"

text \<open>
  The engine answers and removes by unification. Over stores in which nothing else unifies with the atom, which is what
  this asks, it tells the atom from the others.
\<close>

definition tells_apart :: "reflector \<Rightarrow> atom \<Rightarrow> atom list \<Rightarrow> bool" where
  "tells_apart rf mark xs =
     (\<forall>ys. (\<forall>y \<in> set ys. y \<in> set xs \<or> atom_eq y mark) \<longrightarrow>
        rf_holds rf ys mark = (\<exists>y \<in> set ys. atom_eq y mark) \<and> other_marks mark (rf_drop rf mark ys) = other_marks mark ys)"

lemma contains_facts: "reflection_contains rf eng mark s = (r, t) \<Longrightarrow> rg_facts t = rg_facts s"
  by (auto simp: reflection_contains_def cross_def Let_def split: crossing.splits if_splits)

lemma cross_facts:
  "cross eng (\<lambda>s. s\<lparr>rg_facts := g (rg_facts s)\<rparr>) s = (r, t) \<Longrightarrow>
     (rg_facts t = rg_facts s \<or> rg_facts t = g (rg_facts s)) \<and> (\<forall>u. r = Inr u \<longrightarrow> rg_facts t = g (rg_facts s))"
  by (auto simp: cross_def Let_def split: crossing.splits if_splits)

lemma ensure_present_facts:
  assumes "ensure_present rf eng mark s = (r, t)"
  shows "(rg_facts t = rg_facts s \<or> rg_facts t = with_mark rf mark (rg_facts s)) \<and>
    (\<forall>u. r = Inr u \<longrightarrow> rg_facts t = with_mark rf mark (rg_facts s))"
proof -
  obtain held s1 where c: "reflection_contains rf eng mark s = (held, s1)" by force
  note f1 = contains_facts [OF c]
  show ?thesis
  proof (cases held)
    case (Inl e)
    with assms c f1 show ?thesis by (auto simp: ensure_present_def)
  next
    case (Inr h)
    obtain q s2 where a: "(if h then (Inr (), s1) else reflect_add eng mark s1) = (q, s2)" by force
    have h: "h = rf_holds rf (rg_facts s) mark" using contains_Inr [of rf eng mark s h s1] c Inr f1 by simp
    have f2: "(rg_facts s2 = rg_facts s \<or> rg_facts s2 = with_mark rf mark (rg_facts s)) \<and>
        (\<forall>u. q = Inr u \<longrightarrow> rg_facts s2 = with_mark rf mark (rg_facts s))"
      using a f1 h cross_facts [of eng "\<lambda>xs. xs @ [mark]" s1] by (auto simp: reflect_add_def with_mark_def split: if_splits)
    obtain p s3 where d: "reflection_contains rf eng mark s2 = (p, s3)" by force
    from contains_facts [OF d] f2 assms c Inr a d show ?thesis
      by (cases q; cases p) (auto simp: ensure_present_def split: if_splits)
  qed
qed

lemma ensure_absent_facts:
  assumes "ensure_absent rf eng mark s = (r, t)"
  shows "(rg_facts t = rg_facts s \<or> rg_facts t = without_mark rf mark (rg_facts s)) \<and>
    (\<forall>u. r = Inr u \<longrightarrow> rg_facts t = without_mark rf mark (rg_facts s))"
proof -
  obtain held s1 where c: "reflection_contains rf eng mark s = (held, s1)" by force
  note f1 = contains_facts [OF c]
  show ?thesis
  proof (cases held)
    case (Inl e)
    with assms c f1 show ?thesis by (auto simp: ensure_absent_def)
  next
    case (Inr h)
    obtain q s2 where a: "(if h then reflect_remove rf eng mark s1 else (Inr (), s1)) = (q, s2)" by force
    have h: "h = rf_holds rf (rg_facts s) mark" using contains_Inr [of rf eng mark s h s1] c Inr f1 by simp
    have f2: "(rg_facts s2 = rg_facts s \<or> rg_facts s2 = without_mark rf mark (rg_facts s)) \<and>
        (\<forall>u. q = Inr u \<longrightarrow> rg_facts s2 = without_mark rf mark (rg_facts s))"
      using a f1 h cross_facts [of eng "rf_drop rf mark" s1] by (auto simp: reflect_remove_def without_mark_def split: if_splits)
    obtain p s3 where d: "reflection_contains rf eng mark s2 = (p, s3)" by force
    from contains_facts [OF d] f2 assms c Inr a d show ?thesis
      by (cases q; cases p) (auto simp: ensure_absent_def split: if_splits)
  qed
qed

lemma registry_add_facts: "registry_add eng okey rt f s = (r, t) \<Longrightarrow> rg_facts t = rg_facts s"
proof -
  obtain q s1 where p: "publish_locked eng (rg_folds s @ [f]) s = (q, s1)" by force
  assume "registry_add eng okey rt f s = (r, t)"
  with p same_marks_snd [OF publish_locked_marks p] show ?thesis
    by (cases q) (auto simp: registry_add_def Let_def split: if_splits)
qed

lemma settle_fact_facts:
  assumes "settle_fact rf eng mark e s = (Inl x, t)"
  shows "rg_facts t \<in> {rg_facts s, with_mark rf mark (rg_facts s), without_mark rf mark (rg_facts s)} \<and>
    ((\<forall>es. x \<noteq> Both es) \<longrightarrow>
       rg_facts t = (if has_fact s mark then with_mark rf mark (rg_facts s) else without_mark rf mark (rg_facts s)))"
proof -
  obtain q u where m: "(if has_fact s mark then ensure_present rf eng mark s else ensure_absent rf eng mark s) = (q, u)" by force
  then have "rg_facts u \<in> {rg_facts s, with_mark rf mark (rg_facts s), without_mark rf mark (rg_facts s)} \<and>
      (\<forall>v. q = Inr v \<longrightarrow> rg_facts u = (if has_fact s mark then with_mark rf mark (rg_facts s) else without_mark rf mark (rg_facts s)))"
    using ensure_present_facts [of rf eng mark s q u] ensure_absent_facts [of rf eng mark s q u] by (auto split: if_splits)
  with m assms show ?thesis by (cases q) (auto simp: settle_fact_def)
qed

text \<open>The store a publication leaves behind, whether or not it goes through.\<close>

lemma publish_facts:
  assumes "publish_subscription rf eng okey rt mark f s = (r, t)"
  shows "case r of
      Inr _ \<Rightarrow> rg_facts t = with_mark rf mark (rg_facts s)
    | Inl x \<Rightarrow> \<exists>F \<in> {rg_facts s, with_mark rf mark (rg_facts s)}.
        rg_facts t \<in> {F, with_mark rf mark F, without_mark rf mark F} \<and>
        ((\<forall>es. x \<noteq> Both es) \<longrightarrow> rg_facts t = (if has_fact t mark then with_mark rf mark F else without_mark rf mark F))"
proof -
  let ?stop = "set_cell f (\<lambda>c. c\<lparr>fo_active := False\<rparr>)"
  have settled: "\<exists>x. r = Inl x \<and> (\<exists>F \<in> {rg_facts s, with_mark rf mark (rg_facts s)}.
      rg_facts t \<in> {F, with_mark rf mark F, without_mark rf mark F} \<and>
      ((\<forall>es. x \<noteq> Both es) \<longrightarrow> rg_facts t = (if has_fact t mark then with_mark rf mark F else without_mark rf mark F)))"
    if v: "rg_facts v \<in> {rg_facts s, with_mark rf mark (rg_facts s)}" and set: "settle_fact rf eng mark e (?stop v) = (r, t)" for v e
  proof -
    from set obtain x where x: "r = Inl x" by (auto simp: settle_fact_def split: prod.splits sum.splits)
    have facts: "rg_facts (?stop v) = rg_facts v" by (simp add: set_cell_def)
    have "same_guards (?stop v) t"
      using set ensure_present_guards [of "?stop v" rf eng mark] ensure_absent_guards [of "?stop v" rf eng mark]
      by (auto simp: settle_fact_def split: if_splits prod.splits sum.splits)
    then have "has_fact t mark = has_fact (?stop v) mark" using guards_fields by (intro has_fact_cong) blast+
    with settle_fact_facts [OF set [unfolded x]] v x facts show ?thesis by auto
  qed
  obtain q u where m: "ensure_present rf eng mark s = (q, u)" by force
  note pf = ensure_present_facts [OF m]
  show ?thesis
  proof (cases q)
    case (Inl e)
    with m assms have "settle_fact rf eng mark e (?stop u) = (r, t)" by (simp add: publish_subscription_def)
    from settled [OF _ this] pf show ?thesis by auto
  next
    case (Inr a)
    obtain p v where v: "registry_add eng okey rt f u = (p, v)" by force
    have facts: "rg_facts v = with_mark rf mark (rg_facts s)" using registry_add_facts [OF v] pf Inr by simp
    show ?thesis
    proof (cases p)
      case (Inl e)
      with m v \<open>q = Inr a\<close> assms have "settle_fact rf eng mark e (?stop v) = (r, t)" by (simp add: publish_subscription_def)
      from settled [OF _ this] facts show ?thesis by auto
    next
      case (Inr b)
      with m v \<open>q = Inr a\<close> assms facts show ?thesis by (auto simp: publish_subscription_def)
    qed
  qed
qed

lemma tells_apart_marks:
  assumes apart: "tells_apart rf mark xs" and F: "\<forall>y \<in> set F. y \<in> set xs \<or> atom_eq y mark"
  shows "other_marks mark (with_mark rf mark F) = other_marks mark F" "other_marks mark (without_mark rf mark F) = other_marks mark F"
    "rf_holds rf F mark = (\<exists>y \<in> set F. atom_eq y mark)"
proof -
  have drop: "rf_holds rf F mark = (\<exists>y \<in> set F. atom_eq y mark)" "other_marks mark (rf_drop rf mark F) = other_marks mark F"
    using apart F unfolding tells_apart_def by blast+
  have "other_marks mark (F @ [mark]) = other_marks mark F" by (simp add: other_marks_def atom_eq_core)
  with drop show "other_marks mark (with_mark rf mark F) = other_marks mark F"
    "other_marks mark (without_mark rf mark F) = other_marks mark F"
    "rf_holds rf F mark = (\<exists>y \<in> set F. atom_eq y mark)"
    by (simp_all add: with_mark_def without_mark_def)
qed

lemma only_marks: "other_marks mark ys = other_marks mark xs \<Longrightarrow> \<forall>y \<in> set ys. y \<in> set xs \<or> atom_eq y mark"
  by (drule arg_cong [of _ _ set]) (auto simp: other_marks_def)

lemma publication_registered:
  assumes "published s" "f \<notin> set (rg_folds s)" "publish_subscription rf eng okey rt mark f s = (r, t)"
  shows "case r of
      Inr _ \<Rightarrow> rg_folds t = rg_folds s @ [f] \<and> rg_cell t = rg_cell s \<and> published t \<and> rf_holds rf (rg_facts t) mark
    | Inl e \<Rightarrow> (\<exists>es. e = Both es) \<or>
        rg_folds t = rg_folds s \<and> rg_cell t = (rg_cell s)(f := (rg_cell s f)\<lparr>fo_active := False\<rparr>) \<and> published t
        \<and> rf_holds rf (rg_facts t) mark = has_fact t mark"
proof -
  obtain q u where m: "ensure_present rf eng mark s = (q, u)" by (cases "ensure_present rf eng mark s")
  have g: "same_guards s u" using ensure_present_guards [of s rf eng mark] m by simp
  note same = guards_fields [OF g] guards_published [OF g assms(1)]
  have settled: "case r of Inr _ \<Rightarrow> False | Inl x \<Rightarrow> (\<exists>es. x = Both es) \<or>
        rg_folds t = rg_folds s \<and> rg_cell t = (rg_cell s)(f := (rg_cell s f)\<lparr>fo_active := False\<rparr>) \<and> published t
        \<and> rf_holds rf (rg_facts t) mark = has_fact t mark"
    if v: "published v" "rg_folds v = rg_folds s" "rg_cell v = rg_cell s"
      and r: "settle_fact rf eng mark e (set_cell f (\<lambda>c. c\<lparr>fo_active := False\<rparr>) v) = (r, t)" for v e
  proof -
    have "published (set_cell f (\<lambda>c. c\<lparr>fo_active := False\<rparr>) v)"
    proof -
      let ?u = "set_cell f (\<lambda>c. c\<lparr>fo_active := False\<rparr>) v"
      have "cell_space ?u = cell_space v" by (auto simp: set_cell_def)
      then have "spaces_of ?u = spaces_of v" by (simp add: spaces_of_def [abs_def])
      with v(1) show ?thesis by (simp add: published_def set_cell_def)
    qed
    from settle_fact_result [OF this r] v show ?thesis by (auto simp: set_cell_def)
  qed
  show ?thesis
  proof (cases q)
    case (Inl e)
    with m assms(3) have "settle_fact rf eng mark e (set_cell f (\<lambda>c. c\<lparr>fo_active := False\<rparr>) u) = (r, t)"
      by (simp add: publish_subscription_def)
    from settled [OF _ _ _ this] same show ?thesis by (auto split: sum.splits)
  next
    case (Inr a)
    obtain p v where v: "registry_add eng okey rt f u = (p, v)" by (cases "registry_add eng okey rt f u")
    show ?thesis
    proof (cases p)
      case (Inr b)
      with m v \<open>q = Inr a\<close> assms(3) have "r = Inr ()" "t = v" by (simp_all add: publish_subscription_def)
      with registry_add_published [of u eng okey rt f b v] v Inr same ensure_present_Inr [of rf eng mark s a u] m \<open>q = Inr a\<close>
      show ?thesis by simp
    next
      case (Inl e)
      with m v \<open>q = Inr a\<close> assms(3) have r: "settle_fact rf eng mark e (set_cell f (\<lambda>c. c\<lparr>fo_active := False\<rparr>) v) = (r, t)"
        by (simp add: publish_subscription_def)
      show ?thesis
      proof (cases "\<exists>es. e = Both es")
        case True
        from r have "\<exists>x. r = Inl x \<and> (x = e \<or> (\<exists>es. x = Both es))" by (auto simp: settle_fact_def split: prod.splits sum.splits)
        with True show ?thesis by auto
      next
        case False
        with registry_add_refused [of u eng okey rt f e v] v Inl same have "published v \<and> crossed u v" by blast
        with settled [OF _ _ _ r] same show ?thesis by (auto simp: crossed_fields split: sum.splits)
      qed
    qed
  qed
qed

text \<open>Where the engine tells the atom from the others, the others stay and the answer is the store's.\<close>

lemma publication_marks:
  assumes pub: "publish_subscription rf eng okey rt mark f s = (r, t)" and apart: "tells_apart rf mark (rg_facts s)"
  shows "other_marks mark (rg_facts t) = other_marks mark (rg_facts s)"
    "rf_holds rf (rg_facts t) mark = (\<exists>y \<in> set (rg_facts t). atom_eq y mark)"
proof -
  note same = tells_apart_marks [OF apart]
  have self: "\<forall>y \<in> set (rg_facts s). y \<in> set (rg_facts s) \<or> atom_eq y mark" by blast
  have "\<exists>F. other_marks mark F = other_marks mark (rg_facts s) \<and> rg_facts t \<in> {F, with_mark rf mark F, without_mark rf mark F}"
    using publish_facts [OF pub] same(1) [OF self] by (cases r) auto
  then obtain F where F: "other_marks mark F = other_marks mark (rg_facts s)"
      "rg_facts t \<in> {F, with_mark rf mark F, without_mark rf mark F}" by blast
  with same(1,2) [OF only_marks [OF F(1)]] show others: "other_marks mark (rg_facts t) = other_marks mark (rg_facts s)" by auto
  show "rf_holds rf (rg_facts t) mark = (\<exists>y \<in> set (rg_facts t). atom_eq y mark)" by (rule same(3) [OF only_marks [OF others]])
qed

text \<open>C38. Publishing a subscription is all or nothing too, down to the store of reflection atoms. If it goes through, the
  fold is registered last, the engine guards exactly the watched spaces, and the store is what it was with the atom
  appended, unless the engine already answered that it holds it. If it raises (other than by a rollback that
  fails), the fold is ended and not registered, the others and the guards are as they were, the engine answers that it
  holds the atom exactly when another live subscription owns it, and the store is what settling that leaves. The engine
  answers and removes by unification, not by equality; wherever nothing else in the store unifies with the atom, no
  outcome, a failed rollback included, touches any other atom, and the atom itself is in the store on success, and on
  failure exactly when another live subscription owns it. (Where something else does unify, \<open>reflection_lost\<close> and
  \<open>reflection_stolen\<close> show what happens.)\<close>

theorem publication_all_or_nothing:
  assumes "published s" "f \<notin> set (rg_folds s)" "publish_subscription rf eng okey rt mark f s = (r, t)"
  shows "(case r of
      Inr _ \<Rightarrow> rg_folds t = rg_folds s @ [f] \<and> rg_cell t = rg_cell s \<and> published t
        \<and> rf_holds rf (rg_facts t) mark \<and> rg_facts t = with_mark rf mark (rg_facts s)
    | Inl e \<Rightarrow> (\<exists>es. e = Both es) \<or>
        rg_folds t = rg_folds s \<and> rg_cell t = (rg_cell s)(f := (rg_cell s f)\<lparr>fo_active := False\<rparr>) \<and> published t
        \<and> rf_holds rf (rg_facts t) mark = has_fact t mark
        \<and> (\<exists>F \<in> {rg_facts s, with_mark rf mark (rg_facts s)}.
             rg_facts t = (if has_fact t mark then with_mark rf mark F else without_mark rf mark F)))
    \<and> (tells_apart rf mark (rg_facts s) \<longrightarrow>
        other_marks mark (rg_facts t) = other_marks mark (rg_facts s) \<and>
        (case r of
           Inr _ \<Rightarrow> \<exists>y \<in> set (rg_facts t). atom_eq y mark
         | Inl e \<Rightarrow> (\<exists>es. e = Both es) \<or> (\<exists>y \<in> set (rg_facts t). atom_eq y mark) = has_fact t mark))"
proof -
  note reg = publication_registered [OF assms] and facts = publish_facts [OF assms(3)]
  have first: "case r of
      Inr _ \<Rightarrow> rg_folds t = rg_folds s @ [f] \<and> rg_cell t = rg_cell s \<and> published t
        \<and> rf_holds rf (rg_facts t) mark \<and> rg_facts t = with_mark rf mark (rg_facts s)
    | Inl e \<Rightarrow> (\<exists>es. e = Both es) \<or>
        rg_folds t = rg_folds s \<and> rg_cell t = (rg_cell s)(f := (rg_cell s f)\<lparr>fo_active := False\<rparr>) \<and> published t
        \<and> rf_holds rf (rg_facts t) mark = has_fact t mark
        \<and> (\<exists>F \<in> {rg_facts s, with_mark rf mark (rg_facts s)}.
             rg_facts t = (if has_fact t mark then with_mark rf mark F else without_mark rf mark F))"
    using reg facts by (cases r) (simp_all only: sum.case, blast+)
  have second: "other_marks mark (rg_facts t) = other_marks mark (rg_facts s) \<and>
      (case r of
         Inr _ \<Rightarrow> \<exists>y \<in> set (rg_facts t). atom_eq y mark
       | Inl e \<Rightarrow> (\<exists>es. e = Both es) \<or> (\<exists>y \<in> set (rg_facts t). atom_eq y mark) = has_fact t mark)"
    if apart: "tells_apart rf mark (rg_facts s)"
    using publication_marks [OF assms(3) apart] reg by (cases r) (simp_all only: sum.case simp_thms, blast+)
  show ?thesis by (rule conjI [OF first impI [OF second]])
qed

section \<open>The queue\<close>

text \<open>A queueing subscription: its events are pushed by delivery and drained by its reader.\<close>

datatype queue_op = Push event | Drain

definition admit_all :: "('v, 'w) guard" where
  "admit_all f ev s = (Inr True, s)"

definition push :: "nat \<Rightarrow> int \<Rightarrow> event \<Rightarrow> nat \<Rightarrow> (queue, 'w) registry \<Rightarrow> (queue, 'w, unit) call" where
  "push queue_max th ev f s = run_fold (\<lambda>f. step_over None queue_max) admit_all th ev f s"

text \<open>The events accepted, and the events drained, in order.\<close>

fun queue_run ::
  "nat \<Rightarrow> int \<Rightarrow> nat \<Rightarrow> queue_op list \<Rightarrow> (queue, 'w) registry \<Rightarrow> event list \<times> event list \<times> (queue, 'w) registry" where
  "queue_run queue_max th f [] s = ([], [], s)"
| "queue_run queue_max th f (Push ev # ops) s =
     (case push queue_max th ev f s of (r, s1) \<Rightarrow>
       (case queue_run queue_max th f ops s1 of (accepted, drained, s2) \<Rightarrow>
         (case r of Inr _ \<Rightarrow> ev # accepted | Inl _ \<Rightarrow> accepted, drained, s2)))"
| "queue_run queue_max th f (Drain # ops) s =
     (case drain f s of (out, s1) \<Rightarrow>
       (case queue_run queue_max th f ops s1 of (accepted, drained, s2) \<Rightarrow> (accepted, out @ drained, s2)))"

abbreviation queued :: "(queue, 'w) registry \<Rightarrow> nat \<Rightarrow> event list" where
  "queued s f \<equiv> snd (fo_state (rg_cell s f))"

definition open_queue :: "(queue, 'w) registry \<Rightarrow> nat \<Rightarrow> bool" where
  "open_queue s f = (active s f \<and> \<not> fo_stateless (rg_cell s f) \<and> snd (fo_initial (rg_cell s f)) = [])"

lemma end_after_begin:
  assumes "rg_deliveries t = dict_set (=) f (dict_set (=) th (Suc n) counts) ds"
  shows "\<exists>ds'. end_delivery th f t = (Inr (), t\<lparr>rg_deliveries := ds'\<rparr>)"
  using assms by (auto simp: end_delivery_def deliveries_of_def count_of_def Let_def)

lemma push_result:
  assumes "open_queue s f" "push queue_max th ev f s = (r, t)"
  shows "open_queue t f \<and> (case r of
      Inr _ \<Rightarrow> length (queued s f) < queue_max \<and> queued t f = queued s f @ [ev]
    | Inl e \<Rightarrow> e = QueueFull \<and> queue_max \<le> length (queued s f) \<and> queued t f = queued s f)"
proof -
  let ?counts = "deliveries_of f s"
  let ?s = "s\<lparr>rg_deliveries := dict_set (=) f (dict_set (=) th (Suc (count_of th ?counts)) ?counts) (rg_deliveries s)\<rparr>"
  have b: "begin_delivery th f s = (True, ?s)" using assms(1) by (simp add: begin_delivery_def Let_def open_queue_def)
  show ?thesis
  proof (cases "queue_max \<le> length (queued s f)")
    case True
    then have "run_body (\<lambda>f. step_over None queue_max) admit_all ev f ?s = (Inl QueueFull, ?s)"
      by (simp add: run_body_def admit_all_def step_over_def Let_def)
    moreover obtain ds where "end_delivery th f ?s = (Inr (), ?s\<lparr>rg_deliveries := ds\<rparr>)"
      using end_after_begin [of ?s f th "count_of th ?counts" ?counts "rg_deliveries s"] by auto
    ultimately have "r = Inl QueueFull" "t = s\<lparr>rg_deliveries := ds\<rparr>"
      using assms(2) b by (simp_all add: push_def run_fold_def finish_run_def)
    with True assms(1) show ?thesis by (simp add: open_queue_def)
  next
    case False
    let ?q = "(rg_next s, queued s f @ [ev])"
    let ?t = "set_cell f (\<lambda>c. c\<lparr>fo_state := ?q, fo_version := Suc (fo_version c)\<rparr>) (?s\<lparr>rg_next := Suc (rg_next s)\<rparr>)"
    have "run_body (\<lambda>f. step_over None queue_max) admit_all ev f ?s = (Inr (), ?t)"
      using False assms(1) by (simp add: run_body_def admit_all_def step_over_def keep_answer_def open_queue_def Let_def)
    moreover obtain ds where "end_delivery th f ?t = (Inr (), ?t\<lparr>rg_deliveries := ds\<rparr>)"
      using end_after_begin [of ?t f th "count_of th ?counts" ?counts "rg_deliveries s"] by (auto simp: set_cell_def)
    ultimately have "r = Inr ()" "t = ?t\<lparr>rg_deliveries := ds\<rparr>"
      using assms(2) b by (simp_all add: push_def run_fold_def finish_run_def)
    with False assms(1) show ?thesis by (simp add: open_queue_def set_cell_def)
  qed
qed

lemma drain_result:
  "open_queue s f \<Longrightarrow> drain f s = (out, t) \<Longrightarrow> open_queue t f \<and> out = queued s f \<and> queued t f = []"
  by (auto simp: drain_def registry_take_def open_queue_def set_cell_def Let_def)

text \<open>C39. A subscription's queue never holds more than its bound, and over any interleaving of deliveries and
  drains no accepted event is lost, duplicated or reordered: what was drained, then what is still queued, is
  what was queued at first and then accepted. A delivery is refused exactly when the queue is full.\<close>

theorem queue_conserves:
  assumes "open_queue s f" "length (queued s f) \<le> queue_max" "queue_run queue_max th f ops s = (accepted, drained, t)"
  shows "drained @ queued t f = queued s f @ accepted \<and> length (queued t f) \<le> queue_max"
  using assms
proof (induction queue_max th f ops s arbitrary: accepted drained t rule: queue_run.induct)
  case (2 queue_max th f ev ops s)
  obtain r s1 where p: "push queue_max th ev f s = (r, s1)" by (cases "push queue_max th ev f s")
  obtain a d u where run: "queue_run queue_max th f ops s1 = (a, d, u)" by (cases "queue_run queue_max th f ops s1")
  note res = push_result [OF "2.prems"(1) p]
  have "length (queued s1 f) \<le> queue_max" using res "2.prems"(2) by (cases r) simp_all
  with "2.IH" [OF p [symmetric] _ this run] res have ih: "d @ queued u f = queued s1 f @ a \<and> length (queued u f) \<le> queue_max" by blast
  then show ?case using res "2.prems"(3) p run by (cases r) auto
next
  case (3 queue_max th f ops s)
  obtain out s1 where p: "drain f s = (out, s1)" by (cases "drain f s")
  obtain a d u where run: "queue_run queue_max th f ops s1 = (a, d, u)" by (cases "queue_run queue_max th f ops s1")
  note res = drain_result [OF "3.prems"(1) p]
  from "3.IH" [OF p [symmetric] _ _ run] res have "d @ queued u f = queued s1 f @ a \<and> length (queued u f) \<le> queue_max" by simp
  then show ?case using res "3.prems"(3) p run by auto
qed simp

section \<open>Bridges\<close>

lemma instantiate_subst: "instantiate template b = subst_rec (assigned b) template"
  by (simp add: instantiate_def map_atoms_rec) (induction template; auto simp: assigned_def split: option.split)

text \<open>A bridge with no template of its own copies: what it writes to its target for a delivered event is the
  atom that arrived, for any pattern without the anonymous variable.\<close>

theorem bridge_copies:
  assumes "match pattern a = Some b" "''_'' \<notin> set (variables pattern)"
  shows "\<exists>a'. atom_eq a' a \<and>
    bridge_step add remove pattern None \<lparr>ev_action = action, ev_space = space, ev_atom = a, ev_bindings = b,
      ev_generation = n, ev_sequence = q\<rparr> s = (case action of Added \<Rightarrow> add a' s | Removed \<Rightarrow> remove a' s)"
proof -
  have "fits (assigned b) pattern a" using match_sound [OF assms(1)] by blast
  from fits_subst [OF this] assms(2) have "atom_eq (instantiate pattern b) a" by (simp add: instantiate_subst set_variables)
  then show ?thesis by (intro exI [of _ "instantiate pattern b"]) (simp add: bridge_step_def split: change.split)
qed

section \<open>Delivery accounting\<close>

text \<open>How many steps of a fold each thread is inside of.\<close>

definition in_flight :: "('v, 'w) registry \<Rightarrow> nat \<Rightarrow> int \<Rightarrow> nat" where
  "in_flight s f th = count_of th (deliveries_of f s)"

definition accounted :: "('v, 'w) registry \<Rightarrow> bool" where
  "accounted s = (dict_ok (=) (rg_deliveries s) \<and> (\<forall>f. dict_ok (=) (deliveries_of f s)))"

definition balanced :: "('v, 'w) registry \<Rightarrow> ('v, 'w) registry \<Rightarrow> bool" where
  "balanced s t = (accounted s \<longrightarrow> accounted t \<and> in_flight t = in_flight s)"

lemma balanced_refl [simp]: "balanced s s" by (simp add: balanced_def)

lemma balanced_trans: "balanced s t \<Longrightarrow> balanced t u \<Longrightarrow> balanced s u"
  by (simp add: balanced_def)

lemma balanced_same: "rg_deliveries t = rg_deliveries s \<Longrightarrow> balanced s t"
  by (simp add: balanced_def accounted_def in_flight_def [abs_def] deliveries_of_def)

interpretation balancing: call_effect balanced
  by unfold_locales (auto intro: balanced_trans)

lemma deliveries_set:
  "rg_deliveries t = dict_set (=) f d (rg_deliveries s) \<Longrightarrow> deliveries_of g t = (if g = f then d else deliveries_of g s)"
  by (simp add: deliveries_of_def)

lemma deliveries_del:
  "dict_ok (=) (rg_deliveries s) \<Longrightarrow> rg_deliveries t = dict_del (=) f (rg_deliveries s) \<Longrightarrow>
     deliveries_of g t = (if g = f then [] else deliveries_of g s)"
  by (simp add: deliveries_of_def)

lemma begin_delivery_counts:
  assumes "begin_delivery th f s = (True, t)" "accounted s"
  shows "accounted t \<and> in_flight t = (in_flight s)(f := (in_flight s f)(th := Suc (in_flight s f th)))"
proof -
  have t: "rg_deliveries t = dict_set (=) f (dict_set (=) th (Suc (in_flight s f th)) (deliveries_of f s)) (rg_deliveries s)"
    using assms(1) by (auto simp: begin_delivery_def in_flight_def Let_def split: if_splits)
  show ?thesis using assms(2)
    by (auto simp: accounted_def in_flight_def [abs_def] deliveries_set [OF t] t plain_key.dict_ok_set count_of_def fun_eq_iff)
qed

lemma end_delivery_counts:
  assumes "0 < in_flight s f th" "accounted s"
  shows "\<exists>t. end_delivery th f s = (Inr (), t) \<and> accounted t \<and>
    in_flight t = (in_flight s)(f := (in_flight s f)(th := in_flight s f th - 1))"
proof -
  let ?c = "deliveries_of f s"
  obtain left where left_eq: "left = (if count_of th ?c = 1 then dict_del (=) th ?c else dict_set (=) th (count_of th ?c - 1) ?c)"
    by simp
  obtain t where e: "end_delivery th f s = (Inr (), t)"
    and t: "rg_deliveries t = (if left = [] then dict_del (=) f (rg_deliveries s) else dict_set (=) f left (rg_deliveries s))"
    using assms(1) by (auto simp: end_delivery_def in_flight_def Let_def left_eq)
  have ok: "dict_ok (=) (rg_deliveries s)" "dict_ok (=) ?c" using assms(2) by (simp_all add: accounted_def)
  have d: "deliveries_of g t = (if g = f then left else deliveries_of g s)" for g
    using deliveries_set [of t f left s g] deliveries_del [OF ok(1), of t f g] t by (cases "left = []") simp_all
  have left: "dict_ok (=) left" "count_of h left = (if h = th then count_of th ?c - 1 else count_of h ?c)" for h
    using ok(2) by (auto simp: plain_key.dict_ok_set plain_key.dict_ok_del count_of_def left_eq)
  have "dict_ok (=) (rg_deliveries t)" using ok(1) by (simp add: t plain_key.dict_ok_set plain_key.dict_ok_del)
  then have "accounted t" using left(1) assms(2) by (simp add: accounted_def d)
  moreover have "in_flight t = (in_flight s)(f := (in_flight s f)(th := in_flight s f th - 1))"
    using left(2) by (simp add: in_flight_def fun_eq_iff d)
  ultimately show ?thesis using e by blast
qed

definition balanced_code :: "('v, 'w) step \<Rightarrow> ('v, 'w) guard \<Rightarrow> bool" where
  "balanced_code step admits =
     ((\<forall>f ev v s. balanced s (snd (step f ev v s))) \<and> (\<forall>f ev s. balanced s (snd (admits f ev s))))"

lemma run_body_balanced: "balanced_code step admits \<Longrightarrow> balanced s (snd (run_body step admits ev f s))"
proof -
  assume code: "balanced_code step admits"
  have "balanced t (snd (keep_answer f before after t))" for before after t
    by (rule balanced_same) (simp add: keep_answer_def set_cell_def)
  then show ?thesis unfolding run_body_def Let_def using code by (auto simp: balanced_code_def intro!: balancing.bind)
qed

lemma run_fold_balanced:
  assumes code: "balanced_code step admits" and s: "accounted s"
  shows "accounted (snd (run_fold step admits th ev f s)) \<and> in_flight (snd (run_fold step admits th ev f s)) = in_flight s \<and>
    (active s f \<longrightarrow> fst (run_fold step admits th ev f s) = fst (run_body step admits ev f (snd (begin_delivery th f s))))"
proof -
  obtain go t where b: "begin_delivery th f s = (go, t)" by (cases "begin_delivery th f s")
  show ?thesis
  proof (cases go)
    case False
    with b have "t = s" "\<not> active s f" by (auto simp: begin_delivery_def Let_def split: if_splits)
    with b False s show ?thesis by (simp add: run_fold_def)
  next
    case True
    with b have go: "begin_delivery th f s = (True, t)" by simp
    obtain r u where body: "run_body step admits ev f t = (r, u)" by (cases "run_body step admits ev f t")
    note counts = begin_delivery_counts [OF go s]
    have u: "accounted u" "in_flight u = in_flight t"
      using run_body_balanced [OF code, of t ev f] body counts by (simp_all add: balanced_def)
    then have "0 < in_flight u f th" using counts by simp
    from end_delivery_counts [OF this u(1)] obtain v where v: "end_delivery th f u = (Inr (), v)" "accounted v"
      "in_flight v = (in_flight u)(f := (in_flight u f)(th := in_flight u f th - 1))" by blast
    have "in_flight v = in_flight s" using v(3) u(2) counts by (auto simp: fun_eq_iff)
    with v go body show ?thesis by (simp add: run_fold_def finish_run_def)
  qed
qed

lemma deliver_loop_balanced:
  assumes code: "balanced_code step admits"
  shows "accounted s \<Longrightarrow>
    accounted (snd (deliver_loop step admits th ev fs failures s)) \<and> in_flight (snd (deliver_loop step admits th ev fs failures s)) = in_flight s"
proof (induction fs arbitrary: failures s)
  case (Cons f fs)
  have "accounted t \<and> in_flight t = in_flight s" if "run_fold step admits th ev' f s = (r, t)" for ev' r t
    using run_fold_balanced [OF code Cons.prems, of th ev' f] that by simp
  with Cons show ?case by (auto split: option.split prod.split sum.split)
qed simp

text \<open>C40. Delivery keeps its books: once a change has been delivered, every fold counts as many steps in flight, on
  every thread, as before, whichever watchers failed, as long as the caller's own code leaves the counts as it
  found them. So a cancel that waits for the steps in flight is not kept waiting by a finished delivery.\<close>

theorem delivery_balanced:
  assumes "balanced_code step admits" "accounted s"
  shows "accounted (snd (deliver_change okey step admits th action space a sequence s)) \<and>
    in_flight (snd (deliver_change okey step admits th action space a sequence s)) = in_flight s"
proof -
  obtain n t where t: "tick s = (n, t)" by (cases "tick s")
  then have same: "rg_deliveries t = rg_deliveries s" by (auto simp: tick_def split: if_splits)
  have st: "accounted t" "in_flight t = in_flight s" using balanced_same [OF same] assms(2) by (simp_all add: balanced_def)
  have rep: "snd (report m) = snd m" for m :: "fold_error list \<times> ('a, 'b) registry"
    by (auto simp: report_def split: prod.split list.split)
  show ?thesis using deliver_loop_balanced [OF assms(1) st(1)] st(2) by (simp add: deliver_change_def t rep)
qed

section \<open>A registry at work\<close>

definition sample_cell :: "'v \<Rightarrow> 'v fold" where
  "sample_cell v = \<lparr>fo_space = [], fo_pattern = Symbol [], fo_on = OnAdd, fo_stateless = False, fo_state = v,
     fo_initial = v, fo_active = False, fo_version = 0, fo_consumed = 0, fo_fact = None\<rparr>"

definition obliging :: engine_script where
  "obliging _ = Accepted"

text \<open>A store of atoms that finds and removes by equality.\<close>

definition exact_store :: reflector where
  "exact_store = \<lparr>rf_holds = (\<lambda>xs a. list_ex (\<lambda>x. atom_eq x a) xs), rf_drop = (\<lambda>a xs. filter (\<lambda>x. \<not> atom_eq x a) xs)\<rparr>"

definition order_of :: "atom \<Rightarrow> atom" where
  "order_of a = Expression [Symbol ''order'', a]"

definition watched :: "(queue, unit) registry" where
  "watched = snd (subscribe exact_store obliging id 0 None (\<lambda>f t. (Inr (), t)) ''&self'' (order_of (Variable ''x'')) OnAdd
     False (0, []) (empty_registry (sample_cell (0, [])) ()))"

lemma watched_reached: "reaches exact_store obliging id (empty_registry (sample_cell (0, [])) ()) watched"
  unfolding watched_def by (rule move_reaches [OF move.subscribed]) simp

theorem registry_stays_filed_witness:
  "distinct (rg_folds watched) \<and> mi_ok id (index_of watched ''&self'') \<and>
    filter (\<lambda>(p, f). active watched f) (map snd (mi_entries (index_of watched ''&self''))) =
      map (\<lambda>f. (cell_pattern watched f, f)) (for_space watched ''&self'')"
  by (rule registry_stays_filed [OF watched_reached])

definition queueing :: "(queue, unit) step" where
  "queueing f = step_over None 2"

lemma queueing_tame: "tame_step rf eng okey queueing"
proof -
  have alloc: "reaches rf eng okey s (s\<lparr>rg_next := Suc (rg_next s)\<rparr>)" for s :: "(queue, unit) registry"
  proof -
    have "s\<lparr>rg_next := rg_next s + 1, rg_world := ()\<rparr> = s\<lparr>rg_next := Suc (rg_next s)\<rparr>" by (cases s) simp
    with move_reaches [OF move.outside [of rf eng okey s "()" 1]] show ?thesis by metis
  qed
  show ?thesis by (auto simp: tame_step_def queueing_def step_over_def alloc)
qed

lemma admit_all_tame: "tame_guard rf eng okey admit_all"
  by (simp add: tame_guard_def admit_all_def)

theorem delivery_is_broadcast_witness:
  "deliver_change id queueing admit_all 0 Added ''&self'' (order_of (Symbol ''a'')) None watched =
     broadcast queueing admit_all 0 Added ''&self'' (order_of (Symbol ''a'')) None watched"
proof (rule delivery_is_broadcast [OF watched_reached queueing_tame admit_all_tame])
  show "tokenable (order_of (Symbol ''a''))" by (simp add: order_of_def)
  show "tokenable_folds watched ''&self''" unfolding tokenable_folds_def by code_simp
qed



text \<open>A publication that goes through, and one refused at the registry: the atom is taken back, the other one stays.\<close>

lemma exact_tells_apart: "tells_apart exact_store mark xs"
  by (auto simp: tells_apart_def exact_store_def other_marks_def list_ex_iff)

definition refusing :: engine_script where
  "refusing n = (if n < rg_turn watched + 3 then Accepted else if n = rg_turn watched + 3 then Raised False else Accepted)"

definition published_now :: "(fold_error + unit) \<times> (queue, unit) registry" where
  "published_now = publish_subscription exact_store obliging id 0 (Symbol ''m'') 5 watched"

definition published_not :: "(fold_error + unit) \<times> (queue, unit) registry" where
  "published_not = publish_subscription exact_store refusing id 0 (Symbol ''m'') 5
     (set_cell 5 (\<lambda>c. c\<lparr>fo_space := ''&other''\<rparr>) watched)"

lemma published_runs:
  "fst published_now = Inr ()" "fst published_not = Inl (EngineRaised 7)"
  "rg_facts watched = [reflection ''&self'' (order_of (Variable ''x'')) OnAdd]"
  "has_fact (snd published_not) (Symbol ''m'') = False"
  "with_mark exact_store (Symbol ''m'') (rg_facts watched) = rg_facts watched @ [Symbol ''m'']"
  by code_simp+

theorem publication_all_or_nothing_witness:
  "rg_folds (snd published_now) = rg_folds watched @ [5] \<and> rg_facts (snd published_now) = rg_facts watched @ [Symbol ''m''] \<and>
   rg_folds (snd published_not) = rg_folds watched \<and> \<not> fo_active (rg_cell (snd published_not) 5) \<and>
   other_marks (Symbol ''m'') (rg_facts (snd published_not)) = other_marks (Symbol ''m'') (rg_facts watched)"
proof -
  let ?w = "set_cell 5 (\<lambda>c. c\<lparr>fo_space := ''&other''\<rparr>) watched"
  have "published watched" "published ?w" unfolding published_def by code_simp+
  moreover have "5 \<notin> set (rg_folds watched)" "5 \<notin> set (rg_folds ?w)" by code_simp+
  ultimately have ok: "published watched" "published ?w" "5 \<notin> set (rg_folds watched)" "5 \<notin> set (rg_folds ?w)" by blast+
  have same: "rg_folds ?w = rg_folds watched" "rg_facts ?w = rg_facts watched" by (simp_all add: set_cell_def)
  have now: "publish_subscription exact_store obliging id 0 (Symbol ''m'') 5 watched = (Inr (), snd published_now)"
    using published_runs(1) by (metis prod.collapse published_now_def)
  have not: "publish_subscription exact_store refusing id 0 (Symbol ''m'') 5 ?w = (Inl (EngineRaised 7), snd published_not)"
    using published_runs(2) by (metis prod.collapse published_not_def)
  note 1 = publication_all_or_nothing [OF ok(1,3) now, unfolded sum.case] and 2 = publication_all_or_nothing [OF ok(2,4) not, unfolded sum.case]
  have "\<not> fo_active (rg_cell (snd published_not) 5)" using 2 by (simp del: fun_upd_apply) (simp add: set_cell_def)
  with 1 2 same published_runs(5) exact_tells_apart show ?thesis by (simp del: fun_upd_apply)
qed

definition arrival :: "string \<Rightarrow> event" where
  "arrival x = \<lparr>ev_action = Added, ev_space = ''&self'', ev_atom = order_of (Symbol x), ev_bindings = [(''x'', Symbol x)],
     ev_generation = 0, ev_sequence = None\<rparr>"

definition arrivals :: "queue_op list" where
  "arrivals = [Push (arrival ''a''), Push (arrival ''b''), Push (arrival ''c''), Drain, Push (arrival ''d'')]"

theorem queue_conserves_witness:
  "fst (snd (queue_run 2 0 0 arrivals watched)) @ queued (snd (snd (queue_run 2 0 0 arrivals watched))) 0 =
     queued watched 0 @ fst (queue_run 2 0 0 arrivals watched)
   \<and> length (queued (snd (snd (queue_run 2 0 0 arrivals watched))) 0) \<le> 2"
proof (rule queue_conserves)
  show "open_queue watched 0" unfolding open_queue_def by code_simp
  show "length (queued watched 0) \<le> 2" by code_simp
qed simp

theorem bridge_copies_witness:
  "\<exists>a'. atom_eq a' (order_of (Symbol ''a'')) \<and>
    bridge_step (\<lambda>a s. (Inr (), s\<lparr>rg_world := [a]\<rparr>)) (\<lambda>a s. (Inr (), s)) (order_of (Variable ''x'')) None
      \<lparr>ev_action = Added, ev_space = ''&self'', ev_atom = order_of (Symbol ''a''), ev_bindings = [(''x'', Symbol ''a'')],
       ev_generation = 0, ev_sequence = None\<rparr> (empty_registry (sample_cell (0 :: nat)) []) =
    (case Added of Added \<Rightarrow> (\<lambda>a s. (Inr (), s\<lparr>rg_world := [a]\<rparr>)) a' (empty_registry (sample_cell (0 :: nat)) [])
      | Removed \<Rightarrow> (\<lambda>a s. (Inr (), s)) a' (empty_registry (sample_cell (0 :: nat)) []))"
proof (rule bridge_copies)
  show "match (order_of (Variable ''x'')) (order_of (Symbol ''a'')) = Some [(''x'', Symbol ''a'')]" by code_simp
  show "''_'' \<notin> set (variables (order_of (Variable ''x'')))" by code_simp
qed

theorem delivery_balanced_witness:
  "accounted (snd (deliver_change id queueing admit_all 0 Added ''&self'' (order_of (Symbol ''a'')) None watched)) \<and>
    in_flight (snd (deliver_change id queueing admit_all 0 Added ''&self'' (order_of (Symbol ''a'')) None watched)) = in_flight watched"
proof (rule delivery_balanced)
  have "rg_deliveries watched = []" by code_simp
  then show "accounted watched" by (simp add: accounted_def deliveries_of_def)
  have "balanced s (s\<lparr>rg_next := n\<rparr>)" for s :: "(queue, unit) registry" and n by (rule balanced_same) simp
  then show "balanced_code queueing admit_all" by (simp add: balanced_code_def queueing_def step_over_def admit_all_def)
qed

section \<open>What matching does to reflection atoms\<close>

text \<open>The engine's \<open>metta_py_contains\<close> answers by matching, not by equality. Then a subscription to every order finds the
  atom of a subscription to one order, and is published without its own: when the first is withdrawn, the
  second is live and the reflection space says nothing.\<close>

definition matching_store :: reflector where
  "matching_store = exact_store\<lparr>rf_holds := (\<lambda>xs a. list_ex (\<lambda>x. match a x \<noteq> None \<or> match x a \<noteq> None) xs)\<rparr>"

definition both_watched :: "(queue, unit) registry" where
  "both_watched =
     (let sub = (\<lambda>p s. snd (subscribe matching_store obliging id 0 None (\<lambda>f t. (Inr (), t)) ''&self'' (order_of p) OnAdd
        False (0, []) s)) in
      snd (subscription_cancel matching_store obliging id False 0
        (sub (Variable ''x'') (sub (Symbol ''a'') (empty_registry (sample_cell (0, [])) ())))))"

lemma reflection_lost: "rg_folds both_watched = [1] \<and> fo_active (rg_cell both_watched 1) \<and> rg_facts both_watched = []"
  by code_simp

text \<open>Removal takes the first atom that unifies. A publication of the wider subscription that fails, at the registry say,
  finds the atom of the narrower one, takes it for its own and removes it: the narrower one is live and the reflection
  space says nothing.\<close>

definition subtracting_store :: reflector where
  "subtracting_store = matching_store\<lparr>rf_drop := (\<lambda>a xs.
     let differs = (\<lambda>x. match a x = None \<and> match x a = None) in takeWhile differs xs @ tl (dropWhile differs xs))\<rparr>"

definition narrow_watched :: "(queue, unit) registry" where
  "narrow_watched = snd (subscribe subtracting_store obliging id 0 None (\<lambda>f t. (Inr (), t)) ''&self'' (order_of (Symbol ''a'')) OnAdd
     False (0, []) (empty_registry (sample_cell (0, [])) ()))"

definition failed_wide :: "(fold_error + unit) \<times> (queue, unit) registry" where
  "failed_wide = publish_subscription subtracting_store (\<lambda>n. if n = rg_turn narrow_watched + 2 then Raised False else Accepted) id 0
     (reflection ''&self'' (order_of (Variable ''x'')) OnAdd) 1 (set_cell 1 (\<lambda>c. c\<lparr>fo_space := ''&other''\<rparr>) narrow_watched)"

lemma reflection_stolen:
  "rg_facts narrow_watched = [reflection ''&self'' (order_of (Symbol ''a'')) OnAdd]"
  "\<not> (\<exists>u. fst failed_wide = Inr u) \<and> rg_folds (snd failed_wide) = [0] \<and> fo_active (rg_cell (snd failed_wide) 0) \<and> rg_facts (snd failed_wide) = []"
  by code_simp+

end
