(* ===== verification/Journal.thy ===== *)
theory Journal
  imports Traversal
begin

text \<open>
  The persistent fact space, \<open>metta/foreign/_persistent.py\<close>: facts of declared heads kept by generated Prolog predicates,
  with staged transactions per thread. The predicates the module writes out (\<open>_module_source\<close>) are modelled with it, over
  the facts of the module in assertion order; library(persistency) below them, and whether a crossing answers or
  raises, is a script read at a turn. A mutation runs inside transaction/1, so a crossing that raises leaves the facts
  as they were. The provider's lock makes a call one step.
\<close>

section \<open>Facts, native and on the wire\<close>

datatype jwire = WSym string | WText string | WInt int | WFloat pyfloat | WBool bool | WOpaque nat

datatype native = NAtom string | NText string | NInt int | NFloat pyfloat

type_synonym nfact = "string \<times> native list"

text \<open>On the engine the symbol true is the boolean, so booleans go in as atoms, and the atoms true and false come out
  as booleans. A NaN keeps no identity there: the engine's is one value (payload bits are not modelled).\<close>

fun decode_wire :: "jwire \<Rightarrow> native option" where
  "decode_wire (WSym s) = Some (NAtom s)"
| "decode_wire (WText s) = Some (NText s)"
| "decode_wire (WInt i) = Some (NInt i)"
| "decode_wire (WFloat f) = Some (NFloat (if is_nan f then NaN 0 else f))"
| "decode_wire (WBool b) = Some (NAtom (if b then ''true'' else ''false''))"
| "decode_wire (WOpaque _) = None"

definition encode_native :: "native \<Rightarrow> jwire" where
  "encode_native n =
     (case n of
        NAtom s \<Rightarrow> if s = ''true'' then WBool True else if s = ''false'' then WBool False else WSym s
      | NText s \<Rightarrow> WText s
      | NInt i \<Rightarrow> WInt i
      | NFloat f \<Rightarrow> WFloat f)"

text \<open>\<open>_atom_from_wire\<close> on these wires.\<close>

fun atom_of_wire :: "jwire \<Rightarrow> atom" where
  "atom_of_wire (WSym s) = Symbol s"
| "atom_of_wire (WText s) = gnd (VStr s)"
| "atom_of_wire (WInt i) = gnd (VInt i)"
| "atom_of_wire (WFloat f) = gnd (VFloat f)"
| "atom_of_wire (WBool b) = gnd (VBool b)"
| "atom_of_wire (WOpaque i) = gnd (VObj i)"

definition fact_atom :: "nfact \<Rightarrow> atom" where
  "fact_atom fct = Expression (Symbol (fst fct) # map (\<lambda>n. atom_of_wire (encode_native n)) (snd fct))"

section \<open>State\<close>

type_synonym schema = "(string, nat) dict"

record txn =
  tx_base :: "atom list"
  tx_atoms :: "atom list"

datatype outcome = Answered | Broken

type_synonym crossings = "nat \<Rightarrow> outcome"

text \<open>\<open>ps_stacks\<close> holds each thread's savepoints, the innermost first.\<close>

record persistent =
  ps_schema :: schema
  ps_closed :: bool
  ps_failure :: "string option"
  ps_stacks :: "int \<Rightarrow> txn list"
  ps_facts :: "nfact list"
  ps_turn :: nat

datatype journal_error =
    NotAFact atom
  | UnknownHead string
  | WrongArity string
  | NotStorable atom
  | LiveCell atom
  | SpaceClosed
  | Unusable string
  | CallFailed string
  | EngineBroke nat
  | StaleBase
  | NoTransaction string
  | InsideTransaction

type_synonym 'a jcall = "(journal_error + 'a) \<times> persistent"

definition thenJ :: "'a jcall \<Rightarrow> ('a \<Rightarrow> persistent \<Rightarrow> 'b jcall) \<Rightarrow> 'b jcall" where
  "thenJ m f = (case m of (Inl e, s) \<Rightarrow> (Inl e, s) | (Inr a, s) \<Rightarrow> f a s)"

lemma thenJ_simps [simp]: "thenJ (Inl e, s) f = (Inl e, s)" "thenJ (Inr a, s) f = f a s"
  by (simp_all add: thenJ_def)

section \<open>The generated predicates\<close>

text \<open>Each answers the facts after it, or fails.\<close>

definition fits_schema :: "schema \<Rightarrow> string \<Rightarrow> nat \<Rightarrow> bool" where
  "fits_schema schema h n = (dict_get (=) h schema = Some n)"

fun decode_all :: "jwire list \<Rightarrow> native list option" where
  "decode_all [] = Some []"
| "decode_all (w # ws) =
     (case decode_wire w of None \<Rightarrow> None | Some n \<Rightarrow> map_option ((#) n) (decode_all ws))"

definition native_fact :: "schema \<Rightarrow> string \<times> jwire list \<Rightarrow> nfact option" where
  "native_fact schema part =
     (if fits_schema schema (fst part) (length (snd part)) then map_option (Pair (fst part)) (decode_all (snd part)) else None)"

definition facts_of_head :: "nfact list \<Rightarrow> string \<times> nat \<Rightarrow> nfact list" where
  "facts_of_head facts entry = filter (\<lambda>fct. fst fct = fst entry \<and> length (snd fct) = snd entry) facts"

definition goal_all :: "schema \<Rightarrow> nfact list \<Rightarrow> (atom list \<times> nfact list) option" where
  "goal_all schema facts = Some (map fact_atom (concat (map (facts_of_head facts) schema)), facts)"

definition goal_match :: "schema \<Rightarrow> string \<Rightarrow> nfact list \<Rightarrow> (atom list \<times> nfact list) option" where
  "goal_match schema h facts =
     (case dict_get (=) h schema of
        None \<Rightarrow> None
      | Some n \<Rightarrow> Some (map fact_atom (facts_of_head facts (h, n)), facts))"

definition goal_add :: "schema \<Rightarrow> string \<times> jwire list \<Rightarrow> nfact list \<Rightarrow> (unit \<times> nfact list) option" where
  "goal_add schema part facts = map_option (\<lambda>fct. ((), facts @ [fct])) (native_fact schema part)"

definition goal_remove :: "schema \<Rightarrow> string \<times> jwire list \<Rightarrow> nfact list \<Rightarrow> (bool \<times> nfact list) option" where
  "goal_remove schema part facts = map_option (\<lambda>fct. (fct \<in> set facts, remove1 fct facts)) (native_fact schema part)"

fun apply_remove :: "schema \<Rightarrow> (string \<times> jwire list) list \<Rightarrow> nfact list \<Rightarrow> nfact list option" where
  "apply_remove schema [] facts = Some facts"
| "apply_remove schema (part # parts) facts =
     (case native_fact schema part of
        None \<Rightarrow> None
      | Some fct \<Rightarrow> if fct \<in> set facts then apply_remove schema parts (remove1 fct facts) else None)"

fun apply_add :: "schema \<Rightarrow> (string \<times> jwire list) list \<Rightarrow> nfact list \<Rightarrow> nfact list option" where
  "apply_add schema [] facts = Some facts"
| "apply_add schema (part # parts) facts =
     (case native_fact schema part of None \<Rightarrow> None | Some fct \<Rightarrow> apply_add schema parts (facts @ [fct]))"

definition goal_apply_diff ::
  "schema \<Rightarrow> (string \<times> jwire list) list \<Rightarrow> (string \<times> jwire list) list \<Rightarrow> nfact list \<Rightarrow> (unit \<times> nfact list) option" where
  "goal_apply_diff schema removed added facts =
     (case apply_remove schema removed facts of
        None \<Rightarrow> None
      | Some kept \<Rightarrow> map_option (Pair ()) (apply_add schema added kept))"

definition goal_clear :: "schema \<Rightarrow> nfact list \<Rightarrow> (unit \<times> nfact list) option" where
  "goal_clear schema facts = Some ((), filter (\<lambda>fct. \<not> fits_schema schema (fst fct) (length (snd fct))) facts)"

section \<open>Crossings\<close>

definition ps_call ::
  "crossings \<Rightarrow> bool \<Rightarrow> string \<Rightarrow> (nfact list \<Rightarrow> ('a \<times> nfact list) option) \<Rightarrow> persistent \<Rightarrow> 'a jcall" where
  "ps_call eng require_open helper goal s =
     (if require_open \<and> ps_closed s then (Inl SpaceClosed, s)
      else
        let s1 = s\<lparr>ps_turn := Suc (ps_turn s)\<rparr> in
        case eng (ps_turn s) of
          Broken \<Rightarrow> (Inl (EngineBroke (ps_turn s)), s1)
        | Answered \<Rightarrow>
            (case goal (ps_facts s) of
               None \<Rightarrow> (Inl (CallFailed helper), s1)
             | Some (a, facts) \<Rightarrow> (Inr a, s1\<lparr>ps_facts := facts\<rparr>)))"

text \<open>A write that fails in any way makes the provider refuse later writes.\<close>

definition write_call ::
  "crossings \<Rightarrow> string \<Rightarrow> (nfact list \<Rightarrow> ('a \<times> nfact list) option) \<Rightarrow> persistent \<Rightarrow> 'a jcall" where
  "write_call eng helper goal s =
     (if ps_closed s then (Inl SpaceClosed, s)
      else case ps_failure s of
        Some earlier \<Rightarrow> (Inl (Unusable earlier), s)
      | None \<Rightarrow>
          (case ps_call eng True helper goal s of
             (Inl e, s1) \<Rightarrow> (Inl e, s1\<lparr>ps_failure := Some helper\<rparr>)
           | (Inr a, s1) \<Rightarrow> (Inr a, s1)))"

section \<open>What may be stored\<close>

definition validated_fact_head :: "atom \<Rightarrow> schema \<Rightarrow> journal_error + string \<times> atom list" where
  "validated_fact_head a schema =
     (case a of
        Expression (Symbol h # params) \<Rightarrow>
          (case dict_get (=) h schema of
             None \<Rightarrow> Inl (UnknownHead h)
           | Some n \<Rightarrow> if length params \<noteq> n then Inl (WrongArity h) else Inr (h, params))
      | _ \<Rightarrow> Inl (NotAFact a))"

definition argument_wire :: "atom \<Rightarrow> journal_error + jwire" where
  "argument_wire a =
     (if \<not> is_ground a then Inl (NotStorable a)
      else case a of
        Symbol s \<Rightarrow> Inr (WSym s)
      | Grounded v (Some i) \<Rightarrow> if is_primitive v then Inr (WOpaque i) else Inl (NotStorable a)
      | Grounded (VBool b) None \<Rightarrow> Inr (WBool b)
      | Grounded (VInt i) None \<Rightarrow> Inr (WInt i)
      | Grounded (VFloat f) None \<Rightarrow> Inr (WFloat f)
      | Grounded (VStr s) None \<Rightarrow> Inr (WText s)
      | _ \<Rightarrow> Inl (NotStorable a))"

text \<open>\<open>live\<close> says which symbols name a live State cell.\<close>

definition fact_parts :: "(string \<Rightarrow> bool) \<Rightarrow> bool \<Rightarrow> schema \<Rightarrow> atom \<Rightarrow> journal_error + string \<times> jwire list" where
  "fact_parts live durable schema a =
     bindE (validated_fact_head a schema) (\<lambda>(h, params).
       if durable \<and> list_ex (\<lambda>p. case p of Symbol s \<Rightarrow> live s | _ \<Rightarrow> False) params then Inl (LiveCell a)
       else bindE (concatE (\<lambda>p. bindE (argument_wire p) (\<lambda>w. Inr [w])) params) (\<lambda>ws. Inr (h, ws)))"

fun all_parts :: "(string \<Rightarrow> bool) \<Rightarrow> bool \<Rightarrow> schema \<Rightarrow> atom list \<Rightarrow> journal_error + (string \<times> jwire list) list" where
  "all_parts live durable schema [] = Inr []"
| "all_parts live durable schema (a # as) =
     bindE (fact_parts live durable schema a) (\<lambda>p. bindE (all_parts live durable schema as) (\<lambda>ps. Inr (p # ps)))"

section \<open>Multisets of facts\<close>

definition tallied :: "(atom, nat) dict \<Rightarrow> atom \<Rightarrow> nat" where
  "tallied d a = (case dict_get atom_eq a d of None \<Rightarrow> 0 | Some n \<Rightarrow> n)"

definition fact_tally :: "atom list \<Rightarrow> (atom, nat) dict" where
  "fact_tally as = fold (\<lambda>a d. dict_set atom_eq a (Suc (tallied d a)) d) as []"

fun surplus_over :: "atom list \<Rightarrow> (atom, nat) dict \<Rightarrow> atom list" where
  "surplus_over [] remaining = []"
| "surplus_over (a # left) remaining =
     (if tallied remaining a \<noteq> 0
      then surplus_over left (dict_set atom_eq a (tallied remaining a - 1) remaining)
      else a # surplus_over left remaining)"

definition ordered_surplus :: "atom list \<Rightarrow> atom list \<Rightarrow> atom list" where
  "ordered_surplus left right = surplus_over left (fact_tally right)"

text \<open>Counters are equal when they count every element alike.\<close>

definition same_multiset :: "atom list \<Rightarrow> atom list \<Rightarrow> bool" where
  "same_multiset left right = list_all (\<lambda>a. tallied (fact_tally left) a = tallied (fact_tally right) a) (left @ right)"

section \<open>Operations\<close>

definition durable_facts :: "crossings \<Rightarrow> string option \<Rightarrow> persistent \<Rightarrow> atom list jcall" where
  "durable_facts eng h s =
     (case h of
        None \<Rightarrow> ps_call eng True ''all'' (goal_all (ps_schema s)) s
      | Some name \<Rightarrow> ps_call eng True ''match'' (goal_match (ps_schema s) name) s)"

definition has_head :: "string \<Rightarrow> atom \<Rightarrow> bool" where
  "has_head h a = (case a of Expression (Symbol g # _) \<Rightarrow> g = h | _ \<Rightarrow> False)"

definition visible_facts :: "crossings \<Rightarrow> int \<Rightarrow> string option \<Rightarrow> persistent \<Rightarrow> atom list jcall" where
  "visible_facts eng th h s =
     (case ps_stacks s th of
        [] \<Rightarrow> durable_facts eng h s
      | t # _ \<Rightarrow> (Inr (case h of None \<Rightarrow> tx_atoms t | Some name \<Rightarrow> filter (has_head name) (tx_atoms t)), s))"

definition ps_match :: "crossings \<Rightarrow> int \<Rightarrow> atom \<Rightarrow> persistent \<Rightarrow> atom list jcall" where
  "ps_match eng th pattern s =
     (case pattern of
        Expression (Symbol h # _) \<Rightarrow>
          if dict_get (=) h (ps_schema s) \<noteq> None then visible_facts eng th (Some h) s else visible_facts eng th None s
      | _ \<Rightarrow> visible_facts eng th None s)"

definition set_stack :: "int \<Rightarrow> txn list \<Rightarrow> persistent \<Rightarrow> persistent" where
  "set_stack th ts s = s\<lparr>ps_stacks := (ps_stacks s)(th := ts)\<rparr>"

definition stage :: "int \<Rightarrow> atom list \<Rightarrow> persistent \<Rightarrow> persistent" where
  "stage th as s = (case ps_stacks s th of [] \<Rightarrow> s | t # ts \<Rightarrow> set_stack th (t\<lparr>tx_atoms := as\<rparr> # ts) s)"

definition ps_add :: "crossings \<Rightarrow> (string \<Rightarrow> bool) \<Rightarrow> int \<Rightarrow> atom \<Rightarrow> persistent \<Rightarrow> unit jcall" where
  "ps_add eng live th a s =
     (case fact_parts live True (ps_schema s) a of
        Inl e \<Rightarrow> (Inl e, s)
      | Inr part \<Rightarrow>
          (case ps_stacks s th of
             t # _ \<Rightarrow> (Inr (), stage th (tx_atoms t @ [a]) s)
           | [] \<Rightarrow> write_call eng ''add'' (goal_add (ps_schema s) part) s))"

fun remove_first :: "atom \<Rightarrow> atom list \<Rightarrow> atom list option" where
  "remove_first a [] = None"
| "remove_first a (x # xs) = (if atom_eq x a then Some xs else map_option ((#) x) (remove_first a xs))"

definition ps_remove :: "crossings \<Rightarrow> (string \<Rightarrow> bool) \<Rightarrow> int \<Rightarrow> atom \<Rightarrow> persistent \<Rightarrow> bool jcall" where
  "ps_remove eng live th a s =
     (case fact_parts live False (ps_schema s) a of
        Inl e \<Rightarrow> (Inl e, s)
      | Inr part \<Rightarrow>
          (case ps_stacks s th of
             t # _ \<Rightarrow>
               (case remove_first a (tx_atoms t) of
                  None \<Rightarrow> (Inr False, s)
                | Some left \<Rightarrow> (Inr True, stage th left s))
           | [] \<Rightarrow> write_call eng ''remove'' (goal_remove (ps_schema s) part) s))"

definition ps_clear :: "crossings \<Rightarrow> int \<Rightarrow> persistent \<Rightarrow> unit jcall" where
  "ps_clear eng th s =
     (case ps_stacks s th of
        t # _ \<Rightarrow> (Inr (), stage th [] s)
      | [] \<Rightarrow> write_call eng ''clear'' (goal_clear (ps_schema s)) s)"

definition ps_begin :: "crossings \<Rightarrow> int \<Rightarrow> persistent \<Rightarrow> unit jcall" where
  "ps_begin eng th s =
     (case ps_stacks s th of
        t # ts \<Rightarrow> (Inr (), set_stack th (\<lparr>tx_base = tx_atoms t, tx_atoms = tx_atoms t\<rparr> # t # ts) s)
      | [] \<Rightarrow> thenJ (durable_facts eng None s) (\<lambda>base s1.
          (Inr (), set_stack th (\<lparr>tx_base = base, tx_atoms = base\<rparr> # ps_stacks s1 th) s1)))"

definition commit_diff ::
  "crossings \<Rightarrow> (string \<Rightarrow> bool) \<Rightarrow> atom list \<Rightarrow> atom list \<Rightarrow> atom list \<Rightarrow> persistent \<Rightarrow> unit jcall" where
  "commit_diff eng live base removed added s =
     thenJ (durable_facts eng None s) (\<lambda>current s1.
       if \<not> same_multiset current base then (Inl StaleBase, s1)
       else case bindE (all_parts live False (ps_schema s) removed) (\<lambda>rs.
              bindE (all_parts live True (ps_schema s) added) (\<lambda>as. Inr (rs, as))) of
         Inl e \<Rightarrow> (Inl e, s1)
       | Inr (rs, as) \<Rightarrow>
           if rs = [] \<and> as = [] then (Inr (), s1)
           else write_call eng ''apply_diff'' (goal_apply_diff (ps_schema s) rs as) s1)"

text \<open>The savepoint goes whatever happens.\<close>

definition pop_stack :: "int \<Rightarrow> 'a jcall \<Rightarrow> 'a jcall" where
  "pop_stack th m = (case m of (r, s) \<Rightarrow> (r, set_stack th (tl (ps_stacks s th)) s))"

definition ps_commit :: "crossings \<Rightarrow> (string \<Rightarrow> bool) \<Rightarrow> int \<Rightarrow> persistent \<Rightarrow> unit jcall" where
  "ps_commit eng live th s =
     (case ps_stacks s th of
        [] \<Rightarrow> (Inl (NoTransaction ''commit''), s)
      | [t] \<Rightarrow> pop_stack th (commit_diff eng live (tx_base t) (ordered_surplus (tx_base t) (tx_atoms t))
          (ordered_surplus (tx_atoms t) (tx_base t)) s)
      | t # p # ts \<Rightarrow> pop_stack th (Inr (), set_stack th (t # p\<lparr>tx_atoms := tx_atoms t\<rparr> # ts) s))"

definition ps_rollback :: "int \<Rightarrow> persistent \<Rightarrow> unit jcall" where
  "ps_rollback th s =
     (case ps_stacks s th of
        [] \<Rightarrow> (Inl (NoTransaction ''rollback''), s)
      | _ \<Rightarrow> pop_stack th (Inr (), s))"

definition commit_world ::
  "crossings \<Rightarrow> (string \<Rightarrow> bool) \<Rightarrow> int \<Rightarrow> atom list \<Rightarrow> atom list \<Rightarrow> atom list \<Rightarrow> persistent \<Rightarrow> unit jcall" where
  "commit_world eng live th base removed added s =
     (if ps_stacks s th \<noteq> [] then (Inl InsideTransaction, s) else commit_diff eng live base removed added s)"

text \<open>Reloading replays what the journal file gained outside any transaction, so \<open>reloaded\<close>, the facts it leaves, is there
  even when it raises; flushing and compaction change no fact.\<close>

definition ps_sync :: "crossings \<Rightarrow> nfact list \<Rightarrow> persistent \<Rightarrow> unit jcall" where
  "ps_sync eng reloaded s =
     (if ps_closed s \<or> ps_failure s \<noteq> None then write_call eng ''sync'' (\<lambda>facts. Some ((), facts)) s
      else case write_call eng ''sync'' (\<lambda>facts. Some ((), facts)) s of (r, s1) \<Rightarrow> (r, s1\<lparr>ps_facts := reloaded\<rparr>))"

definition ps_flush :: "crossings \<Rightarrow> persistent \<Rightarrow> unit jcall" where
  "ps_flush eng s = write_call eng ''flush'' (\<lambda>facts. Some ((), facts)) s"

definition ps_compact :: "crossings \<Rightarrow> persistent \<Rightarrow> unit jcall" where
  "ps_compact eng s = write_call eng ''compact'' (\<lambda>facts. Some ((), facts)) s"

end
