(* ===== verification/Journals.thy ===== *)
theory Journals
  imports Journal "HOL-Library.Multiset"
begin

text \<open>
  What the persistent fact space promises. Facts are compared as multisets of what the store keeps of them (\<open>stored_fact\<close>):
  counters over atoms are multisets of cores, the journalled delta is multiset subtraction and addition, and
  the savepoint stack refines a stack of multisets. Every operation keeps the schema's typing, and obeys the contract
  \<open>journal_op\<close>: what raises changes no fact, and after a failed write nothing changes.
\<close>

section \<open>Counters are multisets of cores\<close>

abbreviation cores :: "atom list \<Rightarrow> atom multiset" where
  "cores as \<equiv> image_mset core (mset as)"

lemma tallied_set [simp]:
  "tallied (dict_set atom_eq a n d) b = (if core a = core b then n else tallied d b)"
  by (simp add: tallied_def atom_eq_core)

lemma tallied_cong: "core a = core b \<Longrightarrow> tallied d a = tallied d b"
  unfolding tallied_def using atom_key.dict_get_cong [of a b d] by (simp only: atom_eq_core)

lemma tallied_fold:
  "tallied (fold (\<lambda>a d. dict_set atom_eq a (Suc (tallied d a)) d) as d) b = tallied d b + count (cores as) (core b)"
proof (induction as arbitrary: d)
  case (Cons a as)
  then show ?case using tallied_cong [of a b d] by auto
qed simp

lemma tallied_fact_tally: "tallied (fact_tally as) b = count (cores as) (core b)"
  by (simp add: fact_tally_def tallied_fold) (simp add: tallied_def)

lemma surplus_count:
  "count (cores (surplus_over left d)) (core b) = count (cores left) (core b) - tallied d b"
proof (induction left d rule: surplus_over.induct)
  case (2 a left d)
  then show ?case using tallied_cong [of a b d] by (cases "core a = core b") auto
qed simp

lemma cores_surplus: "cores (ordered_surplus left right) = cores left - cores right"
proof (rule multiset_eqI)
  fix c
  show "count (cores (ordered_surplus left right)) c = count (cores left - cores right) c"
  proof (cases "c \<in># cores left")
    case True
    then obtain b where "c = core b" by auto
    then show ?thesis by (simp add: ordered_surplus_def surplus_count tallied_fact_tally)
  next
    case False
    have "set (surplus_over left d) \<subseteq> set left" for d
      by (induction left d rule: surplus_over.induct) auto
    then have "c \<notin># cores (ordered_surplus left right)" using False by (auto simp: ordered_surplus_def)
    with False show ?thesis by (simp only: not_in_iff count_diff)
  qed
qed

lemma set_surplus: "set (ordered_surplus left right) \<subseteq> set left"
proof -
  have "set (surplus_over left d) \<subseteq> set left" for d
    by (induction left d rule: surplus_over.induct) auto
  then show ?thesis by (simp add: ordered_surplus_def)
qed

lemma same_multiset_cores: "same_multiset left right \<longleftrightarrow> cores left = cores right"
proof
  assume *: "same_multiset left right"
  show "cores left = cores right"
  proof (rule multiset_eqI)
    fix c
    show "count (cores left) c = count (cores right) c"
    proof (cases "c \<in># cores (left @ right)")
      case True
      then obtain b where "b \<in> set (left @ right)" "c = core b" by auto
      with * show ?thesis by (auto simp: same_multiset_def tallied_fact_tally list_all_iff)
    next
      case False
      then have "c \<notin># cores left" "c \<notin># cores right" by auto
      then show ?thesis by (simp only: not_in_iff)
    qed
  qed
qed (simp add: same_multiset_def tallied_fact_tally list_all_iff)

lemma remove_first_cores:
  "case remove_first a as of
     None \<Rightarrow> core a \<notin># cores as
   | Some bs \<Rightarrow> core a \<in># cores as \<and> cores bs = cores as - {#core a#} \<and> set bs \<subseteq> set as"
  by (induction a as rule: remove_first.induct) (auto simp: atom_eq_core split: option.splits)

section \<open>What the store keeps of an atom\<close>

fun native_value :: "pyvalue \<Rightarrow> native" where
  "native_value (VBool b) = NAtom (if b then ''true'' else ''false'')"
| "native_value (VInt i) = NInt i"
| "native_value (VFloat f) = NFloat (if is_nan f then NaN 0 else f)"
| "native_value (VStr s) = NText s"
| "native_value (VObj _) = NText []"

fun native_of :: "atom \<Rightarrow> native" where
  "native_of (Symbol s) = NAtom s"
| "native_of (Space s) = NAtom s"
| "native_of (Grounded v _) = native_value v"
| "native_of _ = NText []"

fun name_of :: "atom \<Rightarrow> string" where
  "name_of (Symbol s) = s"
| "name_of (Space s) = s"
| "name_of _ = []"

fun stored_fact :: "atom \<Rightarrow> nfact" where
  "stored_fact (Expression (h # params)) = (name_of h, map native_of params)"
| "stored_fact _ = ([], [])"

abbreviation stored :: "atom list \<Rightarrow> nfact multiset" where
  "stored as \<equiv> image_mset stored_fact (mset as)"

lemma native_value_vcore: "native_value (vcore v) = native_value v"
  by (cases v rule: vcore.cases) (auto simp: is_nan_def)

lemma native_of_core: "native_of (core a) = native_of a"
  by (cases a rule: core.cases) (auto simp: native_value_vcore)

lemma stored_fact_core: "stored_fact (core a) = stored_fact a"
proof (cases a)
  case (Expression xs)
  have "name_of (core h) = name_of h" for h by (cases h rule: core.cases) auto
  with Expression show ?thesis by (cases xs) (auto simp: native_of_core)
qed auto

lemma stored_cores: "stored as = image_mset stored_fact (cores as)"
  by (induction as) (auto simp: stored_fact_core)

text \<open>The values the engine holds: every NaN is the one NaN.\<close>

definition native_ok :: "native \<Rightarrow> bool" where
  "native_ok n = (case n of NFloat f \<Rightarrow> is_nan f \<longrightarrow> f = NaN 0 | _ \<Rightarrow> True)"

definition fact_ok :: "schema \<Rightarrow> nfact \<Rightarrow> bool" where
  "fact_ok schema fct = (fits_schema schema (fst fct) (length (snd fct)) \<and> list_all native_ok (snd fct))"

lemma native_of_read: "native_ok n \<Longrightarrow> native_of (atom_of_wire (encode_native n)) = n"
  by (cases n) (auto simp: native_ok_def encode_native_def gnd_def)

lemma stored_fact_read:
  assumes "list_all native_ok (snd fct)"
  shows "stored_fact (fact_atom fct) = fct"
proof -
  have "map (\<lambda>n. native_of (atom_of_wire (encode_native n))) (snd fct) = snd fct"
    by (rule map_idI) (use assms in \<open>auto simp: list_all_iff native_of_read\<close>)
  then show ?thesis by (simp add: fact_atom_def comp_def)
qed

lemma decode_wire_ok: "decode_wire w = Some n \<Longrightarrow> native_ok n"
  by (cases w) (auto simp: native_ok_def is_nan_def split: pyfloat.splits)

lemma decode_all_ok: "decode_all ws = Some ns \<Longrightarrow> list_all native_ok ns \<and> length ns = length ws"
  by (induction ws arbitrary: ns) (auto simp: decode_wire_ok split: option.splits)

lemma native_fact_ok: "native_fact schema part = Some fct \<Longrightarrow> fact_ok schema fct"
  by (auto simp: native_fact_def fact_ok_def dest: decode_all_ok split: if_splits)

lemma argument_wire_native: "argument_wire a = Inr w \<Longrightarrow> decode_wire w = Some n \<Longrightarrow> n = native_of a"
  by (auto simp: argument_wire_def split: if_splits atom.splits option.splits pyvalue.splits)

lemma arguments_native:
  "concatE (\<lambda>p. bindE (argument_wire p) (\<lambda>w. Inr [w])) params = Inr ws \<Longrightarrow> decode_all ws = Some ns \<Longrightarrow>
   ns = map native_of params"
  by (induction params arbitrary: ws ns) (auto simp: argument_wire_native split: option.splits)

lemma fact_parts_native:
  "fact_parts live durable schema a = Inr part \<Longrightarrow> native_fact schema part = Some fct \<Longrightarrow> fct = stored_fact a"
  by (auto simp: fact_parts_def validated_fact_head_def native_fact_def arguments_native
      split: if_splits atom.splits list.splits option.splits)

section \<open>The typing of the space\<close>

text \<open>Declared heads are distinct, every stored fact fits the schema and holds native values, and every staged atom is
  one that could be stored: an expression of a declared head and its arity whose arguments have native wires.\<close>

definition enterable :: "schema \<Rightarrow> atom \<Rightarrow> bool" where
  "enterable schema a = (\<exists>part. fact_parts (\<lambda>_. False) False schema a = Inr part)"

definition facts_ok :: "persistent \<Rightarrow> bool" where
  "facts_ok s = (dict_ok (=) (ps_schema s) \<and> list_all (fact_ok (ps_schema s)) (ps_facts s))"

definition staged_ok :: "persistent \<Rightarrow> bool" where
  "staged_ok s = (\<forall>th. \<forall>t \<in> set (ps_stacks s th). list_all (enterable (ps_schema s)) (tx_base t @ tx_atoms t))"

definition typed :: "persistent \<Rightarrow> bool" where
  "typed s = (facts_ok s \<and> staged_ok s)"

lemma fact_parts_enterable: "fact_parts live durable schema a = Inr part \<Longrightarrow> enterable schema a"
  by (auto simp: enterable_def fact_parts_def split: if_splits)

lemma argument_read: "native_ok n \<Longrightarrow> \<exists>w. argument_wire (atom_of_wire (encode_native n)) = Inr w \<and> decode_wire w = Some n"
  by (cases n) (auto simp: native_ok_def encode_native_def argument_wire_def gnd_def)

lemma arguments_read:
  "list_all native_ok ns \<Longrightarrow>
   \<exists>ws. concatE (\<lambda>p. bindE (argument_wire p) (\<lambda>w. Inr [w])) (map (\<lambda>n. atom_of_wire (encode_native n)) ns) = Inr ws
      \<and> decode_all ws = Some ns \<and> length ws = length ns"
proof (induction ns)
  case (Cons n ns)
  then obtain w ws where "argument_wire (atom_of_wire (encode_native n)) = Inr w" "decode_wire w = Some n"
    "concatE (\<lambda>p. bindE (argument_wire p) (\<lambda>w. Inr [w])) (map (\<lambda>n. atom_of_wire (encode_native n)) ns) = Inr ws"
    "decode_all ws = Some ns" "length ws = length ns"
    using argument_read [of n] by auto
  then show ?case by simp
qed simp

lemma parts_read:
  assumes "fact_ok schema fct"
  shows "\<exists>part. fact_parts live False schema (fact_atom fct) = Inr part \<and> native_fact schema part = Some fct"
proof -
  obtain h ns where f: "fct = (h, ns)" by (cases fct)
  with assms have fits: "fits_schema schema h (length ns)" and ok: "list_all native_ok ns" by (auto simp: fact_ok_def)
  from arguments_read [OF ok] obtain ws where
    "concatE (\<lambda>p. bindE (argument_wire p) (\<lambda>w. Inr [w])) (map (\<lambda>n. atom_of_wire (encode_native n)) ns) = Inr ws"
    "decode_all ws = Some ns" "length ws = length ns" by auto
  with f fits show ?thesis
    by (simp add: fact_parts_def validated_fact_head_def fact_atom_def fits_schema_def native_fact_def)
qed

lemma read_enterable: "fact_ok schema fct \<Longrightarrow> enterable schema (fact_atom fct)"
  using parts_read [of schema fct "\<lambda>_. False"] by (auto simp: enterable_def)

text \<open>What the generated predicates keep and answer.\<close>

definition goal_typed :: "schema \<Rightarrow> (nfact list \<Rightarrow> ('a \<times> nfact list) option) \<Rightarrow> bool" where
  "goal_typed schema goal =
     (\<forall>facts a facts'. list_all (fact_ok schema) facts \<longrightarrow> goal facts = Some (a, facts') \<longrightarrow> list_all (fact_ok schema) facts')"

lemma goal_typedD:
  "goal_typed schema goal \<Longrightarrow> list_all (fact_ok schema) facts \<Longrightarrow> goal facts = Some (a, facts') \<Longrightarrow>
   list_all (fact_ok schema) facts'"
  by (simp add: goal_typed_def)

lemma list_all_remove1: "list_all P xs \<Longrightarrow> list_all P (remove1 x xs)"
  by (induction xs) auto

lemma apply_remove_typed:
  "list_all P facts \<Longrightarrow> apply_remove schema parts facts = Some facts' \<Longrightarrow> list_all P facts'"
  by (induction schema parts facts rule: apply_remove.induct) (auto simp: list_all_remove1 split: option.splits if_splits)

lemma apply_add_typed:
  "list_all (fact_ok schema) facts \<Longrightarrow> apply_add schema parts facts = Some facts' \<Longrightarrow> list_all (fact_ok schema) facts'"
  by (induction schema parts facts rule: apply_add.induct) (auto dest: native_fact_ok split: option.splits)

lemma goals_typed:
  "goal_typed schema (goal_all schema)" "goal_typed schema (goal_match schema h)" "goal_typed schema (goal_add schema part)"
  "goal_typed schema (goal_remove schema part)" "goal_typed schema (goal_apply_diff schema removed added)"
  "goal_typed schema (goal_clear schema)" "goal_typed schema (\<lambda>facts. Some ((), facts))"
  by (auto simp: goal_typed_def goal_all_def goal_match_def goal_add_def goal_remove_def goal_apply_diff_def goal_clear_def
      apply_remove_typed list_all_remove1 dest: native_fact_ok intro: apply_add_typed [OF apply_remove_typed] split: option.splits)
    (simp add: list_all_iff)

section \<open>The contract of an operation\<close>

lemma ps_call_effect:
  "ps_call eng b helper goal s = (r, s') \<Longrightarrow>
   ps_schema s' = ps_schema s \<and> ps_stacks s' = ps_stacks s \<and> ps_closed s' = ps_closed s \<and> ps_failure s' = ps_failure s \<and>
   (case r of Inl _ \<Rightarrow> ps_facts s' = ps_facts s | Inr a \<Rightarrow> goal (ps_facts s) = Some (a, ps_facts s'))"
  by (auto simp: ps_call_def Let_def split: if_splits outcome.splits option.splits)

lemma write_call_effect:
  "write_call eng helper goal s = (r, s') \<Longrightarrow>
   ps_schema s' = ps_schema s \<and> ps_stacks s' = ps_stacks s \<and> ps_closed s' = ps_closed s \<and>
   (case r of Inl _ \<Rightarrow> ps_facts s' = ps_facts s
    | Inr a \<Rightarrow> goal (ps_facts s) = Some (a, ps_facts s') \<and> ps_failure s = None \<and> ps_failure s' = None) \<and>
   (ps_failure s \<noteq> None \<longrightarrow> s' = s \<and> (\<exists>e. r = Inl e))"
  by (cases "ps_call eng True helper goal s")
    (auto simp: write_call_def dest: ps_call_effect split: if_splits option.splits sum.splits)

definition contract :: "persistent \<Rightarrow> journal_error + 'a \<Rightarrow> persistent \<Rightarrow> bool" where
  "contract s r s' =
     (ps_schema s' = ps_schema s \<and> (typed s \<longrightarrow> typed s')
      \<and> (ps_failure s \<noteq> None \<longrightarrow> ps_facts s' = ps_facts s \<and> ps_failure s' = ps_failure s)
      \<and> (\<forall>e. r = Inl e \<longrightarrow> ps_facts s' = ps_facts s))"

text \<open>\<open>journal_step\<close>: typing is kept, and nothing changes any more after a failed write. \<open>journal_op\<close>: besides, what
  raises changes no fact.\<close>

locale journal_step =
  fixes step :: "persistent \<Rightarrow> 'a jcall"
  assumes step_schema: "step s = (r, s') \<Longrightarrow> ps_schema s' = ps_schema s"
    and step_typed: "typed s \<Longrightarrow> step s = (r, s') \<Longrightarrow> typed s'"
    and step_latched:
      "ps_failure s = Some why \<Longrightarrow> step s = (r, s') \<Longrightarrow> ps_facts s' = ps_facts s \<and> ps_failure s' = Some why"
begin

lemma step_kept: "typed s \<Longrightarrow> step s = (r, s') \<Longrightarrow> typed s' \<and> ps_schema s' = ps_schema s"
  using step_schema step_typed by blast

lemma step_after_failure: "ps_failure s \<noteq> None \<Longrightarrow> step s = (r, s') \<Longrightarrow> ps_facts s' = ps_facts s \<and> ps_failure s' = ps_failure s"
  by (cases "ps_failure s") (auto dest: step_latched)

end

locale journal_op = journal_step +
  assumes step_clean: "step s = (Inl e, s') \<Longrightarrow> ps_facts s' = ps_facts s"
begin

lemma step_all_or_nothing: "step s = (r, s') \<Longrightarrow> ps_facts s' \<noteq> ps_facts s \<Longrightarrow> (\<exists>a. r = Inr a) \<and> ps_failure s = None"
  by (cases r) (use step_clean step_after_failure in blast)+

lemma step_contract: "step s = (r, s') \<Longrightarrow> contract s r s'"
  using step_schema step_typed step_after_failure step_clean unfolding contract_def by blast

end

lemma typed_write:
  assumes "typed s" "goal_typed (ps_schema s) goal" "write_call eng helper goal s = (r, s')"
  shows "typed s'"
proof -
  note w = write_call_effect [OF assms(3)]
  have "list_all (fact_ok (ps_schema s)) (ps_facts s')"
    using w assms(1,2) by (cases r) (auto simp: typed_def facts_ok_def goal_typed_def)
  with w assms(1) show ?thesis by (simp add: typed_def facts_ok_def staged_ok_def)
qed

lemma typed_call:
  assumes "typed s" "goal_typed (ps_schema s) goal" "ps_call eng b helper goal s = (r, s')"
  shows "typed s'"
proof -
  note w = ps_call_effect [OF assms(3)]
  have "list_all (fact_ok (ps_schema s)) (ps_facts s')"
    using w assms(1,2) by (cases r) (auto simp: typed_def facts_ok_def goal_typed_def)
  with w assms(1) show ?thesis by (simp add: typed_def facts_ok_def staged_ok_def)
qed

text \<open>Reading.\<close>

lemma read_typed:
  assumes "goal = goal_all schema \<or> goal = goal_match schema h" "list_all (fact_ok schema) facts" "goal facts = Some (as, facts')"
  shows "facts' = facts \<and> list_all (enterable schema) as"
  using assms
  by (auto simp: goal_all_def goal_match_def facts_of_head_def list_all_iff split: option.splits)
    (metis read_enterable fst_conv snd_conv)+

lemma durable_effect:
  assumes "durable_facts eng h s = (r, s')"
  shows "ps_facts s' = ps_facts s \<and> ps_schema s' = ps_schema s \<and> ps_stacks s' = ps_stacks s \<and> ps_closed s' = ps_closed s \<and>
    ps_failure s' = ps_failure s"
proof -
  obtain helper goal where call: "ps_call eng True helper goal s = (r, s')" and pure: "\<And>f a f'. goal f = Some (a, f') \<Longrightarrow> f' = f"
  proof (cases h)
    case None
    show ?thesis by (rule that [of "''all''" "goal_all (ps_schema s)"])
        (use assms None in \<open>auto simp: durable_facts_def goal_all_def\<close>)
  next
    case (Some name)
    show ?thesis by (rule that [of "''match''" "goal_match (ps_schema s) name"])
        (use assms Some in \<open>auto simp: durable_facts_def goal_match_def split: option.splits\<close>)
  qed
  from ps_call_effect [OF call] pure show ?thesis by (auto split: sum.splits)
qed

lemma durable_answers:
  assumes "durable_facts eng h s = (Inr as, s')" "typed s"
  shows "list_all (enterable (ps_schema s)) as"
proof -
  obtain helper goal where call: "ps_call eng True helper goal s = (Inr as, s')"
    and goal: "goal = goal_all (ps_schema s) \<or> goal = goal_match (ps_schema s) (the h)"
    using assms(1) by (auto simp: durable_facts_def split: option.splits)
  from ps_call_effect [OF call] read_typed [OF goal] assms(2) show ?thesis
    by (auto simp: typed_def facts_ok_def list_all_iff)
qed

lemma typed_same:
  "typed s \<Longrightarrow> ps_facts s' = ps_facts s \<Longrightarrow> ps_schema s' = ps_schema s \<Longrightarrow> ps_stacks s' = ps_stacks s \<Longrightarrow> typed s'"
  by (simp add: typed_def facts_ok_def staged_ok_def)

lemma typed_set_stack:
  "typed s \<Longrightarrow> \<forall>t \<in> set ts. list_all (enterable (ps_schema s)) (tx_base t @ tx_atoms t) \<Longrightarrow> typed (set_stack th ts s)"
  by (auto simp: typed_def facts_ok_def staged_ok_def set_stack_def)

lemma typed_top:
  "typed s \<Longrightarrow> t \<in> set (ps_stacks s th) \<Longrightarrow> list_all (enterable (ps_schema s)) (tx_base t @ tx_atoms t)"
  by (auto simp: typed_def staged_ok_def)

lemma typed_tops:
  assumes "typed s" "ps_stacks s th = t # ts"
  shows "list_all (enterable (ps_schema s)) (tx_base t)" "list_all (enterable (ps_schema s)) (tx_atoms t)"
    "\<forall>u \<in> set ts. list_all (enterable (ps_schema s)) (tx_base u) \<and> list_all (enterable (ps_schema s)) (tx_atoms u)"
  using assms typed_top [of s _ th] by auto

lemma typed_stage:
  assumes "typed s" "list_all (enterable (ps_schema s)) as"
  shows "typed (stage th as s)"
proof (cases "ps_stacks s th")
  case (Cons t ts)
  with assms typed_tops [OF assms(1) Cons] show ?thesis by (auto simp: stage_def intro!: typed_set_stack)
qed (use assms in \<open>simp add: stage_def\<close>)

lemma set_stack_simps [simp]:
  "ps_schema (set_stack th ts s) = ps_schema s" "ps_facts (set_stack th ts s) = ps_facts s"
  "ps_failure (set_stack th ts s) = ps_failure s" "ps_closed (set_stack th ts s) = ps_closed s"
  "ps_turn (set_stack th ts s) = ps_turn s" "ps_stacks (set_stack th ts s) u = (if u = th then ts else ps_stacks s u)"
  by (simp_all add: set_stack_def)

lemma stage_simps [simp]:
  "ps_schema (stage th as s) = ps_schema s" "ps_facts (stage th as s) = ps_facts s"
  "ps_failure (stage th as s) = ps_failure s" "ps_closed (stage th as s) = ps_closed s"
  by (simp_all add: stage_def split: list.splits)

section \<open>Every operation keeps the contract\<close>

lemma journal_opI:
  assumes "\<And>s r s'. step s = (r, s') \<Longrightarrow> contract s r s'"
  shows "journal_op step"
  by unfold_locales (use assms in \<open>fastforce simp: contract_def\<close>)+

lemma contract_refl: "contract s r s"
  by (simp add: contract_def)

lemma contract_write:
  assumes "write_call eng helper goal s = (r, s')" "goal_typed (ps_schema s) goal"
  shows "contract s r s'"
  using write_call_effect [OF assms(1)] typed_write [OF _ assms(2,1)] by (auto simp: contract_def)

lemma contract_pure:
  "ps_facts s' = ps_facts s \<Longrightarrow> ps_schema s' = ps_schema s \<Longrightarrow> ps_failure s' = ps_failure s \<Longrightarrow> (typed s \<Longrightarrow> typed s') \<Longrightarrow>
   contract s r s'"
  by (simp add: contract_def)

lemma contract_stage: "(typed s \<Longrightarrow> list_all (enterable (ps_schema s)) as) \<Longrightarrow> contract s r (stage th as s)"
  by (rule contract_pure) (auto intro: typed_stage)

lemma contract_stack:
  "(typed s \<Longrightarrow> \<forall>t \<in> set ts. list_all (enterable (ps_schema s)) (tx_base t @ tx_atoms t)) \<Longrightarrow> contract s r (set_stack th ts s)"
  by (rule contract_pure) (auto intro: typed_set_stack)

lemma contract_durable: "durable_facts eng h s = (r, s') \<Longrightarrow> contract s r' s'"
  using durable_effect [of eng h s r s'] by (auto intro: contract_pure typed_same)

lemma contract_after_pure:
  assumes "contract s1 r s2" "ps_facts s1 = ps_facts s" "ps_schema s1 = ps_schema s" "ps_failure s1 = ps_failure s"
    "typed s \<Longrightarrow> typed s1"
  shows "contract s r s2"
  using assms by (simp add: contract_def)

lemma remove_first_subset: "remove_first a as = Some bs \<Longrightarrow> set bs \<subseteq> set as"
  using remove_first_cores [of a as] by simp

lemma add_contract:
  assumes "ps_add eng live th a s = (r, s')"
  shows "contract s r s'"
proof (cases "fact_parts live True (ps_schema s) a")
  case (Inl e)
  with assms show ?thesis by (simp add: ps_add_def contract_refl)
next
  case (Inr part)
  show ?thesis
  proof (cases "ps_stacks s th")
    case Nil
    with assms Inr have "write_call eng ''add'' (goal_add (ps_schema s) part) s = (r, s')" by (simp add: ps_add_def)
    then show ?thesis by (rule contract_write) (rule goals_typed)
  next
    case (Cons t ts)
    with assms Inr have "s' = stage th (tx_atoms t @ [a]) s" by (simp add: ps_add_def)
    then show ?thesis
      using typed_tops(2) [OF _ Cons] fact_parts_enterable [OF Inr] by (auto intro: contract_stage)
  qed
qed

lemma remove_contract:
  assumes "ps_remove eng live th a s = (r, s')"
  shows "contract s r s'"
proof (cases "fact_parts live False (ps_schema s) a")
  case (Inl e)
  with assms show ?thesis by (simp add: ps_remove_def contract_refl)
next
  case (Inr part)
  show ?thesis
  proof (cases "ps_stacks s th")
    case Nil
    with assms Inr have "write_call eng ''remove'' (goal_remove (ps_schema s) part) s = (r, s')" by (simp add: ps_remove_def)
    then show ?thesis by (rule contract_write) (rule goals_typed)
  next
    case (Cons t ts)
    show ?thesis
    proof (cases "remove_first a (tx_atoms t)")
      case None
      with assms Inr Cons show ?thesis by (simp add: ps_remove_def contract_refl)
    next
      case (Some left)
      with assms Inr Cons have "s' = stage th left s" by (simp add: ps_remove_def)
      then show ?thesis
        using typed_tops(2) [OF _ Cons] remove_first_subset [OF Some] by (auto intro!: contract_stage simp: list_all_iff subset_iff)
    qed
  qed
qed

lemma clear_contract: "ps_clear eng th s = (r, s') \<Longrightarrow> contract s r s'"
  by (cases "ps_stacks s th") (auto simp: ps_clear_def intro: contract_write goals_typed contract_stage)

lemma begin_contract:
  assumes "ps_begin eng th s = (r, s')"
  shows "contract s r s'"
proof (cases "ps_stacks s th")
  case (Cons t ts)
  with assms have "s' = set_stack th (\<lparr>tx_base = tx_atoms t, tx_atoms = tx_atoms t\<rparr> # t # ts) s" by (simp add: ps_begin_def)
  then show ?thesis using typed_tops [OF _ Cons] by (auto intro!: contract_stack)
next
  case Nil
  obtain q s1 where d: "durable_facts eng None s = (q, s1)" by (cases "durable_facts eng None s")
  note e = durable_effect [OF d]
  show ?thesis
  proof (cases q)
    case (Inl e)
    with assms Nil d show ?thesis by (auto simp: ps_begin_def thenJ_def intro: contract_durable)
  next
    case (Inr base)
    with assms Nil d e have s': "s' = set_stack th [\<lparr>tx_base = base, tx_atoms = base\<rparr>] s1"
      by (simp add: ps_begin_def)
    have "contract s1 r s'" unfolding s'
    proof (rule contract_stack)
      assume "typed s1"
      with e have "typed s" using typed_same by metis
      with durable_answers [OF d [unfolded Inr]] e
      show "\<forall>t \<in> set [\<lparr>tx_base = base, tx_atoms = base\<rparr>]. list_all (enterable (ps_schema s1)) (tx_base t @ tx_atoms t)" by simp
    qed
    then show ?thesis by (rule contract_after_pure) (use e typed_same in auto)
  qed
qed

text \<open>The two ways a base-relative delta can end: it is refused before the store is touched, or written as one.\<close>

definition delta_parts ::
  "(string \<Rightarrow> bool) \<Rightarrow> schema \<Rightarrow> atom list \<Rightarrow> atom list \<Rightarrow> journal_error + (string \<times> jwire list) list \<times> (string \<times> jwire list) list" where
  "delta_parts live schema removed added =
     bindE (all_parts live False schema removed) (\<lambda>rs. bindE (all_parts live True schema added) (\<lambda>as. Inr (rs, as)))"

lemma commit_diff_cases:
  assumes "commit_diff eng live base removed added s = (r, s')"
  obtains (read) e where "durable_facts eng None s = (Inl e, s')" "r = Inl e"
  | (refused) current e where "durable_facts eng None s = (Inr current, s')" "r = Inl e"
      "e = StaleBase \<and> \<not> same_multiset current base \<or> delta_parts live (ps_schema s) removed added = Inl e"
  | (void) current where "durable_facts eng None s = (Inr current, s')" "r = Inr ()" "same_multiset current base"
      "delta_parts live (ps_schema s) removed added = Inr ([], [])"
  | (written) current s1 rs as where "durable_facts eng None s = (Inr current, s1)" "same_multiset current base"
      "delta_parts live (ps_schema s) removed added = Inr (rs, as)" "\<not> (rs = [] \<and> as = [])"
      "write_call eng ''apply_diff'' (goal_apply_diff (ps_schema s) rs as) s1 = (r, s')"
proof -
  obtain q s1 where d: "durable_facts eng None s = (q, s1)" by (cases "durable_facts eng None s")
  show ?thesis
  proof (cases q)
    case (Inl e)
    with assms d have "r = Inl e" "s' = s1" by (simp_all add: commit_diff_def)
    with d Inl show ?thesis by (intro read) auto
  next
    case (Inr current)
    note unf = assms [unfolded commit_diff_def d Inr, simplified, folded delta_parts_def]
    show ?thesis
    proof (cases "same_multiset current base")
      case False
      with unf d Inr show ?thesis by (intro refused [of current StaleBase]) auto
    next
      case same: True
      show ?thesis
      proof (cases "delta_parts live (ps_schema s) removed added")
        case (Inl e)
        with unf d Inr same show ?thesis by (intro refused [of current e]) (auto simp: delta_parts_def)
      next
        case (Inr p)
        obtain rs as where p: "p = (rs, as)" by (cases p)
        show ?thesis
        proof (cases "rs = [] \<and> as = []")
          case True
          with unf d \<open>q = Inr current\<close> same Inr p show ?thesis by (intro void [of current]) (auto simp: delta_parts_def)
        next
          case False
          with unf d \<open>q = Inr current\<close> same Inr p show ?thesis
            by (intro written [of current s1 rs as]) (auto simp: delta_parts_def)
        qed
      qed
    qed
  qed
qed

lemma commit_diff_contract: "commit_diff eng live base removed added s = (r, s') \<Longrightarrow> contract s r s'"
proof (elim commit_diff_cases)
  fix current s1 rs as
  assume d: "durable_facts eng None s = (Inr current, s1)"
    and w: "write_call eng ''apply_diff'' (goal_apply_diff (ps_schema s) rs as) s1 = (r, s')"
  note e = durable_effect [OF d]
  have "contract s1 r s'" by (rule contract_write [OF w]) (use e goals_typed in auto)
  then show ?thesis by (rule contract_after_pure) (use e typed_same in auto)
qed (auto intro: contract_durable)

lemma commit_diff_stacks: "commit_diff eng live base removed added s = (r, s') \<Longrightarrow> ps_stacks s' = ps_stacks s"
proof (elim commit_diff_cases)
  fix current s1 rs as
  assume d: "durable_facts eng None s = (Inr current, s1)"
    and w: "write_call eng ''apply_diff'' (goal_apply_diff (ps_schema s) rs as) s1 = (r, s')"
  from durable_effect [OF d] write_call_effect [OF w] show ?thesis by simp
qed (auto dest: durable_effect)

lemma contract_pop:
  assumes "pop_stack th m = (r, s')" "contract s (fst m) (snd m)"
  shows "contract s r s'"
proof -
  obtain s1 where m: "m = (r, s1)" and s': "s' = set_stack th (tl (ps_stacks s1 th)) s1"
    using assms(1) by (cases m) (auto simp: pop_stack_def)
  have "typed s'" if "typed s1"
    unfolding s' by (cases "ps_stacks s1 th") (use typed_tops [OF that, of th] in \<open>auto intro!: typed_set_stack [OF that]\<close>)
  with assms(2) m show ?thesis by (auto simp: contract_def s')
qed

lemma rollback_contract: "ps_rollback th s = (r, s') \<Longrightarrow> contract s r s'"
  by (cases "ps_stacks s th") (auto simp: ps_rollback_def intro: contract_refl dest!: contract_pop [of th _ r s' s] )

lemma commit_contract:
  assumes "ps_commit eng live th s = (r, s')"
  shows "contract s r s'"
proof (cases "ps_stacks s th" rule: remdups_adj.cases)
  case 1
  with assms show ?thesis by (simp add: ps_commit_def contract_refl)
next
  case (2 t)
  with assms have "pop_stack th (commit_diff eng live (tx_base t) (ordered_surplus (tx_base t) (tx_atoms t))
      (ordered_surplus (tx_atoms t) (tx_base t)) s) = (r, s')" by (simp add: ps_commit_def)
  then show ?thesis by (rule contract_pop) (rule commit_diff_contract, simp)
next
  case (3 t p ts)
  with assms have "pop_stack th (Inr (), set_stack th (t # p\<lparr>tx_atoms := tx_atoms t\<rparr> # ts) s) = (r, s')"
    by (simp add: ps_commit_def)
  then show ?thesis
    by (rule contract_pop) (use typed_tops [OF _ 3] in \<open>auto intro!: contract_stack\<close>)
qed

lemma commit_world_contract: "commit_world eng live th base removed added s = (r, s') \<Longrightarrow> contract s r s'"
  by (auto simp: commit_world_def contract_refl dest: commit_diff_contract split: if_splits)

lemma visible_contract: "visible_facts eng th h s = (r, s') \<Longrightarrow> contract s r s'"
  by (auto simp: visible_facts_def contract_refl dest: contract_durable split: list.splits)

lemma match_contract: "ps_match eng th pattern s = (r, s') \<Longrightarrow> contract s r s'"
  by (auto simp: ps_match_def dest: visible_contract split: atom.splits list.splits if_splits)

lemma keep_contract: "write_call eng helper (\<lambda>facts. Some ((), facts)) s = (r, s') \<Longrightarrow> contract s r s'"
  by (erule contract_write) (rule goals_typed)

interpretation adding: journal_op "ps_add eng live th a" for eng live th a
  by (rule journal_opI) (rule add_contract)

interpretation removing: journal_op "ps_remove eng live th a" for eng live th a
  by (rule journal_opI) (rule remove_contract)

interpretation clearing: journal_op "ps_clear eng th" for eng th
  by (rule journal_opI) (rule clear_contract)

interpretation beginning: journal_op "ps_begin eng th" for eng th
  by (rule journal_opI) (rule begin_contract)

interpretation committing: journal_op "ps_commit eng live th" for eng live th
  by (rule journal_opI) (rule commit_contract)

interpretation discarding: journal_op "ps_rollback th" for th
  by (rule journal_opI) (rule rollback_contract)

interpretation worlds: journal_op "commit_world eng live th base removed added" for eng live th base removed added
  by (rule journal_opI) (rule commit_world_contract)

interpretation matching: journal_op "ps_match eng th pattern" for eng th pattern
  by (rule journal_opI) (rule match_contract)

interpretation flushing: journal_op "ps_flush eng" for eng
  by (rule journal_opI) (simp add: ps_flush_def keep_contract)

interpretation compacting: journal_op "ps_compact eng" for eng
  by (rule journal_opI) (simp add: ps_compact_def keep_contract)

text \<open>Reloading keeps the weaker contract, with what the journal holds fitting the schema.\<close>

interpretation syncing: journal_step "\<lambda>s. ps_sync eng (filter (fact_ok (ps_schema s)) reloaded) s" for eng reloaded
proof unfold_locales
  fix s r s' assume *: "ps_sync eng (filter (fact_ok (ps_schema s)) reloaded) s = (r, s')"
  obtain q s1 where w: "write_call eng ''sync'' (\<lambda>facts. Some ((), facts)) s = (q, s1)"
    by (cases "write_call eng ''sync'' (\<lambda>facts. Some ((), facts)) s")
  note e = write_call_effect [OF w]
  show "ps_schema s' = ps_schema s" using * w e by (auto simp: ps_sync_def split: if_splits)
  show "typed s'" if "typed s"
    using * w e that typed_write [OF that goals_typed(7) w]
    by (auto simp: ps_sync_def typed_def facts_ok_def staged_ok_def list_all_iff split: if_splits)
  show "ps_facts s' = ps_facts s \<and> ps_failure s' = Some why" if "ps_failure s = Some why" for why
    using * w e that by (auto simp: ps_sync_def split: if_splits)
qed

section \<open>Sessions\<close>

text \<open>A call of the provider from one thread, and its answer.\<close>

datatype jop =
    JAdd atom
  | JRemove atom
  | JClear
  | JBegin
  | JCommit
  | JRollback
  | JWorld "atom list" "atom list" "atom list"
  | JMatch atom
  | JFlush
  | JCompact
  | JSync "nfact list"

datatype reply = Done | Verdict bool | Listed "atom list"

definition replied :: "('a \<Rightarrow> reply) \<Rightarrow> 'a jcall \<Rightarrow> reply jcall" where
  "replied f m = thenJ m (\<lambda>a s. (Inr (f a), s))"

lemma replied_cases: "replied f m = (r, s') \<Longrightarrow> (\<exists>e. m = (Inl e, s') \<and> r = Inl e) \<or> (\<exists>a. m = (Inr a, s') \<and> r = Inr (f a))"
  by (auto simp: replied_def thenJ_def split: prod.splits sum.splits)

text \<open>What a reload leaves are facts of the schema, the attached predicates being its only ones.\<close>

fun run_jop :: "crossings \<Rightarrow> (string \<Rightarrow> bool) \<Rightarrow> int \<Rightarrow> jop \<Rightarrow> persistent \<Rightarrow> reply jcall" where
  "run_jop eng live th (JAdd a) s = replied (\<lambda>_. Done) (ps_add eng live th a s)"
| "run_jop eng live th (JRemove a) s = replied Verdict (ps_remove eng live th a s)"
| "run_jop eng live th JClear s = replied (\<lambda>_. Done) (ps_clear eng th s)"
| "run_jop eng live th JBegin s = replied (\<lambda>_. Done) (ps_begin eng th s)"
| "run_jop eng live th JCommit s = replied (\<lambda>_. Done) (ps_commit eng live th s)"
| "run_jop eng live th JRollback s = replied (\<lambda>_. Done) (ps_rollback th s)"
| "run_jop eng live th (JWorld base removed added) s = replied (\<lambda>_. Done) (commit_world eng live th base removed added s)"
| "run_jop eng live th (JMatch pattern) s = replied Listed (ps_match eng th pattern s)"
| "run_jop eng live th JFlush s = replied (\<lambda>_. Done) (ps_flush eng s)"
| "run_jop eng live th JCompact s = replied (\<lambda>_. Done) (ps_compact eng s)"
| "run_jop eng live th (JSync reloaded) s =
     replied (\<lambda>_. Done) (ps_sync eng (filter (fact_ok (ps_schema s)) reloaded) s)"

definition opened :: "schema \<Rightarrow> nfact list \<Rightarrow> persistent" where
  "opened schema facts =
     \<lparr>ps_schema = schema, ps_closed = False, ps_failure = None, ps_stacks = \<lambda>_. [], ps_facts = facts, ps_turn = 0\<rparr>"

text \<open>Calls of any threads in any order, under any script of the engine and of live cells.\<close>

inductive jreach :: "persistent \<Rightarrow> persistent \<Rightarrow> bool" for s0 where
  jstart: "jreach s0 s0"
| jnext: "jreach s0 s \<Longrightarrow> run_jop eng live th op s = (r, s') \<Longrightarrow> jreach s0 s'"

lemma replied_contract:
  assumes "replied f m = (r, s')" "\<And>q s''. m = (q, s'') \<Longrightarrow> contract s q s''"
  shows "contract s r s'"
  using replied_cases [OF assms(1)] assms(2) by (auto simp: contract_def)

lemma run_contract:
  assumes "run_jop eng live th op s = (r, s')" "\<forall>reloaded. op \<noteq> JSync reloaded"
  shows "contract s r s'"
  using assms
proof (cases op)
  case (JAdd a)
  with assms show ?thesis by (auto elim: replied_contract adding.step_contract)
next
  case (JRemove a)
  with assms show ?thesis by (auto elim: replied_contract removing.step_contract)
next
  case JClear
  with assms show ?thesis by (auto elim: replied_contract clearing.step_contract)
next
  case JBegin
  with assms show ?thesis by (auto elim: replied_contract beginning.step_contract)
next
  case JCommit
  with assms show ?thesis by (auto elim: replied_contract committing.step_contract)
next
  case JRollback
  with assms show ?thesis by (auto elim: replied_contract discarding.step_contract)
next
  case (JWorld base removed added)
  with assms show ?thesis by (auto elim: replied_contract worlds.step_contract)
next
  case (JMatch pattern)
  with assms show ?thesis by (auto elim: replied_contract matching.step_contract)
next
  case JFlush
  with assms show ?thesis by (auto elim: replied_contract flushing.step_contract)
next
  case JCompact
  with assms show ?thesis by (auto elim: replied_contract compacting.step_contract)
qed auto

lemma run_kept:
  assumes "run_jop eng live th op s = (r, s')"
  shows "(typed s \<longrightarrow> typed s') \<and> ps_schema s' = ps_schema s
    \<and> (ps_failure s \<noteq> None \<longrightarrow> ps_facts s' = ps_facts s \<and> ps_failure s' = ps_failure s)"
proof (cases "\<exists>reloaded. op = JSync reloaded")
  case True
  then obtain reloaded where op: "op = JSync reloaded" by blast
  obtain q where "ps_sync eng (filter (fact_ok (ps_schema s)) reloaded) s = (q, s')"
    using assms op by (auto dest: replied_cases)
  then show ?thesis using syncing.step_kept syncing.step_schema syncing.step_after_failure by blast
next
  case False
  with run_contract [OF assms] show ?thesis by (simp add: contract_def)
qed

text \<open>A \<open>sync\<close> that raises: refused before it reaches the journal, or latched after it.\<close>

lemma sync_raises:
  assumes "ps_sync eng reloaded s = (Inl e, s')"
  shows "ps_facts s' = ps_facts s \<or> \<not> ps_closed s \<and> ps_failure s = None \<and> ps_failure s' = Some ''sync'' \<and> ps_facts s' = reloaded"
  using assms by (auto simp: ps_sync_def write_call_def split: if_splits option.splits prod.splits sum.splits)

lemma jreach_typed: "jreach s0 s \<Longrightarrow> typed s0 \<Longrightarrow> typed s \<and> ps_schema s = ps_schema s0"
  by (induction rule: jreach.induct) (auto dest: run_kept)

lemma opened_typed: "dict_ok (=) schema \<Longrightarrow> list_all (fact_ok schema) facts \<Longrightarrow> typed (opened schema facts)"
  by (simp add: opened_def typed_def facts_ok_def staged_ok_def)

text \<open>The typing of a fact, written out.\<close>

fun argument_typed :: "atom \<Rightarrow> bool" where
  "argument_typed (Symbol _) = True"
| "argument_typed (Grounded v _) = is_primitive v"
| "argument_typed _ = False"

fun fact_typed :: "schema \<Rightarrow> atom \<Rightarrow> bool" where
  "fact_typed schema (Expression (Symbol h # params)) =
     (dict_get (=) h schema = Some (length params) \<and> list_all argument_typed params)"
| "fact_typed schema a = False"

lemma argument_wire_typed: "argument_wire a = Inr w \<Longrightarrow> argument_typed a"
  by (auto simp: argument_wire_def is_primitive_def split: if_splits atom.splits option.splits pyvalue.splits)

lemma enterable_typed: "enterable schema a \<Longrightarrow> fact_typed schema a"
  by (auto simp: enterable_def fact_parts_def validated_fact_head_def list_all_iff
      split: atom.splits list.splits option.splits if_splits dest!: concatE_Inr_all dest: argument_wire_typed)

lemma visible_answers:
  assumes "visible_facts eng th h s = (Inr as, s')" "typed s"
  shows "list_all (enterable (ps_schema s)) as"
proof (cases "ps_stacks s th")
  case Nil
  with assms durable_answers show ?thesis by (auto simp: visible_facts_def)
next
  case (Cons t ts)
  with assms typed_tops(2) [OF assms(2) Cons] show ?thesis
    by (auto simp: visible_facts_def list_all_iff split: option.splits)
qed

lemma match_answers:
  assumes "ps_match eng th pattern s = (Inr as, s')" "typed s"
  shows "list_all (enterable (ps_schema s)) as"
  using assms visible_answers
  by (fastforce simp: ps_match_def split: atom.splits list.splits if_splits)

section \<open>What a delta leaves\<close>

lemma concat_heads:
  assumes "dict_ok (=) schema"
  shows "mset (concat (map (facts_of_head facts) schema)) = filter_mset (\<lambda>fct. fits_schema schema (fst fct) (length (snd fct))) (mset facts)"
  using assms
proof (induction schema)
  case (Cons p schema)
  obtain h n where p: "p = (h, n)" by (cases p)
  have "filter_mset (\<lambda>fct. fits_schema (p # schema) (fst fct) (length (snd fct))) (mset facts) =
      filter_mset (\<lambda>fct. fst fct = h \<and> length (snd fct) = n) (mset facts) +
      filter_mset (\<lambda>fct. fits_schema schema (fst fct) (length (snd fct))) (mset facts)"
    using Cons.prems p by (intro multiset_eqI) (auto simp: fits_schema_def)
  with Cons p show ?case by (simp add: facts_of_head_def)
qed (simp add: fits_schema_def)

lemma stored_read: "list_all (fact_ok schema) facts \<Longrightarrow> stored (map fact_atom facts) = mset facts"
  by (induction facts) (auto simp: stored_fact_read fact_ok_def)

lemma stored_all:
  assumes "dict_ok (=) schema" "list_all (fact_ok schema) facts" "goal_all schema facts = Some (as, facts')"
  shows "stored as = mset facts"
proof -
  let ?listed = "concat (map (facts_of_head facts) schema)"
  have as: "as = map fact_atom ?listed" using assms(3) by (auto simp: goal_all_def)
  have listed: "mset ?listed = mset facts"
    using assms(2) by (auto simp: concat_heads [OF assms(1)] filter_mset_eq_conv list_all_iff fact_ok_def)
  then have "list_all (fact_ok schema) ?listed" using assms(2) mset_eq_setD [OF listed] by (simp add: list_all_iff)
  from stored_read [OF this] show ?thesis unfolding as listed .
qed

lemma durable_stored:
  assumes "durable_facts eng None s = (Inr as, s')" "facts_ok s"
  shows "stored as = mset (ps_facts s)"
proof -
  have "ps_call eng True ''all'' (goal_all (ps_schema s)) s = (Inr as, s')" using assms(1) by (simp add: durable_facts_def)
  from ps_call_effect [OF this] assms(2) stored_all show ?thesis by (auto simp: facts_ok_def)
qed

lemma apply_remove_stored:
  "all_parts live d schema as = Inr parts \<Longrightarrow> apply_remove schema parts facts = Some facts' \<Longrightarrow>
   mset facts = mset facts' + stored as"
proof (induction as arbitrary: parts facts)
  case (Cons a as)
  then obtain part ps fct where p: "fact_parts live d schema a = Inr part" "all_parts live d schema as = Inr ps" "parts = part # ps"
    and f: "native_fact schema part = Some fct" "fct \<in> set facts" "apply_remove schema ps (remove1 fct facts) = Some facts'"
    by (auto split: option.splits if_splits)
  from Cons.IH [OF p(2) f(3)] f(2) fact_parts_native [OF p(1) f(1)] show ?case
    by (metis (no_types, lifting) add_mset_add_single image_mset_add_mset insert_DiffM mset.simps(2) mset_remove1
        set_mset_mset union_mset_add_mset_right)
qed simp

lemma apply_add_stored:
  "all_parts live d schema as = Inr parts \<Longrightarrow> apply_add schema parts facts = Some facts' \<Longrightarrow>
   mset facts' = mset facts + stored as"
proof (induction as arbitrary: parts facts)
  case (Cons a as)
  then obtain part ps fct where p: "fact_parts live d schema a = Inr part" "all_parts live d schema as = Inr ps" "parts = part # ps"
    and f: "native_fact schema part = Some fct" "apply_add schema ps (facts @ [fct]) = Some facts'"
    by (auto split: option.splits)
  from Cons.IH [OF p(2) f(2)] fact_parts_native [OF p(1) f(1)] show ?case by simp
qed simp

lemma stored_cong: "cores xs = cores ys \<Longrightarrow> stored xs = stored ys"
  using stored_cores by metis

lemma delta_stored:
  "stored base = stored (ordered_surplus base atoms) + rest \<Longrightarrow>
   rest + stored (ordered_surplus atoms base) = stored atoms"
proof -
  assume *: "stored base = stored (ordered_surplus base atoms) + rest"
  let ?img = "image_mset stored_fact" and ?A = "cores atoms" and ?B = "cores base"
  have split: "?img X = ?img (X - Y) + ?img (X \<inter># Y)" for X Y
    by (metis image_mset_union multiset_inter_commute subset_mset.diff_add subset_mset.inf_le1 union_commute diff_intersect_left_idem)
  from * split [of ?B ?A] have "rest = ?img (?B \<inter># ?A)"
    by (simp only: stored_cores cores_surplus add_left_cancel)
  with split [of ?A ?B] show "rest + stored (ordered_surplus atoms base) = stored atoms"
    by (simp only: stored_cores cores_surplus subset_mset.inf_commute [of ?B ?A] add.commute)
qed

lemma commit_written:
  assumes "write_call eng ''apply_diff'' (goal_apply_diff schema rs as) s = (Inr (), s')"
    "delta_parts live schema (ordered_surplus base atoms) (ordered_surplus atoms base) = Inr (rs, as)"
    "mset (ps_facts s) = stored base"
  shows "mset (ps_facts s') = stored atoms"
proof -
  have parts: "all_parts live False schema (ordered_surplus base atoms) = Inr rs"
    "all_parts live True schema (ordered_surplus atoms base) = Inr as"
    using assms(2) by (auto simp: delta_parts_def)
  from write_call_effect [OF assms(1)] obtain kept
    where k: "apply_remove schema rs (ps_facts s) = Some kept" "apply_add schema as kept = Some (ps_facts s')"
    by (auto simp: goal_apply_diff_def split: option.splits)
  from apply_remove_stored [OF parts(1) k(1)] assms(3)
  have "stored base = stored (ordered_surplus base atoms) + mset kept" by (simp add: add.commute)
  from delta_stored [OF this] apply_add_stored [OF parts(2) k(2)] show ?thesis by simp
qed

lemma all_parts_Nil: "all_parts live d schema as = Inr [] \<Longrightarrow> as = []"
  by (cases as) auto

lemma commit_diff_stored:
  assumes "commit_diff eng live base (ordered_surplus base atoms) (ordered_surplus atoms base) s = (Inr (), s')" "facts_ok s"
  shows "mset (ps_facts s) = stored base \<and> mset (ps_facts s') = stored atoms"
proof -
  have fresh: "mset (ps_facts s) = stored base"
    if "durable_facts eng None s = (Inr current, s1)" "same_multiset current base" for current s1
    using durable_stored [OF that(1) assms(2)] that(2) stored_cong same_multiset_cores by metis
  from assms(1) show ?thesis
  proof (cases rule: commit_diff_cases)
    case (void current)
    then have "ordered_surplus base atoms = []" "ordered_surplus atoms base = []"
      by (auto simp: delta_parts_def dest: all_parts_Nil)
    with delta_stored [of base atoms "stored base"] fresh [OF void(1,3)] durable_effect [OF void(1)] show ?thesis by simp
  next
    case (written current s1 rs as)
    with fresh [OF written(1,2)] durable_effect [OF written(1)] commit_written [OF written(5,3)] show ?thesis by simp
  qed auto
qed

lemma commit_outermost:
  assumes "typed s" "ps_stacks s th = [t]" "ps_commit eng live th s = (r, s')"
  shows "ps_stacks s' th = [] \<and> (case r of
      Inl _ \<Rightarrow> ps_facts s' = ps_facts s
    | Inr _ \<Rightarrow> mset (ps_facts s) = stored (tx_base t) \<and> mset (ps_facts s') = stored (tx_atoms t))"
proof -
  let ?diff = "commit_diff eng live (tx_base t) (ordered_surplus (tx_base t) (tx_atoms t)) (ordered_surplus (tx_atoms t) (tx_base t)) s"
  obtain s1 where d: "?diff = (r, s1)" and s': "s' = set_stack th (tl (ps_stacks s1 th)) s1"
    using assms(2,3) by (cases ?diff) (auto simp: ps_commit_def pop_stack_def)
  have "ps_stacks s' th = []" using commit_diff_stacks [OF d] assms(2) s' by simp
  moreover have "mset (ps_facts s) = stored (tx_base t) \<and> mset (ps_facts s') = stored (tx_atoms t)" if "r = Inr ()"
    using commit_diff_stored d that assms(1) s' by (auto simp: typed_def)
  moreover have "ps_facts s' = ps_facts s" if "r = Inl e" for e
    using commit_diff_contract [OF d] that s' by (simp add: contract_def)
  ultimately show ?thesis by (cases r) auto
qed

text \<open>Savepoints are a thread's own.\<close>

definition own :: "int \<Rightarrow> persistent \<Rightarrow> persistent \<Rightarrow> bool" where
  "own th s s' = (\<forall>other. other \<noteq> th \<longrightarrow> ps_stacks s' other = ps_stacks s other)"

lemma own_simps [simp]: "own th s s" "own th s (set_stack th ts s') = own th s s'" "own th s (stage th as s') = own th s s'"
  by (auto simp: own_def stage_def split: list.splits)

lemma own_call:
  "write_call eng helper goal s = (r, s') \<Longrightarrow> own th s s'"
  "durable_facts eng h s = (q, s') \<Longrightarrow> own th s s'"
  "commit_diff eng live base removed added s = (v, s') \<Longrightarrow> own th s s'"
  by (auto simp: own_def dest: write_call_effect durable_effect commit_diff_stacks)

lemma own_pop: "pop_stack th m = (r, s') \<Longrightarrow> own th s (snd m) \<Longrightarrow> own th s s'"
  by (cases m) (auto simp: pop_stack_def)

lemma own_visible: "visible_facts eng th h s = (r, s') \<Longrightarrow> own th s s'"
  by (auto simp: visible_facts_def dest: own_call(2) split: list.splits)

lemma own_ops:
  "ps_add eng live th a s = (r1, s') \<Longrightarrow> own th s s'"
  "ps_remove eng live th a s = (r2, s') \<Longrightarrow> own th s s'"
  "ps_clear eng th s = (r1, s') \<Longrightarrow> own th s s'"
  "ps_begin eng th s = (r1, s') \<Longrightarrow> own th s s'"
  "ps_commit eng live th s = (r1, s') \<Longrightarrow> own th s s'"
  "ps_rollback th s = (r1, s') \<Longrightarrow> own th s s'"
  "commit_world eng live th base removed added s = (r1, s') \<Longrightarrow> own th s s'"
  "ps_match eng th pattern s = (r3, s') \<Longrightarrow> own th s s'"
  "ps_sync eng reloaded s = (r1, s') \<Longrightarrow> own th s s'"
  "ps_flush eng s = (r1, s') \<Longrightarrow> own th s s'"
  "ps_compact eng s = (r1, s') \<Longrightarrow> own th s s'"
proof -
  show "own th s s'" if "ps_add eng live th a s = (r1, s')"
    using that by (auto simp: ps_add_def dest: own_call(1) split: sum.splits list.splits)
  show "own th s s'" if "ps_remove eng live th a s = (r2, s')"
    using that by (auto simp: ps_remove_def dest: own_call(1) split: sum.splits list.splits option.splits)
  show "own th s s'" if "ps_clear eng th s = (r1, s')"
    using that by (auto simp: ps_clear_def dest: own_call(1) split: list.splits)
  show "own th s s'" if "ps_begin eng th s = (r1, s')"
    using that by (cases "durable_facts eng None s") (auto simp: ps_begin_def thenJ_def dest: own_call(2) split: list.splits sum.splits)
  show "own th s s'" if "ps_commit eng live th s = (r1, s')"
    using that by (cases "ps_stacks s th" rule: remdups_adj.cases)
      (auto simp: ps_commit_def intro: own_pop own_call(3) surjective_pairing)
  show "own th s s'" if "ps_rollback th s = (r1, s')"
    using that by (cases "ps_stacks s th") (auto simp: ps_rollback_def intro: own_pop)
  show "own th s s'" if "commit_world eng live th base removed added s = (r1, s')"
    using that by (auto simp: commit_world_def dest: own_call(3) split: if_splits)
  show "own th s s'" if "ps_match eng th pattern s = (r3, s')"
    using that by (auto simp: ps_match_def dest: own_visible split: atom.splits list.splits if_splits)
  show "own th s s'" if "ps_sync eng reloaded s = (r1, s')"
    using that by (cases "write_call eng ''sync'' (\<lambda>facts. Some ((), facts)) s")
      (auto simp: ps_sync_def own_def dest: write_call_effect split: if_splits)
  show "own th s s'" if "ps_flush eng s = (r1, s')" using that by (auto simp: ps_flush_def dest: own_call(1))
  show "own th s s'" if "ps_compact eng s = (r1, s')" using that by (auto simp: ps_compact_def dest: own_call(1))
qed

lemma own_replied: "replied f m = (r, s') \<Longrightarrow> (\<And>q. m = (q, s') \<Longrightarrow> own th s s') \<Longrightarrow> own th s s'"
  using replied_cases by blast

lemma run_others: "run_jop eng live th op s = (r, s') \<Longrightarrow> \<forall>other. other \<noteq> th \<longrightarrow> ps_stacks s' other = ps_stacks s other"
  unfolding own_def [symmetric] by (cases op) (auto elim!: own_replied intro: own_ops)

section \<open>Properties\<close>

text \<open>C25. Whatever calls threads make, in whatever order and with whatever failures, every stored fact fits the schema, and
  matching answers only facts of it: a declared head, its arity, and arguments that are symbols or primitive values.\<close>

theorem journal_facts_typed:
  assumes "dict_ok (=) schema" "list_all (fact_ok schema) facts" "jreach (opened schema facts) s"
    and "ps_match eng th pattern s = (Inr as, s')"
  shows "list_all (fact_typed schema) as \<and> list_all (fact_ok schema) (ps_facts s')"
proof -
  have s: "typed s" "ps_schema s = schema"
    using jreach_typed [OF assms(3) opened_typed [OF assms(1,2)]] by (simp_all add: opened_def)
  have "typed s'" "ps_schema s' = schema" using matching.step_kept [OF s(1) assms(4)] s(2) by simp_all
  with match_answers [OF assms(4) s(1)] s(2) show ?thesis
    by (auto simp: list_all_iff enterable_typed typed_def facts_ok_def)
qed

definition sample_schema :: schema where
  "sample_schema = [(''edge'', 2), (''ok'', 1)]"

definition sample_provider :: persistent where
  "sample_provider = opened sample_schema [(''ok'', [NAtom ''true'']), (''edge'', [NInt 1, NText ''b''])]"

definition staged_store :: persistent where
  "staged_store = set_stack 7 [\<lparr>
      tx_base = [Expression [Symbol ''edge'', gnd (VInt 1), gnd (VStr ''b'')], Expression [Symbol ''ok'', gnd (VBool True)]],
      tx_atoms = [Expression [Symbol ''ok'', gnd (VBool True)], Expression [Symbol ''ok'', Symbol ''c'']]\<rparr>] (sample_provider\<lparr>ps_turn := 1\<rparr>)"

lemmas journal_eval = sample_schema_def sample_provider_def opened_def set_stack_def staged_store_def
  ps_begin_def ps_add_def ps_remove_def ps_commit_def ps_match_def ps_clear_def ps_rollback_def visible_facts_def durable_facts_def
  ps_call_def write_call_def goal_all_def goal_match_def goal_add_def goal_remove_def goal_apply_diff_def goal_clear_def facts_of_head_def
  commit_diff_def pop_stack_def fact_atom_def encode_native_def gnd_def fact_parts_def validated_fact_head_def argument_wire_def
  is_primitive_def native_fact_def fits_schema_def same_multiset_def ordered_surplus_def fact_tally_def tallied_def stage_def Let_def
  is_nan_def

lemma sample_ok:
  "dict_ok (=) sample_schema" "list_all (fact_ok sample_schema) [(''ok'', [NAtom ''true'']), (''edge'', [NInt 1, NText ''b''])]"
  by (simp_all add: sample_schema_def fact_ok_def fits_schema_def native_ok_def)

theorem journal_facts_typed_witness:
  "list_all (fact_typed sample_schema) [Expression [Symbol ''ok'', gnd (VBool True)], Expression [Symbol ''edge'', gnd (VInt 1), gnd (VStr ''b'')]]"
proof -
  have "ps_match (\<lambda>_. Answered) 7 (Variable ''x'') (opened sample_schema [(''ok'', [NAtom ''true'']), (''edge'', [NInt 1, NText ''b''])]) =
      (Inr [Expression [Symbol ''edge'', gnd (VInt 1), gnd (VStr ''b'')], Expression [Symbol ''ok'', gnd (VBool True)]],
       sample_provider\<lparr>ps_turn := 1\<rparr>)"
    by (simp add: journal_eval)
  from journal_facts_typed [OF sample_ok jstart this] show ?thesis by simp
qed

text \<open>C26. A call that raises leaves the stored facts as they were, with one exception: a \<open>sync\<close> that raises on a provider
  in good order has read the journal again, so the facts are those the journal gave it, and no later write can act on
  them, for the failure is latched. After a failed write no call, of any thread, a second \<open>sync\<close> included, changes the
  facts or clears the failure. What one thread does leaves the staging of the others alone.\<close>

theorem journal_all_or_nothing:
  assumes "run_jop eng live th op s = (r, s')"
  shows "((\<exists>e. r = Inl e) \<longrightarrow> ps_facts s' = ps_facts s \<or>
      (\<exists>reloaded. op = JSync reloaded \<and> \<not> ps_closed s \<and> ps_failure s = None \<and> ps_failure s' = Some ''sync''
         \<and> ps_facts s' = filter (fact_ok (ps_schema s)) reloaded))
    \<and> (ps_failure s \<noteq> None \<longrightarrow> ps_facts s' = ps_facts s \<and> ps_failure s' = ps_failure s)
    \<and> (\<forall>other. other \<noteq> th \<longrightarrow> ps_stacks s' other = ps_stacks s other)"
proof (intro conjI impI)
  assume err: "\<exists>e. r = Inl e"
  show "ps_facts s' = ps_facts s \<or>
      (\<exists>reloaded. op = JSync reloaded \<and> \<not> ps_closed s \<and> ps_failure s = None \<and> ps_failure s' = Some ''sync''
         \<and> ps_facts s' = filter (fact_ok (ps_schema s)) reloaded)"
  proof (cases "\<exists>reloaded. op = JSync reloaded")
    case True
    then obtain reloaded e where op: "op = JSync reloaded" "ps_sync eng (filter (fact_ok (ps_schema s)) reloaded) s = (Inl e, s')"
      using assms err by (auto dest!: replied_cases)
    from sync_raises [OF op(2)] op(1) show ?thesis by blast
  next
    case False
    with run_contract [OF assms] err show ?thesis by (auto simp: contract_def)
  qed
qed (use run_kept [OF assms] run_others [OF assms] in auto)

text \<open>C24. An outermost commit ends the thread's transaction whatever happens. If it raises, the stored facts are as they
  were; otherwise the store still held what the transaction was based on, and now holds exactly the staged facts,
  each as often as it is staged.\<close>

theorem commit_writes_staged:
  assumes "dict_ok (=) schema" "list_all (fact_ok schema) facts" "jreach (opened schema facts) s"
    and "ps_stacks s th = [t]" "ps_commit eng live th s = (r, s')"
  shows "ps_stacks s' th = [] \<and> (case r of
      Inl _ \<Rightarrow> ps_facts s' = ps_facts s
    | Inr _ \<Rightarrow> mset (ps_facts s) = mset (map stored_fact (tx_base t)) \<and> mset (ps_facts s') = mset (map stored_fact (tx_atoms t)))"
  using commit_outermost [OF _ assms(4,5)] jreach_typed [OF assms(3) opened_typed [OF assms(1,2)]] by (cases r) simp_all

text \<open>Thread 7 begins, removes the edge and adds another fact; then it commits.\<close>

lemma staged_reached: "jreach sample_provider staged_store"
proof -
  let ?edge = "Expression [Symbol ''edge'', gnd (VInt 1), gnd (VStr ''b'')]" and ?ok = "Expression [Symbol ''ok'', gnd (VBool True)]"
  let ?s1 = "set_stack 7 [\<lparr>tx_base = [?edge, ?ok], tx_atoms = [?edge, ?ok]\<rparr>] (sample_provider\<lparr>ps_turn := 1\<rparr>)"
  let ?s2 = "set_stack 7 [\<lparr>tx_base = [?edge, ?ok], tx_atoms = [?ok]\<rparr>] (sample_provider\<lparr>ps_turn := 1\<rparr>)"
  have 1: "run_jop (\<lambda>_. Answered) (\<lambda>_. False) 7 JBegin sample_provider = (Inr Done, ?s1)"
    by (simp add: journal_eval replied_def)
  have 2: "run_jop (\<lambda>_. Answered) (\<lambda>_. False) 7 (JRemove ?edge) ?s1 = (Inr (Verdict True), ?s2)"
    by (simp add: journal_eval replied_def atom_eq_core)
  have 3: "run_jop (\<lambda>_. Answered) (\<lambda>_. False) 7 (JAdd (Expression [Symbol ''ok'', Symbol ''c''])) ?s2 = (Inr Done, staged_store)"
    by (simp add: journal_eval replied_def)
  show ?thesis by (rule jnext [OF jnext [OF jnext [OF jstart 1] 2] 3])
qed

theorem commit_writes_staged_witness:
  "\<exists>s'. ps_commit (\<lambda>_. Answered) (\<lambda>_. False) 7 staged_store = (Inr (), s') \<and> ps_stacks s' 7 = []
     \<and> mset (ps_facts s') = {#(''ok'', [NAtom ''true'']), (''ok'', [NAtom ''c''])#}"
proof -
  obtain r s' where c: "ps_commit (\<lambda>_. Answered) (\<lambda>_. False) 7 staged_store = (r, s')"
    by (cases "ps_commit (\<lambda>_. Answered) (\<lambda>_. False) 7 staged_store")
  then have "r = Inr ()" by (simp add: journal_eval atom_eq_core)
  with commit_writes_staged [OF sample_ok staged_reached [unfolded sample_provider_def] _ c] c show ?thesis
    by (simp add: staged_store_def set_stack_def gnd_def is_nan_def)
qed

theorem journal_all_or_nothing_witness:
  "ps_facts (snd (run_jop (\<lambda>_. Broken) (\<lambda>_. False) 7 JClear sample_provider)) = ps_facts sample_provider \<and>
   (let s = snd (run_jop (\<lambda>_. Broken) (\<lambda>_. False) 7 (JSync []) sample_provider) in
      ps_failure s = Some ''sync'' \<and> ps_facts (snd (run_jop (\<lambda>_. Answered) (\<lambda>_. False) 7 (JSync [(''ok'', [NInt 1])]) s)) = [])"
proof -
  obtain r s' where c: "run_jop (\<lambda>_. Broken) (\<lambda>_. False) 7 JClear sample_provider = (r, s')"
    by (cases "run_jop (\<lambda>_. Broken) (\<lambda>_. False) 7 JClear sample_provider")
  then have "\<exists>e. r = Inl e" by (auto simp: journal_eval replied_def)
  with journal_all_or_nothing [OF c] c have 1: "ps_facts (snd (run_jop (\<lambda>_. Broken) (\<lambda>_. False) 7 JClear sample_provider)) = ps_facts sample_provider"
    by simp
  let ?s = "snd (run_jop (\<lambda>_. Broken) (\<lambda>_. False) 7 (JSync []) sample_provider)"
  have s: "ps_failure ?s = Some ''sync''" "ps_facts ?s = []" by (simp_all add: journal_eval replied_def ps_sync_def)
  obtain q s2 where d: "run_jop (\<lambda>_. Answered) (\<lambda>_. False) 7 (JSync [(''ok'', [NInt 1])]) ?s = (q, s2)"
    by (cases "run_jop (\<lambda>_. Answered) (\<lambda>_. False) 7 (JSync [(''ok'', [NInt 1])]) ?s")
  from journal_all_or_nothing [OF d] s d 1 show ?thesis by (simp only: Let_def snd_conv) simp
qed

section \<open>What the engine makes of booleans and envelopes\<close>

text \<open>A fact with the symbol true is staged as it was given, and a staged removal of the boolean misses it; the store keeps
  and answers the boolean, so the same removal after the commit finds it.\<close>

lemma staged_boolean_differs:
  "remove_first (Expression [Symbol ''ok'', gnd (VBool True)]) [Expression [Symbol ''ok'', Symbol ''true'']] = None"
  "stored_fact (Expression [Symbol ''ok'', Symbol ''true'']) = stored_fact (Expression [Symbol ''ok'', gnd (VBool True)])"
  by (simp_all add: atom_eq_core gnd_def)

text \<open>An argument that keeps its envelope is accepted, refused by the engine, and the provider is unusable after it.\<close>

lemma envelope_latches:
  "\<exists>e s'. ps_add (\<lambda>_. Answered) (\<lambda>_. False) 7 (Expression [Symbol ''ok'', Grounded (VInt 1) (Some 3)]) sample_provider = (Inl e, s')
     \<and> ps_failure s' = Some ''add''"
  by (simp add: journal_eval)

end
