(* ===== verification/Ledgers.thy ===== *)
theory Ledgers
  imports Journals
begin

text \<open>
  The persistent fact space as a ledger: a stack of multisets of facts, the store at the bottom and one per savepoint
  above it. A session of one thread, without a failing crossing, answers and leaves what the ledger does. The facts a
  session brings are \<open>plain\<close>: no symbol true or false, which the engine would turn into booleans, and no value that keeps
  an envelope, which the engine refuses.
\<close>

section \<open>The specification\<close>

type_synonym ledger = "nfact multiset list"

datatype answer = Refused | Accepted | Found bool | Seen "nfact multiset"

definition names_live :: "(string \<Rightarrow> bool) \<Rightarrow> atom \<Rightarrow> bool" where
  "names_live live a =
     (case a of Expression (_ # params) \<Rightarrow> list_ex (\<lambda>p. case p of Symbol s \<Rightarrow> live s | _ \<Rightarrow> False) params | _ \<Rightarrow> False)"

fun ledger_op :: "(string \<Rightarrow> bool) \<Rightarrow> schema \<Rightarrow> jop \<Rightarrow> ledger \<Rightarrow> answer \<times> ledger" where
  "ledger_op live schema (JAdd a) (m # ms) =
     (if fact_typed schema a \<and> \<not> names_live live a then (Accepted, add_mset (stored_fact a) m # ms) else (Refused, m # ms))"
| "ledger_op live schema (JRemove a) (m # ms) =
     (if fact_typed schema a then (Found (stored_fact a \<in># m), (m - {#stored_fact a#}) # ms) else (Refused, m # ms))"
| "ledger_op live schema JClear (m # ms) = (Accepted, {#} # ms)"
| "ledger_op live schema JBegin (m # ms) = (Accepted, m # m # ms)"
| "ledger_op live schema JCommit (m # ms) = (case ms of [] \<Rightarrow> (Refused, [m]) | _ # ks \<Rightarrow> (Accepted, m # ks))"
| "ledger_op live schema JRollback (m # ms) = (case ms of [] \<Rightarrow> (Refused, [m]) | _ \<Rightarrow> (Accepted, ms))"
| "ledger_op live schema (JMatch pattern) (m # ms) =
     (Seen (case pattern of
        Expression (Symbol h # _) \<Rightarrow> if dict_get (=) h schema \<noteq> None then filter_mset (\<lambda>fct. fst fct = h) m else m
      | _ \<Rightarrow> m), m # ms)"
| "ledger_op live schema op ms = (Accepted, ms)"

fun ledger_run :: "(string \<Rightarrow> bool) \<Rightarrow> schema \<Rightarrow> jop list \<Rightarrow> ledger \<Rightarrow> answer list \<times> ledger" where
  "ledger_run live schema [] ms = ([], ms)"
| "ledger_run live schema (op # ops) ms =
     (case ledger_op live schema op ms of (a, ms') \<Rightarrow> case ledger_run live schema ops ms' of (as, ms'') \<Rightarrow> (a # as, ms''))"

section \<open>The session\<close>

fun answer_of :: "journal_error + reply \<Rightarrow> answer" where
  "answer_of (Inl _) = Refused"
| "answer_of (Inr Done) = Accepted"
| "answer_of (Inr (Verdict b)) = Found b"
| "answer_of (Inr (Listed as)) = Seen (stored as)"

fun session :: "crossings \<Rightarrow> (string \<Rightarrow> bool) \<Rightarrow> int \<Rightarrow> jop list \<Rightarrow> persistent \<Rightarrow> answer list \<times> persistent" where
  "session eng live th [] s = ([], s)"
| "session eng live th (op # ops) s =
     (case run_jop eng live th op s of (r, s') \<Rightarrow> case session eng live th ops s' of (as, s'') \<Rightarrow> (answer_of r # as, s''))"

definition ledger_of :: "int \<Rightarrow> persistent \<Rightarrow> ledger" where
  "ledger_of th s = map (\<lambda>t. stored (tx_atoms t)) (ps_stacks s th) @ [mset (ps_facts s)]"

definition bare_argument :: "atom \<Rightarrow> bool" where
  "bare_argument p = (case p of Symbol s \<Rightarrow> s \<noteq> ''true'' \<and> s \<noteq> ''false'' | Grounded _ e \<Rightarrow> e = None | _ \<Rightarrow> True)"

definition plain_fact :: "atom \<Rightarrow> bool" where
  "plain_fact a = (case a of Expression (_ # params) \<Rightarrow> list_all bare_argument params | _ \<Rightarrow> True)"

fun plain_op :: "jop \<Rightarrow> bool" where
  "plain_op (JAdd a) = plain_fact a"
| "plain_op (JRemove a) = plain_fact a"
| "plain_op (JWorld _ _ _) = False"
| "plain_op (JSync _) = False"
| "plain_op _ = True"

section \<open>Plain facts\<close>

lemma bare_argument_wire:
  "bare_argument p \<Longrightarrow> argument_typed p \<Longrightarrow> \<exists>w. argument_wire p = Inr w \<and> decode_wire w = Some (native_of p)"
  by (cases p) (auto simp: bare_argument_def argument_wire_def is_primitive_def split: pyvalue.splits)

lemma bare_arguments_wire:
  "list_all bare_argument ps \<Longrightarrow> list_all argument_typed ps \<Longrightarrow>
   \<exists>ws. concatE (\<lambda>p. bindE (argument_wire p) (\<lambda>w. Inr [w])) ps = Inr ws \<and> decode_all ws = Some (map native_of ps) \<and> length ws = length ps"
proof (induction ps)
  case (Cons p ps)
  then obtain w ws where "argument_wire p = Inr w" "decode_wire w = Some (native_of p)"
    "concatE (\<lambda>p. bindE (argument_wire p) (\<lambda>w. Inr [w])) ps = Inr ws" "decode_all ws = Some (map native_of ps)" "length ws = length ps"
    using bare_argument_wire [of p] by auto
  then show ?case by simp
qed simp

lemma fact_typedE:
  assumes "fact_typed schema a"
  obtains h params where "a = Expression (Symbol h # params)" "dict_get (=) h schema = Some (length params)"
    "list_all argument_typed params"
  using assms by (cases "(schema, a)" rule: fact_typed.cases) auto

lemma plain_parts:
  assumes "plain_fact a" "fact_typed schema a" "durable \<Longrightarrow> \<not> names_live live a"
  shows "\<exists>part. fact_parts live durable schema a = Inr part \<and> native_fact schema part = Some (stored_fact a)"
proof -
  obtain h params where a: "a = Expression (Symbol h # params)" "dict_get (=) h schema = Some (length params)"
    "list_all argument_typed params" using assms(2) by (rule fact_typedE)
  with assms(1) bare_arguments_wire [of params] obtain ws where
    "concatE (\<lambda>p. bindE (argument_wire p) (\<lambda>w. Inr [w])) params = Inr ws" "decode_all ws = Some (map native_of params)"
    "length ws = length params" by (auto simp: plain_fact_def)
  with a assms(3) show ?thesis
    by (auto simp: fact_parts_def validated_fact_head_def native_fact_def fits_schema_def names_live_def)
qed

lemma parts_typed:
  assumes "fact_parts live durable schema a = Inr part"
  shows "fact_typed schema a \<and> (durable \<longrightarrow> \<not> names_live live a)"
proof
  show "fact_typed schema a" using fact_parts_enterable [OF assms] by (rule enterable_typed)
  show "durable \<longrightarrow> \<not> names_live live a"
    using assms by (auto simp: fact_parts_def validated_fact_head_def names_live_def
        split: if_splits atom.splits list.splits option.splits)
qed

lemma core_argument:
  "bare_argument p \<Longrightarrow> argument_typed p \<Longrightarrow> core (atom_of_wire (encode_native (native_of p))) = core p"
  by (cases p) (auto simp: bare_argument_def is_primitive_def encode_native_def gnd_def is_nan_def split: pyvalue.splits pyfloat.splits)

text \<open>A plain fact is determined, up to what equality sees, by what the store keeps of it.\<close>

lemma core_of_stored:
  assumes "plain_fact a" "fact_typed schema a"
  shows "core (fact_atom (stored_fact a)) = core a"
proof -
  obtain h params where "a = Expression (Symbol h # params)" "list_all argument_typed params"
    using assms(2) by (rule fact_typedE)
  with assms(1) show ?thesis
    by (auto simp: fact_atom_def plain_fact_def list_all_iff core_argument)
qed

lemma cores_of_stored:
  "\<forall>a \<in> set as. plain_fact a \<and> fact_typed schema a \<Longrightarrow> cores as = image_mset (\<lambda>fct. core (fact_atom fct)) (stored as)"
  by (induction as) (auto simp: core_of_stored)

lemma stored_eq_core:
  "plain_fact a \<Longrightarrow> fact_typed schema a \<Longrightarrow> plain_fact b \<Longrightarrow> fact_typed schema b \<Longrightarrow> stored_fact a = stored_fact b \<longleftrightarrow> core a = core b"
  by (metis core_of_stored stored_fact_core)

lemma read_plain: "plain_fact (fact_atom fct)"
  by (auto simp: plain_fact_def fact_atom_def list_all_iff bare_argument_def encode_native_def gnd_def split: native.splits)

section \<open>Simulation\<close>

abbreviation answering :: crossings where
  "answering \<equiv> \<lambda>_. Answered"

definition calm :: "(string \<Rightarrow> bool) \<Rightarrow> schema \<Rightarrow> atom \<Rightarrow> bool" where
  "calm live schema a = (plain_fact a \<and> fact_typed schema a \<and> \<not> names_live live a)"

text \<open>An open provider that no failed write has latched, nothing in it that a live cell could make unwritable, and the
  outermost base of the thread's transaction still what the store holds.\<close>

definition in_step :: "(string \<Rightarrow> bool) \<Rightarrow> int \<Rightarrow> persistent \<Rightarrow> bool" where
  "in_step live th s =
     (typed s \<and> \<not> ps_closed s \<and> ps_failure s = None
      \<and> (\<forall>fct \<in> set (ps_facts s). calm live (ps_schema s) (fact_atom fct))
      \<and> (\<forall>t \<in> set (ps_stacks s th). list_all (calm live (ps_schema s)) (tx_base t @ tx_atoms t))
      \<and> (ps_stacks s th \<noteq> [] \<longrightarrow> stored (tx_base (last (ps_stacks s th))) = mset (ps_facts s)))"

lemma in_stepD:
  assumes "in_step live th s"
  shows "typed s" "\<not> ps_closed s" "ps_failure s = None" "dict_ok (=) (ps_schema s)" "list_all (fact_ok (ps_schema s)) (ps_facts s)"
    "\<forall>fct \<in> set (ps_facts s). calm live (ps_schema s) (fact_atom fct)"
    "\<forall>t \<in> set (ps_stacks s th). list_all (calm live (ps_schema s)) (tx_base t @ tx_atoms t)"
    "ps_stacks s th \<noteq> [] \<Longrightarrow> stored (tx_base (last (ps_stacks s th))) = mset (ps_facts s)"
  using assms by (auto simp: in_step_def typed_def facts_ok_def)

lemma answered_call:
  "\<not> ps_closed s \<Longrightarrow> goal (ps_facts s) = Some (a, facts) \<Longrightarrow>
   ps_call answering b helper goal s = (Inr a, s\<lparr>ps_turn := Suc (ps_turn s), ps_facts := facts\<rparr>)"
  by (simp add: ps_call_def Let_def)

lemma answered_write:
  "\<not> ps_closed s \<Longrightarrow> ps_failure s = None \<Longrightarrow> goal (ps_facts s) = Some (a, facts) \<Longrightarrow>
   write_call answering helper goal s = (Inr a, s\<lparr>ps_turn := Suc (ps_turn s), ps_facts := facts\<rparr>)"
  by (simp add: write_call_def answered_call)

lemma in_step_write:
  assumes "in_step live th s" "ps_stacks s th = []" "list_all (fact_ok (ps_schema s)) facts"
    "\<forall>fct \<in> set facts. calm live (ps_schema s) (fact_atom fct)"
  shows "in_step live th (s\<lparr>ps_turn := n, ps_facts := facts\<rparr>)"
  using assms by (auto simp: in_step_def typed_def facts_ok_def staged_ok_def)

lemma in_step_stage:
  assumes "in_step live th s" "ps_stacks s th = t # ts" "list_all (calm live (ps_schema s)) as"
    "list_all (enterable (ps_schema s)) as"
  shows "in_step live th (stage th as s)" "ledger_of th (stage th as s) = stored as # map (\<lambda>t. stored (tx_atoms t)) ts @ [mset (ps_facts s)]"
proof -
  have "ps_stacks (stage th as s) th = t\<lparr>tx_atoms := as\<rparr> # ts" using assms(2) by (simp add: stage_def)
  with assms typed_stage [OF in_stepD(1) [OF assms(1)] assms(4)]
  show "in_step live th (stage th as s)" "ledger_of th (stage th as s) = stored as # map (\<lambda>t. stored (tx_atoms t)) ts @ [mset (ps_facts s)]"
    by (auto simp: in_step_def ledger_of_def)
qed

lemma ledger_Cons: "ps_stacks s th = t # ts \<Longrightarrow>
    ledger_of th s = stored (tx_atoms t) # map (\<lambda>t. stored (tx_atoms t)) ts @ [mset (ps_facts s)]"
  by (simp add: ledger_of_def)

lemma ledger_Nil: "ps_stacks s th = [] \<Longrightarrow> ledger_of th s = [mset (ps_facts s)]"
  by (simp add: ledger_of_def)

text \<open>One call does what the ledger does.\<close>

definition simulates :: "(string \<Rightarrow> bool) \<Rightarrow> int \<Rightarrow> jop \<Rightarrow> persistent \<Rightarrow> reply jcall \<Rightarrow> bool" where
  "simulates live th op s m =
     (case m of (r, s') \<Rightarrow> ps_schema s' = ps_schema s \<and> in_step live th s'
        \<and> ledger_op live (ps_schema s) op (ledger_of th s) = (answer_of r, ledger_of th s'))"

lemma replied_simps [simp]: "replied f (Inl e, s) = (Inl e, s)" "replied f (Inr a, s) = (Inr (f a), s)"
  by (simp_all add: replied_def)

lemma calm_enterable: "calm live schema a \<Longrightarrow> enterable schema a"
  using plain_parts [of a schema False live] fact_parts_enterable by (fastforce simp: calm_def)

definition live_symbol :: "(string \<Rightarrow> bool) \<Rightarrow> atom \<Rightarrow> bool" where
  "live_symbol live p = (case p of Symbol s \<Rightarrow> live s | _ \<Rightarrow> False)"

lemma live_symbol_read:
  "bare_argument p \<Longrightarrow> argument_typed p \<Longrightarrow> live_symbol live (atom_of_wire (encode_native (native_of p))) = live_symbol live p"
  by (cases p) (auto simp: live_symbol_def bare_argument_def encode_native_def gnd_def is_primitive_def split: pyvalue.splits)

lemma calm_fact_atom:
  assumes "calm live schema a"
  shows "calm live schema (fact_atom (stored_fact a))"
proof -
  from assms have typed: "fact_typed schema a" and plain: "plain_fact a" and quiet: "\<not> names_live live a"
    by (simp_all add: calm_def)
  from plain_parts [of a schema False live] typed plain have "fact_typed schema (fact_atom (stored_fact a))"
    by (auto intro: enterable_typed read_enterable native_fact_ok)
  moreover have "\<not> names_live live (fact_atom (stored_fact a))"
  proof -
    obtain h params where a: "a = Expression (Symbol h # params)" "list_all argument_typed params"
      using typed by (rule fact_typedE)
    have "list_ex (live_symbol live) (map (\<lambda>p. atom_of_wire (encode_native (native_of p))) params) = list_ex (live_symbol live) params"
      using a plain by (auto simp: list_ex_iff list_all_iff plain_fact_def live_symbol_read)
    with quiet a(1) show ?thesis by (simp add: names_live_def fact_atom_def comp_def live_symbol_def [abs_def])
  qed
  ultimately show ?thesis by (simp add: calm_def read_plain)
qed

lemma sim_add:
  assumes "in_step live th s" "plain_fact a"
  shows "simulates live th (JAdd a) s (run_jop answering live th (JAdd a) s)"
proof (cases "fact_parts live True (ps_schema s) a")
  case (Inl e)
  then have "\<not> (fact_typed (ps_schema s) a \<and> \<not> names_live live a)"
    using plain_parts [OF assms(2), of "ps_schema s" True live] by auto
  with Inl assms(1) show ?thesis
    by (cases "ledger_of th s") (auto simp: simulates_def ps_add_def ledger_of_def)
next
  case (Inr part)
  note adm = parts_typed [OF Inr]
  then have c: "calm live (ps_schema s) a" using assms(2) by (simp add: calm_def)
  obtain n where n: "native_fact (ps_schema s) part = Some (stored_fact a)"
    using plain_parts [OF assms(2), of "ps_schema s" True live] adm Inr by auto
  note d = in_stepD [OF assms(1)]
  show ?thesis
  proof (cases "ps_stacks s th")
    case Nil
    have w: "ps_add answering live th a s = (Inr (), s\<lparr>ps_turn := Suc (ps_turn s), ps_facts := ps_facts s @ [stored_fact a]\<rparr>)"
      using Inr Nil n d(2,3) by (simp add: ps_add_def answered_write goal_add_def)
    have "in_step live th (s\<lparr>ps_turn := Suc (ps_turn s), ps_facts := ps_facts s @ [stored_fact a]\<rparr>)"
      by (rule in_step_write [OF assms(1) Nil]) (use d(5,6) native_fact_ok [OF n] calm_fact_atom [OF c] in auto)
    with w adm Nil show ?thesis by (simp add: simulates_def ledger_of_def)
  next
    case (Cons t ts)
    have "list_all (calm live (ps_schema s)) (tx_atoms t @ [a])" using d(7) Cons c by simp
    moreover from this have "list_all (enterable (ps_schema s)) (tx_atoms t @ [a])" by (auto simp: list_all_iff calm_enterable)
    ultimately show ?thesis
      using in_step_stage [OF assms(1) Cons, of "tx_atoms t @ [a]"] Cons Inr adm
      by (simp add: simulates_def ps_add_def ledger_Cons)
  qed
qed

lemma calm_enterables: "list_all (calm live schema) as \<Longrightarrow> list_all (enterable schema) as"
  by (auto simp: list_all_iff calm_enterable)

lemma sim_remove:
  assumes "in_step live th s" "plain_fact a"
  shows "simulates live th (JRemove a) s (run_jop answering live th (JRemove a) s)"
proof (cases "fact_parts live False (ps_schema s) a")
  case (Inl e)
  then have "\<not> fact_typed (ps_schema s) a" using plain_parts [OF assms(2), of "ps_schema s" False live] by auto
  with Inl assms(1) show ?thesis
    by (cases "ledger_of th s") (auto simp: simulates_def ps_remove_def ledger_of_def)
next
  case (Inr part)
  note adm = parts_typed [OF Inr]
  obtain n where n: "native_fact (ps_schema s) part = Some (stored_fact a)"
    using plain_parts [OF assms(2), of "ps_schema s" False live] adm Inr by auto
  note d = in_stepD [OF assms(1)]
  show ?thesis
  proof (cases "ps_stacks s th")
    case Nil
    let ?facts = "remove1 (stored_fact a) (ps_facts s)"
    have w: "ps_remove answering live th a s =
        (Inr (stored_fact a \<in> set (ps_facts s)), s\<lparr>ps_turn := Suc (ps_turn s), ps_facts := ?facts\<rparr>)"
      using Inr Nil n d(2,3) by (simp add: ps_remove_def answered_write goal_remove_def)
    have "in_step live th (s\<lparr>ps_turn := Suc (ps_turn s), ps_facts := ?facts\<rparr>)"
      by (rule in_step_write [OF assms(1) Nil]) (use d(5,6) in \<open>auto simp: list_all_remove1 dest: notin_set_remove1\<close>)
    with w adm Nil show ?thesis by (simp add: simulates_def ledger_of_def)
  next
    case (Cons t ts)
    have atoms: "list_all (calm live (ps_schema s)) (tx_atoms t)" using d(7) Cons by simp
    have found: "core a \<in># cores (tx_atoms t) \<longleftrightarrow> stored_fact a \<in># stored (tx_atoms t)"
      using stored_eq_core [of a "ps_schema s"] assms(2) adm atoms by (auto simp: list_all_iff calm_def)
    note f = remove_first_cores [of a "tx_atoms t"]
    show ?thesis
    proof (cases "remove_first a (tx_atoms t)")
      case None
      with f found Inr Cons adm assms(1) show ?thesis
        by (simp add: simulates_def ps_remove_def ledger_Cons)
    next
      case (Some left)
      with f have f': "core a \<in># cores (tx_atoms t)" "cores left = cores (tx_atoms t) - {#core a#}" "set left \<subseteq> set (tx_atoms t)"
        by simp_all
      have "stored left = stored (tx_atoms t) - {#stored_fact a#}"
        using f'(1) by (simp only: stored_cores f'(2) image_mset_Diff [OF single_subset_iff [THEN iffD2]] image_mset_single stored_fact_core)
      moreover have c: "list_all (calm live (ps_schema s)) left" using atoms f'(3) by (auto simp: list_all_iff)
      ultimately show ?thesis
        using in_step_stage [OF assms(1) Cons c calm_enterables [OF c]] Cons Inr adm Some found f'(1)
        by (simp add: simulates_def ps_remove_def ledger_Cons)
    qed
  qed
qed

lemma sim_clear:
  assumes "in_step live th s"
  shows "simulates live th JClear s (run_jop answering live th JClear s)"
proof (cases "ps_stacks s th")
  case Nil
  note d = in_stepD [OF assms]
  have "filter (\<lambda>fct. \<not> fits_schema (ps_schema s) (fst fct) (length (snd fct))) (ps_facts s) = []"
    using d(5) by (auto simp: filter_empty_conv list_all_iff fact_ok_def)
  with Nil d(2,3) in_step_write [OF assms Nil, of "[]"] show ?thesis
    by (simp add: simulates_def ps_clear_def answered_write goal_clear_def ledger_of_def)
next
  case (Cons t ts)
  with in_step_stage [OF assms Cons, of "[]"] show ?thesis by (simp add: simulates_def ps_clear_def ledger_Cons)
qed

lemma in_step_turn: "in_step live th s \<Longrightarrow> in_step live th (s\<lparr>ps_turn := n\<rparr>)"
  by (simp add: in_step_def typed_def facts_ok_def staged_ok_def)

lemma ledger_turn: "ledger_of th (s\<lparr>ps_turn := n\<rparr>) = ledger_of th s"
  by (simp add: ledger_of_def)

lemma facts_same: "s\<lparr>ps_turn := n, ps_facts := ps_facts s\<rparr> = s\<lparr>ps_turn := n\<rparr>"
  by simp

lemma answered_all:
  assumes "in_step live th s"
  obtains base where "durable_facts answering None s = (Inr base, s\<lparr>ps_turn := Suc (ps_turn s)\<rparr>)"
    "stored base = mset (ps_facts s)" "list_all (calm live (ps_schema s)) base"
proof -
  let ?base = "map fact_atom (concat (map (facts_of_head (ps_facts s)) (ps_schema s)))"
  note d = in_stepD [OF assms]
  have all: "goal_all (ps_schema s) (ps_facts s) = Some (?base, ps_facts s)" by (simp add: goal_all_def)
  show ?thesis
  proof (rule that)
    show "durable_facts answering None s = (Inr ?base, s\<lparr>ps_turn := Suc (ps_turn s)\<rparr>)"
      using answered_call [where goal = "goal_all (ps_schema s)", OF d(2) all] by (simp add: durable_facts_def)
    show "stored ?base = mset (ps_facts s)" by (rule stored_all [OF d(4,5) all])
    show "list_all (calm live (ps_schema s)) ?base" using d(6) by (auto simp: list_all_iff facts_of_head_def)
  qed
qed

lemma sim_begin:
  assumes "in_step live th s"
  shows "simulates live th JBegin s (run_jop answering live th JBegin s)"
proof (cases "ps_stacks s th")
  case Nil
  obtain base where b: "durable_facts answering None s = (Inr base, s\<lparr>ps_turn := Suc (ps_turn s)\<rparr>)"
    "stored base = mset (ps_facts s)" "list_all (calm live (ps_schema s)) base" by (rule answered_all [OF assms])
  let ?s = "set_stack th [\<lparr>tx_base = base, tx_atoms = base\<rparr>] (s\<lparr>ps_turn := Suc (ps_turn s)\<rparr>)"
  have "typed ?s" using in_stepD(1) [OF in_step_turn [OF assms]] calm_enterables [OF b(3)] by (intro typed_set_stack) auto
  with assms b(2,3) Nil have "in_step live th ?s" by (simp add: in_step_def)
  with b Nil show ?thesis by (simp add: simulates_def ps_begin_def ledger_of_def)
next
  case (Cons t ts)
  let ?s = "set_stack th (\<lparr>tx_base = tx_atoms t, tx_atoms = tx_atoms t\<rparr> # t # ts) s"
  have "typed ?s" using in_stepD(1) [OF assms] typed_tops [OF _ Cons] by (intro typed_set_stack) auto
  with assms Cons have "in_step live th ?s" by (auto simp: in_step_def)
  with Cons show ?thesis by (simp add: simulates_def ps_begin_def ledger_Cons)
qed

text \<open>A calm delta over a store that holds its base goes through.\<close>

lemma calm_parts:
  "list_all (calm live schema) as \<Longrightarrow>
   \<exists>ps. all_parts live d schema as = Inr ps \<and> list_all2 (\<lambda>p a. native_fact schema p = Some (stored_fact a)) ps as"
proof (induction as)
  case (Cons a as)
  then obtain ps where ps: "all_parts live d schema as = Inr ps" "list_all2 (\<lambda>p a. native_fact schema p = Some (stored_fact a)) ps as"
    by auto
  from Cons.prems plain_parts [of a schema d live] obtain part
    where "fact_parts live d schema a = Inr part" "native_fact schema part = Some (stored_fact a)" by (auto simp: calm_def)
  with ps show ?case by simp
qed simp

lemma apply_remove_some:
  "list_all2 (\<lambda>p a. native_fact schema p = Some (stored_fact a)) ps as \<Longrightarrow> stored as \<subseteq># mset facts \<Longrightarrow>
   \<exists>kept. apply_remove schema ps facts = Some kept"
proof (induction ps as arbitrary: facts rule: list_all2_induct)
  case (Cons p ps a as)
  from Cons.prems have "stored_fact a \<in> set facts" "stored as \<subseteq># mset (remove1 (stored_fact a) facts)"
    by (auto simp: insert_subset_eq_iff)
  with Cons.IH Cons.hyps(1) show ?case by simp
qed simp

lemma apply_add_some:
  "list_all2 (\<lambda>p a. native_fact schema p = Some (stored_fact a)) ps as \<Longrightarrow> \<exists>facts'. apply_add schema ps facts = Some facts'"
  by (induction ps as arbitrary: facts rule: list_all2_induct) auto

lemma surplus_stored: "stored (ordered_surplus base atoms) \<subseteq># stored base"
  by (simp only: stored_cores cores_surplus) (simp add: image_mset_subseteq_mono)

lemma calm_apply:
  assumes "list_all (calm live schema) base" "list_all (calm live schema) atoms" "mset facts = stored base"
  obtains rs as facts' where "delta_parts live schema (ordered_surplus base atoms) (ordered_surplus atoms base) = Inr (rs, as)"
    "goal_apply_diff schema rs as facts = Some ((), facts')"
proof -
  have "list_all (calm live schema) (ordered_surplus base atoms)" "list_all (calm live schema) (ordered_surplus atoms base)"
    using assms(1,2) set_surplus by (fastforce simp: list_all_iff)+
  with calm_parts obtain rs as
    where r: "all_parts live False schema (ordered_surplus base atoms) = Inr rs"
      "list_all2 (\<lambda>p a. native_fact schema p = Some (stored_fact a)) rs (ordered_surplus base atoms)"
    and a: "all_parts live True schema (ordered_surplus atoms base) = Inr as"
      "list_all2 (\<lambda>p a. native_fact schema p = Some (stored_fact a)) as (ordered_surplus atoms base)" by metis
  from apply_remove_some [OF r(2)] surplus_stored assms(3) obtain kept where k: "apply_remove schema rs facts = Some kept" by metis
  from apply_add_some [OF a(2)] obtain facts' where "apply_add schema as kept = Some facts'" by metis
  with r(1) a(1) k show ?thesis by (intro that) (auto simp: delta_parts_def goal_apply_diff_def)
qed

lemma calm_same:
  assumes "list_all (calm live schema) xs" "list_all (calm live schema) ys" "stored xs = stored ys"
  shows "same_multiset xs ys"
proof -
  have "\<forall>a \<in> set xs. plain_fact a \<and> fact_typed schema a" "\<forall>a \<in> set ys. plain_fact a \<and> fact_typed schema a"
    using assms(1,2) by (auto simp: list_all_iff calm_def)
  from this [THEN cores_of_stored] assms(3) show ?thesis by (simp only: same_multiset_cores)
qed

lemma sim_commit_outermost:
  assumes "in_step live th s" "ps_stacks s th = [t]"
  shows "simulates live th JCommit s (run_jop answering live th JCommit s)"
proof -
  note d = in_stepD [OF assms(1)]
  have base: "stored (tx_base t) = mset (ps_facts s)" and calm: "list_all (calm live (ps_schema s)) (tx_base t)"
    "list_all (calm live (ps_schema s)) (tx_atoms t)" using d(7,8) assms(2) by auto
  let ?rem = "ordered_surplus (tx_base t) (tx_atoms t)" and ?add = "ordered_surplus (tx_atoms t) (tx_base t)"
  obtain current where c: "durable_facts answering None s = (Inr current, s\<lparr>ps_turn := Suc (ps_turn s)\<rparr>)"
    "stored current = mset (ps_facts s)" "list_all (calm live (ps_schema s)) current" by (rule answered_all [OF assms(1)])
  have same: "same_multiset current (tx_base t)" by (rule calm_same [OF c(3) calm(1)]) (simp only: c(2) base)
  obtain rs as facts' where p: "delta_parts live (ps_schema s) ?rem ?add = Inr (rs, as)"
    "goal_apply_diff (ps_schema s) rs as (ps_facts s) = Some ((), facts')" by (rule calm_apply [OF calm base [symmetric]])
  obtain s1 where w: "commit_diff answering live (tx_base t) ?rem ?add s = (Inr (), s1)"
    and closed: "\<not> ps_closed s1" "ps_failure s1 = None"
    using c(1) same p d(2,3)
    by (cases "rs = [] \<and> as = []") (auto simp: commit_diff_def delta_parts_def answered_write)
  obtain r s' where r: "ps_commit answering live th s = (r, s')" by (cases "ps_commit answering live th s")
  have s': "r = Inr ()" "s' = set_stack th (tl (ps_stacks s1 th)) s1" using r w assms(2) by (auto simp: ps_commit_def pop_stack_def)
  have k: "typed s'" "ps_schema s' = ps_schema s" using commit_contract [OF r] d(1) by (simp_all add: contract_def)
  have out: "ps_stacks s' th = []" "mset (ps_facts s') = stored (tx_atoms t)"
    using commit_outermost [OF d(1) assms(2) r] s'(1) by simp_all
  have "\<forall>fct \<in> set (ps_facts s'). calm live (ps_schema s) (fact_atom fct)"
  proof
    fix fct assume "fct \<in> set (ps_facts s')"
    then have "fct \<in># stored (tx_atoms t)" using out(2) by (metis set_mset_mset)
    then show "calm live (ps_schema s) (fact_atom fct)" using calm(2) by (auto simp: list_all_iff calm_fact_atom)
  qed
  with k out closed s'(2) have "in_step live th s'" by (simp add: in_step_def)
  with r s'(1) k(2) out assms(2) show ?thesis by (simp add: simulates_def ledger_of_def)
qed

lemma in_step_stack:
  assumes "in_step live th s" "ps_stacks s th \<noteq> []" "\<forall>t \<in> set ts. list_all (calm live (ps_schema s)) (tx_base t @ tx_atoms t)"
    "ts \<noteq> [] \<Longrightarrow> tx_base (last ts) = tx_base (last (ps_stacks s th))"
  shows "in_step live th (set_stack th ts s)"
proof -
  have "typed (set_stack th ts s)" using assms(1,3) calm_enterables by (intro typed_set_stack in_stepD(1) [OF assms(1)]) auto
  with assms show ?thesis by (auto simp: in_step_def)
qed

lemma sim_commit:
  assumes "in_step live th s"
  shows "simulates live th JCommit s (run_jop answering live th JCommit s)"
proof (cases "ps_stacks s th" rule: remdups_adj.cases)
  case 1
  with assms show ?thesis by (simp add: simulates_def ps_commit_def ledger_of_def)
next
  case (2 t)
  with assms show ?thesis by (rule sim_commit_outermost)
next
  case (3 t p ts)
  let ?s = "set_stack th (p\<lparr>tx_atoms := tx_atoms t\<rparr> # ts) s"
  have "in_step live th ?s" by (rule in_step_stack [OF assms]) (use in_stepD(7) [OF assms] 3 in auto)
  moreover have "ps_commit answering live th s = (Inr (), ?s)"
    using 3 by (simp add: ps_commit_def pop_stack_def set_stack_def)
  ultimately show ?thesis using 3 by (simp add: simulates_def ledger_of_def)
qed

lemma sim_rollback:
  assumes "in_step live th s"
  shows "simulates live th JRollback s (run_jop answering live th JRollback s)"
proof (cases "ps_stacks s th")
  case Nil
  with assms show ?thesis by (simp add: simulates_def ps_rollback_def ledger_of_def)
next
  case (Cons t ts)
  have "in_step live th (set_stack th ts s)" by (rule in_step_stack [OF assms]) (use in_stepD(7) [OF assms] Cons in auto)
  with Cons show ?thesis by (cases ts) (simp_all add: simulates_def ps_rollback_def pop_stack_def ledger_of_def)
qed

lemma has_head_stored: "fact_typed schema a \<Longrightarrow> has_head h a \<longleftrightarrow> fst (stored_fact a) = h"
  by (erule fact_typedE) (auto simp: has_head_def)

lemma seen_durable:
  assumes "in_step live th s" "h = None \<or> (\<exists>n. dict_get (=) (the h) (ps_schema s) = Some n)"
  shows "\<exists>as. durable_facts answering h s = (Inr as, s\<lparr>ps_turn := Suc (ps_turn s)\<rparr>) \<and>
    stored as = (case h of None \<Rightarrow> mset (ps_facts s) | Some name \<Rightarrow> filter_mset (\<lambda>fct. fst fct = name) (mset (ps_facts s)))"
proof (cases h)
  case None
  with answered_all [OF assms(1)] show ?thesis by (metis option.simps(4))
next
  case (Some name)
  with assms(2) obtain n where n: "dict_get (=) name (ps_schema s) = Some n" by auto
  note d = in_stepD [OF assms(1)]
  let ?facts = "facts_of_head (ps_facts s) (name, n)"
  have "goal_match (ps_schema s) name (ps_facts s) = Some (map fact_atom ?facts, ps_facts s)" using n by (simp add: goal_match_def)
  from answered_call [where goal = "goal_match (ps_schema s) name", OF d(2) this]
  have "durable_facts answering h s = (Inr (map fact_atom ?facts), s\<lparr>ps_turn := Suc (ps_turn s)\<rparr>)"
    by (simp add: durable_facts_def Some)
  moreover have "list_all (fact_ok (ps_schema s)) ?facts" using d(5) by (auto simp: list_all_iff facts_of_head_def)
  moreover have "?facts = filter (\<lambda>fct. fst fct = name) (ps_facts s)"
    unfolding facts_of_head_def
    by (rule filter_cong) (use d(5) n in \<open>auto simp: list_all_iff fact_ok_def fits_schema_def\<close>)
  ultimately show ?thesis using stored_read [of "ps_schema s" ?facts] Some by (auto simp: mset_filter)
qed

lemma filter_stored:
  "list_all (fact_typed schema) as \<Longrightarrow> stored (filter (has_head name) as) = filter_mset (\<lambda>fct. fst fct = name) (stored as)"
  by (induction as) (auto simp: has_head_stored)

lemma seen_visible:
  assumes "in_step live th s" "h = None \<or> (\<exists>n. dict_get (=) (the h) (ps_schema s) = Some n)"
  shows "\<exists>as s'. visible_facts answering th h s = (Inr as, s') \<and> s' \<in> {s, s\<lparr>ps_turn := Suc (ps_turn s)\<rparr>} \<and>
    stored as = (case h of None \<Rightarrow> hd (ledger_of th s) | Some name \<Rightarrow> filter_mset (\<lambda>fct. fst fct = name) (hd (ledger_of th s)))"
proof (cases "ps_stacks s th")
  case Nil
  with seen_durable [OF assms] show ?thesis by (cases h) (auto simp: visible_facts_def ledger_Nil)
next
  case (Cons t ts)
  have "list_all (fact_typed (ps_schema s)) (tx_atoms t)"
    using in_stepD(7) [OF assms(1)] Cons by (auto simp: list_all_iff calm_def)
  from filter_stored [OF this] Cons show ?thesis by (cases h) (auto simp: visible_facts_def ledger_Cons)
qed

lemma sim_seen:
  assumes "in_step live th s" "visible_facts answering th h s = (Inr as, s')" "s' \<in> {s, s\<lparr>ps_turn := Suc (ps_turn s)\<rparr>}"
  shows "ps_schema s' = ps_schema s \<and> in_step live th s' \<and> ledger_of th s' = ledger_of th s"
  using assms in_step_turn [OF assms(1)] by (auto simp: ledger_turn)

lemma ledger_hd: "ledger_of th s = hd (ledger_of th s) # tl (ledger_of th s)"
  by (simp add: ledger_of_def)

lemma sim_match:
  assumes "in_step live th s"
  shows "simulates live th (JMatch pattern) s (run_jop answering live th (JMatch pattern) s)"
proof -
  obtain h where h: "ps_match answering th pattern s = visible_facts answering th h s"
    "h = None \<or> (\<exists>n. dict_get (=) (the h) (ps_schema s) = Some n)"
    "\<And>m ms. ledger_op live (ps_schema s) (JMatch pattern) (m # ms) =
      (Seen (case h of None \<Rightarrow> m | Some name \<Rightarrow> filter_mset (\<lambda>fct. fst fct = name) m), m # ms)"
  proof (cases "\<exists>name params n. pattern = Expression (Symbol name # params) \<and> dict_get (=) name (ps_schema s) = Some n")
    case True
    then obtain name params n where "pattern = Expression (Symbol name # params)" "dict_get (=) name (ps_schema s) = Some n" by blast
    then show ?thesis by (intro that [of "Some name"]) (simp_all add: ps_match_def)
  next
    case False
    show ?thesis
      by (rule that [of None]) (use False in \<open>auto simp: ps_match_def split: atom.splits list.splits\<close>)
  qed
  from seen_visible [OF assms h(2)] obtain as s' where v: "visible_facts answering th h s = (Inr as, s')"
    "s' \<in> {s, s\<lparr>ps_turn := Suc (ps_turn s)\<rparr>}"
    "stored as = (case h of None \<Rightarrow> hd (ledger_of th s) | Some name \<Rightarrow> filter_mset (\<lambda>fct. fst fct = name) (hd (ledger_of th s)))"
    by blast
  have "ledger_op live (ps_schema s) (JMatch pattern) (ledger_of th s) = (Seen (stored as), ledger_of th s)"
    by (subst (1 2) ledger_hd) (simp only: h(3) v(3))
  with sim_seen [OF assms v(1,2)] v(1) h(1) show ?thesis by (simp add: simulates_def)
qed

lemma sim_keep:
  assumes "in_step live th s"
  shows "simulates live th JFlush s (run_jop answering live th JFlush s)"
    "simulates live th JCompact s (run_jop answering live th JCompact s)"
  using in_stepD(2,3) [OF assms] in_step_turn [OF assms]
  by (simp_all add: simulates_def ps_flush_def ps_compact_def answered_write facts_same ledger_turn)

lemma sim_op: "in_step live th s \<Longrightarrow> plain_op op \<Longrightarrow> simulates live th op s (run_jop answering live th op s)"
  by (cases op) (auto simp del: run_jop.simps simp: sim_add sim_remove sim_clear sim_begin sim_commit sim_rollback sim_match sim_keep)

lemma session_refines:
  "in_step live th s \<Longrightarrow> list_all plain_op ops \<Longrightarrow> session answering live th ops s = (as, s') \<Longrightarrow>
   ledger_run live (ps_schema s) ops (ledger_of th s) = (as, ledger_of th s')"
proof (induction ops arbitrary: s as)
  case (Cons op ops)
  obtain r s1 where r: "run_jop answering live th op s = (r, s1)" by (cases "run_jop answering live th op s")
  obtain bs s2 where b: "session answering live th ops s1 = (bs, s2)" by (cases "session answering live th ops s1")
  from sim_op [OF Cons.prems(1), of op] Cons.prems(2) r
  have "ps_schema s1 = ps_schema s" "in_step live th s1"
    "ledger_op live (ps_schema s) op (ledger_of th s) = (answer_of r, ledger_of th s1)"
    by (simp_all add: simulates_def)
  with Cons.IH [of s1 bs] Cons.prems r b show ?case by simp
qed simp

lemma in_step_opened:
  assumes "dict_ok (=) schema" "list_all (fact_ok schema) facts" "list_all (\<lambda>fct. \<not> names_live live (fact_atom fct)) facts"
  shows "in_step live th (opened schema facts)"
proof -
  have "\<forall>fct \<in> set facts. fact_typed schema (fact_atom fct)" using assms(2) by (auto simp: list_all_iff read_enterable enterable_typed)
  with assms opened_typed [OF assms(1,2)] show ?thesis
    by (auto simp: in_step_def opened_def calm_def read_plain list_all_iff)
qed

section \<open>Properties\<close>

text \<open>C23. A session of one thread whose crossings all answer is the ledger's: adds and removals act on the multiset on top, a
  transaction works on a copy, an outermost commit makes the store exactly the staged multiset, a nested one hands it to
  its savepoint's parent, a rollback drops it, and every call answers and refuses as the ledger does.\<close>

theorem session_is_ledger:
  assumes "dict_ok (=) schema" "list_all (fact_ok schema) facts" "list_all (\<lambda>fct. \<not> names_live live (fact_atom fct)) facts"
    and "list_all plain_op ops" "session (\<lambda>_. Answered) live th ops (opened schema facts) = (as, s')"
  shows "ledger_run live schema ops [mset facts] = (as, map (\<lambda>t. stored (tx_atoms t)) (ps_stacks s' th) @ [mset (ps_facts s')])"
  using session_refines [OF in_step_opened [OF assms(1-3), where th = th] assms(4,5)] by (simp add: opened_def ledger_of_def)

theorem session_is_ledger_witness:
  "fst (session (\<lambda>_. Answered) (\<lambda>_. False) 7
      [JBegin, JClear, JBegin, JAdd (Expression [Symbol ''ok'', Symbol ''c'']), JCommit, JCommit,
       JRemove (Expression [Symbol ''ok'', Symbol ''c'']), JRollback] sample_provider) =
   [Accepted, Accepted, Accepted, Accepted, Accepted, Accepted, Found True, Refused]"
proof -
  let ?ops = "[JBegin, JClear, JBegin, JAdd (Expression [Symbol ''ok'', Symbol ''c'']), JCommit, JCommit,
       JRemove (Expression [Symbol ''ok'', Symbol ''c'']), JRollback]"
  let ?facts = "[(''ok'', [NAtom ''true'']), (''edge'', [NInt 1, NText ''b''])]"
  obtain as s' where r: "session (\<lambda>_. Answered) (\<lambda>_. False) 7 ?ops (opened sample_schema ?facts) = (as, s')"
    by (cases "session (\<lambda>_. Answered) (\<lambda>_. False) 7 ?ops (opened sample_schema ?facts)")
  have "list_all (\<lambda>fct. \<not> names_live (\<lambda>_. False) (fact_atom fct)) ?facts"
    by (simp add: names_live_def fact_atom_def encode_native_def gnd_def)
  from session_is_ledger [OF sample_ok this _ r] r show ?thesis
    by (simp add: plain_fact_def bare_argument_def sample_provider_def sample_schema_def names_live_def)
qed

end
