(* ===== verification/Attachment.thy ===== *)
theory Attachment
  imports Journal
begin

text \<open>
  Opening and closing a persistent fact space (\<open>metta/foreign/_persistent.py\<close>): the validation of its schema and of its
  rename map, the names of the generated predicates, the repair of a torn last record, the one-time renaming of a
  journal's heads, and the constructor and \<open>close\<close>, with the process-wide claims on paths, locks and modules they take and
  give back. SWI-Prolog's reader and writer of journal records are parameters, and whether a crossing or a disk call
  goes through is a script. A journal is a list of bytes.
\<close>

section \<open>The schema\<close>

datatype raw = RawStr string | RawInt int | RawBool bool | RawOther

datatype attach_error =
    BadHead raw
  | NullByte string
  | BadArity string
  | ApiClash string
  | UpdaterClash string
  | EmptySchema
  | RenameType
  | RenameNull string
  | RenameNoOp string
  | RenameDeclared string
  | RenameUndeclared string
  | RenameTwice string
  | BadSync
  | BadPath
  | AlreadyAttached string
  | CannotLock string
  | Claimed string
  | CannotQuote string
  | CrossingBroke
  | CannotInspect
  | CorruptRecord
  | CompleteRecord
  | BadEncoding
  | BackupExists
  | CannotBackup
  | CannotTruncate
  | AbsentNames "string list"
  | CannotMigrate

definition persistency_api :: "(string \<times> nat) list" where
  "persistency_api =
     [(''persistent'', 1), (''current_persistent_predicate'', 1), (''db_attach'', 2), (''db_detach'', 0), (''db_attached'', 1),
      (''db_sync'', 1), (''db_sync_all'', 1)]"

definition schema_entry :: "raw \<times> raw \<Rightarrow> attach_error + string \<times> nat" where
  "schema_entry entry =
     (case fst entry of
        RawStr h \<Rightarrow>
          if CHR 0x00 \<in> set h then Inl (NullByte h)
          else (case snd entry of
            RawInt n \<Rightarrow>
              if n < 0 then Inl (BadArity h)
              else if (h, nat n) \<in> set persistency_api then Inl (ApiClash h) else Inr (h, nat n)
          | _ \<Rightarrow> Inl (BadArity h))
      | r \<Rightarrow> Inl (BadHead r))"

definition updater_prefixes :: "string list" where
  "updater_prefixes = [''assert_'', ''asserta_'', ''retract_'', ''retractall_'']"

definition updaters :: "schema \<Rightarrow> (string \<times> nat) list" where
  "updaters schema = concat (map (\<lambda>(h, n). map (\<lambda>p. (p @ h, n)) updater_prefixes) schema)"

definition validate_updaters :: "schema \<Rightarrow> attach_error + unit" where
  "validate_updaters schema =
     (case filter (\<lambda>(g, n). dict_get (=) g schema = Some n) (updaters schema) of
        [] \<Rightarrow> Inr ()
      | (g, _) # _ \<Rightarrow> Inl (UpdaterClash g))"

definition validated_schema :: "(raw \<times> raw) list \<Rightarrow> attach_error + schema" where
  "validated_schema raws =
     bindE (foldE (\<lambda>copied entry. bindE (schema_entry entry) (\<lambda>(h, n). Inr (dict_set (=) h n copied))) [] raws) (\<lambda>copied.
     if copied = [] then Inl EmptySchema else bindE (validate_updaters copied) (\<lambda>_. Inr copied))"

section \<open>The rename map\<close>

definition rename_entry :: "schema \<Rightarrow> (string, string) dict \<Rightarrow> raw \<times> raw \<Rightarrow> attach_error + (string, string) dict" where
  "rename_entry schema copied entry =
     (case entry of
        (RawStr old, RawStr new) \<Rightarrow>
          if CHR 0x00 \<in> set old \<or> CHR 0x00 \<in> set new then Inl (RenameNull old)
          else if old = new then Inl (RenameNoOp old)
          else if dict_get (=) old schema \<noteq> None then Inl (RenameDeclared old)
          else if dict_get (=) new schema = None then Inl (RenameUndeclared new)
          else if new \<in> set (map snd copied) then Inl (RenameTwice new)
          else Inr (dict_set (=) old new copied)
      | _ \<Rightarrow> Inl RenameType)"

definition validated_rename :: "schema \<Rightarrow> (raw \<times> raw) list option \<Rightarrow> attach_error + (string, string) dict" where
  "validated_rename schema rename = (case rename of None \<Rightarrow> Inr [] | Some entries \<Rightarrow> foldE (rename_entry schema) [] entries)"

section \<open>Names of the generated predicates\<close>

definition helper_arities :: "(string \<times> nat) list" where
  "helper_arities =
     [(''decode'', 2), (''encode'', 2), (''schema'', 2), (''fact'', 2), (''all'', 1), (''match'', 2), (''add'', 2), (''remove'', 3),
      (''apply_add'', 1), (''apply_remove'', 1), (''apply_diff'', 2), (''clear_one'', 2), (''clear'', 0), (''validate_native'', 1),
      (''validate_pattern'', 1), (''validate_fact'', 1), (''validate_pattern_fact'', 1), (''validate_action'', 1),
      (''validate_stream'', 1), (''validate'', 1), (''validate_text'', 1), (''rename_fact'', 4), (''rename_action'', 4),
      (''validate_replay_stream'', 4), (''validate_replay'', 3), (''validate_replay_text'', 3), (''write_action'', 2),
      (''rewrite_replay_stream'', 5), (''rewrite_replay'', 4), (''tail_status'', 2), (''attach'', 2), (''sync'', 0), (''flush'', 0),
      (''compact'', 0), (''close'', 0)]"

definition occupied :: "schema \<Rightarrow> (string \<times> nat) list" where
  "occupied schema = schema @ updaters schema"

definition prefix_taken :: "schema \<Rightarrow> string \<Rightarrow> bool" where
  "prefix_taken schema prefix = list_ex (\<lambda>(name, n). (prefix @ ''_'' @ name, n) \<in> set (occupied schema)) helper_arities"

lemma prefix_taken_short:
  assumes "prefix_taken schema prefix"
  shows "length prefix < sum_list (map (length \<circ> fst) (occupied schema))"
proof -
  obtain name n where "(prefix @ ''_'' @ name, n) \<in> set (occupied schema)"
    using assms by (auto simp: prefix_taken_def list_ex_iff)
  from member_le_sum_list [of "length (prefix @ ''_'' @ name)" "map (length \<circ> fst) (occupied schema)"] this
  show ?thesis by (force simp: comp_def)
qed

function free_prefix :: "schema \<Rightarrow> string \<Rightarrow> string" where
  "free_prefix schema prefix = (if prefix_taken schema prefix then free_prefix schema (prefix @ ''_x'') else prefix)"
  by pat_completeness auto
termination
  by (relation "measure (\<lambda>(schema, prefix). sum_list (map (length \<circ> fst) (occupied schema)) - length prefix)")
    (auto dest: prefix_taken_short)

declare free_prefix.simps [simp del]

definition helper_names :: "string \<Rightarrow> schema \<Rightarrow> (string \<times> nat) list" where
  "helper_names mdl schema =
     (let prefix = free_prefix schema (mdl @ ''_private'') in map (\<lambda>(name, n). (prefix @ ''_'' @ name, n)) helper_arities)"

section \<open>Journal records\<close>

text \<open>An argument is a native value, a variable or a compound; a fact that is a number or a string is not callable.\<close>

datatype jterm = TNative native | TVar | TCompound

datatype jfact = TFact string "jterm list" | NotCallable

datatype action = Created bool | Assert jfact | Asserta jfact | Retract jfact | Retractall jfact int | OtherAction

definition validate_native :: "jterm \<Rightarrow> bool" where
  "validate_native v = (case v of TNative _ \<Rightarrow> True | _ \<Rightarrow> False)"

definition validate_pattern :: "jterm \<Rightarrow> bool" where
  "validate_pattern v = (v = TVar \<or> validate_native v)"

fun validate_args :: "(jterm \<Rightarrow> bool) \<Rightarrow> schema \<Rightarrow> jfact \<Rightarrow> bool" where
  "validate_args ok schema (TFact h params) = (fits_schema schema h (length params) \<and> list_all ok params)"
| "validate_args ok schema NotCallable = False"

fun validate_action :: "schema \<Rightarrow> action \<Rightarrow> bool" where
  "validate_action schema (Created number) = number"
| "validate_action schema (Assert fct) = validate_args validate_native schema fct"
| "validate_action schema (Asserta fct) = validate_args validate_native schema fct"
| "validate_action schema (Retract fct) = validate_args validate_native schema fct"
| "validate_action schema (Retractall fct count) = (0 \<le> count \<and> validate_args validate_pattern schema fct)"
| "validate_action schema OtherAction = False"

fun rename_fact :: "(string, string) dict \<Rightarrow> jfact \<Rightarrow> jfact \<times> string list" where
  "rename_fact renames (TFact h params) =
     (case dict_get (=) h renames of Some new \<Rightarrow> (TFact new params, [h]) | None \<Rightarrow> (TFact h params, []))"
| "rename_fact renames NotCallable = (NotCallable, [])"

fun rename_action :: "(string, string) dict \<Rightarrow> action \<Rightarrow> action \<times> string list" where
  "rename_action renames (Created n) = (Created n, [])"
| "rename_action renames (Assert fct) = (case rename_fact renames fct of (f, seen) \<Rightarrow> (Assert f, seen))"
| "rename_action renames (Asserta fct) = (case rename_fact renames fct of (f, seen) \<Rightarrow> (Asserta f, seen))"
| "rename_action renames (Retract fct) = (case rename_fact renames fct of (f, seen) \<Rightarrow> (Retract f, seen))"
| "rename_action renames (Retractall fct n) = (case rename_fact renames fct of (f, seen) \<Rightarrow> (Retractall f n, seen))"
| "rename_action renames OtherAction = (OtherAction, [])"

text \<open>\<open>rewrite_replay_stream\<close>: the renamed actions and the old heads met; it stops at the first action that is not
  valid once renamed. Validating a stream is the same pass without its output.\<close>

fun rewrite_actions ::
  "schema \<Rightarrow> (string, string) dict \<Rightarrow> action list \<Rightarrow> string list \<Rightarrow> (action list \<times> string list) option" where
  "rewrite_actions schema renames [] seen = Some ([], seen)"
| "rewrite_actions schema renames (act # acts) seen =
     (case rename_action renames act of (renamed, act_seen) \<Rightarrow>
        if \<not> validate_action schema renamed then None
        else map_option (\<lambda>(out, all_seen). (renamed # out, all_seen))
          (rewrite_actions schema renames acts (if set act_seen \<subseteq> set seen then seen else act_seen @ seen)))"

section \<open>The journal file\<close>

text \<open>SWI's reader and writer: the records of a byte sequence, where it reads; the bytes of records; and whether a tail
  holds a terminated record.\<close>

record reader =
  rd_records :: "nat list \<Rightarrow> action list option"
  rd_bytes :: "action list \<Rightarrow> nat list"
  rd_finished :: "nat list \<Rightarrow> bool"

text \<open>The crossings of a construction, and its disk calls. A backup that fails may not have been created, or hold its first
  bytes; a truncation or a replacement that fails may have taken effect.\<close>

datatype attach_crossing = AtQuote | AtConsult | AtValidate | AtStatus | AtPrefix | AtAgain | AtRewrite | AtAfter | AtAttach

record disk =
  dk_lock :: bool
  dk_read :: bool
  dk_backup :: "nat option option"
  dk_truncate :: "bool option"
  dk_stage :: bool
  dk_replace :: "bool option"

record files =
  fl_journal :: "nat list option"
  fl_backup :: "nat list option"

definition journal_valid :: "reader \<Rightarrow> schema \<Rightarrow> (string, string) dict \<Rightarrow> nat list \<Rightarrow> bool" where
  "journal_valid rd schema renames contents =
     (case rd_records rd contents of None \<Rightarrow> False | Some acts \<Rightarrow> rewrite_actions schema renames acts [] \<noteq> None)"

definition validate_journal ::
  "reader \<Rightarrow> (attach_crossing \<Rightarrow> outcome) \<Rightarrow> attach_crossing \<Rightarrow> schema \<Rightarrow> (string, string) dict \<Rightarrow> files \<Rightarrow> bool" where
  "validate_journal rd eng site schema renames fs =
     (eng site = Answered \<and> (case fl_journal fs of None \<Rightarrow> True | Some contents \<Rightarrow> journal_valid rd schema renames contents))"

text \<open>Python's strict UTF-8: no overlong form, no surrogate, nothing past 10FFFF.\<close>

definition continuation :: "nat \<Rightarrow> bool" where
  "continuation b = (0x80 \<le> b \<and> b \<le> 0xBF)"

fun utf8_ok :: "nat list \<Rightarrow> bool" where
  "utf8_ok [] = True"
| "utf8_ok (a # bs) =
     (if a \<le> 0x7F then utf8_ok bs
      else if 0xC2 \<le> a \<and> a \<le> 0xDF then (case bs of b # cs \<Rightarrow> continuation b \<and> utf8_ok cs | _ \<Rightarrow> False)
      else if 0xE0 \<le> a \<and> a \<le> 0xEF then
        (case bs of
           b # c # cs \<Rightarrow> continuation b \<and> continuation c \<and> (a = 0xE0 \<longrightarrow> 0xA0 \<le> b) \<and> (a = 0xED \<longrightarrow> b \<le> 0x9F) \<and> utf8_ok cs
         | _ \<Rightarrow> False)
      else if 0xF0 \<le> a \<and> a \<le> 0xF4 then
        (case bs of
           b # c # d # cs \<Rightarrow> continuation b \<and> continuation c \<and> continuation d \<and> (a = 0xF0 \<longrightarrow> 0x90 \<le> b)
             \<and> (a = 0xF4 \<longrightarrow> b \<le> 0x8F) \<and> utf8_ok cs
         | _ \<Rightarrow> False)
      else False)"

text \<open>\<open>_terminal_tail\<close>: the bytes after the last newline, which is byte 10.\<close>

definition tail_boundary :: "nat list \<Rightarrow> nat" where
  "tail_boundary contents = length contents - length (takeWhile (\<lambda>b. b \<noteq> 10) (rev contents))"

definition require_incomplete ::
  "reader \<Rightarrow> (attach_crossing \<Rightarrow> outcome) \<Rightarrow> nat list \<Rightarrow> attach_error + unit" where
  "require_incomplete rd eng tail =
     (if \<not> utf8_ok tail then Inr ()
      else if eng AtStatus = Broken then Inl CrossingBroke
      else if rd_finished rd tail then Inl CompleteRecord else Inr ())"

definition validated_prefix ::
  "reader \<Rightarrow> (attach_crossing \<Rightarrow> outcome) \<Rightarrow> schema \<Rightarrow> (string, string) dict \<Rightarrow> nat list \<Rightarrow> attach_error + unit" where
  "validated_prefix rd eng schema renames prefix =
     (if \<not> utf8_ok prefix then Inl BadEncoding
      else if eng AtPrefix = Broken \<or> \<not> journal_valid rd schema renames prefix then Inl CorruptRecord else Inr ())"

definition save_tail_backup :: "disk \<Rightarrow> nat list \<Rightarrow> files \<Rightarrow> (attach_error + unit) \<times> files" where
  "save_tail_backup dk tail fs =
     (case fl_backup fs of
        Some _ \<Rightarrow> (Inl BackupExists, fs)
      | None \<Rightarrow>
          (case dk_backup dk of
             None \<Rightarrow> (Inr (), fs\<lparr>fl_backup := Some tail\<rparr>)
           | Some None \<Rightarrow> (Inl CannotBackup, fs)
           | Some (Some n) \<Rightarrow> (Inl CannotBackup, fs\<lparr>fl_backup := Some (take n tail)\<rparr>)))"

definition truncate_journal :: "disk \<Rightarrow> nat \<Rightarrow> files \<Rightarrow> (attach_error + unit) \<times> files" where
  "truncate_journal dk boundary fs =
     (let cut = fs\<lparr>fl_journal := map_option (take boundary) (fl_journal fs)\<rparr> in
      case dk_truncate dk of
        None \<Rightarrow> (Inr (), cut)
      | Some took \<Rightarrow> (Inl CannotTruncate, if took then cut else fs))"

definition validate_or_repair ::
  "reader \<Rightarrow> (attach_crossing \<Rightarrow> outcome) \<Rightarrow> disk \<Rightarrow> schema \<Rightarrow> (string, string) dict \<Rightarrow> files \<Rightarrow> (attach_error + unit) \<times> files" where
  "validate_or_repair rd eng dk schema renames fs =
     (if validate_journal rd eng AtValidate schema renames fs then (Inr (), fs)
      else case (if dk_read dk then fl_journal fs else None) of
        None \<Rightarrow> (Inl CannotInspect, fs)
      | Some contents \<Rightarrow>
          let boundary = tail_boundary contents; tail = drop boundary contents in
          if tail = [] then (Inl CorruptRecord, fs)
          else (case bindE (require_incomplete rd eng tail) (\<lambda>_. validated_prefix rd eng schema renames (take boundary contents)) of
            Inl e \<Rightarrow> (Inl e, fs)
          | Inr _ \<Rightarrow>
              (case save_tail_backup dk tail fs of
                 (Inl e, fs1) \<Rightarrow> (Inl e, fs1)
               | (Inr _, fs1) \<Rightarrow>
                   (case truncate_journal dk boundary fs1 of
                      (Inl e, fs2) \<Rightarrow> (Inl e, fs2)
                    | (Inr _, fs2) \<Rightarrow>
                        (if validate_journal rd eng AtAgain schema renames fs2 then Inr () else Inl CrossingBroke, fs2)))))"

text \<open>\<open>_migrate_replay_rename\<close>: the renamed journal is staged beside the file and replaces it at once; the map is dropped
  with the replacement, so the check after it reads the journal without renames.\<close>

definition migrate_rename ::
  "reader \<Rightarrow> (attach_crossing \<Rightarrow> outcome) \<Rightarrow> disk \<Rightarrow> schema \<Rightarrow> (string, string) dict \<Rightarrow> files \<Rightarrow> (attach_error + unit) \<times> files" where
  "migrate_rename rd eng dk schema renames fs =
     (if renames = [] then (Inr (), fs)
      else case fl_journal fs of
        None \<Rightarrow> (Inl (AbsentNames (map fst renames)), fs)
      | Some contents \<Rightarrow>
          if \<not> dk_stage dk then (Inl CannotMigrate, fs)
          else (case (if eng AtRewrite = Broken then None
                      else case rd_records rd contents of None \<Rightarrow> None | Some acts \<Rightarrow> rewrite_actions schema renames acts []) of
            None \<Rightarrow> (Inl CrossingBroke, fs)
          | Some (out, seen) \<Rightarrow>
              let missing = filter (\<lambda>h. h \<notin> set seen) (map fst renames); replaced = fs\<lparr>fl_journal := Some (rd_bytes rd out)\<rparr> in
              if missing \<noteq> [] then (Inl (AbsentNames missing), fs)
              else (case dk_replace dk of
                Some took \<Rightarrow> (Inl CannotMigrate, if took then replaced else fs)
              | None \<Rightarrow> (if validate_journal rd eng AtAfter schema [] replaced then Inr () else Inl CrossingBroke, replaced))))"

section \<open>The constructor and close\<close>

text \<open>A generated module is named by a digest of its first path and a number never used before.\<close>

datatype pmodule = PModule string nat

text \<open>\<open>ho_active\<close> are the paths claimed in this process, \<open>ho_locks\<close> the journals whose lock file this process has locked and
  \<open>ho_foreign\<close> those another process has, \<open>ho_pool\<close> the loaded modules waiting for reuse by schema, \<open>ho_next\<close> the next
  module number, \<open>ho_files\<close> each path's journal and backup.\<close>

record host_state =
  ho_active :: "string list"
  ho_locks :: "string list"
  ho_foreign :: "string list"
  ho_pool :: "(schema, pmodule list) dict"
  ho_next :: nat
  ho_files :: "string \<Rightarrow> files"

record provider =
  pv_path :: string
  pv_schema :: schema
  pv_module :: pmodule
  pv_closed :: bool

text \<open>What \<open>_journal_path\<close> finds at the resolved path.\<close>

datatype path_kind = Usable | IsDirectory | NoParent | ParentNotDirectory

definition claim_path :: "string \<Rightarrow> host_state \<Rightarrow> attach_error + host_state" where
  "claim_path path h = (if path \<in> set (ho_active h) then Inl (AlreadyAttached path) else Inr (h\<lparr>ho_active := path # ho_active h\<rparr>))"

definition release_path :: "string \<Rightarrow> host_state \<Rightarrow> host_state" where
  "release_path path h = h\<lparr>ho_active := filter (\<lambda>p. p \<noteq> path) (ho_active h)\<rparr>"

definition claim_journal_lock :: "disk \<Rightarrow> string \<Rightarrow> host_state \<Rightarrow> attach_error + host_state" where
  "claim_journal_lock dk path h =
     (if \<not> dk_lock dk then Inl (CannotLock path)
      else if path \<in> set (ho_locks h) \<or> path \<in> set (ho_foreign h) then Inl (Claimed path)
      else Inr (h\<lparr>ho_locks := path # ho_locks h\<rparr>))"

definition release_lock :: "string \<Rightarrow> host_state \<Rightarrow> host_state" where
  "release_lock path h = h\<lparr>ho_locks := filter (\<lambda>p. p \<noteq> path) (ho_locks h)\<rparr>"

definition acquire_module :: "(string \<Rightarrow> string) \<Rightarrow> string \<Rightarrow> schema \<Rightarrow> host_state \<Rightarrow> (pmodule \<times> bool) \<times> host_state" where
  "acquire_module digest path schema h =
     (case dict_get (=) schema (ho_pool h) of
        Some (m # ms) \<Rightarrow>
          ((last (m # ms), False), h\<lparr>ho_pool := dict_set (=) schema (butlast (m # ms)) (ho_pool h)\<rparr>)
      | _ \<Rightarrow> ((PModule (digest path) (ho_next h), True), h\<lparr>ho_next := Suc (ho_next h)\<rparr>))"

definition return_module :: "schema \<Rightarrow> pmodule \<Rightarrow> host_state \<Rightarrow> host_state" where
  "return_module schema m h =
     h\<lparr>ho_pool := dict_set (=) schema ((case dict_get (=) schema (ho_pool h) of None \<Rightarrow> [] | Some ms \<Rightarrow> ms) @ [m]) (ho_pool h)\<rparr>"

definition on_files :: "string \<Rightarrow> (files \<Rightarrow> (attach_error + unit) \<times> files) \<Rightarrow> host_state \<Rightarrow> (attach_error + unit) \<times> host_state" where
  "on_files path f h =
     (case f (ho_files h path) of (r, fs) \<Rightarrow> (r, h\<lparr>ho_files := (ho_files h)(path := fs)\<rparr>))"

text \<open>From the loaded module on, what fails gives the module back.\<close>

definition prepare ::
  "reader \<Rightarrow> (attach_crossing \<Rightarrow> outcome) \<Rightarrow> disk \<Rightarrow> schema \<Rightarrow> (string, string) dict \<Rightarrow> files \<Rightarrow> (attach_error + unit) \<times> files" where
  "prepare rd eng dk schema renames fs =
     (case validate_or_repair rd eng dk schema renames fs of
        (Inl e, fs1) \<Rightarrow> (Inl e, fs1)
      | (Inr _, fs1) \<Rightarrow>
          (case migrate_rename rd eng dk schema renames fs1 of
             (Inl e, fs2) \<Rightarrow> (Inl e, fs2)
           | (Inr _, fs2) \<Rightarrow> (if eng AtAttach = Broken then Inl CrossingBroke else Inr (), fs2)))"

definition attach_module ::
  "reader \<Rightarrow> (attach_crossing \<Rightarrow> outcome) \<Rightarrow> disk \<Rightarrow> (string \<Rightarrow> string) \<Rightarrow> string \<Rightarrow> schema \<Rightarrow> (string, string) dict \<Rightarrow> host_state \<Rightarrow>
   (attach_error + provider) \<times> host_state" where
  "attach_module rd eng dk digest path schema renames h =
     (case acquire_module digest path schema h of ((m, is_new), h1) \<Rightarrow>
        if is_new \<and> eng AtQuote = Broken then (Inl (CannotQuote path), h1)
        else if is_new \<and> eng AtConsult = Broken then (Inl CrossingBroke, h1)
        else (case on_files path (prepare rd eng dk schema renames) h1 of
          (Inl e, h2) \<Rightarrow> (Inl e, return_module schema m h2)
        | (Inr _, h2) \<Rightarrow> (Inr \<lparr>pv_path = path, pv_schema = schema, pv_module = m, pv_closed = False\<rparr>, h2)))"

text \<open>The constructor: the checks of its arguments, then the path, the lock and the module, given back in reverse order
  when what follows raises.\<close>

definition open_space ::
  "reader \<Rightarrow> (attach_crossing \<Rightarrow> outcome) \<Rightarrow> disk \<Rightarrow> (string \<Rightarrow> string) \<Rightarrow> bool \<Rightarrow> path_kind \<Rightarrow> string \<Rightarrow> (raw \<times> raw) list \<Rightarrow>
   (raw \<times> raw) list option \<Rightarrow> host_state \<Rightarrow> (attach_error + provider) \<times> host_state" where
  "open_space rd eng dk digest sync_known kind path raws rename h =
     (if \<not> sync_known then (Inl BadSync, h)
      else if kind \<noteq> Usable then (Inl BadPath, h)
      else case bindE (validated_schema raws) (\<lambda>schema. bindE (validated_rename schema rename) (\<lambda>renames. Inr (schema, renames))) of
        Inl e \<Rightarrow> (Inl e, h)
      | Inr (schema, renames) \<Rightarrow>
          (case claim_path path h of
             Inl e \<Rightarrow> (Inl e, h)
           | Inr h1 \<Rightarrow>
               (case claim_journal_lock dk path h1 of
                  Inl e \<Rightarrow> (Inl e, release_path path h1)
                | Inr h2 \<Rightarrow>
                    (case attach_module rd eng dk digest path schema renames h2 of
                       (Inl e, h3) \<Rightarrow> (Inl e, release_path path (release_lock path h3))
                     | (Inr pv, h3) \<Rightarrow> (Inr pv, h3)))))"

definition close_space :: "bool \<Rightarrow> provider \<Rightarrow> host_state \<Rightarrow> (attach_error + provider) \<times> host_state" where
  "close_space detaches pv h =
     (if pv_closed pv then (Inr pv, h)
      else if \<not> detaches then (Inl CrossingBroke, h)
      else (Inr (pv\<lparr>pv_closed := True\<rparr>),
            release_lock (pv_path pv) (return_module (pv_schema pv) (pv_module pv) (release_path (pv_path pv) h))))"

end
