(* ===== verification/Attachments.thy ===== *)
theory Attachments
  imports Attachment "HOL-Library.Multiset"
begin

text \<open>
  What opening a persistent fact space promises: the predicates it generates never meet, a torn tail is set aside without
  losing a byte, a rename map is applied once to every record, a construction that fails gives back what it claimed, and
  no two open providers share a journal or a module.
\<close>

section \<open>Generated predicates\<close>


lemma dict_set_entries: "set (dict_set eq k v d) \<subseteq> insert (k, v) (set d) \<union> {p. \<exists>j w. (j, w) \<in> set d \<and> eq j k \<and> p = (j, v)}"
  by (induction eq k v d rule: dict_set.induct) auto

lemma dict_set_entries_plain: "set (dict_set (=) k v d) \<subseteq> insert (k, v) (set d)"
  using dict_set_entries [of "(=)" k v d] by auto











section \<open>Repair\<close>

lemma tail_boundary_split:
  fixes contents :: "nat list"
  obtains pre tail where "contents = pre @ tail" "tail_boundary contents = length pre" "10 \<notin> set tail" "pre = [] \<or> last pre = 10"
proof (rule that)
  let ?k = "takeWhile (\<lambda>b. b \<noteq> 10) (rev contents)" and ?d = "dropWhile (\<lambda>b. b \<noteq> 10) (rev contents)"
  show "contents = rev ?d @ rev ?k" by (metis rev_append rev_rev_ident takeWhile_dropWhile_id)
  show "tail_boundary contents = length (rev ?d)"
    unfolding tail_boundary_def by (metis add_diff_cancel_left' length_append length_rev takeWhile_dropWhile_id)
  show "10 \<notin> set (rev ?k)" by (auto dest: set_takeWhileD)
  show "rev ?d = [] \<or> last (rev ?d) = 10"
    using hd_dropWhile [of "\<lambda>b. b \<noteq> 10" "rev contents"] by (cases ?d) (auto simp: last_rev)
qed

text \<open>C27. Repairing a journal loses no byte and overwrites no backup: either the journal is as it was, or it lost exactly its
  unterminated last record, which is the new backup, and what is left ends in a newline and is valid. A repair that
  succeeds leaves a valid journal; one that fails may leave part of a backup where there was none.\<close>

theorem tail_repair_keeps_bytes:
  assumes "validate_or_repair rd eng dk schema renames fs = (r, fs')"
  shows "(fl_journal fs' = fl_journal fs \<or>
      (\<exists>pre tail. fl_journal fs = Some (pre @ tail) \<and> fl_journal fs' = Some pre \<and> fl_backup fs' = Some tail \<and> tail \<noteq> [] \<and> 10 \<notin> set tail
         \<and> (pre = [] \<or> last pre = 10) \<and> journal_valid rd schema renames pre \<and> (utf8_ok tail \<longrightarrow> \<not> rd_finished rd tail)))
    \<and> (fl_backup fs' = fl_backup fs \<or> fl_backup fs = None)
    \<and> (r = Inr () \<longrightarrow> (case fl_journal fs' of None \<Rightarrow> True | Some contents \<Rightarrow> journal_valid rd schema renames contents))"
proof (cases "validate_journal rd eng AtValidate schema renames fs")
  case True
  with assms show ?thesis by (auto simp: validate_or_repair_def validate_journal_def)
next
  case invalid: False
  show ?thesis
  proof (cases "if dk_read dk then fl_journal fs else None")
    case None
    with assms invalid show ?thesis by (auto simp: validate_or_repair_def)
  next
    case (Some contents)
    then have j: "fl_journal fs = Some contents" by (simp split: if_splits)
    obtain pre tail where c: "contents = pre @ tail" "tail_boundary contents = length pre" "10 \<notin> set tail" "pre = [] \<or> last pre = 10"
      by (rule tail_boundary_split)
    note unf = assms [unfolded validate_or_repair_def Let_def, simplified invalid Some, simplified, unfolded c(2), unfolded c(1), simplified]
    show ?thesis
    proof (cases "tail = [] \<or> (\<exists>e. bindE (require_incomplete rd eng tail) (\<lambda>_. validated_prefix rd eng schema renames pre) = Inl e)")
      case True
      with unf j show ?thesis by (auto split: if_splits)
    next
      case False
      then have t: "tail \<noteq> []" "require_incomplete rd eng tail = Inr ()" "validated_prefix rd eng schema renames pre = Inr ()"
        by (cases "require_incomplete rd eng tail"; cases "validated_prefix rd eng schema renames pre"; auto)+
      have u: "validate_or_repair rd eng dk schema renames fs =
          (case save_tail_backup dk tail fs of
             (Inl e, fs1) \<Rightarrow> (Inl e, fs1)
           | (Inr _, fs1) \<Rightarrow>
               (case truncate_journal dk (length pre) fs1 of
                  (Inl e, fs2) \<Rightarrow> (Inl e, fs2)
                | (Inr _, fs2) \<Rightarrow>
                    (if validate_journal rd eng AtAgain schema renames fs2 then Inr () else Inl CrossingBroke, fs2)))"
        using invalid Some t c(1,2) by (simp add: validate_or_repair_def Let_def)
      from t have v: "journal_valid rd schema renames pre" "utf8_ok tail \<longrightarrow> \<not> rd_finished rd tail"
        by (auto simp: require_incomplete_def validated_prefix_def split: if_splits)
      show ?thesis
      proof (cases "save_tail_backup dk tail fs")
        case (Pair q fs1)
        show ?thesis
        proof (cases q)
          case (Inl e)
          with u assms Pair have "r = Inl e" "fs' = fs1" by auto
          with Pair Inl j show ?thesis by (auto simp: save_tail_backup_def split: option.splits)
        next
          case (Inr u)
          with Pair have b: "fl_backup fs = None" "fs1 = fs\<lparr>fl_backup := Some tail\<rparr>"
            by (auto simp: save_tail_backup_def split: option.splits)
          show ?thesis
            using u assms t(1) v b Pair Inr j c(1,3,4)
            by (auto simp: truncate_journal_def Let_def validate_journal_def split: option.splits if_splits)
        qed
      qed
    qed
  qed
qed

text \<open>A reader of one-byte records, each ended by a newline.\<close>

fun sample_records :: "nat list \<Rightarrow> action list option" where
  "sample_records [] = Some []"
| "sample_records [b] = None"
| "sample_records (b # c # bs) =
     (if c = 10 then map_option ((#) (Assert (TFact (if b = 1 then ''old'' else ''edge'') []))) (sample_records bs) else None)"

definition sample_reader :: reader where
  "sample_reader = \<lparr>rd_records = sample_records,
     rd_bytes = \<lambda>acts. concat (map (\<lambda>a. if a = Assert (TFact ''old'' []) then [1, 10] else [2, 10]) acts), rd_finished = \<lambda>_. False\<rparr>"

definition good_disk :: disk where
  "good_disk = \<lparr>dk_lock = True, dk_read = True, dk_backup = None, dk_truncate = None, dk_stage = True, dk_replace = None\<rparr>"

lemmas attach_eval = sample_reader_def good_disk_def validate_or_repair_def validate_journal_def journal_valid_def fits_schema_def
  tail_boundary_def require_incomplete_def validated_prefix_def save_tail_backup_def truncate_journal_def migrate_rename_def Let_def
  validate_native_def

theorem tail_repair_keeps_bytes_witness:
  "snd (validate_or_repair sample_reader (\<lambda>_. Answered) good_disk [(''edge'', 0)] [] \<lparr>fl_journal = Some [2, 10, 2], fl_backup = None\<rparr>) =
   \<lparr>fl_journal = Some [2, 10], fl_backup = Some [2]\<rparr>"
proof -
  obtain r fs' where r: "validate_or_repair sample_reader (\<lambda>_. Answered) good_disk [(''edge'', 0)] []
      \<lparr>fl_journal = Some [2, 10, 2], fl_backup = None\<rparr> = (r, fs')"
    by (cases "validate_or_repair sample_reader (\<lambda>_. Answered) good_disk [(''edge'', 0)] []
      \<lparr>fl_journal = Some [2, 10, 2], fl_backup = None\<rparr>")
  then have s: "r = Inr ()" "fl_backup fs' = Some [2]" by (auto simp: attach_eval)
  with tail_repair_keeps_bytes [OF r] have "fl_journal fs' = Some [2, 10]"
    by (auto simp: attach_eval)
  with s r show ?thesis by simp
qed

section \<open>Renaming\<close>

text \<open>The head of an action's fact.\<close>

fun fact_head :: "action \<Rightarrow> string option" where
  "fact_head (Assert (TFact h _)) = Some h"
| "fact_head (Asserta (TFact h _)) = Some h"
| "fact_head (Retract (TFact h _)) = Some h"
| "fact_head (Retractall (TFact h _) _) = Some h"
| "fact_head _ = None"

definition old_heads :: "(string, string) dict \<Rightarrow> action list \<Rightarrow> string set" where
  "old_heads renames acts = {h. Some h \<in> fact_head ` set acts \<and> dict_get (=) h renames \<noteq> None}"

lemma rename_action_seen:
  "set (snd (rename_action renames act)) = old_heads renames [act]"
  by (cases act rule: fact_head.cases) (auto simp: old_heads_def split: option.splits)

lemma old_heads_Cons: "old_heads renames (act # acts) = old_heads renames [act] \<union> old_heads renames acts"
  by (auto simp: old_heads_def)

lemma rewrite_actions_Some:
  "rewrite_actions schema renames acts seen = Some (out, all_seen) \<Longrightarrow>
   out = map (\<lambda>a. fst (rename_action renames a)) acts \<and> list_all (validate_action schema) out
     \<and> set all_seen = set seen \<union> old_heads renames acts"
proof (induction acts arbitrary: seen out)
  case Nil
  then show ?case by (auto simp: old_heads_def)
next
  case (Cons act acts)
  obtain renamed act_seen where a: "rename_action renames act = (renamed, act_seen)" by (cases "rename_action renames act")
  from Cons.prems a obtain out' where o: "validate_action schema renamed" "out = renamed # out'"
    "rewrite_actions schema renames acts (if set act_seen \<subseteq> set seen then seen else act_seen @ seen) = Some (out', all_seen)"
    by (auto split: if_splits)
  have "set act_seen = old_heads renames [act]" using rename_action_seen [of renames act] a by simp
  with Cons.IH [OF o(3)] o(1,2) a show ?case by (auto simp: old_heads_Cons [of renames act acts] split: if_splits)
qed

lemma rewrite_actions_valid:
  "list_all (validate_action schema) (map (\<lambda>a. fst (rename_action renames a)) acts) \<Longrightarrow>
   rewrite_actions schema renames acts seen \<noteq> None"
  by (induction acts arbitrary: seen) (simp_all add: case_prod_beta)

text \<open>A validated map renames heads outside the schema, each to a head of it, and no two to one.\<close>

lemma rename_entry_Inr:
  assumes "rename_entry schema copied entry = Inr copied'"
  obtains old new where "copied' = dict_set (=) old new copied" "dict_get (=) old schema = None" "dict_get (=) new schema \<noteq> None"
    "new \<notin> set (map snd copied)"
  using assms by (cases entry; cases "fst entry"; cases "snd entry") (auto simp: rename_entry_def split: if_splits)

definition rename_ok :: "schema \<Rightarrow> (string, string) dict \<Rightarrow> bool" where
  "rename_ok schema renames =
     (\<forall>(old, new) \<in> set renames. dict_get (=) old schema = None \<and> dict_get (=) new schema \<noteq> None)"

lemma rename_loop:
  "foldE (rename_entry schema) copied entries = Inr renames \<Longrightarrow> rename_ok schema copied \<Longrightarrow> dict_ok (=) copied \<Longrightarrow>
   rename_ok schema renames \<and> dict_ok (=) renames"
proof (induction entries arbitrary: copied)
  case (Cons entry entries)
  from Cons.prems(1) obtain copied' where e: "rename_entry schema copied entry = Inr copied'"
    and rest: "foldE (rename_entry schema) copied' entries = Inr renames" by auto
  from e obtain old new where c: "copied' = dict_set (=) old new copied" "dict_get (=) old schema = None" "dict_get (=) new schema \<noteq> None"
    by (rule rename_entry_Inr)
  have "rename_ok schema copied'"
    using Cons.prems(2) c dict_set_entries_plain [of old new copied] by (fastforce simp: rename_ok_def)
  with Cons.IH [OF rest] Cons.prems(3) c(1) show ?case by (simp add: plain_key.dict_ok_set)
qed auto

lemma validated_rename_ok:
  assumes "validated_rename schema rename = Inr renames"
  shows "rename_ok schema renames" "dict_ok (=) renames"
  using assms rename_loop [of schema "[]"] by (auto simp: validated_rename_def rename_ok_def split: option.splits)

lemma valid_head_declared: "validate_action schema act \<Longrightarrow> fact_head act = Some h \<Longrightarrow> dict_get (=) h schema \<noteq> None"
  by (cases act rule: fact_head.cases) (auto simp: fits_schema_def)

lemma no_old_heads:
  assumes "rename_ok schema renames" "list_all (validate_action schema) acts"
  shows "old_heads renames acts = {}"
proof -
  have "False" if "act \<in> set acts" "fact_head act = Some h" "dict_get (=) h renames = Some new" for act h new
  proof -
    have "(h, new) \<in> set renames" using dict_get_SomeD [OF that(3)] by auto
    then have "dict_get (=) h schema = None" using assms(1) by (auto simp: rename_ok_def)
    with valid_head_declared [of schema act h] that(1,2) assms(2) show False by (auto simp: list_all_iff)
  qed
  then show ?thesis by (force simp: old_heads_def)
qed

lemma rename_action_same: "old_heads renames [act] = {} \<Longrightarrow> fst (rename_action renames act) = act"
  by (cases act rule: fact_head.cases) (auto simp: old_heads_def split: option.splits)

lemma migrate_rename_cases:
  assumes "migrate_rename rd eng dk schema renames fs = (r, fs')" "renames \<noteq> []"
  obtains (kept) e where "r = Inl e" "fs' = fs"
  | (renamed) contents acts out seen where "fl_journal fs = Some contents" "rd_records rd contents = Some acts"
      "rewrite_actions schema renames acts [] = Some (out, seen)" "\<forall>old \<in> set (map fst renames). old \<in> set seen"
      "fs' = fs\<lparr>fl_journal := Some (rd_bytes rd out)\<rparr>"
proof (cases "fl_journal fs")
  case None
  with assms kept show ?thesis by (auto simp: migrate_rename_def)
next
  case j: (Some contents)
  show ?thesis
  proof (cases "rd_records rd contents")
    case None
    with assms j kept show ?thesis by (auto simp: migrate_rename_def split: if_splits)
  next
    case a: (Some acts)
    show ?thesis
    proof (cases "rewrite_actions schema renames acts []")
      case None
      with assms j a kept show ?thesis by (auto simp: migrate_rename_def split: if_splits)
    next
      case (Some p)
      obtain out seen where p: "p = (out, seen)" by (cases p)
      show ?thesis
      proof (cases "fs' = fs \<and> (\<exists>e. r = Inl e)")
        case True
        with kept show ?thesis by blast
      next
        case False
        with assms j a Some p have "filter (\<lambda>h. h \<notin> set seen) (map fst renames) = []" "fs' = fs\<lparr>fl_journal := Some (rd_bytes rd out)\<rparr>"
          by (auto simp: migrate_rename_def Let_def split: if_splits option.splits)
        with j a Some p show ?thesis by (intro renamed [of contents acts out seen]) (auto simp: filter_empty_conv)
      qed
    qed
  qed
qed

text \<open>C28. Renaming heads leaves the journal as it was or replaces it by the same records in order, every old head renamed in
  every one of them and each valid for the schema, when each old head occurred in it. Where SWI reads back the
  records it writes, nothing is left to rename: the same map is refused as naming absent heads.\<close>

theorem rename_applies_once:
  assumes "validated_rename schema rename = Inr renames" "renames \<noteq> []"
    and "migrate_rename rd eng dk schema renames fs = (r, fs')"
  shows "(fs' = fs \<and> r \<noteq> Inr ()) \<or>
    (\<exists>contents acts. fl_journal fs = Some contents \<and> rd_records rd contents = Some acts
       \<and> old_heads renames acts = set (map fst renames)
       \<and> list_all (validate_action schema) (map (\<lambda>a. fst (rename_action renames a)) acts)
       \<and> fs' = fs\<lparr>fl_journal := Some (rd_bytes rd (map (\<lambda>a. fst (rename_action renames a)) acts))\<rparr>
       \<and> (rd_records rd (rd_bytes rd (map (\<lambda>a. fst (rename_action renames a)) acts)) = Some (map (\<lambda>a. fst (rename_action renames a)) acts) \<longrightarrow>
            (\<forall>dk'. dk_stage dk' \<longrightarrow> migrate_rename rd (\<lambda>_. Answered) dk' schema renames fs' = (Inl (AbsentNames (map fst renames)), fs'))))"
  using assms(3,2)
proof (cases rule: migrate_rename_cases)
  case (renamed contents acts out seen)
  note w = rewrite_actions_Some [OF renamed(3)]
  note ok = validated_rename_ok [OF assms(1)]
  have seen: "set seen = old_heads renames acts" using w by simp
  have "h \<in> set (map fst renames)" if "dict_get (=) h renames = Some new" for h new
    using dict_get_SomeD [OF that] by force
  then have "old_heads renames acts \<subseteq> set (map fst renames)" unfolding old_heads_def by blast
  moreover have "set (map fst renames) \<subseteq> old_heads renames acts" using renamed(4) unfolding seen by blast
  moreover have "migrate_rename rd (\<lambda>_. Answered) dk' schema renames fs' = (Inl (AbsentNames (map fst renames)), fs')"
    if "rd_records rd (rd_bytes rd (map (\<lambda>a. fst (rename_action renames a)) acts)) = Some (map (\<lambda>a. fst (rename_action renames a)) acts)"
      "dk_stage dk'" for dk'
  proof -
    have none: "old_heads renames out = {}" using no_old_heads [OF ok(1)] w by blast
    have "fst (rename_action renames act) = act" if "act \<in> set out" for act
      using none that by (intro rename_action_same) (auto simp: old_heads_def)
    then have same: "map (\<lambda>a. fst (rename_action renames a)) out = out" by (simp add: map_idI)
    have "list_all (validate_action schema) out" using w by blast
    from rewrite_actions_valid [of schema renames out "[]", unfolded same, OF this] obtain out' seen'
      where r: "rewrite_actions schema renames out [] = Some (out', seen')" by (cases "rewrite_actions schema renames out []") auto
    with rewrite_actions_Some [OF r] none have "rewrite_actions schema renames out [] = Some (out', [])" by simp
    moreover have "fl_journal fs' = Some (rd_bytes rd out)" using renamed(5) by simp
    moreover have "rd_records rd (rd_bytes rd out) = Some out" using that(1) w by simp
    ultimately show ?thesis using that(2) assms(2) by (simp add: migrate_rename_def)
  qed
  ultimately show ?thesis using renamed w by blast
qed auto

theorem rename_applies_once_witness:
  "migrate_rename sample_reader (\<lambda>_. Answered) good_disk [(''edge'', 0)] [(''old'', ''edge'')]
     \<lparr>fl_journal = Some [2, 10, 2, 10], fl_backup = None\<rparr> =
   (Inl (AbsentNames [''old'']), \<lparr>fl_journal = Some [2, 10, 2, 10], fl_backup = None\<rparr>)"
proof -
  have v: "validated_rename [(''edge'', 0)] (Some [(RawStr ''old'', RawStr ''edge'')]) = Inr [(''old'', ''edge'')]"
    by (simp add: validated_rename_def rename_entry_def)
  have m: "migrate_rename sample_reader (\<lambda>_. Answered) good_disk [(''edge'', 0)] [(''old'', ''edge'')]
      \<lparr>fl_journal = Some [1, 10, 2, 10], fl_backup = None\<rparr> = (Inr (), \<lparr>fl_journal = Some [2, 10, 2, 10], fl_backup = None\<rparr>)"
    by (simp add: attach_eval)
  from rename_applies_once [OF v _ m] show ?thesis by (auto simp: attach_eval)
qed

section \<open>Claims\<close>

definition pooled :: "host_state \<Rightarrow> pmodule list" where
  "pooled h = concat (map snd (ho_pool h))"

lemma mset_dict_set:
  "dict_get (=) k d = Some old \<Longrightarrow>
   mset (concat (map snd (dict_set (=) k new d))) + mset old = mset (concat (map snd d)) + mset new"
  by (induction d) (auto simp: algebra_simps)

lemma mset_dict_set_new:
  "dict_get (=) k d = None \<Longrightarrow> mset (concat (map snd (dict_set (=) k new d))) = mset (concat (map snd d)) + mset new"
  by (induction d) auto

lemma return_pooled: "mset (pooled (return_module schema m h)) = add_mset m (mset (pooled h))"
proof (cases "dict_get (=) schema (ho_pool h)")
  case None
  with mset_dict_set_new [OF None, of "[m]"] show ?thesis by (simp add: return_module_def pooled_def)
next
  case (Some ms)
  from mset_dict_set [OF Some, of "ms @ [m]"] Some show ?thesis by (simp add: return_module_def pooled_def)
qed

text \<open>A module is taken from the pool or is new.\<close>

definition taken :: "pmodule \<Rightarrow> bool \<Rightarrow> host_state \<Rightarrow> host_state \<Rightarrow> bool" where
  "taken m is_new h h' =
     (if is_new then (\<exists>d. m = PModule d (ho_next h)) \<and> ho_next h' = Suc (ho_next h) \<and> mset (pooled h') = mset (pooled h)
      else ho_next h' = ho_next h \<and> mset (pooled h) = add_mset m (mset (pooled h')))"

lemma acquire_taken:
  assumes "acquire_module digest path schema h = ((m, is_new), h')"
  shows "taken m is_new h h' \<and> ho_active h' = ho_active h \<and> ho_locks h' = ho_locks h \<and> ho_foreign h' = ho_foreign h \<and> ho_files h' = ho_files h"
proof (cases "\<exists>ms. dict_get (=) schema (ho_pool h) = Some ms \<and> ms \<noteq> []")
  case True
  then obtain ms where ms: "dict_get (=) schema (ho_pool h) = Some ms" "ms \<noteq> []" by blast
  with assms have m: "m = last ms" "\<not> is_new" "h' = h\<lparr>ho_pool := dict_set (=) schema (butlast ms) (ho_pool h)\<rparr>"
    by (auto simp: acquire_module_def neq_Nil_conv)
  have "mset ms = add_mset (last ms) (mset (butlast ms))"
    by (metis append_butlast_last_id ms(2) mset.simps(1,2) mset_append add_mset_add_single)
  with mset_dict_set [OF ms(1), of "butlast ms"] m show ?thesis by (simp add: taken_def pooled_def)
next
  case False
  with assms show ?thesis by (auto simp: acquire_module_def taken_def pooled_def split: option.splits list.splits)
qed

lemma on_files_keeps:
  "on_files path f h = (r, h') \<Longrightarrow>
   ho_active h' = ho_active h \<and> ho_locks h' = ho_locks h \<and> ho_foreign h' = ho_foreign h \<and> ho_pool h' = ho_pool h \<and>
   ho_next h' = ho_next h \<and> (\<forall>p. p \<noteq> path \<longrightarrow> ho_files h' p = ho_files h p)"
  by (auto simp: on_files_def split: prod.splits)

lemma return_keeps [simp]:
  "ho_active (return_module schema m h) = ho_active h" "ho_locks (return_module schema m h) = ho_locks h"
  "ho_foreign (return_module schema m h) = ho_foreign h" "ho_next (return_module schema m h) = ho_next h"
  "ho_files (return_module schema m h) = ho_files h"
  by (simp_all add: return_module_def)

lemma release_keeps [simp]:
  "pooled (release_path path h) = pooled h" "pooled (release_lock path h) = pooled h"
  "ho_next (release_path path h) = ho_next h" "ho_next (release_lock path h) = ho_next h"
  "ho_active (release_lock path h) = ho_active h" "ho_locks (release_path path h) = ho_locks h"
  "ho_foreign (release_path path h) = ho_foreign h" "ho_foreign (release_lock path h) = ho_foreign h"
  "ho_files (release_path path h) = ho_files h" "ho_files (release_lock path h) = ho_files h"
  by (simp_all add: release_path_def release_lock_def pooled_def)

text \<open>How attaching a module ends: it was not loaded, it went back to the pool, or a provider holds it.\<close>

lemma attach_module_cases:
  assumes "attach_module rd eng dk digest path schema renames h = (r, h')"
  obtains m is_new h1 where "taken m is_new h h1" "ho_next h' = ho_next h1"
    "ho_active h' = ho_active h \<and> ho_locks h' = ho_locks h \<and> ho_foreign h' = ho_foreign h"
    "\<forall>p. p \<noteq> path \<longrightarrow> ho_files h' p = ho_files h p"
    "case r of
       Inl e \<Rightarrow> is_new \<and> mset (pooled h') = mset (pooled h1) \<or> mset (pooled h') = add_mset m (mset (pooled h1))
     | Inr pv \<Rightarrow> pv = \<lparr>pv_path = path, pv_schema = schema, pv_module = m, pv_closed = False\<rparr> \<and> mset (pooled h') = mset (pooled h1)"
proof -
  obtain m is_new h1 where a: "acquire_module digest path schema h = ((m, is_new), h1)"
    by (cases "acquire_module digest path schema h") auto
  note k = acquire_taken [OF a]
  obtain q h2 where f: "on_files path (prepare rd eng dk schema renames) h1 = (q, h2)"
    by (cases "on_files path (prepare rd eng dk schema renames) h1")
  note f' = on_files_keeps [OF f]
  show ?thesis
  proof (cases "is_new \<and> (eng AtQuote = Broken \<or> eng AtConsult = Broken)")
    case True
    with assms a have "h' = h1" "\<exists>e. r = Inl e" by (auto simp: attach_module_def split: if_splits)
    with True k show ?thesis by (intro that [of m is_new h1]) auto
  next
    case False
    with assms a f have r: "(r, h') = (case q of Inl e \<Rightarrow> (Inl e, return_module schema m h2)
        | Inr _ \<Rightarrow> (Inr \<lparr>pv_path = path, pv_schema = schema, pv_module = m, pv_closed = False\<rparr>, h2))"
      by (auto simp: attach_module_def split: sum.splits)
    have "pooled h2 = pooled h1" using f' by (simp add: pooled_def)
    with r f' k show ?thesis
      by (intro that [of m is_new h1]) (auto simp: return_pooled split: sum.splits)
  qed
qed

text \<open>How a construction ends.\<close>

lemma open_space_cases:
  assumes "open_space rd eng dk digest sync_known kind path raws rename h = (r, h')"
  obtains (refused) e where "r = Inl e" "h' = h"
  | (failed) e m is_new h1 where "r = Inl e" "taken m is_new h h1" "ho_next h' = ho_next h1" "ho_active h' = ho_active h"
      "ho_locks h' = ho_locks h" "ho_foreign h' = ho_foreign h" "\<forall>p. p \<noteq> path \<longrightarrow> ho_files h' p = ho_files h p"
      "is_new \<and> mset (pooled h') = mset (pooled h1) \<or> mset (pooled h') = add_mset m (mset (pooled h1))"
  | (opened) pv m is_new h1 where "r = Inr pv" "taken m is_new h h1" "ho_next h' = ho_next h1" "path \<notin> set (ho_active h)"
      "path \<notin> set (ho_locks h)" "path \<notin> set (ho_foreign h)" "ho_active h' = path # ho_active h" "ho_locks h' = path # ho_locks h"
      "ho_foreign h' = ho_foreign h" "\<forall>p. p \<noteq> path \<longrightarrow> ho_files h' p = ho_files h p"
      "pv_path pv = path" "pv_module pv = m" "\<not> pv_closed pv" "mset (pooled h') = mset (pooled h1)"
proof -
  let ?args = "bindE (validated_schema raws) (\<lambda>schema. bindE (validated_rename schema rename) (\<lambda>renames. Inr (schema, renames)))"
  show ?thesis
  proof (cases "\<not> sync_known \<or> kind \<noteq> Usable \<or> (\<exists>e. ?args = Inl e)")
    case True
    with assms have "h' = h" "\<exists>e. r = Inl e" by (auto simp: open_space_def split: if_splits)
    with refused show ?thesis by blast
  next
    case False
    then obtain schema renames where args: "sync_known" "kind = Usable" "?args = Inr (schema, renames)"
      by (cases ?args) auto
    show ?thesis
    proof (cases "path \<in> set (ho_active h)")
      case True
      with assms args refused show ?thesis by (auto simp: open_space_def claim_path_def)
    next
      case fresh: False
      let ?h1 = "h\<lparr>ho_active := path # ho_active h\<rparr>"
      have undo: "filter (\<lambda>p. p \<noteq> path) (ho_active h) = ho_active h" using fresh by (auto simp: filter_id_conv)
      show ?thesis
      proof (cases "claim_journal_lock dk path ?h1")
        case (Inl e)
        with assms args fresh undo refused show ?thesis
          by (auto simp: open_space_def claim_path_def release_path_def)
      next
        case (Inr h2)
        then have h2: "h2 = ?h1\<lparr>ho_locks := path # ho_locks h\<rparr>" "path \<notin> set (ho_locks h)" "path \<notin> set (ho_foreign h)"
          by (auto simp: claim_journal_lock_def split: if_splits)
        have undo': "filter (\<lambda>p. p \<noteq> path) (ho_locks h) = ho_locks h" using h2(2) by (auto simp: filter_id_conv)
        obtain q h3 where a: "attach_module rd eng dk digest path schema renames h2 = (q, h3)"
          by (cases "attach_module rd eng dk digest path schema renames h2")
        from a obtain m is_new h1 where k: "taken m is_new h2 h1" "ho_next h3 = ho_next h1"
          "ho_active h3 = ho_active h2 \<and> ho_locks h3 = ho_locks h2 \<and> ho_foreign h3 = ho_foreign h2"
          "\<forall>p. p \<noteq> path \<longrightarrow> ho_files h3 p = ho_files h2 p"
          "case q of
             Inl e \<Rightarrow> is_new \<and> mset (pooled h3) = mset (pooled h1) \<or> mset (pooled h3) = add_mset m (mset (pooled h1))
           | Inr pv \<Rightarrow> pv = \<lparr>pv_path = path, pv_schema = schema, pv_module = m, pv_closed = False\<rparr> \<and> mset (pooled h3) = mset (pooled h1)"
          by (rule attach_module_cases)
        have tk: "taken m is_new h h1" using k(1) h2(1) by (cases is_new) (auto simp: taken_def pooled_def)
        show ?thesis
        proof (cases q)
          case (Inl e)
          with assms args fresh Inr a h2(1) have "r = Inl e" "h' = release_path path (release_lock path h3)"
            by (auto simp: open_space_def claim_path_def)
          with k h2(1) undo undo' tk Inl show ?thesis
            by (intro failed [of e m is_new h1]) (auto simp: release_path_def release_lock_def pooled_def)
        next
          case (Inr pv)
          with assms args fresh \<open>claim_journal_lock dk path ?h1 = Inr h2\<close> a h2(1) have "r = Inr pv" "h' = h3"
            by (auto simp: open_space_def claim_path_def)
          with k h2 tk Inr fresh show ?thesis by (intro opened [of pv m is_new h1]) auto
        qed
      qed
    qed
  qed
qed

text \<open>C30. A construction that raises gives back what it claimed: the path and the lock are free again, no other journal is
  touched, and the pool holds the modules it held, with at most the one generated for the construction besides.\<close>

theorem construction_releases:
  assumes "open_space rd eng dk digest sync_known kind path raws rename h = (Inl e, h')"
  shows "ho_active h' = ho_active h \<and> ho_locks h' = ho_locks h \<and> ho_foreign h' = ho_foreign h
    \<and> (\<forall>p. p \<noteq> path \<longrightarrow> ho_files h' p = ho_files h p)
    \<and> (mset (pooled h') = mset (pooled h) \<or> (\<exists>d. mset (pooled h') = add_mset (PModule d (ho_next h)) (mset (pooled h))))"
  using assms
proof (cases rule: open_space_cases)
  case (failed e m is_new h1)
  then show ?thesis by (cases is_new) (auto simp: taken_def)
qed auto

definition free_host :: host_state where
  "free_host = \<lparr>ho_active = [], ho_locks = [], ho_foreign = [], ho_pool = [], ho_next = 0,
     ho_files = \<lambda>_. \<lparr>fl_journal = None, fl_backup = None\<rparr>\<rparr>"

lemmas open_eval = open_space_def validated_schema_def schema_entry_def persistency_api_def validate_updaters_def updaters_def
  updater_prefixes_def validated_rename_def claim_path_def claim_journal_lock_def attach_module_def acquire_module_def on_files_def
  prepare_def release_path_def release_lock_def return_module_def

theorem construction_releases_witness:
  "ho_active (snd (open_space sample_reader (\<lambda>c. if c = AtAttach then Broken else Answered) good_disk (\<lambda>p. p) True Usable ''a''
     [(RawStr ''edge'', RawInt 0)] None free_host)) = []"
proof -
  let ?open = "open_space sample_reader (\<lambda>c. if c = AtAttach then Broken else Answered) good_disk (\<lambda>p. p) True Usable ''a''
     [(RawStr ''edge'', RawInt 0)] None free_host"
  obtain r h' where r: "?open = (r, h')" by (cases ?open)
  then obtain e where "r = Inl e" by (auto simp: open_eval attach_eval free_host_def)
  with construction_releases [of sample_reader _ good_disk _ True Usable "''a''" _ None free_host e h'] r show ?thesis
    by (simp add: free_host_def)
qed

section \<open>Exclusive attachments\<close>

text \<open>Opening and closing providers, in any order and with any failure; meanwhile other processes take and drop claims on
  journals this process does not hold, and files change.\<close>

inductive attached :: "host_state \<Rightarrow> provider list \<Rightarrow> bool" where
  at_start: "attached \<lparr>ho_active = [], ho_locks = [], ho_foreign = foreign, ho_pool = [], ho_next = 0, ho_files = fs\<rparr> []"
| at_open: "attached h ps \<Longrightarrow> open_space rd eng dk digest sync_known kind path raws rename h = (r, h') \<Longrightarrow>
    attached h' (case r of Inl _ \<Rightarrow> ps | Inr pv \<Rightarrow> pv # ps)"
| at_close: "attached h ps \<Longrightarrow> pv \<in> set ps \<Longrightarrow> close_space detaches pv h = (r, h') \<Longrightarrow>
    attached h' (case r of Inl _ \<Rightarrow> ps | Inr _ \<Rightarrow> remove1 pv ps)"
| at_others: "attached h ps \<Longrightarrow> set foreign \<inter> set (ho_locks h) = {} \<Longrightarrow> attached (h\<lparr>ho_foreign := foreign, ho_files := fs\<rparr>) ps"

definition modules_of :: "host_state \<Rightarrow> provider list \<Rightarrow> pmodule multiset" where
  "modules_of h ps = mset (pooled h) + mset (map pv_module ps)"

definition number_of :: "pmodule \<Rightarrow> nat" where
  "number_of m = (case m of PModule _ n \<Rightarrow> n)"

definition exclusive :: "host_state \<Rightarrow> provider list \<Rightarrow> bool" where
  "exclusive h ps =
     (distinct (map pv_path ps) \<and> set (ho_active h) = set (map pv_path ps) \<and> set (ho_locks h) = set (map pv_path ps)
      \<and> set (ho_foreign h) \<inter> set (ho_locks h) = {}
      \<and> (\<forall>m. count (modules_of h ps) m \<le> 1) \<and> (\<forall>m. m \<in># modules_of h ps \<longrightarrow> number_of m < ho_next h)
      \<and> (\<forall>pv \<in> set ps. \<not> pv_closed pv))"

lemma modules_taken:
  assumes "taken m is_new h h1" "\<forall>x. count (modules_of h ps) x \<le> 1" "\<forall>x. x \<in># modules_of h ps \<longrightarrow> number_of x < ho_next h"
  shows "(\<forall>x. count (add_mset m (modules_of h1 ps)) x \<le> 1) \<and> (\<forall>x. x \<in># add_mset m (modules_of h1 ps) \<longrightarrow> number_of x < ho_next h1)"
proof (cases is_new)
  case True
  with assms(1) obtain d where m: "m = PModule d (ho_next h)" "ho_next h1 = Suc (ho_next h)" "modules_of h1 ps = modules_of h ps"
    by (auto simp: taken_def modules_of_def)
  have "m \<notin># modules_of h ps" using assms(3) m(1) by (auto simp: number_of_def)
  with m assms(2,3) show ?thesis
    by (auto simp: number_of_def not_in_iff less_Suc_eq)
next
  case False
  with assms(1) have "add_mset m (modules_of h1 ps) = modules_of h ps" "ho_next h1 = ho_next h"
    by (auto simp: taken_def modules_of_def)
  with assms(2,3) show ?thesis by simp
qed

lemma exclusive_open:
  assumes "exclusive h ps" "open_space rd eng dk digest sync_known kind path raws rename h = (r, h')"
  shows "exclusive h' (case r of Inl _ \<Rightarrow> ps | Inr pv \<Rightarrow> pv # ps)"
  using assms(2)
proof (cases rule: open_space_cases)
  case (failed e m is_new h1)
  note mt = modules_taken [OF failed(2), of ps]
  have "modules_of h' ps = modules_of h1 ps \<or> modules_of h' ps = add_mset m (modules_of h1 ps)"
    using failed(8) by (auto simp: modules_of_def)
  then have "(\<forall>x. count (modules_of h' ps) x \<le> 1) \<and> (\<forall>x. x \<in># modules_of h' ps \<longrightarrow> number_of x < ho_next h')"
  proof
    assume *: "modules_of h' ps = modules_of h1 ps"
    have "count (modules_of h1 ps) x \<le> count (add_mset m (modules_of h1 ps)) x" for x by simp
    with mt assms(1) * failed(3) show ?thesis by (auto simp: exclusive_def intro: le_trans)
  qed (use mt assms(1) failed(3) in \<open>auto simp: exclusive_def\<close>)
  with failed(1,4-6) assms(1) show ?thesis by (auto simp: exclusive_def)
next
  case (opened pv m is_new h1)
  have "modules_of h' (pv # ps) = add_mset m (modules_of h1 ps)" using opened by (simp add: modules_of_def)
  with modules_taken [OF opened(2), of ps] opened assms(1) show ?thesis by (auto simp: exclusive_def)
qed (use assms in auto)

lemma exclusive_close:
  assumes "exclusive h ps" "pv \<in> set ps" "close_space detaches pv h = (r, h')"
  shows "exclusive h' (case r of Inl _ \<Rightarrow> ps | Inr _ \<Rightarrow> remove1 pv ps)"
proof (cases r)
  case (Inl e)
  with assms show ?thesis by (auto simp: close_space_def exclusive_def split: if_splits)
next
  case (Inr pv')
  from assms have h': "h' = release_lock (pv_path pv) (return_module (pv_schema pv) (pv_module pv) (release_path (pv_path pv) h))"
    using Inr by (auto simp: close_space_def exclusive_def split: if_splits)
  have ps: "mset ps = add_mset pv (mset (remove1 pv ps))" using assms(2) by simp
  have mods: "modules_of h' (remove1 pv ps) = modules_of h ps"
    using arg_cong [OF ps, of "image_mset pv_module"] h' by (simp add: modules_of_def return_pooled)
  have d: "distinct (map pv_path ps)" "set (ho_active h) = set (map pv_path ps)" "set (ho_locks h) = set (map pv_path ps)"
    using assms(1) by (simp_all add: exclusive_def)
  have paths: "set (map pv_path (remove1 pv ps)) = set (map pv_path ps) - {pv_path pv}" "distinct (map pv_path (remove1 pv ps))"
  proof -
    have dp: "distinct ps" "inj_on pv_path (set ps)" using d(1) by (simp_all add: distinct_map)
    show "set (map pv_path (remove1 pv ps)) = set (map pv_path ps) - {pv_path pv}"
      using dp assms(2) by (auto simp: set_remove1_eq dest: inj_onD)
    show "distinct (map pv_path (remove1 pv ps))"
      using dp by (auto simp: distinct_map set_remove1_eq intro: inj_on_subset)
  qed
  have "set (ho_active h') = set (ho_active h) - {pv_path pv}" "set (ho_locks h') = set (ho_locks h) - {pv_path pv}"
    unfolding h' by (auto simp: release_path_def release_lock_def return_module_def)
  moreover have "ho_foreign h' = ho_foreign h" "ho_next h' = ho_next h" unfolding h' by simp_all
  moreover have "set (ho_foreign h) \<inter> set (ho_locks h) = {}" "\<forall>m. count (modules_of h ps) m \<le> 1"
    "\<forall>m. m \<in># modules_of h ps \<longrightarrow> number_of m < ho_next h" "\<forall>q \<in> set (remove1 pv ps). \<not> pv_closed q"
    using assms(1) notin_set_remove1 [of _ ps pv] unfolding exclusive_def by blast+
  ultimately have "exclusive h' (remove1 pv ps)"
    unfolding exclusive_def mods using paths d by (simp only:) blast
  with Inr show ?thesis by simp
qed

lemma attached_exclusive: "attached h ps \<Longrightarrow> exclusive h ps"
proof (induction rule: attached.induct)
  case (at_others h ps foreign fs)
  then show ?case by (auto simp: exclusive_def modules_of_def pooled_def)
qed (auto simp: exclusive_open exclusive_close, simp add: exclusive_def modules_of_def pooled_def)

text \<open>C29. However providers are opened and closed, no two open ones share a journal or a module, no open provider's module
  waits in the pool, the claims of the process are exactly the open providers' journals, and no other process holds
  one of them.\<close>

theorem providers_exclusive:
  assumes "attached h ps"
  shows "distinct (map pv_path ps) \<and> distinct (map pv_module ps @ pooled h) \<and> set (ho_active h) = set (map pv_path ps)
    \<and> set (ho_locks h) = set (map pv_path ps) \<and> set (ho_foreign h) \<inter> set (map pv_path ps) = {}"
proof -
  note e = attached_exclusive [OF assms, unfolded exclusive_def]
  have "mset (map pv_module ps @ pooled h) = modules_of h ps" by (simp add: modules_of_def)
  then have "distinct (map pv_module ps @ pooled h)"
    using e by (metis One_nat_def count_mset_0_iff distinct_count_atmost_1 le_Suc_eq le_zero_eq)
  with e show ?thesis by auto
qed

theorem providers_exclusive_witness:
  "\<exists>pv h'. attached h' [pv] \<and> set (ho_active h') = {''a''}"
proof -
  let ?open = "open_space sample_reader (\<lambda>_. Answered) good_disk (\<lambda>p. p) True Usable ''a'' [(RawStr ''edge'', RawInt 0)] None free_host"
  obtain r h' where r: "?open = (r, h')" by (cases ?open)
  then obtain pv where pv: "r = Inr pv" "pv_path pv = ''a''" by (auto simp: open_eval attach_eval free_host_def)
  have "attached free_host []" unfolding free_host_def by (rule at_start)
  from at_open [OF this r] pv have at: "attached h' [pv]" by simp
  from providers_exclusive [OF at] pv(2) at show ?thesis by auto
qed

end
