(* ===== verification/Wire.thy ===== *)
theory Wire
  imports Atoms
begin

text \<open>
  The wire codec: \<open>to_wire\<close> of \<open>metta/_atoms/model.py\<close> and \<open>metta/_atoms/wire.py\<close>, with the interning of decoded names.
  Both directions walk expressions with an explicit stack and fill lists that the enclosing node refers to
  before they are complete; those lists are modelled as a store of cells, a cell holding a finished value or the index of
  a nested node.

  Every text is one that UTF-8 can carry, and a future's space is the space of its name.

  Object identity is the host's: \<open>carriers\<close> says which object is the box of a carried one, what an envelope unwraps to and
  the identity of a container.
\<close>

section \<open>Wire values\<close>

datatype wval =
    WStr string
  | WInteger int
  | WFloating pyfloat
  | WFraction rat
  | WBoolean bool
  | WList "wval list"
  | WTuple "wval list"
  | WTerm nat \<comment> \<open>a record of the bridge\<close>
  | WObject nat

record carriers =
  cr_box :: "nat \<Rightarrow> nat"
  cr_is_box :: "nat \<Rightarrow> bool"
  cr_unbox :: "nat \<Rightarrow> pyvalue option"
  cr_ident :: "wval \<Rightarrow> nat"
  cr_str :: "wval \<Rightarrow> string"

fun wsize :: "wval \<Rightarrow> nat" where
  "wsize (WList ws) = Suc (sum_list (map wsize ws))"
| "wsize (WTuple ws) = Suc (sum_list (map wsize ws))"
| "wsize _ = 1"

fun seq_items :: "wval \<Rightarrow> wval list option" where
  "seq_items (WList ws) = Some ws"
| "seq_items (WTuple ws) = Some ws"
| "seq_items _ = None"

section \<open>Cells\<close>

datatype 'a cell = Built 'a | Pend nat

definition append_at :: "nat \<Rightarrow> 'a \<Rightarrow> 'a list list \<Rightarrow> 'a list list" where
  "append_at i x xss = xss[i := xss ! i @ [x]]"

text \<open>Nodes are discovered after their holders, so the store is read from its end: the values of the nodes \<open>k\<close>, \<open>k + 1\<close>, ...\<close>

fun assemble :: "('a list \<Rightarrow> 'a) \<Rightarrow> nat \<Rightarrow> 'a cell list list \<Rightarrow> 'a list" where
  "assemble mk k [] = []"
| "assemble mk k (items # rest) =
     (let built = assemble mk (Suc k) rest in
      mk (map (\<lambda>c. case c of Built a \<Rightarrow> a | Pend j \<Rightarrow> built ! (j - Suc k)) items) # built)"

section \<open>Encoding\<close>

definition grounded_wire :: "carriers \<Rightarrow> pyvalue \<Rightarrow> nat option \<Rightarrow> wval" where
  "grounded_wire c v envelope =
     (case envelope of
        Some e \<Rightarrow> WList [WStr ''o'', WObject e]
      | None \<Rightarrow>
          (case v of
             VBool b \<Rightarrow> WList [WStr ''b'', WStr (if b then ''true'' else ''false'')]
           | VStr s \<Rightarrow> WList [WStr ''g'', WStr s]
           | VInt i \<Rightarrow> WList [WStr ''n'', WInteger i]
           | VFloat f \<Rightarrow> WList [WStr ''n'', WFloating f]
           | VObj i \<Rightarrow> WList [WStr ''o'', WObject (if cr_is_box c i then i else cr_box c i)]))"

fun leaf_wire :: "carriers \<Rightarrow> atom \<Rightarrow> wval" where
  "leaf_wire c (Symbol s) = WList [WStr ''s'', WStr s]"
| "leaf_wire c (Variable x) = WList [WStr ''v'', WStr x]"
| "leaf_wire c (Grounded v e) = grounded_wire c v e"
| "leaf_wire c (NativeRational r) = WList [WStr ''n'', WFraction r]"
| "leaf_wire c (NativeHandle i t) = WList [WStr ''h'', WInteger i, WStr t]"
| "leaf_wire c (CarriedTerm r k ns t) = WList [WStr ''h'', WList [WTerm r, WStr k, WList (map WStr ns)], WStr t]"
| "leaf_wire c (Space n) = WList [WStr ''p'', WStr n]"
| "leaf_wire c (Expression _) = WList []"

text \<open>\<open>Expression.to_wire\<close>: the children of a node go to its sink, a nested expression as a fresh sink pushed on the stack.\<close>

fun sink_children ::
  "carriers \<Rightarrow> atom list \<Rightarrow> nat \<Rightarrow> wval cell list list \<Rightarrow> (atom \<times> nat) list \<Rightarrow> wval cell list list \<times> (atom \<times> nat) list" where
  "sink_children c [] i sinks st = (sinks, st)"
| "sink_children c (x # xs) i sinks st =
     (if is_expression x
      then sink_children c xs i (append_at i (Pend (length sinks)) sinks @ [[]]) ((x, length sinks) # st)
      else sink_children c xs i (append_at i (Built (leaf_wire c x)) sinks) st)"

definition stack_weight :: "(atom \<times> nat) list \<Rightarrow> nat" where
  "stack_weight st = sum_list (map (\<lambda>(a, i). asize a) st)"

lemma sink_children_weight:
  "sink_children c xs i sinks st = (sinks', st') \<Longrightarrow> stack_weight st' \<le> stack_weight st + sum_list (map asize xs)"
  by (induction c xs i sinks st rule: sink_children.induct) (force simp: stack_weight_def split: if_splits)+

function to_wire_loop :: "carriers \<Rightarrow> (atom \<times> nat) list \<Rightarrow> wval cell list list \<Rightarrow> wval cell list list" where
  "to_wire_loop c [] sinks = sinks"
| "to_wire_loop c ((node, i) # st) sinks =
     (case sink_children c (kids node) i sinks st of (sinks', st') \<Rightarrow> to_wire_loop c st' sinks')"
  by pat_completeness auto
termination
proof (relation "measure (\<lambda>(c, st, sinks). stack_weight st)")
  fix c :: carriers and node :: atom and i st and sinks sinks' :: "wval cell list list" and st'
  assume "(sinks', st') = sink_children c (kids node) i sinks st"
  then have "stack_weight st' \<le> stack_weight st + sum_list (map asize (kids node))"
    using sink_children_weight [of c "kids node" i sinks st sinks' st'] by simp
  moreover have "sum_list (map asize (kids node)) < asize node" by (cases node) auto
  ultimately show "((c, st', sinks'), c, (node, i) # st, sinks) \<in> measure (\<lambda>(c, st, sinks). stack_weight st)"
    by (simp add: stack_weight_def)
qed simp

definition expression_wire :: "wval list \<Rightarrow> wval" where
  "expression_wire items = WList [WStr ''e'', WList items]"

definition to_wire :: "carriers \<Rightarrow> atom \<Rightarrow> wval" where
  "to_wire c a =
     (if is_expression a then hd (assemble expression_wire 0 (to_wire_loop c [(a, 0)] [[]])) else leaf_wire c a)"

section \<open>Decoding leaves\<close>

datatype wire_error = Malformed wval | BadPayload string wval | UnknownTag wval | BadHandle wval | UndefinedInside

definition text_payload :: "wval \<Rightarrow> string \<Rightarrow> wire_error + string" where
  "text_payload payload kind = (case payload of WStr s \<Rightarrow> Inr s | _ \<Rightarrow> Inl (BadPayload kind payload))"

definition number_from_wire :: "wval \<Rightarrow> wire_error + atom" where
  "number_from_wire payload =
     (case payload of
        WFraction r \<Rightarrow> Inr (if snd (quotient_of r) = 1 then gnd (VInt (fst (quotient_of r))) else NativeRational r)
      | WInteger i \<Rightarrow> Inr (gnd (VInt i))
      | WFloating f \<Rightarrow> Inr (gnd (VFloat f))
      | _ \<Rightarrow> Inl (BadPayload ''number'' payload))"

definition boolean_from_wire :: "wval \<Rightarrow> wire_error + atom" where
  "boolean_from_wire payload =
     (case payload of
        WBoolean b \<Rightarrow> Inr (gnd (VBool b))
      | WStr s \<Rightarrow> if s = ''true'' \<or> s = ''false'' then Inr (gnd (VBool (s = ''true''))) else Inl (BadPayload ''boolean'' payload)
      | _ \<Rightarrow> Inl (BadPayload ''boolean'' payload))"

text \<open>An envelope is unwrapped and kept; any other payload is the carried value itself.\<close>

definition object_from_wire :: "carriers \<Rightarrow> wval \<Rightarrow> atom" where
  "object_from_wire c payload =
     (case payload of
        WObject i \<Rightarrow> (case cr_unbox c i of Some v \<Rightarrow> Grounded v (Some i) | None \<Rightarrow> gnd (VObj i))
      | WStr s \<Rightarrow> gnd (VStr s)
      | WInteger i \<Rightarrow> gnd (VInt i)
      | WFloating f \<Rightarrow> gnd (VFloat f)
      | WBoolean b \<Rightarrow> gnd (VBool b)
      | _ \<Rightarrow> gnd (VObj (cr_ident c payload)))"

fun all_text :: "wval list \<Rightarrow> string list option" where
  "all_text [] = Some []"
| "all_text (WStr s # ws) = map_option ((#) s) (all_text ws)"
| "all_text (_ # ws) = None"

definition handle_from_wire :: "wval \<Rightarrow> wval \<Rightarrow> wire_error + atom" where
  "handle_from_wire ident txt =
     bindE (text_payload txt ''handle'') (\<lambda>t.
     case ident of
       WInteger i \<Rightarrow> Inr (NativeHandle i t)
     | WList [WTerm r, WStr k, WList names] \<Rightarrow>
         (case all_text names of Some ns \<Rightarrow> Inr (CarriedTerm r k ns t) | None \<Rightarrow> Inl (BadHandle ident))
     | _ \<Rightarrow> Inl (BadHandle ident))"

definition leaf_from_wire :: "carriers \<Rightarrow> wval \<Rightarrow> wval \<Rightarrow> wire_error + atom" where
  "leaf_from_wire c tag payload =
     (if tag = WStr ''s'' then bindE (text_payload payload ''symbol'') (\<lambda>s. Inr (Symbol s))
      else if tag = WStr ''g'' then bindE (text_payload payload ''string'') (\<lambda>s. Inr (gnd (VStr s)))
      else if tag = WStr ''n'' then number_from_wire payload
      else if tag = WStr ''b'' then boolean_from_wire payload
      else if tag = WStr ''v'' then bindE (text_payload payload ''variable'') (\<lambda>s. Inr (Variable s))
      else if tag = WStr ''o'' then Inr (object_from_wire c payload)
      else if tag = WStr ''p'' then bindE (text_payload payload ''space'') (\<lambda>s. Inr (Space s))
      else Inl (UnknownTag tag))"

section \<open>Decoding expressions\<close>

text \<open>One child of an expression: a leaf, or the payload of a nested expression.\<close>

definition child_kind :: "carriers \<Rightarrow> wval \<Rightarrow> wire_error + (atom + wval)" where
  "child_kind c child =
     (case seq_items child of
        Some [tag, payload] \<Rightarrow>
          if tag = WStr ''e'' then Inr (Inr payload) else bindE (leaf_from_wire c tag payload) (\<lambda>a. Inr (Inl a))
      | Some [tag, ident, txt] \<Rightarrow>
          if tag = WStr ''h'' then bindE (handle_from_wire ident txt) (\<lambda>a. Inr (Inl a)) else Inl (Malformed child)
      | _ \<Rightarrow> Inl (Malformed child))"

fun take_children ::
  "carriers \<Rightarrow> wval list \<Rightarrow> nat \<Rightarrow> atom cell list list \<Rightarrow> (wval \<times> nat) list \<Rightarrow>
   wire_error + atom cell list list \<times> (wval \<times> nat) list" where
  "take_children c [] i pendings st = Inr (pendings, st)"
| "take_children c (child # cs) i pendings st =
     (case child_kind c child of
        Inl e \<Rightarrow> Inl e
      | Inr (Inl a) \<Rightarrow> take_children c cs i (append_at i (Built a) pendings) st
      | Inr (Inr payload) \<Rightarrow>
          take_children c cs i (append_at i (Pend (length pendings)) pendings @ [[]]) ((payload, length pendings) # st))"

definition wire_weight :: "(wval \<times> nat) list \<Rightarrow> nat" where
  "wire_weight st = sum_list (map (\<lambda>(w, i). wsize w) st)"

lemma seq_items_size: "seq_items w = Some ws \<Longrightarrow> wsize w = Suc (sum_list (map wsize ws))"
  by (cases w) auto

lemma child_kind_size: "child_kind c child = Inr (Inr payload) \<Longrightarrow> Suc (wsize payload) < wsize child"
  by (auto simp: child_kind_def dest: seq_items_size split: option.splits list.splits if_splits)

lemma take_children_weight:
  "take_children c ws i pendings st = Inr (pendings', st') \<Longrightarrow> wire_weight st' \<le> wire_weight st + sum_list (map wsize ws)"
  by (induction c ws i pendings st rule: take_children.induct)
    (force simp: wire_weight_def dest: child_kind_size split: sum.splits)+

function expression_loop :: "carriers \<Rightarrow> (wval \<times> nat) list \<Rightarrow> atom cell list list \<Rightarrow> wire_error + atom cell list list" where
  "expression_loop c [] pendings = Inr pendings"
| "expression_loop c ((payload, i) # st) pendings =
     (case seq_items payload of
        None \<Rightarrow> Inl (BadPayload ''expression'' payload)
      | Some cs \<Rightarrow>
          (case take_children c cs i pendings st of
             Inl e \<Rightarrow> Inl e
           | Inr (pendings', st') \<Rightarrow> expression_loop c st' pendings'))"
  by pat_completeness auto
termination
proof (relation "measure (\<lambda>(c, st, pendings). wire_weight st)")
  fix c payload i st pendings cs p pendings' st'
  assume "seq_items payload = Some cs" "take_children c cs i pendings st = Inr p" "(pendings', st') = p"
  then show "((c, st', pendings'), c, (payload, i) # st, pendings) \<in> measure (\<lambda>(c, st, pendings). wire_weight st)"
    using take_children_weight [of c cs i pendings st pendings' st'] seq_items_size [of payload cs]
    by (simp add: wire_weight_def)
qed simp

definition finish_expression :: "atom cell list list \<Rightarrow> atom" where
  "finish_expression pendings = hd (assemble Expression 0 pendings)"

definition expression_from_wire :: "carriers \<Rightarrow> wval \<Rightarrow> wire_error + atom" where
  "expression_from_wire c payload = bindE (expression_loop c [(payload, 0)] [[]]) (\<lambda>pendings. Inr (finish_expression pendings))"

definition atom_from_wire :: "carriers \<Rightarrow> wval \<Rightarrow> wire_error + atom" where
  "atom_from_wire c wire =
     (case seq_items wire of
        None \<Rightarrow> Inl (Malformed wire)
      | Some [tag, ident, txt] \<Rightarrow>
          if tag = WStr ''u'' then Inl UndefinedInside
          else if tag = WStr ''h'' then handle_from_wire ident txt else Inl (Malformed wire)
      | Some [tag, payload] \<Rightarrow>
          if tag = WStr ''e'' then expression_from_wire c payload else leaf_from_wire c tag payload
      | Some _ \<Rightarrow> Inl (Malformed wire))"

text \<open>A complete answer may be undefined.\<close>

datatype wire_answer = Definite atom | Undefined atom string

definition from_wire :: "carriers \<Rightarrow> wval \<Rightarrow> wire_error + wire_answer" where
  "from_wire c wire =
     (case seq_items wire of
        Some [tag, payload, why] \<Rightarrow>
          if tag = WStr ''u'' then bindE (atom_from_wire c payload) (\<lambda>a. Inr (Undefined a (cr_str c why)))
          else bindE (atom_from_wire c wire) (\<lambda>a. Inr (Definite a))
      | _ \<Rightarrow> bindE (atom_from_wire c wire) (\<lambda>a. Inr (Definite a)))"

section \<open>Interning\<close>

text \<open>
  \<open>_wire_intern\<close>: decoded symbols and, in a table of their own, variables by name, at most \<open>wire_cache_max\<close> of each, the
  oldest dropped first. The lookup without the lock and the section under it are separate steps: other threads run between.
\<close>

record interned =
  in_cache :: "(string, atom) dict"
  in_order :: "string list"

record interns =
  it_syms :: interned
  it_vars :: interned

datatype wire_species = WireSym | WireVar

definition wire_cache_max :: nat where
  "wire_cache_max = 65536"

definition intern_probe :: "string \<Rightarrow> interned \<Rightarrow> atom option" where
  "intern_probe name s = dict_get (=) name (in_cache s)"

definition intern_locked :: "(string \<Rightarrow> atom) \<Rightarrow> string \<Rightarrow> interned \<Rightarrow> atom \<times> interned" where
  "intern_locked factory name s =
     (case intern_probe name s of
        Some a \<Rightarrow> (a, s)
      | None \<Rightarrow>
          let a = factory name;
              s1 = (if wire_cache_max \<le> length (in_cache s)
                    then s\<lparr>in_cache := dict_del (=) (hd (in_order s)) (in_cache s), in_order := tl (in_order s)\<rparr> else s)
          in (a, s1\<lparr>in_cache := dict_set (=) name a (in_cache s1), in_order := in_order s1 @ [name]\<rparr>))"

definition wire_intern_clear :: "interns \<Rightarrow> interns" where
  "wire_intern_clear s =
     s\<lparr>it_syms := (it_syms s)\<lparr>in_cache := [], in_order := []\<rparr>, it_vars := (it_vars s)\<lparr>in_cache := [], in_order := []\<rparr>\<rparr>"

text \<open>The arguments of \<open>_wire_sym\<close> and \<open>_wire_var\<close>: the constructor and the table.\<close>

fun wire_factory :: "wire_species \<Rightarrow> string \<Rightarrow> atom" where
  "wire_factory WireSym = Symbol"
| "wire_factory WireVar = Variable"

fun wire_table :: "wire_species \<Rightarrow> interns \<Rightarrow> interned" where
  "wire_table WireSym s = it_syms s"
| "wire_table WireVar s = it_vars s"

fun wire_table_set :: "wire_species \<Rightarrow> interned \<Rightarrow> interns \<Rightarrow> interns" where
  "wire_table_set WireSym t s = s\<lparr>it_syms := t\<rparr>"
| "wire_table_set WireVar t s = s\<lparr>it_vars := t\<rparr>"

text \<open>
  A step of one thread, the tables beside the calls that missed and have not yet taken the lock; a step that ends a call
  shows its answer.
\<close>

inductive intern_step ::
  "interns \<times> (wire_species \<times> string) list \<Rightarrow> (wire_species \<times> string \<times> atom) option \<Rightarrow> interns \<times> (wire_species \<times> string) list \<Rightarrow> bool" where
  hit: "intern_probe n (wire_table k s) = Some a \<Longrightarrow> intern_step (s, ws) (Some (k, n, a)) (s, ws)"
| miss: "intern_probe n (wire_table k s) = None \<Longrightarrow> intern_step (s, ws) None (s, (k, n) # ws)"
| fill: "(k, n) \<in> set ws \<Longrightarrow> intern_locked (wire_factory k) n (wire_table k s) = (a, t) \<Longrightarrow>
     intern_step (s, ws) (Some (k, n, a)) (wire_table_set k t s, remove1 (k, n) ws)"
| clear: "intern_step (s, ws) None (wire_intern_clear s, ws)"

inductive_cases intern_stepE: "intern_step p answer q"

definition no_interns :: interns where
  "no_interns = \<lparr>it_syms = \<lparr>in_cache = [], in_order = []\<rparr>, it_vars = \<lparr>in_cache = [], in_order = []\<rparr>\<rparr>"

inductive interning :: "interns \<times> (wire_species \<times> string) list \<Rightarrow> bool" where
  interning_start: "interning (no_interns, [])"
| interning_step: "interning p \<Longrightarrow> intern_step p answer q \<Longrightarrow> interning q"

end
