(* ===== verification/Codec.thy ===== *)
theory Codec
  imports Wire
begin

text \<open>
  What the wire codec promises. Locale \<open>pending_tree\<close> is the shape both walks share: a stack of nodes, a store of child lists
  with references to nested nodes, and the reading of the finished store; it yields the recursive
  reading of a node. Interpreted on the decoder and on the encoder, it reduces both to structural recursion, over which
  the round trip is an induction.
\<close>

section \<open>Filling a store of nested nodes\<close>

definition nested :: "('c \<Rightarrow> 'e + ('a + 'n)) \<Rightarrow> 'c list \<Rightarrow> 'n list" where
  "nested child cs = concat (map (\<lambda>c. case child c of Inr (Inr n) \<Rightarrow> [n] | _ \<Rightarrow> []) cs)"

lemma nested_simps [simp]:
  "nested child [] = []"
  "nested child (c # cs) = (case child c of Inr (Inr n) \<Rightarrow> [n] | _ \<Rightarrow> []) @ nested child cs"
  by (simp_all add: nested_def)

lemma length_assemble [simp]: "length (assemble mk k xss) = length xss"
  by (induction mk k xss rule: assemble.induct) (auto simp: Let_def)

text \<open>References lead to later nodes.\<close>

definition forward :: "'a cell list list \<Rightarrow> bool" where
  "forward xss = (\<forall>i < length xss. \<forall>j. Pend j \<in> set (xss ! i) \<longrightarrow> i < j \<and> j < length xss)"

definition cell_value :: "'a list \<Rightarrow> 'a cell \<Rightarrow> 'a" where
  "cell_value built c = (case c of Built a \<Rightarrow> a | Pend j \<Rightarrow> built ! j)"

lemma assemble_nth_from:
  "\<forall>i < length xss. \<forall>j. Pend j \<in> set (xss ! i) \<longrightarrow> k + i < j \<and> j < k + length xss \<Longrightarrow> i < length xss \<Longrightarrow>
   assemble mk k xss ! i = mk (map (\<lambda>c. case c of Built a \<Rightarrow> a | Pend j \<Rightarrow> assemble mk k xss ! (j - k)) (xss ! i))"
proof (induction xss arbitrary: k i)
  case (Cons items rest)
  let ?built = "assemble mk (Suc k) rest"
  have rest: "\<forall>i < length rest. \<forall>j. Pend j \<in> set (rest ! i) \<longrightarrow> Suc k + i < j \<and> j < Suc k + length rest"
    using Cons.prems(1) by (fastforce dest: spec [where x = "Suc i" for i])
  have at: "(items # rest) ! i' = (case i' of 0 \<Rightarrow> items | Suc m \<Rightarrow> rest ! m)" for i' by (cases i') auto
  have back_ref: "?built ! (j - Suc k) = assemble mk k (items # rest) ! (j - k)" if "k < j" for j
    using that by (simp add: Let_def nth_Cons' Suc_diff_Suc)
  show ?case
  proof (cases i)
    case 0
    have "k < j" if "Pend j \<in> set items" for j using Cons.prems(1) that by fastforce
    then have "map (\<lambda>c. case c of Built a \<Rightarrow> a | Pend j \<Rightarrow> ?built ! (j - Suc k)) items =
        map (\<lambda>c. case c of Built a \<Rightarrow> a | Pend j \<Rightarrow> assemble mk k (items # rest) ! (j - k)) items"
      by (intro map_cong) (auto simp: back_ref split: cell.split)
    moreover have "assemble mk k (items # rest) ! i = mk (map (\<lambda>c. case c of Built a \<Rightarrow> a | Pend j \<Rightarrow> ?built ! (j - Suc k)) items)"
      using 0 by (simp add: Let_def)
    ultimately show ?thesis using 0 by (simp only: nth_Cons_0)
  next
    case (Suc m)
    then have m: "m < length rest" using Cons.prems(2) by simp
    have "k < j" if "Pend j \<in> set (rest ! m)" for j using rest m that by fastforce
    then have "map (\<lambda>c. case c of Built a \<Rightarrow> a | Pend j \<Rightarrow> ?built ! (j - Suc k)) (rest ! m) =
        map (\<lambda>c. case c of Built a \<Rightarrow> a | Pend j \<Rightarrow> assemble mk k (items # rest) ! (j - k)) (rest ! m)"
      by (intro map_cong) (auto simp: back_ref split: cell.split)
    with Suc Cons.IH [OF rest m] show ?thesis by (simp add: Let_def)
  qed
qed simp

lemma assemble_nth:
  assumes "forward xss" "i < length xss"
  shows "assemble mk 0 xss ! i = mk (map (cell_value (assemble mk 0 xss)) (xss ! i))"
proof -
  have "\<forall>i < length xss. \<forall>j. Pend j \<in> set (xss ! i) \<longrightarrow> 0 + i < j \<and> j < 0 + length xss"
    using assms(1) unfolding forward_def add_0 .
  from assemble_nth_from [OF this assms(2), of mk]
  have "assemble mk 0 xss ! i = mk (map (\<lambda>c. case c of Built a \<Rightarrow> a | Pend j \<Rightarrow> assemble mk 0 xss ! (j - 0)) (xss ! i))" .
  also have "(\<lambda>c. case c of Built a \<Rightarrow> a | Pend j \<Rightarrow> assemble mk 0 xss ! (j - 0)) = cell_value (assemble mk 0 xss)"
    by (simp add: cell_value_def fun_eq_iff split: cell.split)
  finally show ?thesis .
qed

lemma snd_numbered: "map snd (rev (zip ns [k ..< k + length ns]) @ st) = rev [k ..< k + length ns] @ map snd st"
  by (simp add: rev_map [symmetric])

locale pending_tree =
  fixes child :: "'c \<Rightarrow> 'e + ('a + 'n)"
    and expand :: "'n \<Rightarrow> 'e + 'c list"
    and visit :: "'c list \<Rightarrow> nat \<Rightarrow> 'a cell list list \<Rightarrow> ('n \<times> nat) list \<Rightarrow> 'e + 'a cell list list \<times> ('n \<times> nat) list"
    and loop :: "('n \<times> nat) list \<Rightarrow> 'a cell list list \<Rightarrow> 'e + 'a cell list list"
    and mk :: "'a list \<Rightarrow> 'a"
    and read :: "'n \<Rightarrow> 'e + 'a"
    and weight :: "'n \<Rightarrow> nat"
  assumes visit_Nil: "visit [] i xss st = Inr (xss, st)"
    and visit_Cons: "visit (c # cs) i xss st =
        (case child c of
           Inl e \<Rightarrow> Inl e
         | Inr (Inl a) \<Rightarrow> visit cs i (append_at i (Built a) xss) st
         | Inr (Inr n) \<Rightarrow> visit cs i (append_at i (Pend (length xss)) xss @ [[]]) ((n, length xss) # st))"
    and loop_Nil: "loop [] xss = Inr xss"
    and loop_Cons: "loop ((n, i) # st) xss =
        bindE (expand n) (\<lambda>cs. bindE (visit cs i xss st) (\<lambda>(xss', st'). loop st' xss'))"
    and read_node: "read n =
        bindE (expand n) (\<lambda>cs.
        bindE (concatE (\<lambda>c. bindE (child c) (\<lambda>k. bindE (case k of Inl a \<Rightarrow> Inr a | Inr m \<Rightarrow> read m) (\<lambda>a. Inr [a]))) cs) (\<lambda>as. Inr (mk as)))"
    and weight_nested: "expand n = Inr cs \<Longrightarrow> sum_list (map (Suc \<circ> weight) (nested child cs)) \<le> weight n"
begin

lemma visit_Inr:
  "visit cs i xss st = Inr (xss', st') \<Longrightarrow> i < length xss \<Longrightarrow>
   \<exists>items. xss' = xss[i := xss ! i @ items] @ replicate (length (nested child cs)) []
     \<and> st' = rev (zip (nested child cs) [length xss ..< length xss + length (nested child cs)]) @ st
     \<and> list_all2 (\<lambda>c it. (\<exists>a. child c = Inr (Inl a) \<and> it = Built a) \<or>
          (\<exists>n j. child c = Inr (Inr n) \<and> it = Pend j \<and> (n, j) \<in> set (zip (nested child cs) [length xss ..< length xss + length (nested child cs)])))
        cs items"
proof (induction cs arbitrary: xss st)
  case Nil
  then show ?case by (auto simp: visit_Nil)
next
  case (Cons c cs)
  show ?case
  proof (cases "child c")
    case (Inl e)
    with Cons.prems show ?thesis by (simp add: visit_Cons)
  next
    case (Inr k)
    show ?thesis
    proof (cases k)
      case leaf: (Inl a)
      let ?xss = "append_at i (Built a) xss"
      have "visit cs i ?xss st = Inr (xss', st')" using Cons.prems Inr leaf by (simp add: visit_Cons)
      moreover have len: "length ?xss = length xss" by (simp add: append_at_def)
      ultimately obtain items where it:
        "xss' = ?xss[i := ?xss ! i @ items] @ replicate (length (nested child cs)) []"
        "st' = rev (zip (nested child cs) [length xss ..< length xss + length (nested child cs)]) @ st"
        "list_all2 (\<lambda>c it. (\<exists>a. child c = Inr (Inl a) \<and> it = Built a) \<or>
          (\<exists>n j. child c = Inr (Inr n) \<and> it = Pend j \<and> (n, j) \<in> set (zip (nested child cs) [length xss ..< length xss + length (nested child cs)])))
        cs items"
        using Cons.IH [of ?xss st] Cons.prems(2) by auto
      have "?xss[i := ?xss ! i @ items] = xss[i := xss ! i @ Built a # items]" using Cons.prems(2) by (simp add: append_at_def)
      with it Inr leaf show ?thesis by (intro exI [of _ "Built a # items"]) simp
    next
      case node: (Inr n)
      let ?xss = "append_at i (Pend (length xss)) xss @ [[]]" and ?L = "length xss"
      have "visit cs i ?xss ((n, ?L) # st) = Inr (xss', st')" using Cons.prems Inr node by (simp add: visit_Cons)
      moreover have len: "length ?xss = Suc ?L" by (simp add: append_at_def)
      ultimately obtain items where it:
        "xss' = ?xss[i := ?xss ! i @ items] @ replicate (length (nested child cs)) []"
        "st' = rev (zip (nested child cs) [Suc ?L ..< Suc ?L + length (nested child cs)]) @ (n, ?L) # st"
        "list_all2 (\<lambda>c it. (\<exists>a. child c = Inr (Inl a) \<and> it = Built a) \<or>
          (\<exists>n j. child c = Inr (Inr n) \<and> it = Pend j \<and> (n, j) \<in> set (zip (nested child cs) [Suc ?L ..< Suc ?L + length (nested child cs)])))
        cs items"
        using Cons.IH [of ?xss "(n, ?L) # st"] Cons.prems(2) by auto
      have z: "zip (n # nested child cs) [?L ..< ?L + Suc (length (nested child cs))] =
          (n, ?L) # zip (nested child cs) [Suc ?L ..< Suc ?L + length (nested child cs)]"
        using upt_conv_Cons [of ?L "?L + Suc (length (nested child cs))"] by (simp del: upt_Suc)
      have x: "?xss[i := ?xss ! i @ items] = xss[i := xss ! i @ Pend ?L # items] @ [[]]"
        using Cons.prems(2) by (simp add: append_at_def nth_append list_update_append)
      show ?thesis
      proof (intro exI [of _ "Pend ?L # items"] conjI)
        show "xss' = xss[i := xss ! i @ Pend ?L # items] @ replicate (length (nested child (c # cs))) []"
          using it(1) Inr node unfolding x by simp
        show "st' = rev (zip (nested child (c # cs)) [?L ..< ?L + length (nested child (c # cs))]) @ st"
          using it(2) Inr node z by simp
        have sub: "set (zip (nested child cs) [Suc ?L ..< Suc ?L + length (nested child cs)]) \<subseteq>
            set (zip (nested child (c # cs)) [?L ..< ?L + length (nested child (c # cs))])"
          using Inr node z by auto
        have "(n, ?L) \<in> set (zip (nested child (c # cs)) [?L ..< ?L + length (nested child (c # cs))])"
          using Inr node z by simp
        moreover have "list_all2 (\<lambda>c' it. (\<exists>a. child c' = Inr (Inl a) \<and> it = Built a) \<or>
            (\<exists>n j. child c' = Inr (Inr n) \<and> it = Pend j \<and> (n, j) \<in> set (zip (nested child (c # cs)) [?L ..< ?L + length (nested child (c # cs))])))
            cs items"
          by (rule list_all2_mono [OF it(3)]) (use sub in blast)
        ultimately show "list_all2 (\<lambda>c' it. (\<exists>a. child c' = Inr (Inl a) \<and> it = Built a) \<or>
            (\<exists>n j. child c' = Inr (Inr n) \<and> it = Pend j \<and> (n, j) \<in> set (zip (nested child (c # cs)) [?L ..< ?L + length (nested child (c # cs))])))
            (c # cs) (Pend ?L # items)"
          using Inr node by (intro list_all2_Cons [THEN iffD2] conjI) auto
      qed
    qed
  qed
qed

lemma visit_Inl: "visit cs i xss st = Inl e \<Longrightarrow> \<exists>c \<in> set cs. child c = Inl e"
proof (induction cs arbitrary: xss st)
  case (Cons c cs)
  then show ?case by (cases "child c") (auto simp: visit_Cons split: sum.splits)
qed (simp add: visit_Nil)

text \<open>Every node on the stack has an empty entry of its own, and references lead to later nodes.\<close>

definition fillable :: "('n \<times> nat) list \<Rightarrow> 'a cell list list \<Rightarrow> bool" where
  "fillable st xss = (forward xss \<and> distinct (map snd st) \<and> (\<forall>i \<in> set (map snd st). i < length xss \<and> xss ! i = []))"

lemma fillable_visited:
  assumes "fillable ((n, i) # st) xss" "visit cs i xss st = Inr (xss', st')"
  shows "fillable st' xss'"
proof -
  let ?news = "nested child cs" and ?L = "length xss"
  have i: "i < ?L" "xss ! i = []" "i \<notin> set (map snd st)" "forward xss" "distinct (map snd st)"
    "\<forall>j \<in> set (map snd st). j < ?L \<and> xss ! j = []" using assms(1) by (auto simp: fillable_def)
  obtain items where v: "xss' = xss[i := items] @ replicate (length ?news) []"
    "st' = rev (zip ?news [?L ..< ?L + length ?news]) @ st"
    "list_all2 (\<lambda>c it. (\<exists>a. child c = Inr (Inl a) \<and> it = Built a) \<or>
        (\<exists>n j. child c = Inr (Inr n) \<and> it = Pend j \<and> (n, j) \<in> set (zip ?news [?L ..< ?L + length ?news]))) cs items"
    using visit_Inr [OF assms(2) i(1)] i(2) by auto
  have snds: "map snd st' = rev [?L ..< ?L + length ?news] @ map snd st" unfolding v(2) by (rule snd_numbered)
  have refs: "?L \<le> j \<and> j < ?L + length ?news" if "Pend j \<in> set items" for j
    using v(3) that by (auto simp: list_all2_conv_all_nth in_set_conv_nth dest!: set_zip_rightD)
  have "forward xss'"
    unfolding forward_def
  proof (intro allI impI)
    fix k j assume k: "k < length xss'" "Pend j \<in> set (xss' ! k)"
    then consider (old) "k < ?L" "k \<noteq> i" "Pend j \<in> set (xss ! k)" | (here) "k = i" "Pend j \<in> set items"
      using i(1) v(1) by (auto simp: nth_append nth_list_update split: if_splits)
    then show "k < j \<and> j < length xss'"
    proof cases
      case old
      then have "k < j \<and> j < length xss" using i(4) unfolding forward_def by blast
      then show ?thesis using v(1) by simp
    next
      case here
      then show ?thesis using refs [of j] i(1) v(1) by simp
    qed
  qed
  moreover have "distinct (map snd st')" using snds i(5,6) by auto
  moreover have "j < length xss' \<and> xss' ! j = []" if "j \<in> set (map snd st')" for j
    using that snds i(1,3,6) v(1) by (auto simp: nth_append nth_list_update)
  ultimately show ?thesis by (simp add: fillable_def)
qed

lemma visited_weight:
  assumes "expand n = Inr cs" "visit cs i xss st = Inr (xss', st')" "i < length xss"
  shows "sum_list (map (\<lambda>(n, i). Suc (weight n)) st') < sum_list (map (\<lambda>(n, i). Suc (weight n)) ((n, i) # st))"
proof -
  let ?news = "nested child cs" and ?L = "length xss"
  have st': "st' = rev (zip ?news [?L ..< ?L + length ?news]) @ st" using visit_Inr [OF assms(2,3)] by auto
  have "sum_list (map (\<lambda>(n, i). Suc (weight n)) (zip ms js)) = sum_list (map (Suc \<circ> weight) ms)" if "length ms = length js"
    for ms and js :: "nat list" using that by (induction ms js rule: list_induct2) auto
  then have "sum_list (map (\<lambda>(n, i). Suc (weight n)) (zip ?news [?L ..< ?L + length ?news])) = sum_list (map (Suc \<circ> weight) ?news)" by simp
  with weight_nested [OF assms(1)] st' show ?thesis by (simp add: rev_map [symmetric])
qed

lemma loop_reads:
  "fillable st xss \<Longrightarrow> loop st xss = Inr xss' \<Longrightarrow>
   length xss \<le> length xss' \<and> forward xss' \<and> (\<forall>i < length xss. i \<notin> set (map snd st) \<longrightarrow> xss' ! i = xss ! i)
   \<and> (\<forall>(n, i) \<in> set st. read n = Inr (assemble mk 0 xss' ! i))"
proof (induction "sum_list (map (\<lambda>(n, i). Suc (weight n)) st)" arbitrary: st xss rule: less_induct)
  case less
  show ?case
  proof (cases st)
    case Nil
    with less.prems show ?thesis by (auto simp: loop_Nil fillable_def)
  next
    case (Cons p st0)
    obtain n i where p: "p = (n, i)" by (cases p)
    from less.prems(2) Cons p obtain cs xss1 st1 where e: "expand n = Inr cs" "visit cs i xss st0 = Inr (xss1, st1)" "loop st1 xss1 = Inr xss'"
      by (auto simp: loop_Cons)
    have i: "i < length xss" "xss ! i = []" "i \<notin> set (map snd st0)" using less.prems(1) Cons p by (auto simp: fillable_def)
    have st0: "\<forall>j \<in> set (map snd st0). j < length xss" using less.prems(1) Cons p by (auto simp: fillable_def)
    let ?news = "nested child cs" and ?L = "length xss" and ?bs = "assemble mk 0 xss'"
    obtain items where v: "xss1 = xss[i := items] @ replicate (length ?news) []"
      "st1 = rev (zip ?news [?L ..< ?L + length ?news]) @ st0"
      "list_all2 (\<lambda>c it. (\<exists>a. child c = Inr (Inl a) \<and> it = Built a) \<or>
          (\<exists>n j. child c = Inr (Inr n) \<and> it = Pend j \<and> (n, j) \<in> set (zip ?news [?L ..< ?L + length ?news]))) cs items"
      using visit_Inr [OF e(2) i(1)] i(2) by auto
    have ih: "length xss1 \<le> length xss'" "forward xss'" "\<forall>j < length xss1. j \<notin> set (map snd st1) \<longrightarrow> xss' ! j = xss1 ! j"
      "\<forall>(n, j) \<in> set st1. read n = Inr (?bs ! j)"
      using less.hyps [OF _ _ e(3)] visited_weight [OF e(1,2) i(1)] fillable_visited [OF less.prems(1) [unfolded Cons p] e(2)] Cons p by auto
    have snds: "set (map snd st1) = {?L ..< ?L + length ?news} \<union> set (map snd st0)"
      unfolding v(2) snd_numbered by simp
    have len: "length xss \<le> length xss1" using v(1) by simp
    have kept: "xss' ! j = xss1 ! j" if "j < ?L" "j \<notin> set (map snd st0)" for j using ih(3) that snds len by auto
    have "xss' ! i = items" using kept [OF i(1,3)] v(1) i(1) by (simp add: nth_append)
    moreover have "i < length xss'" using i(1) len ih(1) by simp
    ultimately have bi: "?bs ! i = mk (map (cell_value ?bs) items)" using assemble_nth [OF ih(2), of i mk] by simp
    have news: "read m = Inr (?bs ! j)" if "(m, j) \<in> set (zip ?news [?L ..< ?L + length ?news])" for m j
      using ih(4) that unfolding v(2) by auto
    have "concatE (\<lambda>c. bindE (child c) (\<lambda>k. bindE (case k of Inl a \<Rightarrow> Inr a | Inr m \<Rightarrow> read m) (\<lambda>a. Inr [a]))) cs
        = Inr (map (cell_value ?bs) items)"
      using v(3)
    proof (induction cs items rule: list_all2_induct)
      case (Cons c cs it items)
      have "bindE (child c) (\<lambda>k. bindE (case k of Inl a \<Rightarrow> Inr a | Inr m \<Rightarrow> read m) (\<lambda>a. Inr [a])) = Inr [cell_value ?bs it]"
        using Cons.hyps(1) by (auto simp: cell_value_def news)
      with Cons.IH show ?case by simp
    qed simp
    with bi e(1) have "read n = Inr (?bs ! i)" by (simp add: read_node)
    moreover have "\<forall>(m, j) \<in> set st0. read m = Inr (?bs ! j)" using ih(4) v(2) by auto
    moreover have "xss' ! j = xss ! j" if "j < ?L" "j \<notin> set (map snd st)" for j
      using kept [of j] that Cons p v(1) by (auto simp: nth_append)
    ultimately show ?thesis using len ih(1,2) Cons p by auto
  qed
qed

text \<open>A walk that fails has met a node whose reading fails.\<close>

lemma read_child_error:
  assumes "expand n = Inr cs" "c \<in> set cs" "child c = Inl e \<or> (\<exists>m. child c = Inr (Inr m) \<and> (\<exists>e'. read m = Inl e'))"
  shows "\<exists>e'. read n = Inl e'"
proof -
  have "\<exists>e'. concatE (\<lambda>c. bindE (child c) (\<lambda>k. bindE (case k of Inl a \<Rightarrow> Inr a | Inr m \<Rightarrow> read m) (\<lambda>a. Inr [a]))) cs = Inl e'"
    using assms(2)
  proof (induction cs)
    case (Cons d cs)
    show ?case
    proof (cases "bindE (child d) (\<lambda>k. bindE (case k of Inl a \<Rightarrow> Inr a | Inr m \<Rightarrow> read m) (\<lambda>a. Inr [a]))")
      case (Inr a)
      then have "c \<noteq> d" using assms(3) by auto
      with Cons Inr show ?thesis by auto
    qed simp
  qed simp
  with assms(1) show ?thesis by (auto simp: read_node)
qed

lemma loop_fails:
  "fillable st xss \<Longrightarrow> loop st xss = Inl e \<Longrightarrow> \<exists>(n, i) \<in> set st. \<exists>e'. read n = Inl e'"
proof (induction "sum_list (map (\<lambda>(n, i). Suc (weight n)) st)" arbitrary: st xss rule: less_induct)
  case less
  show ?case
  proof (cases st)
    case Nil
    with less.prems show ?thesis by (simp add: loop_Nil)
  next
    case (Cons p st0)
    obtain n i where p: "p = (n, i)" by (cases p)
    have i: "i < length xss" using less.prems(1) Cons p by (auto simp: fillable_def)
    show ?thesis
    proof (cases "expand n")
      case (Inl e')
      then have "read n = Inl e'" by (simp add: read_node)
      with Cons p show ?thesis by auto
    next
      case cs: (Inr cs)
      show ?thesis
      proof (cases "visit cs i xss st0")
        case (Inl e')
        with visit_Inl read_child_error [OF cs] Cons p show ?thesis by fastforce
      next
        case (Inr q)
        obtain xss1 st1 where q: "q = (xss1, st1)" by (cases q)
        with Inr have v: "visit cs i xss st0 = Inr (xss1, st1)" by simp
        have l: "loop st1 xss1 = Inl e" using less.prems(2) Cons p cs v by (simp add: loop_Cons)
        from less.hyps [OF _ fillable_visited [OF less.prems(1) [unfolded Cons p] v] l] visited_weight [OF cs v i] Cons p
        obtain m j e' where m: "(m, j) \<in> set st1" "read m = Inl e'" by auto
        show ?thesis
        proof (cases "(m, j) \<in> set st0")
          case True
          with m Cons show ?thesis by auto
        next
          case False
          with m(1) visit_Inr [OF v i] have "m \<in> set (nested child cs)" by (auto dest: set_zip_leftD)
          then obtain c where "c \<in> set cs" "child c = Inr (Inr m)" by (auto simp: nested_def split: sum.splits)
          with read_child_error [OF cs, of c] m(2) Cons p show ?thesis by auto
        qed
      qed
    qed
  qed
qed

lemma start_reads: "(case loop [(n, 0)] [[]] of Inl _ \<Rightarrow> \<exists>e. read n = Inl e | Inr xss \<Rightarrow> read n = Inr (hd (assemble mk 0 xss)))"
proof -
  have r: "fillable [(n, 0)] [[]]" by (simp add: fillable_def forward_def)
  show ?thesis
  proof (cases "loop [(n, 0)] [[]]")
    case (Inl e)
    with loop_fails [OF r] show ?thesis by auto
  next
    case (Inr xss)
    from loop_reads [OF r this] have "xss \<noteq> []" "read n = Inr (assemble mk 0 xss ! 0)" by auto
    then show ?thesis using Inr by (cases xss) (auto simp: Let_def)
  qed
qed

end

section \<open>The two walks\<close>

lemma bindE_cong [fundef_cong]: "x = y \<Longrightarrow> (\<And>a. y = Inr a \<Longrightarrow> f a = g a) \<Longrightarrow> bindE x f = bindE y g"
  by (cases y) auto

definition payload_items :: "wval \<Rightarrow> wire_error + wval list" where
  "payload_items payload = (case seq_items payload of None \<Rightarrow> Inl (BadPayload ''expression'' payload) | Some cs \<Rightarrow> Inr cs)"

lemma payload_items_size: "payload_items payload = Inr cs \<Longrightarrow> wsize payload = Suc (sum_list (map wsize cs))"
  by (auto simp: payload_items_def seq_items_size split: option.splits)

function read_expression :: "carriers \<Rightarrow> wval \<Rightarrow> wire_error + atom" where
  "read_expression c payload =
     bindE (payload_items payload) (\<lambda>cs.
     bindE (concatE (\<lambda>w. bindE (child_kind c w) (\<lambda>k. bindE (case k of Inl a \<Rightarrow> Inr a | Inr m \<Rightarrow> read_expression c m) (\<lambda>a. Inr [a]))) cs)
       (\<lambda>as. Inr (Expression as)))"
  by pat_completeness auto
termination
proof (relation "measure (\<lambda>(c, payload). wsize payload)")
  fix c payload cs w k m
  assume "payload_items payload = Inr cs" "w \<in> set cs" "child_kind c w = Inr k" "k = Inr m"
  then show "((c, m), c, payload) \<in> measure (\<lambda>(c, payload). wsize payload)"
    using member_le_sum_list [of "wsize w" "map wsize cs"] payload_items_size [of payload cs] child_kind_size [of c w m] by simp
qed simp

declare read_expression.simps [simp del]

lemma nested_wire_weight: "sum_list (map (Suc \<circ> wsize) (nested (child_kind c) cs)) \<le> sum_list (map wsize cs)"
proof (induction cs)
  case (Cons w cs)
  then show ?case using child_kind_size [of c w] by (auto split: sum.split)
qed simp

interpretation decoding: pending_tree "child_kind c" payload_items "take_children c" "expression_loop c" Expression "read_expression c" wsize
  for c
proof unfold_locales
  fix n cs assume "payload_items n = Inr cs"
  from payload_items_size [OF this] nested_wire_weight [of c cs]
  show "sum_list (map (Suc \<circ> wsize) (nested (child_kind c) cs)) \<le> wsize n" by simp
qed (auto simp: read_expression.simps payload_items_def bindE_def split: sum.splits option.splits prod.splits)

fun wire_of :: "carriers \<Rightarrow> atom \<Rightarrow> wval" where
  "wire_of c (Expression xs) = expression_wire (map (wire_of c) xs)"
| "wire_of c a = leaf_wire c a"

lemma wire_of_leaf: "\<not> is_expression a \<Longrightarrow> wire_of c a = leaf_wire c a"
  by (cases a) auto

lemma wire_of_kids: "is_expression a \<Longrightarrow> wire_of c a = expression_wire (map (wire_of c) (kids a))"
  by (cases a) auto

definition sink_kind :: "carriers \<Rightarrow> atom \<Rightarrow> unit + (wval + atom)" where
  "sink_kind c x = Inr (if is_expression x then Inr x else Inl (leaf_wire c x))"

lemma nested_atom_weight: "sum_list (map (Suc \<circ> print_size) (nested (sink_kind c) xs)) \<le> sum_list (map (\<lambda>x. Suc (print_size x)) xs)"
  by (induction xs) (auto simp: sink_kind_def)

lemma sink_children_read:
  "concatE (\<lambda>x. bindE (sink_kind c x) (\<lambda>k. bindE (case k of Inl w \<Rightarrow> Inr w | Inr m \<Rightarrow> Inr (expression_wire (map (wire_of c) (kids m)))) (\<lambda>w. Inr [w]))) xs
   = Inr (map (wire_of c) xs)"
  by (induction xs) (auto simp: sink_kind_def wire_of_leaf wire_of_kids)

interpretation encoding: pending_tree "sink_kind c" "\<lambda>a. Inr (kids a)" "\<lambda>xs i sinks st. Inr (sink_children c xs i sinks st)"
  "\<lambda>st sinks. Inr (to_wire_loop c st sinks)" expression_wire "\<lambda>a. Inr (expression_wire (map (wire_of c) (kids a)))" print_size for c
proof unfold_locales
  fix n cs assume "(Inr (kids n) :: unit + atom list) = Inr cs"
  then show "sum_list (map (Suc \<circ> print_size) (nested (sink_kind c) cs)) \<le> print_size n"
    using nested_atom_weight [of c "kids n"] by (cases n) auto
next
  fix n :: atom
  show "Inr (expression_wire (map (wire_of c) (kids n))) =
      bindE (Inr (kids n) :: unit + atom list) (\<lambda>cs. bindE (concatE (\<lambda>x. bindE (sink_kind c x)
        (\<lambda>k. bindE (case k of Inl w \<Rightarrow> Inr w | Inr m \<Rightarrow> Inr (expression_wire (map (wire_of c) (kids m)))) (\<lambda>w. Inr [w]))) cs)
        (\<lambda>as. Inr (expression_wire as)))"
    by (simp only: sink_children_read bindE_simps)
qed (auto simp: sink_kind_def split: prod.splits)

lemma to_wire_of: "to_wire c a = wire_of c a"
proof (cases "is_expression a")
  case True
  with encoding.start_reads [of c a] show ?thesis by (simp add: to_wire_def wire_of_kids)
qed (simp add: to_wire_def wire_of_leaf)

lemma expression_from_wire_read: "expression_from_wire c payload = Inr a \<longleftrightarrow> read_expression c payload = Inr a"
  using decoding.start_reads [of c payload] by (auto simp: expression_from_wire_def finish_expression_def split: sum.splits)

lemma atom_from_wire_child:
  "atom_from_wire c w = Inr a \<longleftrightarrow>
   (child_kind c w = Inr (Inl a) \<or> (\<exists>m. child_kind c w = Inr (Inr m) \<and> read_expression c m = Inr a))"
  by (auto simp: atom_from_wire_def child_kind_def expression_from_wire_read split: option.splits list.splits if_splits)

lemma concatE_Cons_Inr: "concatE f (x # xs) = Inr as \<longleftrightarrow> (\<exists>ys. f x = Inr ys \<and> (\<exists>zs. concatE f xs = Inr zs \<and> as = ys @ zs))"
  by auto

lemma read_item:
  "bindE (child_kind c w) (\<lambda>k. bindE (case k of Inl a \<Rightarrow> Inr a | Inr m \<Rightarrow> read_expression c m) (\<lambda>a. Inr [a])) = Inr as
   \<longleftrightarrow> (\<exists>a. atom_from_wire c w = Inr a \<and> as = [a])"
  unfolding atom_from_wire_child by (auto simp: bindE_def split: sum.splits)

lemma read_items:
  "concatE (\<lambda>w. bindE (child_kind c w) (\<lambda>k. bindE (case k of Inl a \<Rightarrow> Inr a | Inr m \<Rightarrow> read_expression c m) (\<lambda>a. Inr [a]))) ws = Inr as
   \<longleftrightarrow> list_all2 (\<lambda>w a. atom_from_wire c w = Inr a) ws as"
proof (induction ws arbitrary: as)
  case (Cons w ws)
  show ?case unfolding concatE_Cons_Inr read_item Cons.IH list_all2_Cons1 by auto
qed auto

lemma child_expression [simp]: "child_kind c (WList [WStr ''e'', w]) = Inr (Inr w)"
  by (simp add: child_kind_def)

lemma read_expression_list:
  "read_expression c (WList ws) = Inr a \<longleftrightarrow> (\<exists>as. list_all2 (\<lambda>w b. atom_from_wire c w = Inr b) ws as \<and> a = Expression as)"
  unfolding read_items [symmetric] by (subst read_expression.simps) (auto simp: payload_items_def bindE_def split: sum.splits)

lemma decode_expression:
  "atom_from_wire c (WList [WStr ''e'', WList ws]) = Inr a \<longleftrightarrow>
   (\<exists>as. list_all2 (\<lambda>w b. atom_from_wire c w = Inr b) ws as \<and> a = Expression as)"
  by (simp add: atom_from_wire_child read_expression_list)

lemma encode_expression: "to_wire c (Expression xs) = WList [WStr ''e'', WList (map (to_wire c) xs)]"
  by (simp add: to_wire_of expression_wire_def cong: map_cong)

section \<open>The round trip\<close>

text \<open>
  What an atom must be to come back: an envelope unwraps to the value it carries, the box of an object to the object, an
  object is not itself a box, and a rational is not integral.
\<close>

fun crosses :: "carriers \<Rightarrow> atom \<Rightarrow> bool" where
  "crosses c (Expression xs) = list_all (crosses c) xs"
| "crosses c (Grounded v (Some e)) = (cr_unbox c e = Some v)"
| "crosses c (Grounded (VObj i) None) = (\<not> cr_is_box c i \<and> cr_unbox c (cr_box c i) = Some (VObj i))"
| "crosses c (NativeRational r) = (snd (quotient_of r) \<noteq> 1)"
| "crosses c _ = True"

lemma all_text_map [simp]: "all_text (map WStr ns) = Some ns"
  by (induction ns) auto

lemmas wire_leaf_defs = atom_from_wire_def leaf_from_wire_def text_payload_def number_from_wire_def boolean_from_wire_def
  object_from_wire_def handle_from_wire_def grounded_wire_def gnd_def

definition returns :: "carriers \<Rightarrow> atom \<Rightarrow> atom \<Rightarrow> bool" where
  "returns c a b = (atom_from_wire c (wire_of c a) = Inr b \<and> atom_eq b a \<and> wire_of c b = wire_of c a)"

text \<open>What comes back: an object carried bare returns with its box as the envelope.\<close>

fun carried :: "carriers \<Rightarrow> atom \<Rightarrow> atom" where
  "carried c (Grounded (VObj i) None) = Grounded (VObj i) (Some (cr_box c i))"
| "carried c (Expression xs) = Expression (map (carried c) xs)"
| "carried c a = a"

lemma leaf_returns: "\<not> is_expression a \<Longrightarrow> crosses c a \<Longrightarrow> returns c a (carried c a)"
  by (induction c a rule: crosses.induct) (auto simp: returns_def wire_leaf_defs atom_eq_core)

lemma returns_kids:
  "list_all2 (returns c) xs ys \<Longrightarrow> returns c (Expression xs) (Expression ys)"
  unfolding returns_def expression_wire_def wire_of.simps decode_expression atom_eq_Expression
  by (auto simp: list_all2_conv_all_nth intro!: nth_equalityI)

lemma wire_returns: "crosses c a \<Longrightarrow> returns c a (carried c a)"
proof (induction a)
  case (Expression xs)
  then have "list_all2 (returns c) xs (map (carried c) xs)" by (simp add: list_all_iff list_all2_map2 list_all2_same)
  then show ?case by (simp add: returns_kids)
qed (simp_all add: leaf_returns del: crosses.simps carried.simps)

section \<open>The intern tables\<close>

definition intern_ok :: "interned \<Rightarrow> (string \<Rightarrow> atom) \<Rightarrow> bool" where
  "intern_ok s f = (map fst (in_cache s) = in_order s \<and> distinct (in_order s) \<and> length (in_cache s) \<le> wire_cache_max
     \<and> (\<forall>(n, a) \<in> set (in_cache s). a = f n))"

lemma dict_del_head: "dict_del (=) (fst p) (p # d) = d"
  by (cases p) simp

lemma intern_locked_ok:
  assumes "intern_ok s f"
  shows "fst (intern_locked f n s) = f n \<and> intern_ok (snd (intern_locked f n s)) f"
proof (cases "intern_probe n s")
  case (Some a)
  with assms show ?thesis by (auto simp: intern_locked_def intern_probe_def intern_ok_def dest: dict_get_SomeD)
next
  case None
  then have new: "n \<notin> set (map fst (in_cache s))" by (auto simp: intern_probe_def dict_get_None)
  show ?thesis
  proof (cases "wire_cache_max \<le> length (in_cache s)")
    case True
    then obtain p d where d: "in_cache s = p # d" by (cases "in_cache s") (auto simp: wire_cache_max_def)
    with new have "dict_get (=) n d = None" by (force simp: dict_get_None)
    moreover have "in_order s = fst p # map fst d" using assms d by (simp add: intern_ok_def)
    moreover have "distinct (map fst d)" "Suc (length d) \<le> wire_cache_max" "\<forall>(n, a) \<in> set d. a = f n"
      using assms d calculation(2) by (auto simp: intern_ok_def)
    ultimately show ?thesis using None True d new
      by (simp add: intern_locked_def intern_ok_def Let_def dict_del_head dict_set_fresh)
  next
    case False
    with assms None new show ?thesis
      by (auto simp: intern_locked_def intern_ok_def Let_def dict_set_fresh intern_probe_def)
  qed
qed

lemma interning_ok: "interning p \<Longrightarrow> intern_ok (wire_table k (fst p)) (wire_factory k)"
proof (induction arbitrary: k rule: interning.induct)
  case interning_start
  show ?case by (cases k) (simp_all add: no_interns_def intern_ok_def)
next
  case (interning_step p answer q)
  from interning_step.hyps(2) show ?case
  proof cases
    case (fill j n ws s a t)
    then have "intern_ok t (wire_factory j)"
      using intern_locked_ok [OF interning_step.IH [of j], of n] by simp
    then show ?thesis using interning_step.IH [of k] fill by (cases j; cases k) auto
  next
    case clear
    then show ?thesis by (cases k) (simp_all add: wire_intern_clear_def intern_ok_def)
  qed (use interning_step.IH in auto)
qed

lemma intern_answers: "interning p \<Longrightarrow> intern_step p (Some (k, n, a)) q \<Longrightarrow> a = wire_factory k n"
  using intern_locked_ok [OF interning_ok] interning_ok [of p k]
  by (auto elim!: intern_stepE simp: intern_ok_def intern_probe_def dest!: dict_get_SomeD) (metis fst_conv)

section \<open>What is promised\<close>

text \<open>C33. Both explicit-stack walks, which refer to nested nodes before they are filled, are the childwise codec: an expression's
  wire is the list of its children's wires in order, and such a list decodes exactly when every child does, to the
  expression of what they decode to.\<close>

theorem wire_childwise:
  "to_wire c (Expression xs) = WList [WStr ''e'', WList (map (to_wire c) xs)]
   \<and> (atom_from_wire c (WList [WStr ''e'', WList ws]) = Inr a
      \<longleftrightarrow> (\<exists>as. list_all2 (\<lambda>w b. atom_from_wire c w = Inr b) ws as \<and> a = Expression as))"
  by (simp add: encode_expression decode_expression)

lemma from_wire_atom: "atom_from_wire c w = Inr a \<Longrightarrow> from_wire c w = Inr (Definite a)"
  by (auto simp: from_wire_def atom_from_wire_def split: option.splits list.splits if_splits)

text \<open>C32. An atom that crosses and returns is the same atom, an object carried bare now with its box as its envelope,
  and crosses again as the same wire.\<close>

theorem wire_roundtrip:
  assumes "crosses c a"
  shows "from_wire c (to_wire c a) = Inr (Definite (carried c a)) \<and> atom_eq (carried c a) a \<and> to_wire c (carried c a) = to_wire c a"
  using wire_returns [OF assms] by (simp add: returns_def to_wire_of from_wire_atom)

definition boxes :: carriers where
  "boxes = \<lparr>cr_box = (\<lambda>i. i + 100), cr_is_box = (\<lambda>i. 100 \<le> i), cr_unbox = (\<lambda>i. if 100 \<le> i then Some (VObj (i - 100)) else None),
     cr_ident = (\<lambda>w. 0), cr_str = (\<lambda>w. [])\<rparr>"

theorem wire_roundtrip_witness:
  "from_wire boxes (to_wire boxes (Expression [Symbol ''f'', gnd (VObj 7), Expression [gnd (VBool True), Variable ''x'']])) =
   Inr (Definite (Expression [Symbol ''f'', Grounded (VObj 7) (Some 107), Expression [gnd (VBool True), Variable ''x'']]))"
  using wire_roundtrip [of boxes "Expression [Symbol ''f'', gnd (VObj 7), Expression [gnd (VBool True), Variable ''x'']]"]
  by (simp add: boxes_def gnd_def)

text \<open>C34. However threads interleave, each intern table keeps at most its bound of names, the order it evicts by lists
  exactly the names it holds, and every call answers the atom of the name it was asked for.\<close>

theorem intern_bounded:
  assumes "interning p" and "intern_step p (Some (k, n, a)) q"
  shows "a = wire_factory k n \<and> length (in_cache (wire_table j (fst q))) \<le> wire_cache_max
    \<and> in_order (wire_table j (fst q)) = map fst (in_cache (wire_table j (fst q))) \<and> distinct (in_order (wire_table j (fst q)))"
  using intern_answers [OF assms] interning_ok [OF interning_step [OF assms], of j] by (simp add: intern_ok_def)

lemma interned_one:
  "intern_locked Symbol ''f'' (it_syms no_interns) = (Symbol ''f'', \<lparr>in_cache = [(''f'', Symbol ''f'')], in_order = [''f'']\<rparr>)"
  by (simp add: intern_locked_def intern_probe_def no_interns_def wire_cache_max_def Let_def)

theorem intern_bounded_witness:
  "\<exists>q. intern_step (no_interns, [(WireSym, ''f'')]) (Some (WireSym, ''f'', Symbol ''f'')) q
     \<and> length (in_cache (wire_table WireSym (fst q))) \<le> wire_cache_max"
proof -
  have "intern_step (no_interns, []) None (no_interns, [(WireSym, ''f'')])"
    by (rule intern_step.miss) (simp add: intern_probe_def no_interns_def)
  from interning_step [OF interning_start this] have p: "interning (no_interns, [(WireSym, ''f'')])" .
  from intern_step.fill [of WireSym "''f''" "[(WireSym, ''f'')]" no_interns] interned_one
  have "intern_step (no_interns, [(WireSym, ''f'')]) (Some (WireSym, ''f'', Symbol ''f''))
      (wire_table_set WireSym \<lparr>in_cache = [(''f'', Symbol ''f'')], in_order = [''f'']\<rparr> no_interns, remove1 (WireSym, ''f'') [(WireSym, ''f'')])"
    by simp
  from this intern_bounded [OF p this, of WireSym] show ?thesis by blast
qed

end
