(* ===== verification/Spec2Isabelle.thy ===== *)
theory Spec2Isabelle
  imports Prelude Atoms Traversal Unify Unifier Structures PatternMaps MatchIndex Algebra Annotated Consequences Demand
    Certificates Demands Totality Bits Evaluations Accounts Routes Saga Recovery Spaces Shapes Compositions Folds Subscribe Registry
    Deliveries Journal Journals Ledgers Attachment Attachments Wire Codec
begin

text \<open>
  A verification library for the Python package \<open>metta\<close> (\<open>src/metta\<close>), the Python face of a MeTTa engine.

  \<^bold>\<open>The program.\<close> Programs are multisets of atoms held in spaces. The package builds atoms
  (\<open>_atoms/model.py\<close>), walks, matches and unifies them (\<open>_atoms/factories.py\<close>), keeps them in containers that
  search by pattern (\<open>structures.py\<close>), composes spaces into views (\<open>spaces.py\<close>), derives annotated conclusions
  from facts and rules (\<open>algebra\<close>), delivers committed changes to standing queries (\<open>events.py\<close>,
  \<open>subscribe.py\<close>), keeps facts of declared heads in a journal (\<open>foreign/_persistent.py\<close>), and undoes committed effects by
  compensation (\<open>_history/saga.py\<close>). Everything rests on atom
  equality and on the directional match; the stream and the pattern containers use the discrimination tree;
  the algebra uses the match and the substitution; sagas and views use the canonical form and the match.

  \<^bold>\<open>Theories and what they model.\<close>
  \<^item> \<open>Prelude\<close>: Python dictionaries as association lists under an explicit key equality (locale
    \<open>key_class\<close>), strings, results of fallible code as sums.
  \<^item> \<open>Atoms\<close> (\<open>model.py\<close>): the atom classes as a datatype, payloads, \<open>==\<close> with its explicit stack
    (\<open>eq_loop\<close>), hashing, printing, encoding and decoding of Python values.
  \<^item> \<open>Traversal\<close> (\<open>factories.py\<close>): the stack walks \<open>_variables\<close>, \<open>_is_ground\<close>, \<open>_map_atoms\<close>, \<open>substitute\<close> and
    the sort key \<open>order_key\<close>.
  \<^item> \<open>Wire\<close>, \<open>Codec\<close> (\<open>wire.py\<close>, \<open>to_wire\<close> of \<open>model.py\<close>): the codec of the engine's boundary, its refusals and the tables of
    decoded names. Locale \<open>pending_tree\<close> is the walk both directions share, over a store of lists filled after they are
    referred to; it is read off as structural recursion once and interpreted on the encoder and on the decoder.
  \<^item> \<open>Unify\<close>, \<open>Unifier\<close> (\<open>factories.py\<close>): the directional match, alpha-equivalence, the symmetric unifier. The
    unifier has no occurs check and may not end, so its loop takes fuel; \<open>None\<close> of the outer option is running
    out. Ground operands always return; an input on which no fuel is enough is exhibited.
  \<^item> \<open>Structures\<close>, \<open>PatternMaps\<close>, \<open>MatchIndex\<close> (\<open>structures.py\<close>): \<open>AlphaSet\<close>, \<open>PatternMap\<close>, \<open>MatchIndex\<close> with
    its token paths, skip table and walk.
  \<^item> \<open>Algebra\<close> (\<open>algebra/__init__.py\<close>): amplitudes, declared algebras and the presets, reading a program, the
    suspended rule derivation (\<open>derive_rule_steps\<close>), fusion, the semi-naive rounds (\<open>saturate\<close>), the graph check and
    \<open>evaluate\<close>. \<open>Annotated\<close>, \<open>Consequences\<close>: what a round derives; the least model (\<open>provable\<close>).
  \<^item> \<open>Demand\<close> (\<open>algebra/_demand.py\<close>): shapes, the certificate (\<open>certify\<close>) and the demand evaluation (\<open>solve\<close>).
    \<open>Certificates\<close>: what an accepted certificate says of the program (a level for each relation that grows
    along every rule). \<open>Demands\<close>: soundness and completeness of \<open>solve\<close>. \<open>Totality\<close>: it raises nothing itself.
    \<open>Bits\<close>: the widths the certificate bounds. \<open>Evaluations\<close>: the properties of \<open>evaluate\<close> with the demand route
    in place. \<open>Accounts\<close>: proofs one by one, each told by its numbers, which read back uniquely as a tree; what either
    route answers is each proof of the program once. \<open>Routes\<close>: the two routes against each other.
  \<^item> \<open>Saga\<close>, \<open>Recovery\<close> (\<open>_history/saga.py\<close>): the saga's state, its boundary, receipts and shelf, steps, failed
    steps, rollback, entry and exit; the reachable sagas.
  \<^item> \<open>Spaces\<close>, \<open>Shapes\<close>, \<open>Compositions\<close> (\<open>spaces.py\<close>, the capability tests of \<open>foreign/__init__.py\<close>): unions,
    overlays, read-only and mapped views as a tree of spaces over backends; claims, refusals, matching, writes,
    and \<open>diff\<close>. Locale \<open>matcher\<close> is what a view asks of a backend (candidates that stand one for one for stored atoms and
    leave out none that matches), \<open>precise_matcher\<close> what it needs to answer nothing else.
  \<^item> \<open>Folds\<close> (\<open>events.py\<close>): the fold registry, its trees, the guards published to the engine, delivery, waiting, the
    segment clock. \<open>Subscribe\<close> (\<open>subscribe.py\<close>): publication, withdrawal, abandonment, queues, guards, bridges.
    \<open>Registry\<close>: the invariant of the registry over every call (locale \<open>fold_index\<close>: what it asks of a tree; locale
    \<open>call_effect\<close>: what sequencing composes). \<open>Deliveries\<close>: delivery, withdrawal, publication, queues, accounting.
  \<^item> \<open>Journal\<close> (\<open>foreign/_persistent.py\<close>): the persistent fact space: what may be stored, the generated predicates over the
    stored facts, crossings and the write latch, transactions per thread, every operation. \<open>Journals\<close>: its typing and the
    contract of its operations (locales \<open>journal_step\<close>, \<open>journal_op\<close>), what a commit writes. \<open>Ledgers\<close>: refinement of a stack
    of multisets. \<open>Attachment\<close>: schema and rename map, names of the generated predicates, tail repair, renaming,
    construction and closing. \<open>Attachments\<close>: no byte lost, no head left behind, claims given back and exclusive.

  \<^bold>\<open>What the groups of lemmas show.\<close> Equality, hashing and sort keys fit together; every explicit-stack walk is the
  structural function it implements; a match is exactly an assignment that fits, a unifier's store exactly the
  unifiers; an atom that crosses the wire returns as itself; the containers are the maps and sets modulo renaming they promise, and where their search misses
  what the direct definition finds, a lemma says so. An annotated evaluation answers exactly the matching
  conclusions of the least model, and its derivations evaluate again to its tags; the two routes answer the same multiset
  of proofs. A saga
  compensates newest first and never loses an effect it owes. A composed space serves what it claims, and its answers
  that match are the matching atoms it holds, as often as it holds them. A change
  reaches every live fold of its space, in registration order; a subscription is published and withdrawn with
  its guard and its reflection atom, or not at all; a queue keeps what it accepts. A persistent space is a stack of
  multisets of facts, stored all or nothing (a reload that fails latches it); its journal is repaired and migrated without losing a record, by one
  provider at a time.

  \<^bold>\<open>Bounds and fuel.\<close> The unifier's fuel is its only unbounded loop, see above. \<open>saturate\<close> counts the rounds the
  code is given. \<open>solve\<close> takes one level more than the round limit; the certificate's levels are below that limit,
  so it never runs out (\<open>demand_refuses_nothing\<close>). All other loops end by a measure. Python integers are \<open>int\<close>; floats are
  rationals with the special values; the interpreter's digit limit is the argument \<open>digits\<close>.

  \<^bold>\<open>Parameters.\<close> What is not in the repository is an argument: the host's \<open>str\<close> and \<open>hash\<close> (\<open>host\<close>), the engine's
  arithmetic and user operations (\<open>engine\<close>), its journal (\<open>env\<close>), its answers to a crossing (\<open>engine_script\<close>: accepted, or
  raised with or without effect) and its reflection store (\<open>reflector\<close>), providers' backends, and the caller's step
  functions, guards and callbacks, which may themselves call the stream; SWI-Prolog's reader and writer of journal
  records (\<open>reader\<close>), and whether a crossing (\<open>crossings\<close>) or a disk call (\<open>disk\<close>) goes through.

  \<^bold>\<open>Not modelled.\<close> The crossing into the Prolog engine and everything that only forwards to it (handles, queries,
  cursors, the public faces, worlds, declarations, the compiler of Python functions); evaluation budgets; control
  signals that are not exceptions; deliveries to watchers of the reflection space that a publication itself would start;
  what a failed compensation handler did outside the engine; threads other than as an order of atomic calls (each modelled call runs under
  the lock its code holds); pickling and display; I/O (remote spaces, the command line, libraries). Of the modelled
  files: object and live-data views and the registration of provider calls, the tabled and live collections of
  \<open>structures.py\<close>, the registration of user algebras and the algebra module's spelling.

  \<^bold>\<open>What remains.\<close> In order of weight: the admission of provider calls (\<open>foreign\<close>), object and live-data views
  (\<open>spaces.py\<close>), the Arrow columns (\<open>_catalog/arrow.py\<close>), leases and intents (\<open>_spaces\<close>), whose logic is in this package but
  rests on handles of the engine or on libraries that are not in the repository.
\<close>

end
